(* ===== verification/Prelude.thy ===== *)
theory Prelude
  imports Main "HOL-Library.Word"
begin

text \<open>
  Shared ground of the development: the fixed-width integers of the Go sources, the errors and
  panics of the modelled packages, programs that read and write a state and may panic, slices of
  a byte array, and the big-endian encodings of \<open>encoding/binary\<close>. No definition here models a
  component; every component theory imports this one.
\<close>

unbundle bit_operations_syntax

named_theorems prog_simps \<open>equations that run the primitive programs\<close>
named_theorems slice_simps \<open>reading back a slice of an updated byte array\<close>

section \<open>Machine integers, errors and panics\<close>

type_synonym byte = "8 word"
type_synonym u16 = "16 word"
type_synonym u32 = "32 word"
type_synonym bytes = "byte list"

text \<open>
  The Go \<open>error\<close> values. The numbers that the sources format into the message are arguments of
  the constructor; \<open>ErrIO\<close> stands for an error that the operating system returns, \<open>ErrEOF\<close> for
  \<open>io.EOF\<close>, \<open>ErrClosed\<close> for the use of a closed file, and \<open>ErrJSON\<close> for an error of
  \<open>encoding/json\<close>.
\<close>

datatype goerror =
    ErrOutOfRange
  | ErrIO nat
  | ErrEOF
  | ErrClosed
  | ErrInvalidBlock u16
  | ErrInvalidLocalID u16
  | ErrInvalidLocalIDOf u16 u16
  | ErrKeyExists u32
  | ErrKeyNotFound u32
  | ErrJSON nat

text \<open>The ways the code panics: a run-time check of Go, or an explicit call of \<open>panic\<close>.\<close>

datatype panic =
    IndexOutOfRange
  | NilDereference
  | DivideByZero
  | BadTypeAssertion
  | MakeNegative
  | PanicError goerror
  | PanicMsg string

section \<open>Programs over a state\<close>

text \<open>
  A program takes the state and returns a value with the new state, or panics. No code of the
  repository recovers from a panic, so the state is dropped there; the console, that has printed and
  closes the database in a deferred function, has an outcome of its own. \<open>NoFuel\<close> is the outcome of a
  loop whose bound, given by the caller of the model, ran out.
\<close>

datatype 'a outcome = Ok 'a | Panic panic | NoFuel

type_synonym ('s, 'a) prog = "'s \<Rightarrow> ('a \<times> 's) outcome"

definition ret :: "'a \<Rightarrow> ('s, 'a) prog" where
  "ret a s = Ok (a, s)"

definition bind :: "('s, 'a) prog \<Rightarrow> ('a \<Rightarrow> ('s, 'b) prog) \<Rightarrow> ('s, 'b) prog" where
  "bind m f s = (case m s of Ok (a, s') \<Rightarrow> f a s' | Panic p \<Rightarrow> Panic p | NoFuel \<Rightarrow> NoFuel)"

definition seq :: "('s, 'a) prog \<Rightarrow> ('s, 'b) prog \<Rightarrow> ('s, 'b) prog" where
  "seq m k = bind m (\<lambda>_. k)"

definition panic :: "panic \<Rightarrow> ('s, 'a) prog" where
  "panic p s = Panic p"

definition nofuel :: "('s, 'a) prog" where
  "nofuel s = NoFuel"

definition gets :: "('s \<Rightarrow> 'a) \<Rightarrow> ('s, 'a) prog" where
  "gets f s = Ok (f s, s)"

definition modify :: "('s \<Rightarrow> 's) \<Rightarrow> ('s, unit) prog" where
  "modify f s = Ok ((), f s)"

text \<open>\<open>if_do\<close> is a conditional statement without an \<open>else\<close>.\<close>

definition if_do :: "bool \<Rightarrow> ('s, unit) prog \<Rightarrow> ('s, unit) prog" where
  "if_do b m = (if b then m else ret ())"

text \<open>\<open>for i := lo; i < hi; i++\<close> with a body that never leaves the loop early.\<close>

fun for_upto :: "nat list \<Rightarrow> (nat \<Rightarrow> ('s, unit) prog) \<Rightarrow> ('s, unit) prog" where
  "for_upto [] body = ret ()"
| "for_upto (i # is) body = seq (body i) (for_upto is body)"

lemma ret_run [simp, prog_simps]: "ret a s = Ok (a, s)"
  by (simp add: ret_def)

lemma panic_run [simp, prog_simps]: "panic p s = Panic p"
  by (simp add: panic_def)

lemma nofuel_run [simp, prog_simps]: "nofuel s = NoFuel"
  by (simp add: nofuel_def)

lemma gets_run [simp, prog_simps]: "gets f s = Ok (f s, s)"
  by (simp add: gets_def)

lemma modify_run [simp, prog_simps]: "modify f s = Ok ((), f s)"
  by (simp add: modify_def)

lemma bind_Ok: "m s = Ok (a, s') \<Longrightarrow> bind m f s = f a s'"
  by (simp add: bind_def)

lemma seq_Ok: "m s = Ok (a, s') \<Longrightarrow> seq m k s = k s'"
  by (simp add: seq_def bind_def)

lemma bind_ret [simp]: "bind (ret a) f = f a"
  by (simp add: bind_def fun_eq_iff)

lemma bind_gets_run [simp, prog_simps]: "bind (gets g) f s = f (g s) s"
  by (simp add: bind_def)

lemma seq_modify_run [simp, prog_simps]: "seq (modify g) k s = k (g s)"
  by (simp add: seq_def bind_def)

lemma seq_ret [simp]: "seq (ret a) k = k"
  by (simp add: seq_def)

lemma bind_OkE:
  assumes "bind m f s = Ok (b, t)"
  obtains a s' where "m s = Ok (a, s')" "f a s' = Ok (b, t)"
  using assms by (auto simp: bind_def split: outcome.splits)

lemma seq_OkE:
  assumes "seq m k s = Ok (b, t)"
  obtains a s' where "m s = Ok (a, s')" "k s' = Ok (b, t)"
  using assms unfolding seq_def by (auto elim: bind_OkE)

text \<open>
  Total correctness: \<open>wp m Q s\<close> says that \<open>m\<close> started in \<open>s\<close> returns, without a panic and
  within its fuel, a value and a state that satisfy \<open>Q\<close>.
\<close>

definition wp :: "('s, 'a) prog \<Rightarrow> ('a \<Rightarrow> 's \<Rightarrow> bool) \<Rightarrow> 's \<Rightarrow> bool" where
  "wp m Q s = (case m s of Ok (a, s') \<Rightarrow> Q a s' | _ \<Rightarrow> False)"

lemma wp_iff: "wp m Q s \<longleftrightarrow> (\<exists>a s'. m s = Ok (a, s') \<and> Q a s')"
  by (auto simp: wp_def split: outcome.splits)

lemma wp_ret [simp]: "wp (ret a) Q s = Q a s"
  by (simp add: wp_def)

lemma wp_panic [simp]: "wp (panic p) Q s = False"
  by (simp add: wp_def)

lemma wp_nofuel [simp]: "wp nofuel Q s = False"
  by (simp add: wp_def)

lemma wp_gets [simp]: "wp (gets f) Q s = Q (f s) s"
  by (simp add: wp_def)

lemma wp_modify [simp]: "wp (modify f) Q s = Q () (f s)"
  by (simp add: wp_def)

lemma wp_bind [simp]: "wp (bind m f) Q s = wp m (\<lambda>a. wp (f a) Q) s"
  by (auto simp: wp_def bind_def split: outcome.splits)

lemma wp_seq [simp]: "wp (seq m k) Q s = wp m (\<lambda>_. wp k Q) s"
  by (simp add: seq_def)

lemma wp_mono: "wp m Q s \<Longrightarrow> (\<And>a s'. Q a s' \<Longrightarrow> R a s') \<Longrightarrow> wp m R s"
  by (auto simp: wp_iff)

lemma wp_Ok: "m s = Ok (a, s') \<Longrightarrow> wp m Q s = Q a s'"
  by (simp add: wp_def)

section \<open>Slices of a byte array\<close>

text \<open>\<open>d[p : p + n]\<close>, and \<open>d\<close> with \<open>xs\<close> written over the bytes from \<open>p\<close> on.\<close>

definition slice :: "nat \<Rightarrow> nat \<Rightarrow> 'a list \<Rightarrow> 'a list" where
  "slice p n d = take n (drop p d)"

definition splice :: "nat \<Rightarrow> 'a list \<Rightarrow> 'a list \<Rightarrow> 'a list" where
  "splice p xs d = take p d @ xs @ drop (p + length xs) d"

lemma length_slice [simp]: "p + n \<le> length d \<Longrightarrow> length (slice p n d) = n"
  by (simp add: slice_def)

lemma slice_0 [simp]: "slice p 0 d = []"
  by (simp add: slice_def)

lemma length_splice [simp]: "p + length xs \<le> length d \<Longrightarrow> length (splice p xs d) = length d"
  by (simp add: splice_def)

lemma nth_slice: "i < n \<Longrightarrow> p + n \<le> length d \<Longrightarrow> slice p n d ! i = d ! (p + i)"
  by (simp add: slice_def)

lemma nth_splice:
  assumes "p + length xs \<le> length d" "i < length d"
  shows "splice p xs d ! i = (if p \<le> i \<and> i < p + length xs then xs ! (i - p) else d ! i)"
  using assms by (auto simp: splice_def nth_append)

lemma splice_Nil [simp]: "splice p [] d = d"
  by (simp add: splice_def)

lemma slice_eqI:
  assumes "p + n \<le> length d" "length xs = n" "\<And>i. i < n \<Longrightarrow> d ! (p + i) = xs ! i"
  shows "slice p n d = xs"
  using assms by (intro nth_equalityI) (simp_all add: nth_slice)

lemma slice_cong:
  assumes "p + n \<le> length d" "length e = length d" "\<And>i. p \<le> i \<Longrightarrow> i < p + n \<Longrightarrow> d ! i = e ! i"
  shows "slice p n d = slice p n e"
  using assms by (intro slice_eqI) (simp_all add: nth_slice)

lemma slice_splice_same [slice_simps]:
  assumes "p + length xs \<le> length d" "n = length xs"
  shows "slice p n (splice p xs d) = xs"
  using assms by (simp add: slice_def splice_def)

lemma slice_splice_inside:
  assumes "p + length xs \<le> length d" "p \<le> q" "q + n \<le> p + length xs"
  shows "slice q n (splice p xs d) = slice (q - p) n xs"
  using assms by (intro slice_eqI) (simp_all add: nth_slice nth_splice)

lemma slice_splice_other [slice_simps]:
  assumes "p + length xs \<le> length d" "q + n \<le> length d" "q + n \<le> p \<or> p + length xs \<le> q"
  shows "slice q n (splice p xs d) = slice q n d"
  using assms by (intro slice_eqI) (auto simp: nth_slice nth_splice)

lemma splice_slice_id [simp]: "p + n \<le> length d \<Longrightarrow> splice p (slice p n d) d = d"
  by (intro nth_equalityI) (auto simp: nth_slice nth_splice)

lemma splice_append:
  assumes "p + length xs + length ys \<le> length d"
  shows "splice (p + length xs) ys (splice p xs d) = splice p (xs @ ys) d"
  using assms by (intro nth_equalityI) (auto simp: nth_splice nth_append)

lemma slice_append:
  assumes "p + m + n \<le> length d"
  shows "slice p m d @ slice (p + m) n d = slice p (m + n) d"
  using assms by (simp add: slice_def take_add add.commute)

lemma slice_replicate [simp]: "p + n \<le> m \<Longrightarrow> slice p n (replicate m x) = replicate n x"
  by (simp add: slice_def)

lemma list_update_splice: "p < length d \<Longrightarrow> d[p := x] = splice p [x] d"
  by (intro nth_equalityI) (auto simp: nth_splice nth_list_update)

section \<open>Lists indexed by position\<close>

text \<open>An element inserted at a position, and the list without the element at a position.\<close>

definition insertNth :: "nat \<Rightarrow> 'a \<Rightarrow> 'a list \<Rightarrow> 'a list" where
  "insertNth i x xs = take i xs @ x # drop i xs"

definition deleteNth :: "nat \<Rightarrow> 'a list \<Rightarrow> 'a list" where
  "deleteNth i xs = take i xs @ drop (i + 1) xs"

lemma length_insertNth [simp]: "length (insertNth i x xs) = length xs + 1"
  by (simp add: insertNth_def)

lemma length_deleteNth [simp]: "i < length xs \<Longrightarrow> length (deleteNth i xs) = length xs - 1"
  by (simp add: deleteNth_def)

lemma nth_insertNth:
  "i \<le> length xs \<Longrightarrow> j \<le> length xs \<Longrightarrow>
    insertNth i x xs ! j = (if j < i then xs ! j else if j = i then x else xs ! (j - 1))"
  by (auto simp: insertNth_def nth_append nth_Cons' min_def)

lemma nth_deleteNth:
  "i < length xs \<Longrightarrow> j < length xs - 1 \<Longrightarrow> deleteNth i xs ! j = (if j < i then xs ! j else xs ! (j + 1))"
  by (auto simp: deleteNth_def nth_append min_def)

lemma map_insertNth: "map f (insertNth i x xs) = insertNth i (f x) (map f xs)"
  by (simp add: insertNth_def take_map drop_map)

lemma set_insertNth: "i \<le> length xs \<Longrightarrow> set (insertNth i x xs) = insert x (set xs)"
  by (metis append_take_drop_id insertNth_def list.set(2) set_append Un_insert_right)

lemma insertNth_end [simp]: "insertNth (length xs) x xs = xs @ [x]"
  by (simp add: insertNth_def)

lemma insertNth_0 [simp]: "insertNth 0 x xs = x # xs"
  by (simp add: insertNth_def)

section \<open>Big-endian encodings\<close>

text \<open>
  \<open>binary.BigEndian\<close>: \<open>Uint16\<close> and \<open>Uint32\<close> read the first bytes of a slice, \<open>PutUint16\<close> and
  \<open>PutUint32\<close> write them, the most significant byte first.
\<close>

definition be16_get :: "bytes \<Rightarrow> u16" where
  "be16_get b = ucast (b ! 1) OR push_bit 8 (ucast (b ! 0))"

definition be16_put :: "u16 \<Rightarrow> bytes" where
  "be16_put v = [ucast (drop_bit 8 v), ucast v]"

definition be32_get :: "bytes \<Rightarrow> u32" where
  "be32_get b = ucast (b ! 3) OR push_bit 8 (ucast (b ! 2))
     OR push_bit 16 (ucast (b ! 1)) OR push_bit 24 (ucast (b ! 0))"

definition be32_put :: "u32 \<Rightarrow> bytes" where
  "be32_put v = [ucast (drop_bit 24 v), ucast (drop_bit 16 v), ucast (drop_bit 8 v), ucast v]"

lemma length_be16_put [simp]: "length (be16_put v) = 2"
  by (simp add: be16_put_def)

lemma length_be32_put [simp]: "length (be32_put v) = 4"
  by (simp add: be32_put_def)

lemma byte_bit_high: "8 \<le> n \<Longrightarrow> \<not> bit (w :: byte) n"
  by (auto dest: bit_imp_le_length)

lemma be16_get_put [simp]: "be16_get (be16_put v) = v"
  unfolding be16_get_def be16_put_def
  by (rule bit_word_eqI) (auto simp: bit_simps)

lemma be32_get_put [simp]: "be32_get (be32_put v) = v"
proof (rule bit_word_eqI)
  fix n assume "n < LENGTH(32)"
  then consider "n < 8" | "8 \<le> n" "n < 16" | "16 \<le> n" "n < 24" | "24 \<le> n" "n < 32"
    by (cases "n < 8"; cases "n < 16"; cases "n < 24") auto
  then show "bit (be32_get (be32_put v)) n = bit v n"
    by cases (auto simp: be32_get_def be32_put_def bit_simps numeral_3_eq_3 byte_bit_high)
qed

lemma be16_put_get: "length b = 2 \<Longrightarrow> be16_put (be16_get b) = b"
  by (rule nth_equalityI)
     (auto simp: be16_put_def be16_get_def less_Suc_eq numeral_2_eq_2 bit_simps
        byte_bit_high intro!: bit_word_eqI)

lemma be16_get_zeros [simp]: "be16_get (replicate 2 0) = 0"
  by (simp add: be16_get_def numeral_2_eq_2)

lemma be32_get_zeros [simp]: "be32_get (replicate 4 0) = 0"
  by (simp add: be32_get_def numeral_eq_Suc)

section \<open>Words and naturals\<close>

text \<open>Words are compared as naturals throughout.\<close>

declare of_nat_unat [simp del]

lemma word_of_nat_unat [simp]: "of_nat (unat w) = (w :: 'w::len word)"
  by (simp add: of_nat_unat)

lemma unat_plus_no_wrap:
  fixes a b :: "'w::len word"
  shows "unat a + unat b < 2 ^ LENGTH('w) \<Longrightarrow> unat (a + b) = unat a + unat b"
  by (simp add: unat_word_ariths)

lemma unat_mult_no_wrap:
  fixes a b :: "'w::len word"
  shows "unat a * unat b < 2 ^ LENGTH('w) \<Longrightarrow> unat (a * b) = unat a * unat b"
  by (simp add: unat_word_ariths)

lemma unat_minus_no_wrap:
  fixes a b :: "'w::len word"
  shows "unat b \<le> unat a \<Longrightarrow> unat (a - b) = unat a - unat b"
  by (rule unat_sub) (simp add: word_le_nat_alt)

lemma unat_u16_eq_iff [simp]: "unat (a :: u16) = unat b \<longleftrightarrow> a = b"
  by (metis unsigned_word_eqI)

lemma u16_bound: "unat (x :: u16) < 65536"
  using unsigned_less [of x] by simp

lemma unat_of_nat_u16 [simp]: "n < 65536 \<Longrightarrow> unat (of_nat n :: u16) = n"
  by (simp add: unsigned_of_nat take_bit_nat_eq_self)

end
