(* ===== verification/DataBlock.thy ===== *)
theory DataBlock
  imports Prelude
begin

text \<open>
  The accessors of \<open>dbio.DataBlock\<close> (\<open>src/src/simplejsondb/dbio/data_block.go\<close>) as programs over
  the byte array \<open>Data\<close> of the block, with the bounds checks of Go's index and slice expressions,
  and the laws that let later theories read a block back after a write.
\<close>

section \<open>Index and slice expressions\<close>

definition readByte :: "int \<Rightarrow> (bytes, byte) prog" where
  "readByte i d = (if 0 \<le> i \<and> i < int (length d) then Ok (d ! nat i, d) else Panic IndexOutOfRange)"

definition writeByte :: "int \<Rightarrow> byte \<Rightarrow> (bytes, unit) prog" where
  "writeByte i b d =
     (if 0 \<le> i \<and> i < int (length d) then Ok ((), d[nat i := b]) else Panic IndexOutOfRange)"

text \<open>\<open>Data[lo:hi]\<close> as a value, and an assignment to all the bytes of \<open>Data[lo:hi]\<close>.\<close>

definition readSlice :: "int \<Rightarrow> int \<Rightarrow> (bytes, bytes) prog" where
  "readSlice lo hi d =
     (if 0 \<le> lo \<and> lo \<le> hi \<and> hi \<le> int (length d)
      then Ok (slice (nat lo) (nat (hi - lo)) d, d) else Panic IndexOutOfRange)"

definition writeSlice :: "int \<Rightarrow> bytes \<Rightarrow> (bytes, unit) prog" where
  "writeSlice lo xs d =
     (if 0 \<le> lo \<and> lo + int (length xs) \<le> int (length d)
      then Ok ((), splice (nat lo) xs d) else Panic IndexOutOfRange)"

section \<open>The methods of DataBlock\<close>

definition ReadUint8 :: "int \<Rightarrow> (bytes, byte) prog" where
  "ReadUint8 startingAt = readByte startingAt"

definition ReadUint16 :: "int \<Rightarrow> (bytes, u16) prog" where
  "ReadUint16 startingAt =
     bind (readSlice startingAt (startingAt + 2)) (\<lambda>b. ret (be16_get b))"

definition ReadUint32 :: "int \<Rightarrow> (bytes, u32) prog" where
  "ReadUint32 startingAt =
     bind (readSlice startingAt (startingAt + 4)) (\<lambda>b. ret (be32_get b))"

definition ReadString :: "int \<Rightarrow> int \<Rightarrow> (bytes, bytes) prog" where
  "ReadString startingAt len = readSlice startingAt (startingAt + len)"

text \<open>The dynamic types that the type switch of \<open>Write\<close> tells apart.\<close>

datatype wvalue = VUint8 byte | VBytes bytes | VUint16 u16 | VUint32 u32 | VOther

fun writeBytes :: "int \<Rightarrow> bytes \<Rightarrow> (bytes, unit) prog" where
  "writeBytes target [] = ret ()"
| "writeBytes target (x # xs) = seq (writeByte target x) (writeBytes (target + 1) xs)"

fun Write :: "int \<Rightarrow> wvalue \<Rightarrow> (bytes, unit) prog" where
  "Write position (VUint8 x) = writeByte position x"
| "Write position (VBytes x) = writeBytes position x"
| "Write position (VUint16 x) = writeSlice position (be16_put x)"
| "Write position (VUint32 x) = writeSlice position (be32_put x)"
| "Write position VOther = panic (PanicMsg ''Don't know how to write'')"

text \<open>
  \<open>Unshift\<close> copies byte \<open>i\<close> to \<open>i + count\<close> for \<open>i\<close> from the end of the shifted region down to
  \<open>position\<close>; the first argument of the loop is the number of iterations left.
\<close>

fun unshift_loop :: "nat \<Rightarrow> int \<Rightarrow> int \<Rightarrow> (bytes, unit) prog" where
  "unshift_loop 0 i count = ret ()"
| "unshift_loop (Suc n) i count =
     bind (readByte i) (\<lambda>b. seq (writeByte (i + count) b) (unshift_loop n (i - 1) count))"

definition Unshift :: "int \<Rightarrow> int \<Rightarrow> (bytes, unit) prog" where
  "Unshift position count =
     bind (gets (\<lambda>d. int (length d) - 1 - count)) (\<lambda>endOfShift.
     unshift_loop (nat (endOfShift + 1 - position)) endOfShift count)"

text \<open>
  The built-in \<open>copy(Data[dst:], Data[src:])\<close>: the two slices may overlap, and the copy behaves
  as if the source were read first.
\<close>

definition copyWithin :: "int \<Rightarrow> int \<Rightarrow> (bytes, unit) prog" where
  "copyWithin dst src d =
     (if 0 \<le> dst \<and> dst \<le> int (length d) \<and> 0 \<le> src \<and> src \<le> int (length d)
      then Ok ((), splice (nat dst) (take (length d - nat dst) (drop (nat src) d)) d)
      else Panic IndexOutOfRange)"

section \<open>Reading and writing at an offset\<close>

definition bytes_at :: "int \<Rightarrow> nat \<Rightarrow> bytes \<Rightarrow> bytes" where
  "bytes_at p n d = slice (nat p) n d"

definition u16_at :: "int \<Rightarrow> bytes \<Rightarrow> u16" where
  "u16_at p d = be16_get (bytes_at p 2 d)"

definition u32_at :: "int \<Rightarrow> bytes \<Rightarrow> u32" where
  "u32_at p d = be32_get (bytes_at p 4 d)"

definition put_at :: "int \<Rightarrow> bytes \<Rightarrow> bytes \<Rightarrow> bytes" where
  "put_at p xs d = splice (nat p) xs d"

lemma length_put_at [simp]:
  "0 \<le> p \<Longrightarrow> p + int (length xs) \<le> int (length d) \<Longrightarrow> length (put_at p xs d) = length d"
  by (simp add: put_at_def)

lemma length_bytes_at [simp]:
  "0 \<le> p \<Longrightarrow> p + int n \<le> int (length d) \<Longrightarrow> length (bytes_at p n d) = n"
  by (simp add: bytes_at_def)

lemma bytes_at_put_same [simp, slice_simps]:
  "0 \<le> p \<Longrightarrow> p + int (length xs) \<le> int (length d) \<Longrightarrow> n = length xs
    \<Longrightarrow> bytes_at p n (put_at p xs d) = xs"
  by (simp add: bytes_at_def put_at_def slice_splice_same)

lemma bytes_at_put_other [simp, slice_simps]:
  "0 \<le> p \<Longrightarrow> p + int (length xs) \<le> int (length d) \<Longrightarrow> 0 \<le> q \<Longrightarrow> q + int n \<le> int (length d)
    \<Longrightarrow> q + int n \<le> p \<or> p + int (length xs) \<le> q
    \<Longrightarrow> bytes_at q n (put_at p xs d) = bytes_at q n d"
  unfolding bytes_at_def put_at_def by (rule slice_splice_other) auto

lemma u16_at_put_same [simp, slice_simps]:
  "0 \<le> p \<Longrightarrow> p + 2 \<le> int (length d) \<Longrightarrow> u16_at p (put_at p (be16_put v) d) = v"
  by (simp add: u16_at_def)

lemma u32_at_put_same [simp, slice_simps]:
  "0 \<le> p \<Longrightarrow> p + 4 \<le> int (length d) \<Longrightarrow> u32_at p (put_at p (be32_put v) d) = v"
  by (simp add: u32_at_def)

lemma u16_at_put_other [simp, slice_simps]:
  "0 \<le> p \<Longrightarrow> p + int (length xs) \<le> int (length d) \<Longrightarrow> 0 \<le> q \<Longrightarrow> q + 2 \<le> int (length d)
    \<Longrightarrow> q + 2 \<le> p \<or> p + int (length xs) \<le> q \<Longrightarrow> u16_at q (put_at p xs d) = u16_at q d"
  by (simp add: u16_at_def)

lemma u32_at_put_other [simp, slice_simps]:
  "0 \<le> p \<Longrightarrow> p + int (length xs) \<le> int (length d) \<Longrightarrow> 0 \<le> q \<Longrightarrow> q + 4 \<le> int (length d)
    \<Longrightarrow> q + 4 \<le> p \<or> p + int (length xs) \<le> q \<Longrightarrow> u32_at q (put_at p xs d) = u32_at q d"
  by (simp add: u32_at_def)

lemma bytes_at_zeros [simp]: "0 \<le> p \<Longrightarrow> p + int n \<le> int m \<Longrightarrow> bytes_at p n (replicate m x) = replicate n x"
  by (simp add: bytes_at_def)

lemma u16_at_zeros [simp]: "0 \<le> p \<Longrightarrow> p + 2 \<le> int m \<Longrightarrow> u16_at p (replicate m 0) = 0"
  by (simp add: u16_at_def)

lemma u32_at_zeros [simp]: "0 \<le> p \<Longrightarrow> p + 4 \<le> int m \<Longrightarrow> u32_at p (replicate m 0) = 0"
  by (simp add: u32_at_def)

section \<open>What each access does within bounds\<close>

lemma readByte_Ok [prog_simps]:
  "0 \<le> i \<Longrightarrow> i < int (length d) \<Longrightarrow> readByte i d = Ok (d ! nat i, d)"
  by (simp add: readByte_def)

lemma writeByte_Ok [prog_simps]:
  "0 \<le> i \<Longrightarrow> i < int (length d) \<Longrightarrow> writeByte i b d = Ok ((), put_at i [b] d)"
  by (simp add: writeByte_def put_at_def list_update_splice nat_less_iff)

lemma readSlice_Ok [prog_simps]:
  "0 \<le> lo \<Longrightarrow> lo \<le> hi \<Longrightarrow> hi \<le> int (length d)
    \<Longrightarrow> readSlice lo hi d = Ok (bytes_at lo (nat (hi - lo)) d, d)"
  by (simp add: readSlice_def bytes_at_def)

lemma ReadUint8_Ok [prog_simps]:
  "0 \<le> p \<Longrightarrow> p + 1 \<le> int (length d) \<Longrightarrow> ReadUint8 p d = Ok (d ! nat p, d)"
  by (simp add: ReadUint8_def readByte_def)

lemma ReadUint16_Ok [prog_simps]:
  "0 \<le> p \<Longrightarrow> p + 2 \<le> int (length d) \<Longrightarrow> ReadUint16 p d = Ok (u16_at p d, d)"
  by (simp add: ReadUint16_def bind_def readSlice_Ok u16_at_def)

lemma ReadUint32_Ok [prog_simps]:
  "0 \<le> p \<Longrightarrow> p + 4 \<le> int (length d) \<Longrightarrow> ReadUint32 p d = Ok (u32_at p d, d)"
  by (simp add: ReadUint32_def bind_def readSlice_Ok u32_at_def)

lemma ReadUint16_Panic:
  "p < 0 \<or> int (length d) < p + 2 \<Longrightarrow> ReadUint16 p d = Panic IndexOutOfRange"
  by (auto simp: ReadUint16_def bind_def readSlice_def)

lemma writeBytes_Ok:
  "0 \<le> p \<Longrightarrow> p + int (length xs) \<le> int (length d) \<Longrightarrow> writeBytes p xs d = Ok ((), put_at p xs d)"
proof (induction xs arbitrary: p d)
  case Nil
  then show ?case by (simp add: put_at_def)
next
  case (Cons x xs)
  then have "writeBytes p (x # xs) d = writeBytes (p + 1) xs (put_at p [x] d)"
    by (simp add: seq_def bind_def writeByte_Ok)
  also have "\<dots> = Ok ((), put_at (p + 1) xs (put_at p [x] d))"
    using Cons.prems by (intro Cons.IH) simp_all
  also have "put_at (p + 1) xs (put_at p [x] d) = put_at p (x # xs) d"
    using Cons.prems splice_append [of "nat p" "[x]" xs d]
    by (simp add: put_at_def nat_add_distrib)
  finally show ?case .
qed

lemma Write_VBytes_Ok [prog_simps]:
  "0 \<le> p \<Longrightarrow> p + int (length xs) \<le> int (length d) \<Longrightarrow> Write p (VBytes xs) d = Ok ((), put_at p xs d)"
  by (simp add: writeBytes_Ok)

lemma Write_VUint8_Ok [prog_simps]:
  "0 \<le> p \<Longrightarrow> p + 1 \<le> int (length d) \<Longrightarrow> Write p (VUint8 x) d = Ok ((), put_at p [x] d)"
  by (simp add: writeByte_Ok)

lemma Write_VUint16_Ok [prog_simps]:
  "0 \<le> p \<Longrightarrow> p + 2 \<le> int (length d) \<Longrightarrow> Write p (VUint16 x) d = Ok ((), put_at p (be16_put x) d)"
  by (simp add: writeSlice_def put_at_def)

lemma Write_VUint32_Ok [prog_simps]:
  "0 \<le> p \<Longrightarrow> p + 4 \<le> int (length d) \<Longrightarrow> Write p (VUint32 x) d = Ok ((), put_at p (be32_put x) d)"
  by (simp add: writeSlice_def put_at_def)

declare Write.simps [simp del]

lemma unshift_loop_Ok:
  assumes "0 \<le> c" "int n \<le> i + 1" "i + c < int (length d)"
  shows "unshift_loop n i c d = Ok ((), put_at (i + 1 - int n + c) (bytes_at (i + 1 - int n) n d) d)"
  using assms
proof (induction n arbitrary: i d)
  case 0
  then show ?case by (simp add: put_at_def bytes_at_def)
next
  case (Suc n)
  let ?p = "nat (i - int n)" and ?d = "put_at (i + c) [d ! nat i] d"
  have "unshift_loop (Suc n) i c d = unshift_loop n (i - 1) c ?d"
    using Suc.prems by (simp add: seq_def bind_def readByte_Ok writeByte_Ok)
  also have "\<dots> = Ok ((), put_at (i - int n + c) (bytes_at (i - int n) n ?d) ?d)"
    using Suc.IH [of "i - 1" ?d] Suc.prems by simp
  also have "put_at (i - int n + c) (bytes_at (i - int n) n ?d) ?d
      = put_at (i - int n + c) (bytes_at (i - int n) (Suc n) d) d" (is "?l = ?r")
  proof (rule nth_equalityI)
    show "length ?l = length ?r" using Suc.prems by simp
    fix j assume "j < length ?l"
    then have j: "j < length d" using Suc.prems by simp
    have ni: "nat (i - int n + c) = ?p + nat c" "nat (i + c) = ?p + n + nat c" "nat i = ?p + n"
      using Suc.prems by auto
    have lens: "?p + n + nat c < length d" "?p + n < length d"
      using Suc.prems by auto
    show "?l ! j = ?r ! j"
      using j lens unfolding put_at_def bytes_at_def ni
      by (auto simp: nth_splice nth_slice intro!: arg_cong [of _ _ "(!) d"]) arith+
  qed
  finally show ?case by simp
qed

lemma Unshift_Ok [prog_simps]:
  assumes "0 \<le> p" "0 \<le> c" "p + c \<le> int (length d)"
  shows "Unshift p c d = Ok ((), put_at (p + c) (bytes_at p (length d - nat (p + c)) d) d)"
proof -
  let ?n = "nat (int (length d) - c - p)"
  have n: "?n = length d - nat (p + c)" using assms by auto
  have "Unshift p c d = unshift_loop ?n (int (length d) - 1 - c) c d"
    by (simp add: Unshift_def algebra_simps)
  also have "\<dots> = Ok ((), put_at (int (length d) - 1 - c + 1 - int ?n + c)
      (bytes_at (int (length d) - 1 - c + 1 - int ?n) ?n d) d)"
    using assms by (intro unshift_loop_Ok) auto
  also have "int (length d) - 1 - c + 1 - int ?n = p" using assms by simp
  finally show ?thesis by (simp add: n)
qed

lemma copyWithin_Ok [prog_simps]:
  assumes "0 \<le> dst" "dst \<le> src" "src \<le> int (length d)"
  shows "copyWithin dst src d = Ok ((), put_at dst (bytes_at src (length d - nat src) d) d)"
  using assms by (simp add: copyWithin_def put_at_def bytes_at_def slice_def nat_le_iff)

section \<open>Round trips\<close>

lemma ReadUint16_Write:
  assumes "0 \<le> p" "p + 2 \<le> int (length d)"
  shows "bind (Write p (VUint16 v)) (\<lambda>_. ReadUint16 p) d = Ok (v, put_at p (be16_put v) d)"
  using assms by (simp add: bind_def prog_simps)

end
