(* ===== verification/DataFile.thy ===== *)
theory DataFile
  imports DataBlock
begin

text \<open>
  The data file: the interface \<open>dbio.DataFile\<close> as a record of its methods over a file state, its
  implementation over an operating system file (\<open>src/src/simplejsondb/dbio/data_file.go\<close>) and the
  one in memory (\<open>src/src/test_utils/in_memory_data_file.go\<close>). The locale \<open>block_file\<close> is the
  contract the data buffer relies on; it is interpreted for both implementations.
\<close>

section \<open>The interface\<close>

definition DATAFILE_SIZE :: nat where
  "DATAFILE_SIZE = 1024 * 1024 * 256"

definition DATABLOCK_SIZE :: nat where
  "DATABLOCK_SIZE = 1024 * 4"

text \<open>
  \<open>ReadBlock id data\<close> fills the caller's slice \<open>data\<close>: it returns the error and the slice as the
  call leaves it.
\<close>

record 'f DataFile =
  ReadBlock :: "u16 \<Rightarrow> bytes \<Rightarrow> ('f, goerror option \<times> bytes) prog"
  WriteBlock :: "u16 \<Rightarrow> bytes \<Rightarrow> ('f, goerror option) prog"
  Close :: "('f, goerror option) prog"

section \<open>A file of the operating system\<close>

text \<open>
  What the code uses of \<open>os.File\<close>: its bytes and size, the offset, whether it is open, and for each
  operation the error that the operating system reports, if any. An operation that reports an
  error has no other effect.
\<close>

datatype fileop = OpStat | OpOpen | OpCreate | OpTruncate | OpSeek | OpRead | OpWrite | OpSync | OpClose

record osFile =
  fbytes :: "nat \<Rightarrow> byte"
  fsize :: nat
  foffset :: nat
  fopen :: bool
  ffault :: "fileop \<Rightarrow> goerror option"

definition file_fault :: "fileop \<Rightarrow> osFile \<Rightarrow> goerror option" where
  "file_fault oper f = (if fopen f then ffault f oper else Some ErrClosed)"

definition fileSeek :: "nat \<Rightarrow> (osFile, goerror option) prog" where
  "fileSeek off f =
     (case file_fault OpSeek f of
        Some e \<Rightarrow> Ok (Some e, f)
      | None \<Rightarrow> Ok (None, f\<lparr>foffset := off\<rparr>))"

text \<open>\<open>Read\<close> returns the number of bytes read, \<open>io.EOF\<close> at the end of the file, and fills the slice.\<close>

definition fileRead :: "bytes \<Rightarrow> (osFile, nat \<times> goerror option \<times> bytes) prog" where
  "fileRead p f =
     (case file_fault OpRead f of
        Some e \<Rightarrow> Ok ((0, Some e, p), f)
      | None \<Rightarrow>
          (if p = [] then Ok ((0, None, p), f)
           else if fsize f \<le> foffset f then Ok ((0, Some ErrEOF, p), f)
           else (let n = min (length p) (fsize f - foffset f) in
                 Ok ((n, None, map (fbytes f) [foffset f ..< foffset f + n] @ drop n p),
                     f\<lparr>foffset := foffset f + n\<rparr>))))"

text \<open>\<open>io.LimitedReader{file, n}.Read\<close>\<close>

definition limitedRead :: "nat \<Rightarrow> bytes \<Rightarrow> (osFile, nat \<times> goerror option \<times> bytes) prog" where
  "limitedRead n p =
     (if n = 0 then ret (0, Some ErrEOF, p)
      else if length p > n then
        bind (fileRead (take n p)) (\<lambda>(k, err, q). ret (k, err, q @ drop n p))
      else fileRead p)"

definition fileWrite :: "bytes \<Rightarrow> (osFile, goerror option) prog" where
  "fileWrite p f =
     (case file_fault OpWrite f of
        Some e \<Rightarrow> Ok (Some e, f)
      | None \<Rightarrow>
          (let off = foffset f; n = length p in
           Ok (None, f\<lparr>fbytes := (\<lambda>i. if off \<le> i \<and> i < off + n then p ! (i - off)
                                     else if fsize f \<le> i \<and> i < off then 0 else fbytes f i),
                       fsize := max (fsize f) (off + n), foffset := off + n\<rparr>)))"

definition fileSync :: "(osFile, goerror option) prog" where
  "fileSync f = Ok (file_fault OpSync f, f)"

definition fileClose :: "(osFile, goerror option) prog" where
  "fileClose f =
     (case file_fault OpClose f of
        Some e \<Rightarrow> Ok (Some e, f)
      | None \<Rightarrow> Ok (None, f\<lparr>fopen := False\<rparr>))"

section \<open>The implementation over a file\<close>

definition datafile_seek :: "u16 \<Rightarrow> (osFile, goerror option) prog" where
  "datafile_seek blockID = fileSeek (unat blockID * DATABLOCK_SIZE)"

definition datafile_ReadBlock :: "u16 \<Rightarrow> bytes \<Rightarrow> (osFile, goerror option \<times> bytes) prog" where
  "datafile_ReadBlock blockID data =
     bind (datafile_seek blockID) (\<lambda>err.
       case err of
         Some e \<Rightarrow> ret (Some e, data)
       | None \<Rightarrow> bind (limitedRead DATABLOCK_SIZE data) (\<lambda>(n, err, data'). ret (err, data')))"

definition datafile_WriteBlock :: "u16 \<Rightarrow> bytes \<Rightarrow> (osFile, goerror option) prog" where
  "datafile_WriteBlock blockID data =
     bind (datafile_seek blockID) (\<lambda>err.
       case err of
         Some e \<Rightarrow> ret (Some e)
       | None \<Rightarrow> bind (fileWrite data) (\<lambda>err.
           case err of
             Some e \<Rightarrow> ret (Some e)
           | None \<Rightarrow> fileSync))"

definition datafile_Close :: "(osFile, goerror option) prog" where
  "datafile_Close = fileClose"

definition osDataFile :: "osFile DataFile" where
  "osDataFile = \<lparr>ReadBlock = datafile_ReadBlock, WriteBlock = datafile_WriteBlock,
                 Close = datafile_Close\<rparr>"

text \<open>
  Opening: the directory maps a name to the bytes and the size of the file, and reports errors as
  the open file does. The handle that is returned is the only one to the file.
\<close>

record directory =
  dfiles :: "string \<rightharpoonup> (nat \<Rightarrow> byte) \<times> nat"
  dfault :: "fileop \<Rightarrow> goerror option"

definition openDatafile :: "string \<Rightarrow> (directory, goerror + osFile) prog" where
  "openDatafile filename d =
     (case (dfault d OpStat, dfiles d filename) of
        (None, Some (bs, n)) \<Rightarrow>
          (case dfault d OpOpen of
             Some e \<Rightarrow> Ok (Inl e, d)
           | None \<Rightarrow> Ok (Inr \<lparr>fbytes = bs, fsize = n, foffset = 0, fopen = True, ffault = dfault d\<rparr>, d))
      | _ \<Rightarrow>
          (case dfault d OpCreate of
             Some e \<Rightarrow> Ok (Inl e, d)
           | None \<Rightarrow>
               (let d' = d\<lparr>dfiles := (dfiles d)(filename \<mapsto> (\<lambda>_. 0, 0))\<rparr> in
                case dfault d OpTruncate of
                  Some e \<Rightarrow> Ok (Inl e, d')
                | None \<Rightarrow>
                    Ok (Inr \<lparr>fbytes = (\<lambda>_. 0), fsize = DATAFILE_SIZE, foffset = 0, fopen = True,
                             ffault = dfault d\<rparr>,
                        d\<lparr>dfiles := (dfiles d)(filename \<mapsto> (\<lambda>_. 0, DATAFILE_SIZE))\<rparr>))))"

definition NewDatafile :: "string \<Rightarrow> (directory, goerror + osFile) prog" where
  "NewDatafile filename =
     bind (openDatafile filename) (\<lambda>r.
       case r of Inl err \<Rightarrow> ret (Inl err) | Inr file \<Rightarrow> ret (Inr file))"

section \<open>The implementation in memory\<close>

type_synonym memFile = "bytes list"

definition NewFakeDataFile :: "nat \<Rightarrow> memFile" where
  "NewFakeDataFile blocksCount = map (\<lambda>_. replicate DATABLOCK_SIZE 0) [0 ..< blocksCount]"

text \<open>\<open>for i := range dst \{ dst[i] = src[i] \}\<close>\<close>

definition copyInto :: "bytes \<Rightarrow> bytes \<Rightarrow> ('s, bytes) prog" where
  "copyInto dst src =
     (if length dst \<le> length src then ret (take (length dst) src) else panic IndexOutOfRange)"

definition mem_WriteBlock :: "u16 \<Rightarrow> bytes \<Rightarrow> (memFile, goerror option) prog" where
  "mem_WriteBlock blockID data blocks =
     (if unat blockID < length blocks then
        bind (copyInto (blocks ! unat blockID) data)
          (\<lambda>block. seq (modify (\<lambda>bs. bs[unat blockID := block])) (ret None)) blocks
      else Panic IndexOutOfRange)"

definition mem_ReadBlock :: "u16 \<Rightarrow> bytes \<Rightarrow> (memFile, goerror option \<times> bytes) prog" where
  "mem_ReadBlock blockID data blocks =
     (if blockID < 0 \<or> blockID \<ge> of_nat (length blocks) then Ok ((Some (ErrInvalidBlock blockID), data), blocks)
      else if length blocks \<le> unat blockID then Panic IndexOutOfRange
      else (let block = blocks ! unat blockID in
            if length block \<le> length data
            then Ok ((None, block @ drop (length block) data), blocks)
            else Panic IndexOutOfRange))"

definition mem_Close :: "(memFile, goerror option) prog" where
  "mem_Close = ret None"

definition memDataFile :: "memFile DataFile" where
  "memDataFile = \<lparr>ReadBlock = mem_ReadBlock, WriteBlock = mem_WriteBlock, Close = mem_Close\<rparr>"

section \<open>The contract of a data file\<close>

text \<open>
  \<open>fblk f b\<close> is the contents of block \<open>b\<close>. A block may be readable and writable; reading
  never changes any block, writing changes the one written, and reading an unreadable block
  returns an error. The contract says nothing of a write to a block that is not writable.
\<close>

locale block_file =
  fixes D :: "'f DataFile"
    and finv :: "'f \<Rightarrow> bool"
    and fblk :: "'f \<Rightarrow> u16 \<Rightarrow> bytes"
    and readable :: "'f \<Rightarrow> u16 \<Rightarrow> bool"
    and writable :: "'f \<Rightarrow> u16 \<Rightarrow> bool"
  assumes fblk_length: "finv f \<Longrightarrow> readable f b \<Longrightarrow> length (fblk f b) = DATABLOCK_SIZE"
    and read_ok: "finv f \<Longrightarrow> readable f b \<Longrightarrow> length d = DATABLOCK_SIZE \<Longrightarrow>
      \<exists>f'. ReadBlock D b d f = Ok ((None, fblk f b), f') \<and> finv f' \<and> fblk f' = fblk f \<and>
        readable f' = readable f \<and> writable f' = writable f"
    and read_err: "finv f \<Longrightarrow> \<not> readable f b \<Longrightarrow> length d = DATABLOCK_SIZE \<Longrightarrow>
      \<exists>e d' f'. ReadBlock D b d f = Ok ((Some e, d'), f') \<and> length d' = DATABLOCK_SIZE \<and>
        finv f' \<and> fblk f' = fblk f \<and> readable f' = readable f \<and> writable f' = writable f"
    and write_ok: "finv f \<Longrightarrow> writable f b \<Longrightarrow> length d = DATABLOCK_SIZE \<Longrightarrow>
      \<exists>f'. WriteBlock D b d f = Ok (None, f') \<and> finv f' \<and> fblk f' = (fblk f)(b := d) \<and>
        readable f' = readable f \<and> writable f' = writable f"
    and writable_readable: "finv f \<Longrightarrow> writable f b \<Longrightarrow> readable f b"


section \<open>Both implementations keep the contract\<close>

subsection \<open>The operating system file\<close>

definition os_block :: "osFile \<Rightarrow> u16 \<Rightarrow> bytes" where
  "os_block f b = map (fbytes f) [unat b * DATABLOCK_SIZE ..< unat b * DATABLOCK_SIZE + DATABLOCK_SIZE]"

definition os_readable :: "osFile \<Rightarrow> u16 \<Rightarrow> bool" where
  "os_readable f b \<longleftrightarrow> file_fault OpSeek f = None \<and> file_fault OpRead f = None \<and>
     unat b * DATABLOCK_SIZE + DATABLOCK_SIZE \<le> fsize f"

definition os_writable :: "osFile \<Rightarrow> u16 \<Rightarrow> bool" where
  "os_writable f b \<longleftrightarrow> os_readable f b \<and> file_fault OpWrite f = None \<and> file_fault OpSync f = None"

text \<open>A file of whole blocks: a block is inside the file or past its end.\<close>

definition os_inv :: "osFile \<Rightarrow> bool" where
  "os_inv f \<longleftrightarrow> DATABLOCK_SIZE dvd fsize f"

lemma DATABLOCK_SIZE_pos [simp]: "0 < DATABLOCK_SIZE"
  by (simp add: DATABLOCK_SIZE_def)

lemma DATABLOCK_SIZE_neq [simp]: "DATABLOCK_SIZE \<noteq> 0"
  using DATABLOCK_SIZE_pos by (rule gr_implies_not0)

lemma length_os_block [simp]: "length (os_block f b) = DATABLOCK_SIZE"
  by (simp add: os_block_def)

lemma file_fault_offset [simp]: "file_fault oper (f\<lparr>foffset := n\<rparr>) = file_fault oper f"
  by (simp add: file_fault_def)

lemma limitedRead_block:
  "length d = DATABLOCK_SIZE \<Longrightarrow> limitedRead DATABLOCK_SIZE d = fileRead d"
  by (simp add: limitedRead_def)

lemma datafile_ReadBlock_Ok:
  assumes "os_readable f b" "length d = DATABLOCK_SIZE"
  shows "datafile_ReadBlock b d f = Ok ((None, os_block f b),
    f\<lparr>foffset := unat b * DATABLOCK_SIZE + DATABLOCK_SIZE\<rparr>)"
proof -
  have "d \<noteq> []" using assms(2) DATABLOCK_SIZE_pos by (metis less_numeral_extra(3) list.size(3))
  moreover have "\<not> fsize f \<le> unat b * DATABLOCK_SIZE"
    "min (length d) (fsize f - unat b * DATABLOCK_SIZE) = DATABLOCK_SIZE"
    using assms DATABLOCK_SIZE_pos unfolding os_readable_def by linarith+
  ultimately show ?thesis
    using assms by (simp add: datafile_ReadBlock_def datafile_seek_def fileSeek_def bind_def
        limitedRead_block fileRead_def os_readable_def os_block_def Let_def)
qed

lemma datafile_ReadBlock_err:
  assumes "os_inv f" "\<not> os_readable f b" "length d = DATABLOCK_SIZE"
  shows "\<exists>e f'. datafile_ReadBlock b d f = Ok ((Some e, d), f') \<and> (f' = f \<or> f' = f\<lparr>foffset := unat b * DATABLOCK_SIZE\<rparr>)"
proof (cases "file_fault OpSeek f = None \<and> file_fault OpRead f = None")
  case False
  then show ?thesis
    using assms(3) by (auto simp: datafile_ReadBlock_def datafile_seek_def fileSeek_def bind_def
        limitedRead_block fileRead_def split: option.splits)
next
  case True
  with assms have "fsize f < (unat b + 1) * DATABLOCK_SIZE"
    by (simp add: os_readable_def)
  moreover from assms(1) obtain n where n: "fsize f = DATABLOCK_SIZE * n" by (auto simp: os_inv_def)
  ultimately have "n \<le> unat b"
    by (metis DATABLOCK_SIZE_pos Suc_eq_plus1 less_Suc_eq_le mult.commute mult_less_cancel2)
  then have "fsize f \<le> unat b * DATABLOCK_SIZE" by (simp add: n)
  moreover have "d \<noteq> []" using assms(3) by (auto simp: DATABLOCK_SIZE_def)
  ultimately show ?thesis
    using True assms(3) by (auto simp: datafile_ReadBlock_def datafile_seek_def fileSeek_def bind_def
        limitedRead_block fileRead_def)
qed

lemma os_block_write:
  assumes "length d = DATABLOCK_SIZE" "unat b * DATABLOCK_SIZE + DATABLOCK_SIZE \<le> fsize f"
  shows "os_block (f\<lparr>fbytes := (\<lambda>i. if unat b * DATABLOCK_SIZE \<le> i \<and> i < unat b * DATABLOCK_SIZE + length d
      then d ! (i - unat b * DATABLOCK_SIZE)
      else if fsize f \<le> i \<and> i < unat b * DATABLOCK_SIZE then 0 else fbytes f i), fsize := n,
      foffset := m\<rparr>) c = (if c = b then d else os_block f c)"
proof (cases "c = b")
  case True
  then show ?thesis
    using assms by (intro nth_equalityI) (simp_all add: os_block_def)
next
  case False
  then have "unat c < unat b \<or> unat b < unat c"
    by (metis linorder_neqE_nat unsigned_word_eqI)
  then have sep: "(unat c + 1) * DATABLOCK_SIZE \<le> unat b * DATABLOCK_SIZE \<or>
      (unat b + 1) * DATABLOCK_SIZE \<le> unat c * DATABLOCK_SIZE"
    by (metis Suc_eq_plus1 Suc_leI mult_le_mono1)
  show ?thesis
    using False assms sep by (intro nth_equalityI) (auto simp: os_block_def)
qed

lemma datafile_WriteBlock_Ok:
  assumes "os_writable f b" "length d = DATABLOCK_SIZE"
  shows "\<exists>f'. datafile_WriteBlock b d f = Ok (None, f') \<and> fsize f' = fsize f \<and> fopen f' = fopen f \<and>
    ffault f' = ffault f \<and> os_block f' = (os_block f)(b := d)"
proof -
  let ?w = "\<lambda>i. if unat b * DATABLOCK_SIZE \<le> i \<and> i < unat b * DATABLOCK_SIZE + length d
      then d ! (i - unat b * DATABLOCK_SIZE)
      else if fsize f \<le> i \<and> i < unat b * DATABLOCK_SIZE then 0 else fbytes f i"
  let ?f = "f\<lparr>fbytes := ?w, fsize := max (fsize f) (unat b * DATABLOCK_SIZE + length d),
      foffset := unat b * DATABLOCK_SIZE + length d\<rparr>"
  have ff: "file_fault oper ?f = file_fault oper f" for oper by (simp add: file_fault_def)
  have "datafile_WriteBlock b d f = Ok (None, ?f)"
    using assms by (simp add: datafile_WriteBlock_def datafile_seek_def fileSeek_def bind_def
        fileWrite_def fileSync_def os_writable_def os_readable_def ff Let_def)
       (simp add: file_fault_def cong: if_cong)
  moreover have "os_block ?f = (os_block f)(b := d)"
  proof (rule ext)
    fix c
    show "os_block ?f c = ((os_block f)(b := d)) c"
      unfolding fun_upd_apply
      using assms by (intro os_block_write) (simp_all add: os_writable_def os_readable_def)
  qed
  ultimately show ?thesis
    using assms by (intro exI [of _ ?f]) (auto simp: os_writable_def os_readable_def)
qed

interpretation osf: block_file osDataFile os_inv os_block os_readable os_writable
proof unfold_locales
  fix f b and d :: bytes
  assume f: "os_inv f" and len: "length d = DATABLOCK_SIZE"
  show "\<exists>f'. ReadBlock osDataFile b d f = Ok ((None, os_block f b), f') \<and> os_inv f' \<and>
      os_block f' = os_block f \<and> os_readable f' = os_readable f \<and> os_writable f' = os_writable f"
    if "os_readable f b"
    using that f len by (auto simp: osDataFile_def datafile_ReadBlock_Ok os_inv_def os_block_def
        os_readable_def os_writable_def fun_eq_iff)
  show "\<exists>e d' f'. ReadBlock osDataFile b d f = Ok ((Some e, d'), f') \<and> length d' = DATABLOCK_SIZE \<and>
      os_inv f' \<and> os_block f' = os_block f \<and> os_readable f' = os_readable f \<and>
      os_writable f' = os_writable f"
    if "\<not> os_readable f b"
    using datafile_ReadBlock_err [OF f that len] f len
    by (auto simp: osDataFile_def os_inv_def os_block_def os_readable_def os_writable_def fun_eq_iff)
  show "\<exists>f'. WriteBlock osDataFile b d f = Ok (None, f') \<and> os_inv f' \<and>
      os_block f' = (os_block f)(b := d) \<and> os_readable f' = os_readable f \<and>
      os_writable f' = os_writable f"
    if "os_writable f b"
    using datafile_WriteBlock_Ok [OF that len] f
    by (auto simp: osDataFile_def os_inv_def os_readable_def os_writable_def file_fault_def fun_eq_iff)
qed (simp_all add: os_writable_def)

subsection \<open>The file in memory\<close>

definition mem_block :: "memFile \<Rightarrow> u16 \<Rightarrow> bytes" where
  "mem_block f b = f ! unat b"

definition mem_ok :: "memFile \<Rightarrow> u16 \<Rightarrow> bool" where
  "mem_ok f b \<longleftrightarrow> unat b < length f"

text \<open>Fewer than \<open>2^16\<close> blocks, all of the size of a data block.\<close>

definition mem_inv :: "memFile \<Rightarrow> bool" where
  "mem_inv f \<longleftrightarrow> length f < 65536 \<and> (\<forall>d \<in> set f. length d = DATABLOCK_SIZE)"

lemma mem_ge_iff: "mem_inv f \<Longrightarrow> of_nat (length f) \<le> (b :: u16) \<longleftrightarrow> \<not> mem_ok f b"
  by (auto simp: mem_inv_def mem_ok_def word_le_nat_alt)

interpretation memf: block_file memDataFile mem_inv mem_block mem_ok mem_ok
proof unfold_locales
  fix f b and d :: bytes
  assume f: "mem_inv f" and len: "length d = DATABLOCK_SIZE"
  show "\<exists>f'. ReadBlock memDataFile b d f = Ok ((None, mem_block f b), f') \<and> mem_inv f' \<and>
      mem_block f' = mem_block f \<and> mem_ok f' = mem_ok f \<and> mem_ok f' = mem_ok f"
    if "mem_ok f b"
    using that f len mem_ge_iff [OF f, of b]
    by (auto simp: memDataFile_def mem_ReadBlock_def mem_block_def mem_ok_def mem_inv_def)
  show "\<exists>e d' f'. ReadBlock memDataFile b d f = Ok ((Some e, d'), f') \<and> length d' = DATABLOCK_SIZE \<and>
      mem_inv f' \<and> mem_block f' = mem_block f \<and> mem_ok f' = mem_ok f \<and> mem_ok f' = mem_ok f"
    if "\<not> mem_ok f b"
    using that f len mem_ge_iff [OF f, of b] by (auto simp: memDataFile_def mem_ReadBlock_def)
  show "\<exists>f'. WriteBlock memDataFile b d f = Ok (None, f') \<and> mem_inv f' \<and>
      mem_block f' = (mem_block f)(b := d) \<and> mem_ok f' = mem_ok f \<and> mem_ok f' = mem_ok f"
    if "mem_ok f b"
    using that f len
    by (auto simp: memDataFile_def mem_WriteBlock_def mem_ok_def mem_inv_def mem_block_def
        copyInto_def seq_def bind_def fun_eq_iff nth_list_update dest!: set_update_subset_insert [THEN subsetD])
qed (auto simp: mem_inv_def mem_block_def mem_ok_def)

section \<open>Properties\<close>

text \<open>C32: On an open file without faults, a block that was written reads back as written, every other
  block of the file reads as before, and the size of the file does not change.\<close>

theorem datafile_read_after_write:
  assumes "os_inv f" "os_writable f b" "os_readable f c" "length d = DATABLOCK_SIZE"
    "length buf = DATABLOCK_SIZE"
  shows "\<exists>f' f''. datafile_WriteBlock b d f = Ok (None, f') \<and>
    datafile_ReadBlock c buf f' = Ok ((None, if c = b then d else os_block f c), f'') \<and>
    os_block f'' = (os_block f)(b := d)"
proof -
  from osf.write_ok [OF assms(1,2,4)] obtain f' where
    w: "datafile_WriteBlock b d f = Ok (None, f')" "os_inv f'" "os_block f' = (os_block f)(b := d)"
      "os_readable f' = os_readable f" by (auto simp: osDataFile_def)
  with osf.read_ok [OF w(2) _ assms(5), of c] assms(3) show ?thesis
    by (auto simp: osDataFile_def)
qed

definition zero_file :: "nat \<Rightarrow> osFile" where
  "zero_file n = \<lparr>fbytes = (\<lambda>_. 0), fsize = n * DATABLOCK_SIZE, foffset = 0, fopen = True,
     ffault = (\<lambda>_. None)\<rparr>"

lemma zero_file_ok [simp]:
  "os_inv (zero_file n)" "os_readable (zero_file n) b \<longleftrightarrow> unat b < n"
  "os_writable (zero_file n) b \<longleftrightarrow> unat b < n"
proof -
  have "unat b * DATABLOCK_SIZE + DATABLOCK_SIZE \<le> n * DATABLOCK_SIZE \<longleftrightarrow> unat b < n"
    by (metis DATABLOCK_SIZE_pos Suc_le_eq add.commute mult_Suc mult_le_cancel2)
  then show "os_readable (zero_file n) b \<longleftrightarrow> unat b < n" "os_writable (zero_file n) b \<longleftrightarrow> unat b < n"
    by (simp_all add: os_readable_def os_writable_def zero_file_def file_fault_def)
qed (simp add: os_inv_def zero_file_def)

lemma datafile_read_after_write_witness:
  "\<exists>f' f''. datafile_WriteBlock 1 (replicate DATABLOCK_SIZE 7) (zero_file 2) = Ok (None, f') \<and>
    datafile_ReadBlock 1 (replicate DATABLOCK_SIZE 0) f' = Ok ((None, replicate DATABLOCK_SIZE 7), f'')"
  using datafile_read_after_write [of "zero_file 2" 1 1 "replicate DATABLOCK_SIZE 7" "replicate DATABLOCK_SIZE 0"]
  by auto

text \<open>
  The fake file \<open>m\<close> and the file \<open>f\<close> have the same blocks: \<open>f\<close> is open, reports no faults, and is as
  long as the blocks of \<open>m\<close> together.
\<close>

definition same_file :: "memFile \<Rightarrow> osFile \<Rightarrow> bool" where
  "same_file m f \<longleftrightarrow> os_inv f \<and> fopen f \<and> (\<forall>x. ffault f x = None) \<and> (\<forall>d \<in> set m. length d = DATABLOCK_SIZE) \<and>
     length m * DATABLOCK_SIZE = fsize f \<and> (\<forall>b. unat b < length m \<longrightarrow> mem_block m b = os_block f b)"

lemma same_file_inside:
  assumes "same_file m f" "unat b < length m"
  shows "os_readable f b" "os_writable f b"
proof -
  have "unat b * DATABLOCK_SIZE + DATABLOCK_SIZE \<le> fsize f"
    using assms unfolding same_file_def by (metis Suc_leI add.commute mult_Suc mult_le_mono1)
  then show "os_readable f b" "os_writable f b"
    using assms(1) by (simp_all add: same_file_def os_readable_def os_writable_def file_fault_def)
qed

lemma same_file_write:
  assumes "same_file m f" "unat b < length m" "length d = DATABLOCK_SIZE"
  shows "\<exists>f' m'. datafile_WriteBlock b d f = Ok (None, f') \<and> mem_WriteBlock b d m = Ok (None, m') \<and>
    same_file m' f' \<and> m' = m[unat b := d]"
proof -
  from datafile_WriteBlock_Ok [OF same_file_inside(2) [OF assms(1,2)] assms(3)] obtain f' where
    f': "datafile_WriteBlock b d f = Ok (None, f')" "fsize f' = fsize f" "fopen f' = fopen f"
      "ffault f' = ffault f" "os_block f' = (os_block f)(b := d)" by blast
  have "mem_WriteBlock b d m = Ok (None, m[unat b := d])"
    using assms by (simp add: mem_WriteBlock_def copyInto_def seq_def bind_def same_file_def)
  moreover have "same_file (m[unat b := d]) f'"
    using assms f'(2-) set_update_subset_insert [of m "unat b" d]
    by (auto simp: same_file_def os_inv_def mem_block_def nth_list_update)
  ultimately show ?thesis using f'(1) by blast
qed

lemma same_file_outside:
  assumes "same_file m f" "length m \<le> unat b" "length d = DATABLOCK_SIZE"
  shows "datafile_ReadBlock b d f = Ok ((Some ErrEOF, d), f\<lparr>foffset := unat b * DATABLOCK_SIZE\<rparr>)"
    "\<exists>f'. datafile_WriteBlock b d f = Ok (None, f') \<and> fsize f' = (unat b + 1) * DATABLOCK_SIZE \<and> os_block f' b = d"
proof -
  have le: "fsize f \<le> unat b * DATABLOCK_SIZE"
    using assms(1,2) unfolding same_file_def by (metis mult_le_mono1)
  have ne: "d \<noteq> []" using assms(3) by (auto simp: DATABLOCK_SIZE_def)
  have ff: "file_fault x f = None" for x using assms(1) by (simp add: same_file_def file_fault_def)
  show "datafile_ReadBlock b d f = Ok ((Some ErrEOF, d), f\<lparr>foffset := unat b * DATABLOCK_SIZE\<rparr>)"
    using le ne assms(3) ff by (simp add: datafile_ReadBlock_def datafile_seek_def fileSeek_def bind_def
        limitedRead_block fileRead_def)
  let ?o = "unat b * DATABLOCK_SIZE"
  let ?f = "f\<lparr>fbytes := (\<lambda>i. if ?o \<le> i \<and> i < ?o + length d then d ! (i - ?o)
      else if fsize f \<le> i \<and> i < ?o then 0 else fbytes f i), fsize := max (fsize f) (?o + length d),
      foffset := ?o + length d\<rparr>"
  have fg: "file_fault x ?f = None" for x using ff [of x] by (simp add: file_fault_def split: if_splits)
  have "datafile_WriteBlock b d f = Ok (None, ?f)"
    using assms ff fg by (simp add: datafile_WriteBlock_def datafile_seek_def fileSeek_def bind_def
        fileWrite_def fileSync_def Let_def cong: if_cong)
  moreover have "fsize ?f = (unat b + 1) * DATABLOCK_SIZE" using le assms(3) by simp
  moreover have "os_block ?f b = d" using assms(3) by (intro nth_equalityI) (simp_all add: os_block_def)
  ultimately show "\<exists>f'. datafile_WriteBlock b d f = Ok (None, f') \<and> fsize f' = (unat b + 1) * DATABLOCK_SIZE \<and>
      os_block f' b = d" by blast
qed

text \<open>C33: Where the file for tests agrees with an open file of the operating system that has the same
  blocks and reports no faults, and where it does not. A block of the file is written the same way
  through both, and the two have the same blocks after it; while there are fewer than 65536 blocks
  it is also read the same way. Past the end both reads are errors (of different kinds), but the
  fake write panics and the write to the file succeeds and extends it. With 65536 blocks
  \<open>uint16(len)\<close> is 0 and the fake refuses every read, which the file does not. Closing the fake does
  nothing; the closed file refuses reads.\<close>

theorem fake_file_agrees:
  assumes "same_file m f" "length m \<le> 65536" "length d = DATABLOCK_SIZE"
  shows "(unat b < length m \<longrightarrow> (\<exists>f' m'. datafile_WriteBlock b d f = Ok (None, f') \<and>
      mem_WriteBlock b d m = Ok (None, m') \<and> same_file m' f' \<and> m' = m[unat b := d])) \<and>
    (unat b < length m \<longrightarrow> (\<exists>f'. datafile_ReadBlock b d f = Ok ((None, m ! unat b), f') \<and> same_file m f')) \<and>
    (unat b < length m \<and> length m < 65536 \<longrightarrow> mem_ReadBlock b d m = Ok ((None, m ! unat b), m)) \<and>
    (length m \<le> unat b \<longrightarrow>
      (\<exists>f'. datafile_ReadBlock b d f = Ok ((Some ErrEOF, d), f') \<and> same_file m f') \<and>
      mem_ReadBlock b d m = Ok ((Some (ErrInvalidBlock b), d), m) \<and>
      mem_WriteBlock b d m = Panic IndexOutOfRange \<and>
      (\<exists>f'. datafile_WriteBlock b d f = Ok (None, f') \<and> fsize f' = (unat b + 1) * DATABLOCK_SIZE \<and> os_block f' b = d)) \<and>
    (length m = 65536 \<longrightarrow> mem_ReadBlock b d m = Ok ((Some (ErrInvalidBlock b), d), m)) \<and>
    mem_Close m = Ok (None, m) \<and>
    (\<exists>f'. datafile_Close f = Ok (None, f') \<and> datafile_ReadBlock b d f' = Ok ((Some ErrClosed, d), f'))"
proof (intro conjI impI)
  have off: "same_file m (f\<lparr>foffset := n\<rparr>)" for n
    using assms(1) by (simp add: same_file_def os_inv_def os_block_def)
  note rd = datafile_ReadBlock_Ok [OF same_file_inside(1) [OF assms(1)] assms(3)]
  { assume b: "unat b < length m"
    show "\<exists>f' m'. datafile_WriteBlock b d f = Ok (None, f') \<and> mem_WriteBlock b d m = Ok (None, m') \<and>
        same_file m' f' \<and> m' = m[unat b := d]"
      by (rule same_file_write [OF assms(1) b assms(3)])
    show "\<exists>f'. datafile_ReadBlock b d f = Ok ((None, m ! unat b), f') \<and> same_file m f'"
      using rd [OF b] off b assms(1) by (simp add: same_file_def mem_block_def) }
  { assume "unat b < length m \<and> length m < 65536"
    then show "mem_ReadBlock b d m = Ok ((None, m ! unat b), m)"
      using assms(1,3) mem_ge_iff [of m b]
      by (simp add: mem_ReadBlock_def same_file_def mem_inv_def mem_ok_def) }
  { assume b: "length m \<le> unat b"
    note o = same_file_outside [OF assms(1) b assms(3)]
    show "\<exists>f'. datafile_ReadBlock b d f = Ok ((Some ErrEOF, d), f') \<and> same_file m f'" using o(1) off by simp
    have "length m < 65536" using b unsigned_less [of b, where ?'a = nat] by simp
    then show "mem_ReadBlock b d m = Ok ((Some (ErrInvalidBlock b), d), m)"
      using b assms(1) mem_ge_iff [of m b] by (simp add: mem_ReadBlock_def same_file_def mem_inv_def mem_ok_def)
    show "mem_WriteBlock b d m = Panic IndexOutOfRange" using b by (simp add: mem_WriteBlock_def)
    show "\<exists>f'. datafile_WriteBlock b d f = Ok (None, f') \<and> fsize f' = (unat b + 1) * DATABLOCK_SIZE \<and> os_block f' b = d"
      by (rule o(2)) }
  show "mem_ReadBlock b d m = Ok ((Some (ErrInvalidBlock b), d), m)" if "length m = 65536"
  proof -
    have "(of_nat (length m) :: u16) = 0" unfolding word_of_nat_eq_0_iff that by simp
    then show ?thesis unfolding mem_ReadBlock_def by simp
  qed
  show "mem_Close m = Ok (None, m)" by (simp add: mem_Close_def)
  show "\<exists>f'. datafile_Close f = Ok (None, f') \<and> datafile_ReadBlock b d f' = Ok ((Some ErrClosed, d), f')"
    using assms(1) by (simp add: datafile_Close_def fileClose_def same_file_def file_fault_def
        datafile_ReadBlock_def datafile_seek_def fileSeek_def bind_def)
qed

lemma fake_file_agrees_witness:
  "(\<exists>f'. datafile_ReadBlock 1 (replicate DATABLOCK_SIZE 9) (zero_file 2) = Ok ((None, replicate DATABLOCK_SIZE 0), f')) \<and>
    mem_ReadBlock 1 (replicate DATABLOCK_SIZE 9) (NewFakeDataFile 2) =
      Ok ((None, replicate DATABLOCK_SIZE 0), NewFakeDataFile 2) \<and>
    mem_WriteBlock 5 (replicate DATABLOCK_SIZE 9) (NewFakeDataFile 2) = Panic IndexOutOfRange \<and>
    mem_ReadBlock 1 (replicate DATABLOCK_SIZE 9) (NewFakeDataFile 65536) =
      Ok ((Some (ErrInvalidBlock 1), replicate DATABLOCK_SIZE 9), NewFakeDataFile 65536)"
proof -
  let ?d = "replicate DATABLOCK_SIZE (9 :: byte)"
  have s: "same_file (NewFakeDataFile n) (zero_file n)" for n
    using zero_file_ok(1) [of n] by (auto simp: same_file_def mem_block_def NewFakeDataFile_def os_block_def
        zero_file_def map_replicate_const)
  have l: "length (NewFakeDataFile n) = n" "unat b < n \<Longrightarrow> NewFakeDataFile n ! unat b = replicate DATABLOCK_SIZE 0"
    for n and b :: u16 by (simp_all add: NewFakeDataFile_def)
  show ?thesis
    using fake_file_agrees [OF s, of 2 ?d 1] fake_file_agrees [OF s, of 2 ?d 5]
      fake_file_agrees [OF s, of 65536 ?d 1] l(1) l(2) [of 1 2] by auto
qed

end
