(* ===== verification/RecordBlock.thy ===== *)
theory RecordBlock
  imports DataBlock DataFile
begin

text \<open>
  The record block of \<open>src/src/simplejsondb/core/record_block.go\<close>: a data block whose last bytes hold
  its utilization, the number of its record headers and the neighbours in the list of blocks, with
  the headers of 12 bytes growing down from there and the data of the records growing up from byte
  0. Every method is a program over the bytes of the block. A \<open>uint16\<close> expression of the source is
  a word expression here, with its wrap-around, and the conversions to \<open>int\<close> stand where the source
  has them.
\<close>

section \<open>The code\<close>

record RowID =
  DataBlockID :: u16
  LocalID :: u16

definition HEADER_OFFSET_RECORD_ID :: int where "HEADER_OFFSET_RECORD_ID = 0"
definition HEADER_OFFSET_RECORD_START :: int where "HEADER_OFFSET_RECORD_START = 4"
definition HEADER_OFFSET_RECORD_SIZE :: int where
  "HEADER_OFFSET_RECORD_SIZE = HEADER_OFFSET_RECORD_START + 2"
definition HEADER_OFFSET_CHAINED_ROW_BLOCK_ID :: int where
  "HEADER_OFFSET_CHAINED_ROW_BLOCK_ID = HEADER_OFFSET_RECORD_SIZE + 2"
definition HEADER_OFFSET_CHAINED_ROW_LOCAL_ID :: int where
  "HEADER_OFFSET_CHAINED_ROW_LOCAL_ID = HEADER_OFFSET_CHAINED_ROW_BLOCK_ID + 2"
definition RECORD_HEADER_SIZE :: u16 where "RECORD_HEADER_SIZE = 12"
definition MIN_UTILIZATION :: u16 where "MIN_UTILIZATION = 8"
definition POS_UTILIZATION :: int where "POS_UTILIZATION = int DATABLOCK_SIZE - 2"
definition POS_TOTAL_HEADERS :: int where "POS_TOTAL_HEADERS = POS_UTILIZATION - 2"
definition POS_NEXT_BLOCK :: int where "POS_NEXT_BLOCK = POS_TOTAL_HEADERS - 2"
definition POS_PREV_BLOCK :: int where "POS_PREV_BLOCK = POS_NEXT_BLOCK - 2"
definition POS_FIRST_HEADER :: u16 where
  "POS_FIRST_HEADER = of_int POS_PREV_BLOCK - RECORD_HEADER_SIZE"

record recordBlockHeader =
  localID :: u16
  recordID :: u32
  startsAt :: u16
  hsize :: u16
  chainedBlockID :: u16
  chainedLocalID :: u16

text \<open>The conversion \<open>int(x)\<close> of a \<open>uint16\<close>.\<close>

definition int16 :: "u16 \<Rightarrow> int" where
  "int16 x = int (unat x)"

definition Utilization :: "(bytes, u16) prog" where
  "Utilization =
     bind (ReadUint16 POS_UTILIZATION) (\<lambda>utilization.
     ret (if utilization = 0 then MIN_UTILIZATION else utilization))"

definition parseHeader :: "u16 \<Rightarrow> (bytes, recordBlockHeader) prog" where
  "parseHeader l =
     (let headerPtr = int16 (POS_FIRST_HEADER - l * RECORD_HEADER_SIZE) in
      bind (ReadUint32 (headerPtr + HEADER_OFFSET_RECORD_ID)) (\<lambda>rid.
      bind (ReadUint16 (headerPtr + HEADER_OFFSET_RECORD_START)) (\<lambda>st.
      bind (ReadUint16 (headerPtr + HEADER_OFFSET_RECORD_SIZE)) (\<lambda>sz.
      bind (ReadUint16 (headerPtr + HEADER_OFFSET_CHAINED_ROW_BLOCK_ID)) (\<lambda>cb.
      bind (ReadUint16 (headerPtr + HEADER_OFFSET_CHAINED_ROW_LOCAL_ID)) (\<lambda>cl.
      ret \<lparr>localID = l, recordID = rid, startsAt = st, hsize = sz,
           chainedBlockID = cb, chainedLocalID = cl\<rparr>))))))"

fun parse_loop :: "nat list \<Rightarrow> (bytes, recordBlockHeader list) prog" where
  "parse_loop [] = ret []"
| "parse_loop (l # ls) =
     bind (parseHeader (of_nat l)) (\<lambda>header. bind (parse_loop ls) (\<lambda>rest. ret (header # rest)))"

definition parseHeaders :: "(bytes, recordBlockHeader list) prog" where
  "parseHeaders =
     bind (ReadUint16 POS_TOTAL_HEADERS) (\<lambda>totalHeaders. parse_loop [0 ..< unat totalHeaders])"

text \<open>
  \<open>defragment\<close>. The headers are pointers, so a header that was shifted is seen shifted by the rest of
  the loop: \<open>shift_loop\<close> returns the headers after the current one as it leaves them, and
  \<open>defrag_loop\<close> goes on with them. Its first argument counts the headers left. The Go library's
  \<open>sort.Sort\<close> is the argument \<open>srt\<close>; it need not be stable.
\<close>

definition copy_bytes :: "u16 \<Rightarrow> u16 \<Rightarrow> u16 \<Rightarrow> (bytes, unit) prog" where
  "copy_bytes dataPtr start n =
     for_upto [0 ..< unat n] (\<lambda>p.
       bind (readByte (int16 (start + of_nat p))) (\<lambda>b. writeByte (int16 (dataPtr + of_nat p)) b))"

definition header_pos :: "u16 \<Rightarrow> int" where
  "header_pos l = int16 POS_FIRST_HEADER - int16 l * int16 RECORD_HEADER_SIZE"

fun shift_loop :: "recordBlockHeader list \<Rightarrow> u16 \<Rightarrow> (bytes, u16 \<times> recordBlockHeader list) prog" where
  "shift_loop [] dataPtr = ret (dataPtr, [])"
| "shift_loop (n # ns) dataPtr =
     seq (copy_bytes dataPtr (startsAt n) (hsize n))
    (seq (Write (header_pos (localID n) + HEADER_OFFSET_RECORD_START) (VUint16 dataPtr))
    (bind (shift_loop ns (dataPtr + hsize n)) (\<lambda>(p, ns').
     ret (p, n\<lparr>startsAt := dataPtr\<rparr> # ns'))))"

fun defrag_loop :: "nat \<Rightarrow> recordBlockHeader list \<Rightarrow> (bytes, unit) prog" where
  "defrag_loop (Suc k) (h # rest) =
     (if recordID h \<noteq> 0 \<and> hsize h \<noteq> 0 then defrag_loop k rest
      else if recordID h = 0 \<and> hsize h = 0 then defrag_loop k rest
      else bind (shift_loop rest (startsAt h)) (\<lambda>(dataPtr, rest').
           seq (Write (header_pos (localID h) + HEADER_OFFSET_RECORD_SIZE) (VUint16 0))
          (seq (Write (header_pos (localID h) + HEADER_OFFSET_RECORD_START) (VUint16 dataPtr))
               (defrag_loop k rest'))))"
| "defrag_loop _ _ = ret ()"

type_synonym sorter = "recordBlockHeader list \<Rightarrow> recordBlockHeader list"

definition defragment :: "sorter \<Rightarrow> recordBlockHeader list \<Rightarrow> (bytes, unit) prog" where
  "defragment srt headers = defrag_loop (length headers) (srt headers)"

text \<open>The writes at the end of \<open>Add\<close>: the header and the data of the new record.\<close>

definition writeRecord :: "u32 \<Rightarrow> bytes \<Rightarrow> u16 \<Rightarrow> nat \<Rightarrow> u16 \<Rightarrow> (bytes, u16) prog" where
  "writeRecord rid data lid len utilization =
     (let size = of_nat (length data);
          startsAt = utilization - MIN_UTILIZATION - of_nat len * RECORD_HEADER_SIZE;
          newHeaderPtr = int16 POS_FIRST_HEADER - int16 (lid * RECORD_HEADER_SIZE) in
     seq (Write (newHeaderPtr + HEADER_OFFSET_RECORD_ID) (VUint32 rid))
    (seq (Write (newHeaderPtr + HEADER_OFFSET_RECORD_START) (VUint16 startsAt))
    (seq (Write (newHeaderPtr + HEADER_OFFSET_RECORD_SIZE) (VUint16 size))
    (seq (Write (newHeaderPtr + HEADER_OFFSET_CHAINED_ROW_BLOCK_ID) (VUint16 0))
    (seq (Write (newHeaderPtr + HEADER_OFFSET_CHAINED_ROW_LOCAL_ID) (VUint16 0))
    (seq (Write (int16 startsAt) (VBytes data))
    (seq (Write POS_UTILIZATION (VUint16 (utilization + size)))
    (seq (Write POS_TOTAL_HEADERS (VUint16 (of_nat len)))
         (ret lid)))))))))"

definition Add :: "sorter \<Rightarrow> u32 \<Rightarrow> bytes \<Rightarrow> (bytes, u16) prog" where
  "Add srt rid data =
     bind parseHeaders (\<lambda>hs.
     bind Utilization (\<lambda>utilization.
     let headers = srt hs;
         found = (case find (\<lambda>h. recordID h = rid) headers of
                    Some h \<Rightarrow> Some h
                  | None \<Rightarrow> find (\<lambda>h. recordID h = 0) headers) in
     (case found of
        None \<Rightarrow> writeRecord rid data (of_nat (length headers)) (length headers + 1)
                  (utilization + RECORD_HEADER_SIZE)
      | Some h \<Rightarrow> seq (defragment srt headers)
                    (writeRecord rid data (localID h) (length headers) utilization))))"

definition Remove :: "u16 \<Rightarrow> (bytes, goerror option) prog" where
  "Remove l =
     bind (ReadUint16 POS_TOTAL_HEADERS) (\<lambda>totalHeaders.
     if totalHeaders \<le> l then ret (Some (ErrInvalidLocalIDOf l totalHeaders))
     else
      (let headerPtr = int16 POS_FIRST_HEADER - int16 (l * RECORD_HEADER_SIZE) in
       seq (ReadUint32 (headerPtr + HEADER_OFFSET_RECORD_ID))
      (seq (ReadUint16 (headerPtr + HEADER_OFFSET_RECORD_START))
      (seq (ReadUint16 (headerPtr + HEADER_OFFSET_RECORD_SIZE))
      (seq (Write (headerPtr + HEADER_OFFSET_RECORD_ID) (VUint32 0))
      (bind Utilization (\<lambda>u.
       bind (ReadUint16 (headerPtr + HEADER_OFFSET_RECORD_SIZE)) (\<lambda>sz.
       seq (Write POS_UTILIZATION (VUint16 (u - sz))) (ret None)))))))))"

definition SoftRemove :: "u16 \<Rightarrow> (bytes, goerror option) prog" where
  "SoftRemove l =
     bind (ReadUint16 POS_TOTAL_HEADERS) (\<lambda>totalHeaders.
     if totalHeaders \<le> l then ret (Some (ErrInvalidLocalIDOf l totalHeaders))
     else
      (let headerPtr = header_pos l in
       seq (ReadUint32 (headerPtr + HEADER_OFFSET_RECORD_ID))
      (seq (ReadUint16 (headerPtr + HEADER_OFFSET_RECORD_START))
      (seq (ReadUint16 (headerPtr + HEADER_OFFSET_RECORD_SIZE))
      (bind (ReadUint16 (headerPtr + HEADER_OFFSET_RECORD_SIZE)) (\<lambda>currrentRecordSize.
       seq (Write (headerPtr + HEADER_OFFSET_RECORD_SIZE) (VUint32 0))
      (seq (Write (headerPtr + HEADER_OFFSET_CHAINED_ROW_BLOCK_ID) (VUint32 0))
      (seq (Write (headerPtr + HEADER_OFFSET_CHAINED_ROW_LOCAL_ID) (VUint32 0))
      (bind Utilization (\<lambda>u.
       seq (Write POS_UTILIZATION (VUint16 (u - currrentRecordSize))) (ret None)))))))))))"

definition Clear :: "(bytes, unit) prog" where
  "Clear = seq (Write POS_TOTAL_HEADERS (VUint16 0)) (Write POS_UTILIZATION (VUint16 0))"

definition TotalRecords :: "(bytes, int) prog" where
  "TotalRecords =
     bind parseHeaders (\<lambda>hs. ret (foldl (\<lambda>records h. if recordID h \<noteq> 0 then records + 1 else records) 0 hs))"

definition NextBlockID :: "(bytes, u16) prog" where
  "NextBlockID = ReadUint16 POS_NEXT_BLOCK"

definition SetNextBlockID :: "u16 \<Rightarrow> (bytes, unit) prog" where
  "SetNextBlockID blockID = Write POS_NEXT_BLOCK (VUint16 blockID)"

definition PrevBlockID :: "(bytes, u16) prog" where
  "PrevBlockID = ReadUint16 POS_PREV_BLOCK"

definition SetPrevBlockID :: "u16 \<Rightarrow> (bytes, unit) prog" where
  "SetPrevBlockID blockID = Write POS_PREV_BLOCK (VUint16 blockID)"

text \<open>The check that \<open>ChainedRowID\<close>, \<open>SetChainedRowID\<close> and \<open>ReadRecordData\<close> start with.\<close>

definition checkLocalID :: "u16 \<Rightarrow> (int \<Rightarrow> (bytes, goerror + 'a) prog) \<Rightarrow> (bytes, goerror + 'a) prog" where
  "checkLocalID l k =
     bind (ReadUint16 POS_TOTAL_HEADERS) (\<lambda>totalHeaders.
     if totalHeaders \<le> l then ret (Inl (ErrInvalidLocalID l))
     else
       bind (ReadUint32 (header_pos l + HEADER_OFFSET_RECORD_ID)) (\<lambda>rid.
       if rid = 0 then ret (Inl (ErrInvalidLocalID l)) else k (header_pos l)))"

definition ChainedRowID :: "u16 \<Rightarrow> (bytes, goerror + RowID) prog" where
  "ChainedRowID l =
     checkLocalID l (\<lambda>headerPtr.
       bind (ReadUint16 (headerPtr + HEADER_OFFSET_CHAINED_ROW_BLOCK_ID)) (\<lambda>cb.
       bind (ReadUint16 (headerPtr + HEADER_OFFSET_CHAINED_ROW_LOCAL_ID)) (\<lambda>cl.
       ret (Inr \<lparr>DataBlockID = cb, LocalID = cl\<rparr>))))"

definition SetChainedRowID :: "u16 \<Rightarrow> RowID \<Rightarrow> (bytes, goerror + unit) prog" where
  "SetChainedRowID l rowID =
     checkLocalID l (\<lambda>headerPtr.
       seq (Write (headerPtr + HEADER_OFFSET_CHAINED_ROW_BLOCK_ID) (VUint16 (DataBlockID rowID)))
      (seq (Write (headerPtr + HEADER_OFFSET_CHAINED_ROW_LOCAL_ID) (VUint16 (LocalID rowID)))
           (ret (Inr ()))))"

definition ReadRecordData :: "u16 \<Rightarrow> (bytes, goerror + bytes) prog" where
  "ReadRecordData l =
     checkLocalID l (\<lambda>headerPtr.
       bind (ReadUint16 (headerPtr + HEADER_OFFSET_RECORD_START)) (\<lambda>start.
       bind (ReadUint16 (headerPtr + HEADER_OFFSET_RECORD_SIZE)) (\<lambda>recordSize.
       bind (readSlice (int16 start) (int16 (start + recordSize))) (\<lambda>data. ret (Inr data)))))"

definition FreeSpaceForInsert :: "(bytes, u16) prog" where
  "FreeSpaceForInsert =
     bind Utilization (\<lambda>u.
     bind parseHeaders (\<lambda>hs.
     let freeSpace = of_nat DATABLOCK_SIZE - u;
         newHeaderNeeded = \<not> (\<exists>h \<in> set hs. recordID h = 0) in
     ret (if newHeaderNeeded
          then (if freeSpace > RECORD_HEADER_SIZE then freeSpace - RECORD_HEADER_SIZE else 0)
          else freeSpace)))"

fun ids_loop :: "nat list \<Rightarrow> (bytes, u32 list) prog" where
  "ids_loop [] = ret []"
| "ids_loop (i # is) =
     bind (ReadUint32 (header_pos (of_nat i) + HEADER_OFFSET_RECORD_ID)) (\<lambda>rid.
     bind (ids_loop is) (\<lambda>ids. ret (rid # ids)))"

definition IDs :: "(bytes, u32 list) prog" where
  "IDs = bind (ReadUint16 POS_TOTAL_HEADERS) (\<lambda>totalHeaders. ids_loop [0 ..< unat totalHeaders])"

section \<open>The headers of a block\<close>

lemmas rb_consts = HEADER_OFFSET_RECORD_ID_def HEADER_OFFSET_RECORD_START_def HEADER_OFFSET_RECORD_SIZE_def
  HEADER_OFFSET_CHAINED_ROW_BLOCK_ID_def HEADER_OFFSET_CHAINED_ROW_LOCAL_ID_def RECORD_HEADER_SIZE_def
  MIN_UTILIZATION_def

lemma rb_positions [simp]:
  "POS_UTILIZATION = 4094" "POS_TOTAL_HEADERS = 4092" "POS_NEXT_BLOCK = 4090" "POS_PREV_BLOCK = 4088"
  "POS_FIRST_HEADER = 4076"
  by (simp_all add: POS_UTILIZATION_def POS_TOTAL_HEADERS_def POS_NEXT_BLOCK_def POS_PREV_BLOCK_def
      POS_FIRST_HEADER_def DATABLOCK_SIZE_def RECORD_HEADER_SIZE_def)

lemma header_pos_eq: "header_pos l = 4076 - 12 * int (unat l)"
  by (simp add: header_pos_def int16_def RECORD_HEADER_SIZE_def)

lemma header_pos_word:
  assumes "unat l < 340"
  shows "int16 POS_FIRST_HEADER - int16 (l * RECORD_HEADER_SIZE) = header_pos l"
    "int16 (POS_FIRST_HEADER - l * RECORD_HEADER_SIZE) = header_pos l"
proof -
  have m: "unat (l * 12) = unat l * 12" using assms unat_mult_no_wrap [of l "12 :: u16"] by simp
  then show "int16 POS_FIRST_HEADER - int16 (l * RECORD_HEADER_SIZE) = header_pos l"
    by (simp add: header_pos_eq int16_def RECORD_HEADER_SIZE_def)
  have "unat (4076 - l * 12 :: u16) = 4076 - unat l * 12"
    using m assms unat_minus_no_wrap [of "l * 12" "4076 :: u16"] by simp
  then show "int16 (POS_FIRST_HEADER - l * RECORD_HEADER_SIZE) = header_pos l"
    using assms by (simp add: header_pos_eq int16_def RECORD_HEADER_SIZE_def)
qed

lemma header_pos_bounds:
  "header_pos l \<le> 4076" "unat l < 340 \<Longrightarrow> 8 \<le> header_pos l"
  by (simp_all add: header_pos_eq)

lemma header_pos_apart:
  "unat l < unat m \<Longrightarrow> header_pos m + 12 \<le> header_pos l"
  by (simp add: header_pos_eq)

text \<open>Header \<open>l\<close> as the bytes of the block hold it, and the number of headers.\<close>

definition hdr :: "bytes \<Rightarrow> u16 \<Rightarrow> recordBlockHeader" where
  "hdr d l = \<lparr>localID = l, recordID = u32_at (header_pos l) d, startsAt = u16_at (header_pos l + 4) d,
     hsize = u16_at (header_pos l + 6) d, chainedBlockID = u16_at (header_pos l + 8) d,
     chainedLocalID = u16_at (header_pos l + 10) d\<rparr>"

definition nheaders :: "bytes \<Rightarrow> nat" where
  "nheaders d = unat (u16_at 4092 d)"

definition local_ids :: "nat \<Rightarrow> u16 list" where
  "local_ids n = map of_nat [0 ..< n]"

definition util_of :: "bytes \<Rightarrow> u16" where
  "util_of d = (if u16_at 4094 d = 0 then 8 else u16_at 4094 d)"

lemma localID_hdr [simp]: "localID (hdr d l) = l"
  by (simp add: hdr_def)

lemma set_local_ids: "n \<le> 65536 \<Longrightarrow> l \<in> set (local_ids n) \<longleftrightarrow> unat l < n"
proof -
  assume n: "n \<le> 65536"
  have "l \<in> set (local_ids n) \<longleftrightarrow> (\<exists>k < n. l = of_nat k)" by (auto simp: local_ids_def)
  also have "\<dots> \<longleftrightarrow> unat l < n"
    using n by (auto intro: exI [of _ "unat l"])
  finally show ?thesis .
qed

lemma length_local_ids [simp]: "length (local_ids n) = n"
  by (simp add: local_ids_def)

lemma distinct_local_ids: "n \<le> 65536 \<Longrightarrow> distinct (local_ids n)"
  by (auto simp: local_ids_def distinct_map inj_on_def) (metis unat_of_nat_u16 order_less_le_trans)

lemma local_ids_Suc [simp]: "local_ids (Suc n) = local_ids n @ [of_nat n]"
  by (simp add: local_ids_def)

subsection \<open>Writes to a header and to the data\<close>

lemma hdr_put:
  assumes "length d = 4096" "unat l < 340" "unat m < 340"
  shows "hdr (put_at (header_pos l) (be32_put r) d) m = (if m = l then (hdr d l)\<lparr>recordID := r\<rparr> else hdr d m)"
    "hdr (put_at (header_pos l + 4) (be16_put v) d) m = (if m = l then (hdr d l)\<lparr>startsAt := v\<rparr> else hdr d m)"
    "hdr (put_at (header_pos l + 6) (be16_put v) d) m = (if m = l then (hdr d l)\<lparr>hsize := v\<rparr> else hdr d m)"
    "hdr (put_at (header_pos l + 8) (be16_put v) d) m = (if m = l then (hdr d l)\<lparr>chainedBlockID := v\<rparr> else hdr d m)"
    "hdr (put_at (header_pos l + 10) (be16_put v) d) m = (if m = l then (hdr d l)\<lparr>chainedLocalID := v\<rparr> else hdr d m)"
proof -
  have b: "8 \<le> header_pos l" "header_pos l \<le> 4076" "8 \<le> header_pos m" "header_pos m \<le> 4076"
    using assms header_pos_bounds by auto
  have apart: "m = l \<or> header_pos m + 12 \<le> header_pos l \<or> header_pos l + 12 \<le> header_pos m"
    using header_pos_apart [of l m] header_pos_apart [of m l] by (cases "unat l" "unat m" rule: linorder_cases) auto
  show "hdr (put_at (header_pos l) (be32_put r) d) m = (if m = l then (hdr d l)\<lparr>recordID := r\<rparr> else hdr d m)"
    "hdr (put_at (header_pos l + 4) (be16_put v) d) m = (if m = l then (hdr d l)\<lparr>startsAt := v\<rparr> else hdr d m)"
    "hdr (put_at (header_pos l + 6) (be16_put v) d) m = (if m = l then (hdr d l)\<lparr>hsize := v\<rparr> else hdr d m)"
    "hdr (put_at (header_pos l + 8) (be16_put v) d) m = (if m = l then (hdr d l)\<lparr>chainedBlockID := v\<rparr> else hdr d m)"
    "hdr (put_at (header_pos l + 10) (be16_put v) d) m = (if m = l then (hdr d l)\<lparr>chainedLocalID := v\<rparr> else hdr d m)"
    using apart b assms(1) by (auto simp: hdr_def)
qed

lemma hdr_put_outside:
  assumes "length d = 4096" "unat m < 340" "0 \<le> q" "q + int (length xs) \<le> 4096"
    "q + int (length xs) \<le> header_pos m \<or> header_pos m + 12 \<le> q"
  shows "hdr (put_at q xs d) m = hdr d m"
  using assms header_pos_bounds [of m] by (auto simp: hdr_def)

subsection \<open>What the methods that read compute\<close>

lemma Utilization_Ok: "length d = 4096 \<Longrightarrow> Utilization d = Ok (util_of d, d)"
  by (simp add: Utilization_def bind_def ReadUint16_Ok util_of_def MIN_UTILIZATION_def)

lemma parseHeader_Ok:
  assumes "length d = 4096" "unat l < 340"
  shows "parseHeader l d = Ok (hdr d l, d)"
  using assms header_pos_bounds [of l] header_pos_word(2) [OF assms(2)]
  by (simp add: parseHeader_def Let_def bind_def ReadUint16_Ok ReadUint32_Ok hdr_def rb_consts)

lemma parse_loop_Ok:
  assumes "length d = 4096" "\<forall>l \<in> set ls. l < 340"
  shows "parse_loop ls d = Ok (map (\<lambda>l. hdr d (of_nat l)) ls, d)"
  using assms by (induction ls) (simp_all add: bind_def parseHeader_Ok)

definition hdrs :: "bytes \<Rightarrow> recordBlockHeader list" where
  "hdrs d = map (hdr d) (local_ids (nheaders d))"

lemma parseHeaders_Ok:
  assumes "length d = 4096" "nheaders d \<le> 340"
  shows "parseHeaders d = Ok (hdrs d, d)"
  using assms
  by (simp add: parseHeaders_def bind_def ReadUint16_Ok nheaders_def parse_loop_Ok hdrs_def local_ids_def comp_def)

lemma checkLocalID_Ok:
  assumes "length d = 4096" "nheaders d \<le> 340"
  shows "checkLocalID l k d =
    (if nheaders d \<le> unat l \<or> recordID (hdr d l) = 0 then Ok (Inl (ErrInvalidLocalID l), d)
     else k (header_pos l) d)"
  using assms header_pos_bounds [of l]
  by (auto simp: checkLocalID_def bind_def ReadUint16_Ok ReadUint32_Ok nheaders_def word_le_nat_alt hdr_def rb_consts)

lemma ChainedRowID_Ok:
  assumes "length d = 4096" "nheaders d \<le> 340"
  shows "ChainedRowID l d =
    (if nheaders d \<le> unat l \<or> recordID (hdr d l) = 0 then Ok (Inl (ErrInvalidLocalID l), d)
     else Ok (Inr \<lparr>DataBlockID = chainedBlockID (hdr d l), LocalID = chainedLocalID (hdr d l)\<rparr>, d))"
  using assms header_pos_bounds [of l]
  by (auto simp: ChainedRowID_def checkLocalID_Ok bind_def ReadUint16_Ok hdr_def rb_consts)

lemma ReadRecordData_Ok:
  assumes "length d = 4096" "nheaders d \<le> 340" "unat (startsAt (hdr d l)) + unat (hsize (hdr d l)) \<le> 4096"
  shows "ReadRecordData l d =
    (if nheaders d \<le> unat l \<or> recordID (hdr d l) = 0 then Ok (Inl (ErrInvalidLocalID l), d)
     else Ok (Inr (bytes_at (int16 (startsAt (hdr d l))) (unat (hsize (hdr d l))) d), d))"
proof (cases "nheaders d \<le> unat l \<or> recordID (hdr d l) = 0")
  case False
  then have hp: "8 \<le> header_pos l" "header_pos l \<le> 4076" using assms header_pos_bounds [of l] by auto
  have "unat (startsAt (hdr d l) + hsize (hdr d l)) = unat (startsAt (hdr d l)) + unat (hsize (hdr d l))"
    using assms(3) by (intro unat_plus_no_wrap) simp
  with False assms hp show ?thesis
    by (simp add: ReadRecordData_def checkLocalID_Ok bind_def ReadUint16_Ok rb_consts hdr_def int16_def readSlice_Ok nat_add_distrib)
qed (use assms in \<open>auto simp: ReadRecordData_def checkLocalID_Ok\<close>)

end
