(* ===== verification/BPlusTree.thy ===== *)
theory BPlusTree
  imports Prelude
begin

text \<open>
  The B+ tree of \<open>src/src/bplustree/bplus_tree.go\<close> over the interfaces of \<open>exports.go\<close>. The tree
  keeps no nodes of its own: an adapter loads, creates and frees them, and the methods of a node
  are calls on a handle that the adapter gave out. The interfaces are records of programs over the
  adapter's state \<open>'s\<close>; \<open>'l\<close> and \<open>'b\<close> are the handles of leaves and branches, keys are 32 bit
  and node IDs 16 bit wide, as in both implementations. A walk along the pointers stored in nodes
  takes fuel.
\<close>

section \<open>The interfaces\<close>

datatype ('l, 'b) node = LeafNode 'l | BranchNode 'b

record 'i LeafEntry =
  leKey :: u32
  leItem :: 'i

record BranchEntry =
  beKey :: u32
  LowerThanKeyNodeID :: u16
  GreaterThanOrEqualToKeyNodeID :: u16

text \<open>
  A nil node is \<open>None\<close>. The iteration \<open>All\<close> of a node is defined below from the number of keys
  and the entry at an index, which is how both implementations run it.
\<close>

record ('s, 'l, 'b, 'i) NodeAdapter =
  LoadRoot :: "('s, ('l, 'b) node option) prog"
  IsRoot :: "('l, 'b) node \<Rightarrow> ('s, bool) prog"
  InitRoot :: "('s, 'l) prog"
  SetRoot :: "('l, 'b) node \<Rightarrow> ('s, unit) prog"
  LoadNode :: "u16 \<Rightarrow> ('s, ('l, 'b) node option) prog"
  Free :: "('l, 'b) node \<Rightarrow> ('s, unit) prog"
  CreateBranch :: "BranchEntry \<Rightarrow> ('s, 'b) prog"
  LoadBranch :: "u16 \<Rightarrow> ('s, 'b option) prog"
  LoadFirstLeaf :: "('s, 'l option) prog"
  CreateLeaf :: "('s, 'l) prog"
  LoadLeaf :: "u16 \<Rightarrow> ('s, 'l option) prog"
  NodeID :: "('l, 'b) node \<Rightarrow> ('s, u16) prog"
  ParentID :: "('l, 'b) node \<Rightarrow> ('s, u16) prog"
  SetParentID :: "('l, 'b) node \<Rightarrow> u16 \<Rightarrow> ('s, unit) prog"
  LeftSiblingID :: "('l, 'b) node \<Rightarrow> ('s, u16) prog"
  SetLeftSiblingID :: "('l, 'b) node \<Rightarrow> u16 \<Rightarrow> ('s, unit) prog"
  RightSiblingID :: "('l, 'b) node \<Rightarrow> ('s, u16) prog"
  SetRightSiblingID :: "('l, 'b) node \<Rightarrow> u16 \<Rightarrow> ('s, unit) prog"
  KeyAt :: "('l, 'b) node \<Rightarrow> int \<Rightarrow> ('s, u32) prog"
  TotalKeys :: "('l, 'b) node \<Rightarrow> ('s, int) prog"
  LeafInsertAt :: "'l \<Rightarrow> int \<Rightarrow> 'i LeafEntry \<Rightarrow> ('s, unit) prog"
  ItemAt :: "'l \<Rightarrow> int \<Rightarrow> ('s, 'i) prog"
  LeafDeleteAt :: "'l \<Rightarrow> int \<Rightarrow> ('s, 'i LeafEntry) prog"
  LeafDeleteFrom :: "'l \<Rightarrow> int \<Rightarrow> ('s, 'i LeafEntry list) prog"
  LeafNth :: "'l \<Rightarrow> nat \<Rightarrow> ('s, 'i LeafEntry) prog"
  BranchInsertAt :: "'b \<Rightarrow> int \<Rightarrow> u32 \<Rightarrow> u16 \<Rightarrow> ('s, unit) prog"
  BranchUnshift :: "'b \<Rightarrow> u32 \<Rightarrow> u16 \<Rightarrow> ('s, unit) prog"
  EntryAt :: "'b \<Rightarrow> int \<Rightarrow> ('s, BranchEntry) prog"
  BranchDeleteAt :: "'b \<Rightarrow> int \<Rightarrow> ('s, BranchEntry) prog"
  BranchDeleteFrom :: "'b \<Rightarrow> int \<Rightarrow> ('s, BranchEntry list) prog"
  BranchShift :: "'b \<Rightarrow> ('s, unit) prog"
  ReplaceKeyAt :: "'b \<Rightarrow> int \<Rightarrow> u32 \<Rightarrow> ('s, unit) prog"
  BranchNth :: "'b \<Rightarrow> nat \<Rightarrow> ('s, BranchEntry) prog"

record ('s, 'l, 'b, 'i) bPlusTree =
  adapter :: "('s, 'l, 'b, 'i) NodeAdapter"
  leafCapacity :: int
  halfLeafCapacity :: int
  branchCapacity :: int
  halfBranchCapacity :: int

text \<open>\<open>/\<close> truncates towards zero.\<close>

definition half :: "int \<Rightarrow> int" where
  "half c = (if 0 \<le> c then c div 2 else - ((- c) div 2))"

definition newTree :: "('s, 'l, 'b, 'i) NodeAdapter \<Rightarrow> int \<Rightarrow> int \<Rightarrow> ('s, 'l, 'b, 'i) bPlusTree" where
  "newTree A lc bc = \<lparr>adapter = A, leafCapacity = lc, halfLeafCapacity = half lc,
     branchCapacity = bc, halfBranchCapacity = half bc\<rparr>"

section \<open>Iterating and searching\<close>

fun iterate :: "(nat \<Rightarrow> ('s, 'e) prog) \<Rightarrow> nat list \<Rightarrow> ('a \<Rightarrow> 'e \<Rightarrow> ('s, 'a) prog) \<Rightarrow> 'a \<Rightarrow> ('s, 'a) prog" where
  "iterate entry [] iterator acc = ret acc"
| "iterate entry (i # is) iterator acc =
     bind (entry i) (\<lambda>e. bind (iterator acc e) (iterate entry is iterator))"

text \<open>The local variables that the iterator closes over are the accumulator.\<close>

definition leafAll :: "('s, 'l, 'b, 'i) NodeAdapter \<Rightarrow> 'l \<Rightarrow> ('a \<Rightarrow> 'i LeafEntry \<Rightarrow> ('s, 'a) prog) \<Rightarrow> 'a
    \<Rightarrow> ('s, 'a) prog" where
  "leafAll A l iterator acc =
     bind (TotalKeys A (LeafNode l)) (\<lambda>totalKeys. iterate (LeafNth A l) [0 ..< nat totalKeys] iterator acc)"

definition branchAll :: "('s, 'l, 'b, 'i) NodeAdapter \<Rightarrow> 'b \<Rightarrow> ('a \<Rightarrow> BranchEntry \<Rightarrow> ('s, 'a) prog) \<Rightarrow> 'a
    \<Rightarrow> ('s, 'a) prog" where
  "branchAll A b iterator acc =
     bind (TotalKeys A (BranchNode b)) (\<lambda>totalKeys. iterate (BranchNth A b) [0 ..< nat totalKeys] iterator acc)"

text \<open>\<open>sort.Search\<close> of the Go library on the range from \<open>i\<close> to \<open>j\<close>.\<close>

function sortSearch :: "(int \<Rightarrow> ('s, bool) prog) \<Rightarrow> int \<Rightarrow> int \<Rightarrow> ('s, int) prog" where
  "sortSearch f i j =
     (if i < j then
        bind (f ((i + j) div 2)) (\<lambda>b.
          if \<not> b then sortSearch f ((i + j) div 2 + 1) j else sortSearch f i ((i + j) div 2))
      else ret i)"
  by pat_completeness auto
termination by (relation "measure (\<lambda>(f, i, j). nat (j - i))") auto

declare sortSearch.simps [simp del]

definition findOnNode :: "('s, 'l, 'b, 'i) bPlusTree \<Rightarrow> ('l, 'b) node \<Rightarrow> u32 \<Rightarrow> ('s, int \<times> bool) prog" where
  "findOnNode t node key =
     (let A = adapter t in
      bind (TotalKeys A node) (\<lambda>totalKeys.
      bind (sortSearch (\<lambda>i. bind (KeyAt A node i) (\<lambda>k. ret (\<not> k < key))) 0 totalKeys) (\<lambda>insertPosition.
      if insertPosition < totalKeys then
        bind (KeyAt A node insertPosition) (\<lambda>k. ret (insertPosition, k = key))
      else ret (insertPosition, False))))"

text \<open>The use of a pointer that may be nil.\<close>

fun deref :: "'a option \<Rightarrow> ('s, 'a) prog" where
  "deref None = panic NilDereference"
| "deref (Some x) = ret x"

fun findLeafForKey :: "('s, 'l, 'b, 'i) bPlusTree \<Rightarrow> nat \<Rightarrow> ('l, 'b) node \<Rightarrow> u32 \<Rightarrow> ('s, 'l) prog" where
  "findLeafForKey t n (LeafNode leaf) key = ret leaf"
| "findLeafForKey t 0 (BranchNode b) key = nofuel"
| "findLeafForKey t (Suc n) (BranchNode b) key =
     (let A = adapter t in
      bind (findOnNode t (BranchNode b) key) (\<lambda>(position, _).
      bind (TotalKeys A (BranchNode b)) (\<lambda>totalKeys.
      let position = (if position \<ge> totalKeys then position - 1 else position) in
      bind (EntryAt A b position) (\<lambda>entry.
      let childID = (if key < beKey entry then LowerThanKeyNodeID entry
                     else GreaterThanOrEqualToKeyNodeID entry) in
      bind (LoadNode A childID) (\<lambda>node.
      bind (deref node) (\<lambda>node. findLeafForKey t n node key))))))"

fun findMinimum :: "('s, 'l, 'b, 'i) bPlusTree \<Rightarrow> nat \<Rightarrow> 'b \<Rightarrow> ('s, u32) prog" where
  "findMinimum t 0 branch = nofuel"
| "findMinimum t (Suc n) branch =
     (let A = adapter t in
      bind (EntryAt A branch 0) (\<lambda>entry.
      bind (LoadNode A (LowerThanKeyNodeID entry)) (\<lambda>node. case node of
        Some (LeafNode leaf) \<Rightarrow> KeyAt A (LeafNode leaf) 0
      | Some (BranchNode b) \<Rightarrow> findMinimum t n b
      | None \<Rightarrow> panic BadTypeAssertion)))"

text \<open>\<open>findMaximum\<close> follows the lower pointer of the last entry, not the greater one.\<close>

fun findMaximum :: "('s, 'l, 'b, 'i) bPlusTree \<Rightarrow> nat \<Rightarrow> 'b \<Rightarrow> ('s, u32) prog" where
  "findMaximum t 0 branch = nofuel"
| "findMaximum t (Suc n) branch =
     (let A = adapter t in
      bind (TotalKeys A (BranchNode branch)) (\<lambda>totalKeys.
      bind (EntryAt A branch (totalKeys - 1)) (\<lambda>entry.
      bind (LoadNode A (LowerThanKeyNodeID entry)) (\<lambda>node. case node of
        Some (LeafNode leaf) \<Rightarrow>
          bind (TotalKeys A (LeafNode leaf)) (\<lambda>totalKeys. KeyAt A (LeafNode leaf) (totalKeys - 1))
      | Some (BranchNode b) \<Rightarrow> findMaximum t n b
      | None \<Rightarrow> panic BadTypeAssertion))))"

section \<open>Siblings and parents\<close>

definition updateParentID :: "('s, 'l, 'b, 'i) bPlusTree \<Rightarrow> u16 \<Rightarrow> u16 \<Rightarrow> ('s, unit) prog" where
  "updateParentID t childID newParentID =
     bind (LoadNode (adapter t) childID) (\<lambda>node. case node of
       Some node \<Rightarrow> SetParentID (adapter t) node newParentID
     | None \<Rightarrow> ret ())"

definition setSiblings :: "('s, 'l, 'b, 'i) bPlusTree \<Rightarrow> ('l, 'b) node \<Rightarrow> ('l, 'b) node \<Rightarrow> ('s, unit) prog" where
  "setSiblings t left right =
     (let A = adapter t in
      bind (RightSiblingID A left) (\<lambda>rightID.
      bind (LoadNode A rightID) (\<lambda>oldRight.
      seq (case oldRight of
             Some old \<Rightarrow>
               bind (NodeID A right) (\<lambda>nid.
               seq (SetLeftSiblingID A old nid)
              (bind (NodeID A old) (\<lambda>oldID. SetRightSiblingID A right oldID)))
           | None \<Rightarrow> ret ())
     (bind (NodeID A right) (\<lambda>nid.
      seq (SetRightSiblingID A left nid)
     (bind (NodeID A left) (\<lambda>leftID. SetLeftSiblingID A right leftID)))))))"

definition allocateNewRoot :: "('s, 'l, 'b, 'i) bPlusTree \<Rightarrow> u32 \<Rightarrow> ('l, 'b) node \<Rightarrow> ('l, 'b) node \<Rightarrow> ('s, 'b) prog" where
  "allocateNewRoot t key ltNode gteNode =
     (let A = adapter t in
      bind (NodeID A ltNode) (\<lambda>ltID.
      bind (NodeID A gteNode) (\<lambda>gteID.
      bind (CreateBranch A \<lparr>beKey = key, LowerThanKeyNodeID = ltID, GreaterThanOrEqualToKeyNodeID = gteID\<rparr>) (\<lambda>parent.
      bind (NodeID A (BranchNode parent)) (\<lambda>parentID.
      seq (SetParentID A ltNode parentID)
     (seq (SetParentID A gteNode parentID)
     (seq (SetRoot A (BranchNode parent)) (ret parent))))))))"

text \<open>A sibling counts only if it has the same parent.\<close>

definition sameParent :: "('s, 'l, 'b, 'i) NodeAdapter \<Rightarrow> ('l, 'b) node \<Rightarrow> ('x \<Rightarrow> ('l, 'b) node) \<Rightarrow> 'x option
    \<Rightarrow> ('s, 'x option) prog" where
  "sameParent A node mk other =
     (case other of
        None \<Rightarrow> ret None
      | Some x \<Rightarrow>
          bind (ParentID A node) (\<lambda>p. bind (ParentID A (mk x)) (\<lambda>q. ret (if p = q then Some x else None))))"

definition rightBranchSibling :: "('s, 'l, 'b, 'i) bPlusTree \<Rightarrow> 'b \<Rightarrow> ('s, 'b option) prog" where
  "rightBranchSibling t left =
     (let A = adapter t in bind (RightSiblingID A (BranchNode left)) (\<lambda>nid.
      bind (LoadBranch A nid) (sameParent A (BranchNode left) BranchNode)))"

definition leftBranchSibling :: "('s, 'l, 'b, 'i) bPlusTree \<Rightarrow> 'b \<Rightarrow> ('s, 'b option) prog" where
  "leftBranchSibling t right =
     (let A = adapter t in bind (LeftSiblingID A (BranchNode right)) (\<lambda>nid.
      bind (LoadBranch A nid) (sameParent A (BranchNode right) BranchNode)))"

definition rightLeafSibling :: "('s, 'l, 'b, 'i) bPlusTree \<Rightarrow> 'l \<Rightarrow> ('s, 'l option) prog" where
  "rightLeafSibling t left =
     (let A = adapter t in bind (RightSiblingID A (LeafNode left)) (\<lambda>nid.
      bind (LoadLeaf A nid) (sameParent A (LeafNode left) LeafNode)))"

definition leftLeafSibling :: "('s, 'l, 'b, 'i) bPlusTree \<Rightarrow> 'l \<Rightarrow> ('s, 'l option) prog" where
  "leftLeafSibling t right =
     (let A = adapter t in bind (LeftSiblingID A (LeafNode right)) (\<lambda>nid.
      bind (LoadLeaf A nid) (sameParent A (LeafNode right) LeafNode)))"

section \<open>Finding\<close>

text \<open>The leaf for a key, once the root is known.\<close>

definition leafForKey :: "('s, 'l, 'b, 'i) bPlusTree \<Rightarrow> nat \<Rightarrow> ('l, 'b) node \<Rightarrow> u32 \<Rightarrow> ('s, 'l) prog" where
  "leafForKey t n root key =
     (case root of LeafNode leafRoot \<Rightarrow> ret leafRoot | BranchNode b \<Rightarrow> findLeafForKey t n (BranchNode b) key)"

definition treeFind :: "('s, 'l, 'b, 'i) bPlusTree \<Rightarrow> nat \<Rightarrow> u32 \<Rightarrow> ('s, goerror + 'i) prog" where
  "treeFind t n key =
     (let A = adapter t in
      bind (LoadRoot A) (\<lambda>root. case root of
        None \<Rightarrow> ret (Inl (ErrKeyNotFound key))
      | Some root \<Rightarrow>
          bind (leafForKey t n root key) (\<lambda>leaf.
          bind (findOnNode t (LeafNode leaf) key) (\<lambda>(index, found).
          if \<not> found then ret (Inl (ErrKeyNotFound key))
          else bind (ItemAt A leaf index) (\<lambda>item. ret (Inr item))))))"

fun allLoop :: "('s, 'l, 'b, 'i) bPlusTree \<Rightarrow> nat \<Rightarrow> 'l option \<Rightarrow> ('a \<Rightarrow> 'i LeafEntry \<Rightarrow> ('s, 'a) prog) \<Rightarrow> 'a
    \<Rightarrow> ('s, 'a) prog" where
  "allLoop t n None iterator acc = ret acc"
| "allLoop t 0 (Some leaf) iterator acc = nofuel"
| "allLoop t (Suc n) (Some leaf) iterator acc =
     (let A = adapter t in
      bind (RightSiblingID A (LeafNode leaf)) (\<lambda>rightID.
      bind (leafAll A leaf iterator acc) (\<lambda>acc.
      bind (LoadLeaf A rightID) (\<lambda>next. allLoop t n next iterator acc))))"

definition treeAll :: "('s, 'l, 'b, 'i) bPlusTree \<Rightarrow> nat \<Rightarrow> ('a \<Rightarrow> 'i LeafEntry \<Rightarrow> ('s, 'a) prog) \<Rightarrow> 'a \<Rightarrow> ('s, 'a) prog" where
  "treeAll t n iterator acc =
     bind (LoadFirstLeaf (adapter t)) (\<lambda>leaf. allLoop t n leaf iterator acc)"

section \<open>Inserting\<close>

fun insertEntries :: "('s, 'l, 'b, 'i) NodeAdapter \<Rightarrow> 'l \<Rightarrow> int \<Rightarrow> 'i LeafEntry list \<Rightarrow> ('s, unit) prog" where
  "insertEntries A leaf i [] = ret ()"
| "insertEntries A leaf i (e # es) = seq (LeafInsertAt A leaf i e) (insertEntries A leaf (i + 1) es)"

definition leafSplit :: "('s, 'l, 'b, 'i) bPlusTree \<Rightarrow> 'l \<Rightarrow> int \<Rightarrow> 'i LeafEntry \<Rightarrow> ('s, 'l) prog" where
  "leafSplit t leaf position entry =
     (let A = adapter t;
          splitFrom = (if position < halfLeafCapacity t then halfLeafCapacity t - 1 else halfLeafCapacity t) in
      bind (LeafDeleteFrom A leaf splitFrom) (\<lambda>rightEntries.
      bind (CreateLeaf A) (\<lambda>right.
      seq (insertEntries A right 0 rightEntries)
     (seq (if position < halfLeafCapacity t then LeafInsertAt A leaf position entry
           else LeafInsertAt A right (position - halfLeafCapacity t) entry)
     (seq (setSiblings t (LeafNode leaf) (LeafNode right))
          (ret right))))))"

fun insertBranchEntries :: "('s, 'l, 'b, 'i) NodeAdapter \<Rightarrow> 'b \<Rightarrow> int \<Rightarrow> BranchEntry list \<Rightarrow> ('s, unit) prog" where
  "insertBranchEntries A b i [] = ret ()"
| "insertBranchEntries A b i (e # es) =
     seq (BranchInsertAt A b (i + 1) (beKey e) (GreaterThanOrEqualToKeyNodeID e)) (insertBranchEntries A b (i + 1) es)"

text \<open>
  \<open>rightEntries[0]\<close> of an empty slice panics; the entry that a lower pointer is assigned to is the
  code's own copy.
\<close>

definition branchSplit :: "('s, 'l, 'b, 'i) bPlusTree \<Rightarrow> nat \<Rightarrow> 'b \<Rightarrow> int \<Rightarrow> u32 \<Rightarrow> ('l, 'b) node
    \<Rightarrow> ('s, 'b \<times> u32) prog" where
  "branchSplit t n branch position key greaterThanOrEqToKeyNode =
     (let A = adapter t; h = halfBranchCapacity t;
          splitFrom = (if position < h then h - 1 else h) in
      bind (BranchDeleteFrom A branch splitFrom) (\<lambda>rightEntries.
      seq (if position = -1 then panic (PanicMsg ''Something weird is going on'')
           else if position < h then
             bind (NodeID A greaterThanOrEqToKeyNode) (\<lambda>nid. BranchInsertAt A branch position key nid)
           else ret ())
     (bind (if position = h then
              (case rightEntries of
                 [] \<Rightarrow> panic IndexOutOfRange
               | e # es \<Rightarrow> bind (NodeID A greaterThanOrEqToKeyNode) (\<lambda>nid. ret (e\<lparr>LowerThanKeyNodeID := nid\<rparr> # es)))
            else (case rightEntries of [] \<Rightarrow> panic IndexOutOfRange | e # es \<Rightarrow> ret es)) (\<lambda>rightEntries.
      case rightEntries of
        [] \<Rightarrow> panic IndexOutOfRange
      | e # es \<Rightarrow>
          bind (CreateBranch A e) (\<lambda>right.
          seq (insertBranchEntries A right 0 es)
         (seq (if position > h then
                 bind (NodeID A greaterThanOrEqToKeyNode) (\<lambda>nid. BranchInsertAt A right (position - h - 1) key nid)
               else ret ())
         (seq (setSiblings t (BranchNode branch) (BranchNode right))
         (bind (EntryAt A right 0) (\<lambda>first.
          bind (NodeID A (BranchNode right)) (\<lambda>rightID.
          seq (updateParentID t (LowerThanKeyNodeID first) rightID)
         (seq (branchAll A right (\<lambda>_ entry.
                 bind (NodeID A (BranchNode right)) (updateParentID t (GreaterThanOrEqualToKeyNodeID entry))) ())
         (bind (findMinimum t n right) (\<lambda>parentKey. ret (right, parentKey))))))))))))))"

fun insertOnBranch :: "('s, 'l, 'b, 'i) bPlusTree \<Rightarrow> nat \<Rightarrow> 'b \<Rightarrow> int \<Rightarrow> u32 \<Rightarrow> ('l, 'b) node \<Rightarrow> ('s, unit) prog" where
  "insertOnBranch t 0 branch position key greaterThanOrEqToKeyNode = nofuel"
| "insertOnBranch t (Suc n) branch position key greaterThanOrEqToKeyNode =
     (let A = adapter t in
      bind (TotalKeys A (BranchNode branch)) (\<lambda>totalKeys.
      if totalKeys < branchCapacity t then
        bind (NodeID A greaterThanOrEqToKeyNode) (\<lambda>nid. BranchInsertAt A branch position key nid)
      else
        bind (branchSplit t n branch position key greaterThanOrEqToKeyNode) (\<lambda>(right, parentKey).
        bind (IsRoot A (BranchNode branch)) (\<lambda>isRoot.
        if isRoot then
          bind (allocateNewRoot t parentKey (BranchNode branch) (BranchNode right)) (\<lambda>_. ret ())
        else
          bind (ParentID A (BranchNode branch)) (\<lambda>pid.
          bind (LoadBranch A pid) (\<lambda>parent.
          bind (deref parent) (\<lambda>parent.
          bind (NodeID A (BranchNode parent)) (\<lambda>parentID.
          seq (SetParentID A (BranchNode right) parentID)
         (bind (findOnNode t (BranchNode parent) parentKey) (\<lambda>(insertPosition, found).
          if found then panic (PanicMsg ''Attempted to add a key that already exists on a branch'')
          else insertOnBranch t n parent insertPosition parentKey (BranchNode right)))))))))))"

definition insertOnLeaf :: "('s, 'l, 'b, 'i) bPlusTree \<Rightarrow> nat \<Rightarrow> 'l \<Rightarrow> int \<Rightarrow> 'i LeafEntry \<Rightarrow> ('s, unit) prog" where
  "insertOnLeaf t n leaf position entry =
     (let A = adapter t in
      bind (TotalKeys A (LeafNode leaf)) (\<lambda>totalKeys.
      if totalKeys < leafCapacity t then LeafInsertAt A leaf position entry
      else
        bind (leafSplit t leaf position entry) (\<lambda>right.
        bind (KeyAt A (LeafNode right) 0) (\<lambda>parentKey.
        bind (IsRoot A (LeafNode leaf)) (\<lambda>isRoot.
        if isRoot then
          bind (allocateNewRoot t parentKey (LeafNode leaf) (LeafNode right)) (\<lambda>_. ret ())
        else
          bind (ParentID A (LeafNode leaf)) (\<lambda>pid.
          bind (LoadBranch A pid) (\<lambda>parent.
          bind (deref parent) (\<lambda>parent.
          bind (findOnNode t (BranchNode parent) parentKey) (\<lambda>(insertPosition, found).
          if found then panic (PanicMsg ''Tried to insert a duplicate key on a branch'')
          else
            bind (NodeID A (BranchNode parent)) (\<lambda>parentID.
            seq (SetParentID A (LeafNode right) parentID)
                (insertOnBranch t n parent insertPosition parentKey (LeafNode right))))))))))))"

definition treeInsert :: "('s, 'l, 'b, 'i) bPlusTree \<Rightarrow> nat \<Rightarrow> u32 \<Rightarrow> 'i \<Rightarrow> ('s, goerror option) prog" where
  "treeInsert t n key item =
     (let A = adapter t in
      bind (LoadRoot A) (\<lambda>root.
      bind (case root of None \<Rightarrow> InitRoot A | Some root \<Rightarrow> leafForKey t n root key) (\<lambda>leaf.
      bind (findOnNode t (LeafNode leaf) key) (\<lambda>(insertPosition, found).
      if found then ret (Some (ErrKeyExists key))
      else seq (insertOnLeaf t n leaf insertPosition \<lparr>leKey = key, leItem = item\<rparr>) (ret None)))))"

definition treeInit :: "('s, 'l, 'b, 'i) bPlusTree \<Rightarrow> ('s, unit) prog" where
  "treeInit t = bind (InitRoot (adapter t)) (\<lambda>_. ret ())"

section \<open>Deleting\<close>

definition pipeFromRightLeaf :: "('s, 'l, 'b, 'i) bPlusTree \<Rightarrow> 'l \<Rightarrow> 'l \<Rightarrow> ('s, unit) prog" where
  "pipeFromRightLeaf t right left =
     (let A = adapter t in
      bind (LeafDeleteAt A right 0) (\<lambda>firstFromRight.
      bind (TotalKeys A (LeafNode left)) (\<lambda>totalKeys.
      seq (LeafInsertAt A left totalKeys firstFromRight)
     (bind (ParentID A (LeafNode right)) (\<lambda>pid.
      bind (LoadBranch A pid) (\<lambda>parent.
      bind (deref parent) (\<lambda>parent.
      bind (findOnNode t (BranchNode parent) (leKey firstFromRight)) (\<lambda>(position, found).
      bind (KeyAt A (LeafNode right) 0) (\<lambda>k.
      ReplaceKeyAt A parent (if \<not> found then position - 1 else position) k)))))))))"

definition pipeFromLeftLeaf :: "('s, 'l, 'b, 'i) bPlusTree \<Rightarrow> 'l \<Rightarrow> 'l \<Rightarrow> ('s, unit) prog" where
  "pipeFromLeftLeaf t left right =
     (let A = adapter t in
      bind (KeyAt A (LeafNode right) 0) (\<lambda>firstFromRight.
      bind (TotalKeys A (LeafNode left)) (\<lambda>totalKeys.
      bind (LeafDeleteAt A left (totalKeys - 1)) (\<lambda>lastFromLeft.
      seq (LeafInsertAt A right 0 lastFromLeft)
     (bind (ParentID A (LeafNode right)) (\<lambda>pid.
      bind (LoadBranch A pid) (\<lambda>parent.
      bind (deref parent) (\<lambda>parent.
      bind (findOnNode t (BranchNode parent) firstFromRight) (\<lambda>(position, found).
      ReplaceKeyAt A parent (if \<not> found then position - 1 else position) (leKey lastFromLeft))))))))))"

definition pipeFromRightBranch :: "('s, 'l, 'b, 'i) bPlusTree \<Rightarrow> nat \<Rightarrow> 'b \<Rightarrow> 'b \<Rightarrow> ('s, unit) prog" where
  "pipeFromRightBranch t n right left =
     (let A = adapter t in
      bind (ParentID A (BranchNode right)) (\<lambda>pid.
      bind (LoadBranch A pid) (\<lambda>parent.
      bind (KeyAt A (BranchNode right) 0) (\<lambda>rightKey.
      bind (deref parent) (\<lambda>parent.
      bind (findOnNode t (BranchNode parent) rightKey) (\<lambda>(position, found).
      let positionToReplaceOnParent = (if \<not> found then position - 1 else position) in
      bind (KeyAt A (BranchNode parent) positionToReplaceOnParent) (\<lambda>leftKey.
      bind (BranchDeleteAt A right 0) (\<lambda>firstFromRight.
      bind (TotalKeys A (BranchNode left)) (\<lambda>totalKeys.
      seq (BranchInsertAt A left totalKeys leftKey (LowerThanKeyNodeID firstFromRight))
     (bind (LoadNode A (LowerThanKeyNodeID firstFromRight)) (\<lambda>child.
      bind (deref child) (\<lambda>child.
      bind (NodeID A (BranchNode left)) (\<lambda>leftID.
      seq (SetParentID A child leftID)
     (bind (findMinimum t n right) (\<lambda>parentKey.
      ReplaceKeyAt A parent positionToReplaceOnParent parentKey)))))))))))))))"

definition pipeFromLeftBranch :: "('s, 'l, 'b, 'i) bPlusTree \<Rightarrow> 'b \<Rightarrow> 'b \<Rightarrow> ('s, unit) prog" where
  "pipeFromLeftBranch t left right =
     (let A = adapter t in
      bind (ParentID A (BranchNode right)) (\<lambda>pid.
      bind (LoadBranch A pid) (\<lambda>parent.
      bind (KeyAt A (BranchNode right) 0) (\<lambda>firstKey.
      bind (deref parent) (\<lambda>parent.
      bind (findOnNode t (BranchNode parent) firstKey) (\<lambda>(position, found).
      let positionToReplaceOnParent = (if \<not> found then position - 1 else position) in
      bind (KeyAt A (BranchNode parent) positionToReplaceOnParent) (\<lambda>rightKey.
      bind (TotalKeys A (BranchNode left)) (\<lambda>totalKeys.
      bind (BranchDeleteAt A left (totalKeys - 1)) (\<lambda>lastFromLeft.
      seq (BranchUnshift A right rightKey (GreaterThanOrEqualToKeyNodeID lastFromLeft))
     (bind (LoadNode A (GreaterThanOrEqualToKeyNodeID lastFromLeft)) (\<lambda>child.
      bind (deref child) (\<lambda>child.
      bind (NodeID A (BranchNode right)) (\<lambda>rightID.
      seq (SetParentID A child rightID)
          (ReplaceKeyAt A parent positionToReplaceOnParent (beKey lastFromLeft)))))))))))))))"

text \<open>The loop of \<open>mergeBranches\<close> that empties the right node.\<close>

fun mergeLoop :: "('s, 'l, 'b, 'i) bPlusTree \<Rightarrow> nat \<Rightarrow> 'b \<Rightarrow> 'b \<Rightarrow> int \<Rightarrow> ('s, unit) prog" where
  "mergeLoop t n left right insertPosition =
     (let A = adapter t in
      bind (TotalKeys A (BranchNode right)) (\<lambda>totalKeys.
      if totalKeys > 0 then
        (case n of
           0 \<Rightarrow> nofuel
         | Suc n \<Rightarrow>
             bind (BranchDeleteAt A right 0) (\<lambda>entry.
             seq (BranchInsertAt A left insertPosition (beKey entry) (GreaterThanOrEqualToKeyNodeID entry))
            (bind (NodeID A (BranchNode left)) (\<lambda>leftID.
             seq (updateParentID t (GreaterThanOrEqualToKeyNodeID entry) leftID)
                 (mergeLoop t n left right (insertPosition + 1))))))
      else ret ()))"

declare mergeLoop.simps [simp del]

text \<open>The nodes that are joined, up to the call on the parent: \<open>mergeBranches\<close> returns its key.\<close>

definition joinBranches :: "('s, 'l, 'b, 'i) bPlusTree \<Rightarrow> nat \<Rightarrow> 'b \<Rightarrow> 'b \<Rightarrow> ('s, u32) prog" where
  "joinBranches t n left right =
     (let A = adapter t in
      bind (TotalKeys A (BranchNode left)) (\<lambda>insertPosition.
      bind (EntryAt A right 0) (\<lambda>entry.
      bind (findMinimum t n right) (\<lambda>leftKey.
      seq (BranchInsertAt A left insertPosition leftKey (LowerThanKeyNodeID entry))
     (bind (NodeID A (BranchNode left)) (\<lambda>leftID.
      seq (updateParentID t (LowerThanKeyNodeID entry) leftID)
     (seq (mergeLoop t n left right (insertPosition + 1))
     (bind (RightSiblingID A (BranchNode right)) (\<lambda>rightID.
      seq (SetRightSiblingID A (BranchNode left) rightID)
     (bind (rightBranchSibling t right) (\<lambda>newRight.
      seq (case newRight of
             Some newRight \<Rightarrow>
               bind (NodeID A (BranchNode left)) (\<lambda>leftID. SetLeftSiblingID A (BranchNode newRight) leftID)
           | None \<Rightarrow> ret ())
     (seq (Free A (BranchNode right)) (ret leftKey)))))))))))))"

text \<open>The end of both merges: a root with one key gives way to the merged node.\<close>

definition afterMerge :: "('s, 'l, 'b, 'i) bPlusTree \<Rightarrow> ('b \<Rightarrow> ('s, unit) prog) \<Rightarrow> ('l, 'b) node \<Rightarrow> ('s, unit) prog" where
  "afterMerge t deleteKey left =
     (let A = adapter t in
      bind (ParentID A left) (\<lambda>pid.
      bind (LoadBranch A pid) (\<lambda>parent.
      bind (deref parent) (\<lambda>parent.
      bind (IsRoot A (BranchNode parent)) (\<lambda>isRoot.
      bind (if isRoot then TotalKeys A (BranchNode parent) else ret 0) (\<lambda>totalKeys.
      if isRoot \<and> totalKeys = 1 then
        seq (Free A (BranchNode parent)) (SetRoot A left)
      else deleteKey parent))))))"

text \<open>
  \<open>deleteFromBranch\<close>, with \<open>mergeBranches\<close> and \<open>deleteKeyFromBranch\<close> in its tail: a merge deletes
  a key of the parent.
\<close>

definition deletePosition :: "('s, 'l, 'b, 'i) bPlusTree \<Rightarrow> 'b \<Rightarrow> u32 \<Rightarrow> ('s, int) prog" where
  "deletePosition t branch key =
     bind (findOnNode t (BranchNode branch) key) (\<lambda>(position, found).
     ret (if \<not> found then position - 1 else position))"

fun deleteFromBranch :: "('s, 'l, 'b, 'i) bPlusTree \<Rightarrow> nat \<Rightarrow> 'b \<Rightarrow> int \<Rightarrow> ('s, unit) prog"
  and mergeBranches :: "('s, 'l, 'b, 'i) bPlusTree \<Rightarrow> nat \<Rightarrow> 'b \<Rightarrow> 'b \<Rightarrow> ('s, unit) prog"
  and deleteKeyFromBranch :: "('s, 'l, 'b, 'i) bPlusTree \<Rightarrow> nat \<Rightarrow> 'b \<Rightarrow> u32 \<Rightarrow> ('s, unit) prog" where
  "deleteFromBranch t 0 branch position = nofuel"
| "deleteFromBranch t (Suc n) branch position =
     (let A = adapter t in
      seq (if position = 0 then BranchShift A branch
           else bind (BranchDeleteAt A branch position) (\<lambda>_. ret ()))
     (bind (TotalKeys A (BranchNode branch)) (\<lambda>totalKeys.
      bind (if totalKeys \<ge> halfBranchCapacity t then ret True else IsRoot A (BranchNode branch)) (\<lambda>done.
      if done then ret ()
      else
        bind (rightBranchSibling t branch) (\<lambda>right.
        bind (case right of Some r \<Rightarrow> TotalKeys A (BranchNode r) | None \<Rightarrow> ret 0) (\<lambda>rightKeys.
        if right \<noteq> None \<and> rightKeys > halfBranchCapacity t then pipeFromRightBranch t n (the right) branch
        else
          bind (leftBranchSibling t branch) (\<lambda>left.
          bind (case left of Some l \<Rightarrow> TotalKeys A (BranchNode l) | None \<Rightarrow> ret 0) (\<lambda>leftKeys.
          if left \<noteq> None \<and> leftKeys > halfBranchCapacity t then pipeFromLeftBranch t (the left) branch
          else (case (right, left) of
              (Some r, _) \<Rightarrow> mergeBranches t n branch r
            | (None, Some l) \<Rightarrow> mergeBranches t n l branch
            | (None, None) \<Rightarrow> panic (PanicMsg ''Something weird happened''))))))))))"
| "mergeBranches t 0 left right = nofuel"
| "mergeBranches t (Suc n) left right =
     bind (joinBranches t n left right) (\<lambda>leftKey.
     afterMerge t (\<lambda>parent. deleteKeyFromBranch t n parent leftKey) (BranchNode left))"
| "deleteKeyFromBranch t 0 branch key = nofuel"
| "deleteKeyFromBranch t (Suc n) branch key =
     bind (deletePosition t branch key) (deleteFromBranch t n branch)"

definition mergeLeaves :: "('s, 'l, 'b, 'i) bPlusTree \<Rightarrow> nat \<Rightarrow> 'l \<Rightarrow> 'l \<Rightarrow> ('s, unit) prog" where
  "mergeLeaves t n left right =
     (let A = adapter t in
      bind (TotalKeys A (LeafNode left)) (\<lambda>insertPosition.
      bind (leafAll A right (\<lambda>insertPosition entry.
              seq (LeafInsertAt A left insertPosition entry) (ret (insertPosition + 1))) insertPosition) (\<lambda>_.
      bind (RightSiblingID A (LeafNode right)) (\<lambda>rightID.
      bind (LoadLeaf A rightID) (\<lambda>newRight.
      seq (case newRight of
             Some newRight \<Rightarrow>
               bind (NodeID A (LeafNode left)) (\<lambda>leftID. SetLeftSiblingID A (LeafNode newRight) leftID)
           | None \<Rightarrow> ret ())
     (bind (RightSiblingID A (LeafNode right)) (\<lambda>rightID.
      seq (SetRightSiblingID A (LeafNode left) rightID)
     (bind (KeyAt A (LeafNode right) 0) (\<lambda>parentKeyCandidate.
      seq (Free A (LeafNode right))
          (afterMerge t (\<lambda>parent. deleteKeyFromBranch t n parent parentKeyCandidate) (LeafNode left)))))))))))"

definition deleteFromLeaf :: "('s, 'l, 'b, 'i) bPlusTree \<Rightarrow> nat \<Rightarrow> 'l \<Rightarrow> int \<Rightarrow> ('s, unit) prog" where
  "deleteFromLeaf t n leaf position =
     (let A = adapter t in
      bind (LeafDeleteAt A leaf position) (\<lambda>_.
      bind (TotalKeys A (LeafNode leaf)) (\<lambda>totalKeys.
      bind (if totalKeys \<ge> halfLeafCapacity t then ret True else IsRoot A (LeafNode leaf)) (\<lambda>done.
      if done then ret ()
      else
        bind (rightLeafSibling t leaf) (\<lambda>right.
        bind (case right of Some r \<Rightarrow> TotalKeys A (LeafNode r) | None \<Rightarrow> ret 0) (\<lambda>rightKeys.
        if right \<noteq> None \<and> rightKeys > halfLeafCapacity t then pipeFromRightLeaf t (the right) leaf
        else
          bind (leftLeafSibling t leaf) (\<lambda>left.
          bind (case left of Some l \<Rightarrow> TotalKeys A (LeafNode l) | None \<Rightarrow> ret 0) (\<lambda>leftKeys.
          if left \<noteq> None \<and> leftKeys > halfLeafCapacity t then pipeFromLeftLeaf t (the left) leaf
          else (case (right, left) of
              (Some r, _) \<Rightarrow> mergeLeaves t n leaf r
            | (None, Some l) \<Rightarrow> mergeLeaves t n l leaf
            | (None, None) \<Rightarrow> panic (PanicMsg ''Something weird happened''))))))))))"

definition treeDelete :: "('s, 'l, 'b, 'i) bPlusTree \<Rightarrow> nat \<Rightarrow> u32 \<Rightarrow> ('s, goerror option) prog" where
  "treeDelete t n key =
     (let A = adapter t in
      bind (LoadRoot A) (\<lambda>root. case root of
        None \<Rightarrow> ret (Some (ErrKeyNotFound key))
      | Some root \<Rightarrow>
          bind (leafForKey t n root key) (\<lambda>leaf.
          bind (findOnNode t (LeafNode leaf) key) (\<lambda>(deletePosition, found).
          if \<not> found then ret (Some (ErrKeyNotFound key))
          else seq (deleteFromLeaf t n leaf deletePosition) (ret None)))))"

end
