(* ===== verification/IndexNode.thy ===== *)
theory IndexNode
  imports RecordBlock BPlusTree
begin

text \<open>
  The nodes of the index as the bytes of a data block,
  \<open>src/src/simplejsondb/core/uint32_index_node_adapter.go\<close>: the layout and the operations of leaves
  and branches, as programs over the byte array.
\<close>

section \<open>Layout of a node\<close>

definition BTREE_TYPE_BRANCH :: byte where "BTREE_TYPE_BRANCH = 1"
definition BTREE_TYPE_LEAF :: byte where "BTREE_TYPE_LEAF = 2"

definition BTREE_POS_TYPE :: int where "BTREE_POS_TYPE = 0"
definition BTREE_POS_TOTAL_KEYS :: int where "BTREE_POS_TOTAL_KEYS = BTREE_POS_TYPE + 1"
definition BTREE_POS_PARENT_ID :: int where "BTREE_POS_PARENT_ID = BTREE_POS_TOTAL_KEYS + 2"
definition BTREE_POS_LEFT_SIBLING :: int where "BTREE_POS_LEFT_SIBLING = BTREE_POS_PARENT_ID + 2"
definition BTREE_POS_RIGHT_SIBLING :: int where "BTREE_POS_RIGHT_SIBLING = BTREE_POS_LEFT_SIBLING + 2"
definition BTREE_POS_ENTRIES_OFFSET :: int where "BTREE_POS_ENTRIES_OFFSET = BTREE_POS_RIGHT_SIBLING + 2"

definition BTREE_BRANCH_ENTRY_JUMP :: int where "BTREE_BRANCH_ENTRY_JUMP = 6"
definition BTREE_BRANCH_OFFSET_LEFT_BLOCK_ID :: int where "BTREE_BRANCH_OFFSET_LEFT_BLOCK_ID = 0"
definition BTREE_BRANCH_OFFSET_KEY :: int where "BTREE_BRANCH_OFFSET_KEY = 2"
definition BTREE_BRANCH_OFFSET_RIGHT_BLOCK_ID :: int where "BTREE_BRANCH_OFFSET_RIGHT_BLOCK_ID = 6"

definition BTREE_LEAF_ENTRY_SIZE :: int where "BTREE_LEAF_ENTRY_SIZE = 8"
definition BTREE_LEAF_OFFSET_KEY :: int where "BTREE_LEAF_OFFSET_KEY = 0"
definition BTREE_LEAF_OFFSET_BLOCK_ID :: int where "BTREE_LEAF_OFFSET_BLOCK_ID = 4"
definition BTREE_LEAF_OFFSET_LOCAL_ID :: int where "BTREE_LEAF_OFFSET_LOCAL_ID = 6"

lemmas node_layout = BTREE_POS_TYPE_def BTREE_POS_TOTAL_KEYS_def BTREE_POS_PARENT_ID_def
  BTREE_POS_LEFT_SIBLING_def BTREE_POS_RIGHT_SIBLING_def BTREE_POS_ENTRIES_OFFSET_def
  BTREE_BRANCH_ENTRY_JUMP_def BTREE_BRANCH_OFFSET_LEFT_BLOCK_ID_def BTREE_BRANCH_OFFSET_KEY_def
  BTREE_BRANCH_OFFSET_RIGHT_BLOCK_ID_def BTREE_LEAF_ENTRY_SIZE_def BTREE_LEAF_OFFSET_KEY_def
  BTREE_LEAF_OFFSET_BLOCK_ID_def BTREE_LEAF_OFFSET_LOCAL_ID_def

section \<open>The bytes of a node\<close>

definition isLeaf :: "(bytes, bool) prog" where
  "isLeaf = bind (ReadUint8 BTREE_POS_TYPE) (\<lambda>ty. ret (ty = BTREE_TYPE_LEAF))"

definition nodeTotalKeys :: "(bytes, int) prog" where
  "nodeTotalKeys = bind (ReadUint16 BTREE_POS_TOTAL_KEYS) (\<lambda>n. ret (int (unat n)))"

definition writeTotalKeys :: "int \<Rightarrow> (bytes, unit) prog" where
  "writeTotalKeys n = Write BTREE_POS_TOTAL_KEYS (VUint16 (of_int n))"

text \<open>What \<open>allocateBlock\<close> writes into a new node.\<close>

definition blankNode :: "(bytes, unit) prog" where
  "blankNode =
     seq (Write BTREE_POS_TOTAL_KEYS (VUint16 0))
    (seq (Write BTREE_POS_PARENT_ID (VUint16 0))
    (seq (Write BTREE_POS_RIGHT_SIBLING (VUint16 0))
         (Write BTREE_POS_LEFT_SIBLING (VUint16 0))))"

subsection \<open>Leaves\<close>

definition leafOffset :: "int \<Rightarrow> int" where
  "leafOffset pos = BTREE_POS_ENTRIES_OFFSET + pos * BTREE_LEAF_ENTRY_SIZE"

definition readLeafEntry :: "int \<Rightarrow> (bytes, RowID LeafEntry) prog" where
  "readLeafEntry entryOffset =
     bind (ReadUint32 (entryOffset + BTREE_LEAF_OFFSET_KEY)) (\<lambda>key.
     bind (ReadUint16 (entryOffset + BTREE_LEAF_OFFSET_BLOCK_ID)) (\<lambda>blockID.
     bind (ReadUint16 (entryOffset + BTREE_LEAF_OFFSET_LOCAL_ID)) (\<lambda>l.
     ret \<lparr>leKey = key, leItem = \<lparr>DataBlockID = blockID, LocalID = l\<rparr>\<rparr>)))"

definition leafInsertAt :: "int \<Rightarrow> RowID LeafEntry \<Rightarrow> (bytes, unit) prog" where
  "leafInsertAt pos entry =
     (let pos = (if pos = -1 then 0 else pos);
          writeOffset = leafOffset pos in
      bind nodeTotalKeys (\<lambda>totalKeys.
      seq (if_do (pos \<noteq> totalKeys) (Unshift writeOffset BTREE_LEAF_ENTRY_SIZE))
     (seq (Write (writeOffset + BTREE_LEAF_OFFSET_KEY) (VUint32 (leKey entry)))
     (seq (Write (writeOffset + BTREE_LEAF_OFFSET_BLOCK_ID) (VUint16 (DataBlockID (leItem entry))))
     (seq (Write (writeOffset + BTREE_LEAF_OFFSET_LOCAL_ID) (VUint16 (LocalID (leItem entry))))
          (writeTotalKeys (totalKeys + 1)))))))"

definition leafKeyAt :: "int \<Rightarrow> (bytes, u32) prog" where
  "leafKeyAt pos = ReadUint32 (leafOffset pos + BTREE_LEAF_OFFSET_KEY)"

definition leafItemAt :: "int \<Rightarrow> (bytes, RowID) prog" where
  "leafItemAt pos =
     bind (ReadUint16 (leafOffset pos + BTREE_LEAF_OFFSET_BLOCK_ID)) (\<lambda>blockID.
     bind (ReadUint16 (leafOffset pos + BTREE_LEAF_OFFSET_LOCAL_ID)) (\<lambda>l.
     ret \<lparr>DataBlockID = blockID, LocalID = l\<rparr>))"

definition leafDeleteAt :: "int \<Rightarrow> (bytes, RowID LeafEntry) prog" where
  "leafDeleteAt pos =
     bind nodeTotalKeys (\<lambda>totalKeys.
     if pos < 0 \<or> pos \<ge> totalKeys then panic (PanicMsg ''Invalid position to be deleted'')
     else
       (let offset = leafOffset pos in
        bind (readLeafEntry offset) (\<lambda>entry.
        seq (copyWithin offset (offset + BTREE_LEAF_ENTRY_SIZE))
       (seq (writeTotalKeys (totalKeys - 1))
            (ret entry)))))"

fun readLeafEntries :: "int \<Rightarrow> nat list \<Rightarrow> (bytes, RowID LeafEntry list) prog" where
  "readLeafEntries readOffset [] = ret []"
| "readLeafEntries readOffset (i # is) =
     bind (readLeafEntry readOffset) (\<lambda>e.
     bind (readLeafEntries (readOffset + BTREE_LEAF_ENTRY_SIZE) is) (\<lambda>es. ret (e # es)))"

text \<open>The loop runs for \<open>i\<close> from \<open>startPosition\<close> up to the number of keys.\<close>

definition leafDeleteFrom :: "int \<Rightarrow> (bytes, RowID LeafEntry list) prog" where
  "leafDeleteFrom startPosition =
     bind nodeTotalKeys (\<lambda>totalKeys.
     bind (readLeafEntries (leafOffset startPosition) [0 ..< nat (totalKeys - startPosition)]) (\<lambda>entries.
     seq (writeTotalKeys startPosition) (ret entries)))"

subsection \<open>Branches\<close>

definition branchOffset :: "int \<Rightarrow> int" where
  "branchOffset pos = BTREE_POS_ENTRIES_OFFSET + pos * BTREE_BRANCH_ENTRY_JUMP"

definition readBranchEntry :: "int \<Rightarrow> (bytes, BranchEntry) prog" where
  "readBranchEntry offset =
     bind (ReadUint32 (offset + BTREE_BRANCH_OFFSET_KEY)) (\<lambda>key.
     bind (ReadUint16 (offset + BTREE_BRANCH_OFFSET_LEFT_BLOCK_ID)) (\<lambda>lt.
     bind (ReadUint16 (offset + BTREE_BRANCH_OFFSET_RIGHT_BLOCK_ID)) (\<lambda>gte.
     ret \<lparr>beKey = key, LowerThanKeyNodeID = lt, GreaterThanOrEqualToKeyNodeID = gte\<rparr>)))"

definition branchKeyAt :: "int \<Rightarrow> (bytes, u32) prog" where
  "branchKeyAt pos = ReadUint32 (branchOffset pos + BTREE_BRANCH_OFFSET_KEY)"

definition branchEntryAt :: "int \<Rightarrow> (bytes, BranchEntry) prog" where
  "branchEntryAt pos =
     bind nodeTotalKeys (\<lambda>totalKeys.
     if pos < 0 \<or> pos \<ge> totalKeys then panic (PanicMsg ''Invalid position to load'')
     else readBranchEntry (branchOffset pos))"

definition branchDeleteAt :: "int \<Rightarrow> (bytes, BranchEntry) prog" where
  "branchDeleteAt pos =
     bind nodeTotalKeys (\<lambda>totalKeys.
     if pos < 0 \<or> pos \<ge> totalKeys then panic (PanicMsg ''Invalid position to be deleted'')
     else
       (let offset = branchOffset pos in
        bind (readBranchEntry offset) (\<lambda>entry.
        if pos = totalKeys - 1 then seq (writeTotalKeys (totalKeys - 1)) (ret entry)
        else
          seq (copyWithin offset (offset + BTREE_BRANCH_ENTRY_JUMP))
         (seq (writeTotalKeys (totalKeys - 1)) (ret entry)))))"

definition branchReplaceKeyAt :: "int \<Rightarrow> u32 \<Rightarrow> (bytes, unit) prog" where
  "branchReplaceKeyAt pos key =
     bind nodeTotalKeys (\<lambda>totalKeys.
     if pos < 0 \<or> pos \<ge> totalKeys then panic (PanicMsg ''Invalid position to be replaced'')
     else Write (branchOffset pos + BTREE_BRANCH_OFFSET_KEY) (VUint32 key))"

fun readBranchEntries :: "int \<Rightarrow> nat list \<Rightarrow> (bytes, BranchEntry list) prog" where
  "readBranchEntries readOffset [] = ret []"
| "readBranchEntries readOffset (i # is) =
     bind (readBranchEntry readOffset) (\<lambda>e.
     bind (readBranchEntries (readOffset + BTREE_BRANCH_ENTRY_JUMP) is) (\<lambda>es. ret (e # es)))"

definition branchDeleteFrom :: "int \<Rightarrow> (bytes, BranchEntry list) prog" where
  "branchDeleteFrom startPosition =
     bind nodeTotalKeys (\<lambda>totalKeys.
     bind (readBranchEntries (branchOffset startPosition) [0 ..< nat (totalKeys - startPosition)]) (\<lambda>entries.
     seq (writeTotalKeys startPosition) (ret entries)))"

text \<open>\<open>Shift\<close> drops the first key and its greater pointer; the first lower pointer stays.\<close>

definition branchShift :: "(bytes, unit) prog" where
  "branchShift =
     (let offset = BTREE_POS_ENTRIES_OFFSET + BTREE_BRANCH_OFFSET_KEY in
      seq (copyWithin offset (offset + BTREE_BRANCH_ENTRY_JUMP))
     (bind nodeTotalKeys (\<lambda>totalKeys. writeTotalKeys (totalKeys - 1))))"

definition branchInsertAt :: "int \<Rightarrow> u32 \<Rightarrow> u16 \<Rightarrow> (bytes, unit) prog" where
  "branchInsertAt pos key gteNodeID =
     (if pos = -1 then panic (PanicMsg ''Unexpected insert on branch position'')
      else
        (let writeOffset = branchOffset pos in
         seq (Unshift (writeOffset + BTREE_BRANCH_OFFSET_LEFT_BLOCK_ID) BTREE_BRANCH_ENTRY_JUMP)
        (seq (Write (writeOffset + BTREE_BRANCH_OFFSET_KEY) (VUint32 key))
        (seq (Write (writeOffset + BTREE_BRANCH_OFFSET_RIGHT_BLOCK_ID) (VUint16 gteNodeID))
        (bind nodeTotalKeys (\<lambda>totalKeys. writeTotalKeys (totalKeys + 1)))))))"

definition branchUnshift :: "u32 \<Rightarrow> u16 \<Rightarrow> (bytes, unit) prog" where
  "branchUnshift key ltKeyNodeID =
     (let writeOffset = BTREE_POS_ENTRIES_OFFSET in
      seq (Unshift (writeOffset + BTREE_BRANCH_OFFSET_LEFT_BLOCK_ID) BTREE_BRANCH_ENTRY_JUMP)
     (seq (Write (writeOffset + BTREE_BRANCH_OFFSET_KEY) (VUint32 key))
     (seq (Write (writeOffset + BTREE_BRANCH_OFFSET_LEFT_BLOCK_ID) (VUint16 ltKeyNodeID))
     (bind nodeTotalKeys (\<lambda>totalKeys. writeTotalKeys (totalKeys + 1))))))"

end
