(* ===== verification/TreeView.thy ===== *)
theory TreeView
  imports BPlusTree
begin

text \<open>
  What the nodes of an adapter show: the entries of a leaf, or the keys and the children of a branch,
  with the links of the node; and B+ trees as values, with the order and the balance that the
  program keeps among the nodes. The adapters' states are related to these in the theories of the
  adapters.
\<close>

section \<open>Nodes as values\<close>

text \<open>
  A branch with \<open>n\<close> keys has \<open>n + 1\<close> children, and two neighbouring entries share the child between
  their keys.
\<close>

datatype 'i content = Entries "'i LeafEntry list" | Children "u32 list" "u16 list"

record 'i nodeView =
  content :: "'i content"
  up :: u16
  lft :: u16
  rgt :: u16

record 'i heapView =
  rootOf :: "u16 option"
  firstOf :: u16
  nodeOf :: "u16 \<Rightarrow> 'i nodeView option"

fun keysOf :: "'i content \<Rightarrow> u32 list" where
  "keysOf (Entries es) = map leKey es"
| "keysOf (Children ks ps) = ks"

definition entry_of :: "u32 list \<Rightarrow> u16 list \<Rightarrow> nat \<Rightarrow> BranchEntry" where
  "entry_of ks ps i = \<lparr>beKey = ks ! i, LowerThanKeyNodeID = ps ! i, GreaterThanOrEqualToKeyNodeID = ps ! (i + 1)\<rparr>"

definition entries_of :: "u32 list \<Rightarrow> u16 list \<Rightarrow> BranchEntry list" where
  "entries_of ks ps = map (entry_of ks ps) [0 ..< length ks]"

lemma length_entries_of [simp]: "length (entries_of ks ps) = length ks"
  by (simp add: entries_of_def)

lemma entries_of_Nil [simp]: "entries_of ks ps = [] \<longleftrightarrow> ks = []"
  by (simp add: entries_of_def)

lemma nth_entries_of [simp]: "i < length ks \<Longrightarrow> entries_of ks ps ! i = entry_of ks ps i"
  by (simp add: entries_of_def)

lemma entry_of_simps [simp]:
  "beKey (entry_of ks ps i) = ks ! i" "LowerThanKeyNodeID (entry_of ks ps i) = ps ! i"
  "GreaterThanOrEqualToKeyNodeID (entry_of ks ps i) = ps ! (i + 1)"
  by (simp_all add: entry_of_def)

section \<open>Positions of a key\<close>

text \<open>The number of keys below a key, where a search on a node ends, and of those up to it.\<close>

definition rank :: "u32 \<Rightarrow> u32 list \<Rightarrow> nat" where
  "rank key ks = length (takeWhile (\<lambda>k. k < key) ks)"

definition slot :: "u32 \<Rightarrow> u32 list \<Rightarrow> nat" where
  "slot key ks = length (takeWhile (\<lambda>k. k \<le> key) ks)"

lemma rank_le: "rank key ks \<le> length ks"
  by (simp add: rank_def length_takeWhile_le)

lemma slot_le: "slot key ks \<le> length ks"
  by (simp add: slot_def length_takeWhile_le)

lemma takeWhile_prefix:
  assumes "\<And>i j. i < j \<Longrightarrow> j < length xs \<Longrightarrow> P (xs ! j) \<Longrightarrow> P (xs ! i)" "i < length xs"
  shows "i < length (takeWhile P xs) \<longleftrightarrow> P (xs ! i)"
proof
  assume "i < length (takeWhile P xs)"
  then show "P (xs ! i)" by (metis nth_mem set_takeWhileD takeWhile_nth)
next
  assume i: "P (xs ! i)"
  show "i < length (takeWhile P xs)"
  proof (rule ccontr)
    let ?m = "length (takeWhile P xs)"
    assume "\<not> i < ?m"
    then have m: "?m \<le> i" "?m < length xs" using assms(2) by simp_all
    with i assms(1) [of ?m i] assms(2) have "P (xs ! ?m)" by (cases "?m = i") auto
    with nth_length_takeWhile [OF m(2)] show False by simp
  qed
qed

lemma rank_iff: "sorted_wrt (<) ks \<Longrightarrow> i < length ks \<Longrightarrow> i < rank key ks \<longleftrightarrow> ks ! i < key"
  unfolding rank_def by (rule takeWhile_prefix) (auto simp: sorted_wrt_iff_nth_less dest: less_trans)

lemma slot_iff: "sorted_wrt (<) ks \<Longrightarrow> i < length ks \<Longrightarrow> i < slot key ks \<longleftrightarrow> ks ! i \<le> key"
  unfolding slot_def
  by (rule takeWhile_prefix) (auto simp: sorted_wrt_iff_nth_less dest: less_imp_le order_trans)

lemma slot_cases:
  assumes "sorted_wrt (<) ks" "ks \<noteq> []"
    and p_def: "p = (if length ks \<le> rank key ks then length ks - 1 else rank key ks)"
  shows "p < length ks" "slot key ks = (if key < ks ! p then p else p + 1)"
proof -
  show p: "p < length ks" using assms(2) by (simp add: p_def)
  have r: "rank key ks \<le> length ks" "slot key ks \<le> length ks" by (rule rank_le slot_le)+
  show "slot key ks = (if key < ks ! p then p else p + 1)"
  proof (rule linorder_cases [of "slot key ks" "if key < ks ! p then p else p + 1"])
    assume lt: "slot key ks < (if key < ks ! p then p else p + 1)"
    then have s: "slot key ks < length ks" "slot key ks \<le> p" using p by (simp_all split: if_splits)
    then have "\<not> ks ! slot key ks \<le> key" using slot_iff [OF assms(1) s(1), of key] by simp
    moreover have "ks ! slot key ks < key" if "slot key ks < p"
      using that rank_iff [OF assms(1) s(1), of key] r(1) by (auto simp: p_def split: if_splits)
    ultimately show ?thesis using lt s(2) by (cases "slot key ks = p") (auto split: if_splits)
  next
    assume gt: "(if key < ks ! p then p else p + 1) < slot key ks"
    show ?thesis
    proof (cases "key < ks ! p")
      case True
      with gt slot_iff [OF assms(1) p, of key] show ?thesis by simp
    next
      case False
      then have p1: "p + 1 < slot key ks" "p + 1 < length ks" using gt r(2) by simp_all
      then have "ks ! (p + 1) \<le> key" "ks ! p < ks ! (p + 1)"
        using slot_iff [OF assms(1) p1(2), of key] assms(1) by (auto simp: sorted_wrt_iff_nth_less)
      moreover have "key \<le> ks ! p"
        using rank_iff [OF assms(1) p, of key] p1(2) by (simp add: p_def split: if_splits)
      ultimately show ?thesis by simp
    qed
  qed simp
qed

lemma rank_found:
  assumes "sorted_wrt (<) ks"
  shows "rank key ks < length ks \<and> ks ! rank key ks = key \<longleftrightarrow> key \<in> set ks"
proof
  assume "key \<in> set ks"
  then obtain i where i: "i < length ks" "ks ! i = key" by (auto simp: in_set_conv_nth)
  then have le: "rank key ks \<le> i" using rank_iff [OF assms i(1), of key] by simp
  then have r: "rank key ks < length ks" using i(1) by simp
  then have "\<not> ks ! rank key ks < key" using rank_iff [OF assms r, of key] by simp
  moreover have "ks ! rank key ks \<le> ks ! i"
    using le i(1) assms by (cases "rank key ks = i") (auto simp: sorted_wrt_iff_nth_less less_imp_le)
  ultimately show "rank key ks < length ks \<and> ks ! rank key ks = key" using r i(2) by simp
qed (auto simp: in_set_conv_nth)

section \<open>B+ trees\<close>

text \<open>Each node with its ID; the keys of a branch separate its children.\<close>

datatype 'i bpt = Leafy u16 "'i LeafEntry list" | Branchy u16 "u32 list" "'i bpt list"

fun tid :: "'i bpt \<Rightarrow> u16" where
  "tid (Leafy i es) = i"
| "tid (Branchy i ks ts) = i"

fun inorder :: "'i bpt \<Rightarrow> 'i LeafEntry list" where
  "inorder (Leafy i es) = es"
| "inorder (Branchy i ks ts) = concat (map inorder ts)"

fun balanced :: "nat \<Rightarrow> 'i bpt \<Rightarrow> bool" where
  "balanced n (Leafy i es) = (n = 0)"
| "balanced 0 (Branchy i ks ts) = False"
| "balanced (Suc n) (Branchy i ks ts) = (\<forall>t \<in> set ts. balanced n t)"

text \<open>The keys under a child lie between the separators around it, the root's from \<open>lo\<close> up to \<open>hi\<close>.\<close>

definition lower :: "nat \<Rightarrow> u32 list \<Rightarrow> nat \<Rightarrow> nat" where
  "lower lo ks j = (if j = 0 then lo else unat (ks ! (j - 1)))"

definition upper :: "nat \<Rightarrow> u32 list \<Rightarrow> nat \<Rightarrow> nat" where
  "upper hi ks j = (if j < length ks then unat (ks ! j) else hi)"

inductive ordered :: "nat \<Rightarrow> nat \<Rightarrow> 'i bpt \<Rightarrow> bool" where
  Leafy: "sorted_wrt (<) (map leKey es) \<Longrightarrow> (\<And>e. e \<in> set es \<Longrightarrow> lo \<le> unat (leKey e) \<and> unat (leKey e) < hi) \<Longrightarrow>
    ordered lo hi (Leafy i es)"
| Branchy: "ks \<noteq> [] \<Longrightarrow> length ts = length ks + 1 \<Longrightarrow> sorted_wrt (<) ks \<Longrightarrow>
    (\<And>k. k \<in> set ks \<Longrightarrow> lo \<le> unat k \<and> unat k < hi) \<Longrightarrow>
    (\<And>j. j < length ts \<Longrightarrow> ordered (lower lo ks j) (upper hi ks j) (ts ! j)) \<Longrightarrow>
    ordered lo hi (Branchy i ks ts)"

inductive_simps ordered_simps: "ordered lo hi (Leafy i es)" "ordered lo hi (Branchy i ks ts)"

lemma in_concat: "e \<in> set (concat (map f ts)) \<longleftrightarrow> (\<exists>j < length ts. e \<in> set (f (ts ! j)))"
proof -
  have "e \<in> set (concat (map f ts)) \<longleftrightarrow> (\<exists>t \<in> set ts. e \<in> set (f t))" by simp
  then show ?thesis by (metis in_set_conv_nth)
qed

text \<open>The leaf where the search for a key ends.\<close>

function leaf_for :: "u32 \<Rightarrow> 'i bpt \<Rightarrow> u16 \<times> 'i LeafEntry list" where
  "leaf_for key (Leafy i es) = (i, es)"
| "leaf_for key (Branchy i ks ts) =
     (if slot key ks < length ts then leaf_for key (ts ! slot key ks) else (i, []))"
  by pat_completeness auto
termination
  by (relation "measure (\<lambda>(key, t). size t)") (auto simp: less_Suc_eq_le intro!: size_list_estimation')

definition lookup :: "u32 \<Rightarrow> 'i LeafEntry list \<Rightarrow> 'i option" where
  "lookup key es = map_of (map (\<lambda>e. (leKey e, leItem e)) es) key"

lemma lookup_None: "(\<And>e. e \<in> set es \<Longrightarrow> leKey e \<noteq> key) \<Longrightarrow> lookup key es = None"
  by (force simp: lookup_def map_of_eq_None_iff)

lemma lookup_append: "lookup key (es @ fs) = (case lookup key es of None \<Rightarrow> lookup key fs | Some x \<Rightarrow> Some x)"
  by (simp add: lookup_def map_add_def split: option.splits)

text \<open>A tree that the nodes of a heap show.\<close>

fun stored :: "'i heapView \<Rightarrow> 'i bpt \<Rightarrow> bool" where
  "stored H (Leafy i es) = (\<exists>v. nodeOf H i = Some v \<and> content v = Entries es)"
| "stored H (Branchy i ks ts) =
     ((\<exists>v. nodeOf H i = Some v \<and> content v = Children ks (map tid ts)) \<and> (\<forall>t \<in> set ts. stored H t))"

lemma ordered_range: "ordered lo hi t \<Longrightarrow> e \<in> set (inorder t) \<Longrightarrow> lo \<le> unat (leKey e) \<and> unat (leKey e) < hi"
proof (induction arbitrary: e rule: ordered.induct)
  case (Branchy ks ts lo hi i)
  from Branchy.prems obtain j where j: "j < length ts" "e \<in> set (inorder (ts ! j))"
    unfolding inorder.simps in_concat by blast
  have "lo \<le> lower lo ks j" "upper hi ks j \<le> hi"
    using j(1) Branchy.hyps(2) Branchy.hyps(4) [OF nth_mem, of "j - 1"] Branchy.hyps(4) [OF nth_mem, of j]
    by (auto simp: lower_def upper_def)
  with Branchy.IH [OF j] show ?case by linarith
qed auto

lemma lookup_inorder:
  "ordered lo hi t \<Longrightarrow> lookup key (inorder t) = lookup key (snd (leaf_for key t))"
proof (induction rule: ordered.induct)
  case (Branchy ks ts lo hi i)
  let ?c = "slot key ks"
  have c: "?c < length ts" using slot_le [of key ks] Branchy.hyps(2) by simp
  have "ts = take ?c ts @ ts ! ?c # drop (Suc ?c) ts" using c by (rule id_take_nth_drop)
  then have split: "concat (map inorder ts) =
      concat (map inorder (take ?c ts)) @ inorder (ts ! ?c) @ concat (map inorder (drop (Suc ?c) ts))"
    by (metis concat.simps(2) concat_append list.simps(9) map_append)
  have left: "leKey e \<noteq> key" if "e \<in> set (concat (map inorder (take ?c ts)))" for e
  proof -
    from that obtain j where j: "j < ?c" "e \<in> set (inorder (ts ! j))"
      using c unfolding in_concat by auto
    then have k: "j < length ks" "j < length ts" using slot_le [of key ks] c by simp_all
    with ordered_range [OF Branchy.hyps(5) j(2)] have "unat (leKey e) < unat (ks ! j)" by (simp add: upper_def)
    moreover have "ks ! j \<le> key" using slot_iff [OF Branchy.hyps(3) k(1)] j(1) by simp
    ultimately show ?thesis by (auto simp: word_le_nat_alt)
  qed
  have right: "leKey e \<noteq> key" if "e \<in> set (concat (map inorder (drop (Suc ?c) ts)))" for e
  proof -
    from that obtain j where "j < length ts - Suc ?c" "e \<in> set (inorder (ts ! (Suc ?c + j)))"
      using c unfolding in_concat by auto
    then obtain j where j: "?c < j" "j < length ts" "e \<in> set (inorder (ts ! j))"
      by (metis add.commute add_Suc less_add_Suc1 less_diff_conv)
    then have k: "j - 1 < length ks" "?c \<le> j - 1" using Branchy.hyps(2) by simp_all
    from ordered_range [OF Branchy.hyps(5) [OF j(2)] j(3)] j(1)
    have "unat (ks ! (j - 1)) \<le> unat (leKey e)" by (simp add: lower_def)
    moreover have "key < ks ! (j - 1)" using slot_iff [OF Branchy.hyps(3) k(1), of key] k(2) by simp
    ultimately show ?thesis by (auto simp: word_less_nat_alt)
  qed
  have "lookup key (concat (map inorder (take ?c ts))) = None"
    "lookup key (concat (map inorder (drop (Suc ?c) ts))) = None" by (rule lookup_None, fact left right)+
  then show ?case
    using Branchy.IH [OF c] c by (simp add: split lookup_append split: option.split)
qed simp

lemma leaf_for_mem:
  "ordered lo hi t \<Longrightarrow> stored H t \<Longrightarrow> \<exists>v. nodeOf H (fst (leaf_for key t)) = Some v \<and> content v = Entries (snd (leaf_for key t))"
proof (induction rule: ordered.induct)
  case (Branchy ks ts lo hi i)
  have c: "slot key ks < length ts" using slot_le [of key ks] Branchy.hyps(2) by simp
  then show ?case using Branchy.IH [OF c] Branchy.prems by simp
qed simp

lemma leaf_for_sorted: "ordered lo hi t \<Longrightarrow> sorted_wrt (<) (map leKey (snd (leaf_for key t)))"
proof (induction rule: ordered.induct)
  case (Branchy ks ts lo hi i)
  have c: "slot key ks < length ts" using slot_le [of key ks] Branchy.hyps(2) by simp
  then show ?case using Branchy.IH [OF c] by simp
qed simp

end
