(* ===== verification/NodeBytes.thy ===== *)
theory NodeBytes
  imports IndexNode TreeView
begin

text \<open>
  The bytes of an index node as a list of entries: a leaf of at most 510 entries of eight bytes, a
  branch of at most 680 entries of six bytes that share their pointers. The operations of
  \<open>IndexNode\<close> refine the list operations, and keep the header of the node.
\<close>

section \<open>Moving bytes\<close>

lemma bytes_at_shift:
  assumes "0 \<le> p" "0 \<le> s" "p + int m \<le> int (length d)" "s + int m \<le> int (length d)"
    "p \<le> q" "q + int n \<le> p + int m"
  shows "bytes_at q n (put_at p (bytes_at s m d) d) = bytes_at (q - p + s) n d"
proof -
  have l: "nat p + length (slice (nat s) m d) \<le> length d" using assms by auto
  have "slice (nat q) n (splice (nat p) (slice (nat s) m d) d) = slice (nat q - nat p) n (slice (nat s) m d)"
    using assms by (intro slice_splice_inside) auto
  also have "\<dots> = slice (nat (q - p + s)) n d"
    using assms by (intro slice_eqI) (auto simp: nth_slice nat_diff_distrib nat_add_distrib algebra_simps)
  finally show ?thesis by (simp add: bytes_at_def put_at_def)
qed

text \<open>Bytes below an insertion point stay, bytes above it move.\<close>

definition opened :: "int \<Rightarrow> int \<Rightarrow> bytes \<Rightarrow> bytes" where
  "opened p c d = put_at (p + c) (bytes_at p (length d - nat (p + c)) d) d"

definition closed_up :: "int \<Rightarrow> int \<Rightarrow> bytes \<Rightarrow> bytes" where
  "closed_up p c d = put_at p (bytes_at (p + c) (length d - nat (p + c)) d) d"

lemma opened_length [simp]:
  "0 \<le> p \<Longrightarrow> 0 \<le> c \<Longrightarrow> p + c \<le> int (length d) \<Longrightarrow> length (opened p c d) = length d"
  by (simp add: opened_def)

lemma closed_up_length [simp]:
  "0 \<le> p \<Longrightarrow> 0 \<le> c \<Longrightarrow> p + c \<le> int (length d) \<Longrightarrow> length (closed_up p c d) = length d"
  by (simp add: closed_up_def)

lemma opened_below:
  assumes "0 \<le> p" "0 \<le> c" "p + c \<le> int (length d)" "0 \<le> q" "q + int n \<le> p + c"
  shows "bytes_at q n (opened p c d) = bytes_at q n d"
  unfolding opened_def using assms by (intro bytes_at_put_other) auto

lemma opened_above:
  assumes "0 \<le> p" "0 \<le> c" "p + c \<le> q" "q + int n \<le> int (length d)"
  shows "bytes_at q n (opened p c d) = bytes_at (q - c) n d"
proof -
  have "bytes_at q n (opened p c d) = bytes_at (q - (p + c) + p) n d"
    unfolding opened_def using assms by (intro bytes_at_shift) auto
  then show ?thesis by simp
qed

lemma closed_up_below:
  assumes "0 \<le> p" "0 \<le> c" "p + c \<le> int (length d)" "0 \<le> q" "q + int n \<le> p"
  shows "bytes_at q n (closed_up p c d) = bytes_at q n d"
  unfolding closed_up_def using assms by (intro bytes_at_put_other) auto

lemma closed_up_above:
  assumes "0 \<le> p" "0 \<le> c" "p \<le> q" "q + c + int n \<le> int (length d)"
  shows "bytes_at q n (closed_up p c d) = bytes_at (q + c) n d"
proof -
  have "bytes_at q n (closed_up p c d) = bytes_at (q - p + (p + c)) n d"
    unfolding closed_up_def using assms by (intro bytes_at_shift) auto
  then show ?thesis by (simp add: algebra_simps)
qed

lemma Unshift_opened:
  "0 \<le> p \<Longrightarrow> 0 \<le> c \<Longrightarrow> p + c \<le> int (length d) \<Longrightarrow> Unshift p c d = Ok ((), opened p c d)"
  by (simp add: Unshift_Ok opened_def)

lemma copyWithin_closed:
  assumes "0 \<le> p" "0 \<le> c" "p + c \<le> int (length d)"
  shows "copyWithin p (p + c) d = Ok ((), closed_up p c d)"
  using assms by (simp add: copyWithin_Ok closed_up_def)

section \<open>Leaves\<close>

definition nkeys :: "bytes \<Rightarrow> nat" where
  "nkeys d = unat (u16_at 1 d)"

text \<open>The header of a node: its type and the links.\<close>

definition node_links :: "bytes \<Rightarrow> byte \<times> u16 \<times> u16 \<times> u16" where
  "node_links d = (d ! 0, u16_at 3 d, u16_at 5 d, u16_at 7 d)"

definition leaf_entry :: "bytes \<Rightarrow> nat \<Rightarrow> RowID LeafEntry" where
  "leaf_entry d i = \<lparr>leKey = u32_at (9 + 8 * int i) d,
     leItem = \<lparr>DataBlockID = u16_at (13 + 8 * int i) d, LocalID = u16_at (15 + 8 * int i) d\<rparr>\<rparr>"

definition leaf_entries :: "bytes \<Rightarrow> RowID LeafEntry list" where
  "leaf_entries d = map (leaf_entry d) [0 ..< nkeys d]"

definition leaf_ok :: "bytes \<Rightarrow> bool" where
  "leaf_ok d \<longleftrightarrow> length d = 4096 \<and> nkeys d \<le> 510"

lemma length_leaf_entries [simp]: "length (leaf_entries d) = nkeys d"
  by (simp add: leaf_entries_def)

lemma nth_leaf_entries [simp]: "i < nkeys d \<Longrightarrow> leaf_entries d ! i = leaf_entry d i"
  by (simp add: leaf_entries_def)

lemma nodeTotalKeys_Ok: "length d = 4096 \<Longrightarrow> nodeTotalKeys d = Ok (int (nkeys d), d)"
  by (simp add: nodeTotalKeys_def node_layout ReadUint16_Ok bind_def nkeys_def)

lemma readLeafEntry_Ok:
  "length d = 4096 \<Longrightarrow> i < 510 \<Longrightarrow> readLeafEntry (leafOffset (int i)) d = Ok (leaf_entry d i, d)"
  by (simp add: readLeafEntry_def leafOffset_def node_layout ReadUint16_Ok ReadUint32_Ok bind_def leaf_entry_def
      algebra_simps)

lemma leafKeyAt_Ok:
  "length d = 4096 \<Longrightarrow> i < 510 \<Longrightarrow> leafKeyAt (int i) d = Ok (leKey (leaf_entry d i), d)"
  by (simp add: leafKeyAt_def leafOffset_def node_layout ReadUint32_Ok leaf_entry_def algebra_simps)

lemma leafItemAt_Ok:
  "length d = 4096 \<Longrightarrow> i < 510 \<Longrightarrow> leafItemAt (int i) d = Ok (leItem (leaf_entry d i), d)"
  by (simp add: leafItemAt_def leafOffset_def node_layout ReadUint16_Ok bind_def leaf_entry_def algebra_simps)

text \<open>Two byte arrays hold the same entry at two positions if the eight bytes agree.\<close>

lemma bytes_at_part: "0 \<le> p \<Longrightarrow> k + m \<le> n \<Longrightarrow> bytes_at (p + int k) m d = slice k m (bytes_at p n d)"
  by (auto simp: bytes_at_def slice_def nat_add_distrib drop_take min_def add.commute)

lemma leaf_entry_cong:
  assumes "bytes_at (9 + 8 * int i) 8 f = bytes_at (9 + 8 * int j) 8 d"
  shows "leaf_entry f i = leaf_entry d j"
proof -
  have "bytes_at (9 + 8 * int i + int k) m f = bytes_at (9 + 8 * int j + int k) m d" if "k + m \<le> 8" for k m
    using that by (simp only: bytes_at_part [where n = 8] assms)
  from this [of 0 4] this [of 4 2] this [of 6 2] show ?thesis
    by (simp add: leaf_entry_def u16_at_def u32_at_def algebra_simps)
qed

text \<open>The entry that is written at an offset.\<close>

definition leaf_bytes :: "RowID LeafEntry \<Rightarrow> bytes" where
  "leaf_bytes e = be32_put (leKey e) @ be16_put (DataBlockID (leItem e)) @ be16_put (LocalID (leItem e))"

lemma put_at_append:
  "0 \<le> p \<Longrightarrow> p + int (length xs) + int (length ys) \<le> int (length d) \<Longrightarrow> p' = p + int (length xs) \<Longrightarrow>
    put_at p' ys (put_at p xs d) = put_at p (xs @ ys) d"
  using splice_append [of "nat p" xs ys d] by (simp add: put_at_def nat_add_distrib)

lemma leaf_entry_put:
  assumes "length d = 4096" "i < 510"
  shows "leaf_entry (put_at (9 + 8 * int i) (leaf_bytes e) d) i = e"
proof -
  let ?f = "put_at (9 + 8 * int i) (leaf_bytes e) d"
  have l: "length (leaf_bytes e) = 8" by (simp add: leaf_bytes_def)
  have b: "bytes_at (9 + 8 * int i) 8 ?f = leaf_bytes e" using assms l by simp
  have part: "bytes_at (9 + 8 * int i + int k) m ?f = slice k m (leaf_bytes e)" if "k + m \<le> 8" for k m
    using that by (simp only: bytes_at_part [where n = 8] b)
  have "bytes_at (9 + 8 * int i) 4 ?f = be32_put (leKey e)"
    "bytes_at (13 + 8 * int i) 2 ?f = be16_put (DataBlockID (leItem e))"
    "bytes_at (15 + 8 * int i) 2 ?f = be16_put (LocalID (leItem e))"
    using part [of 0 4] part [of 4 2] part [of 6 2] by (simp_all add: leaf_bytes_def slice_def algebra_simps)
  then show ?thesis by (simp add: leaf_entry_def u16_at_def u32_at_def)
qed

lemma nkeys_put [simp]:
  "length d = 4096 \<Longrightarrow> 3 \<le> p \<Longrightarrow> p + int (length xs) \<le> 4096 \<Longrightarrow> nkeys (put_at p xs d) = nkeys d"
  by (simp add: nkeys_def)

lemma nkeys_write [simp]:
  "length d = 4096 \<Longrightarrow> n < 65536 \<Longrightarrow> nkeys (put_at 1 (be16_put (of_nat n)) d) = n"
  by (simp add: nkeys_def)

lemma nth_put_other: "0 < p \<Longrightarrow> p + int (length xs) \<le> int (length d) \<Longrightarrow> put_at p xs d ! 0 = d ! 0"
  by (cases d) (auto simp: put_at_def nth_splice)

lemma node_links_put [simp]:
  "length d = 4096 \<Longrightarrow> 9 \<le> p \<Longrightarrow> p + int (length xs) \<le> 4096 \<Longrightarrow> node_links (put_at p xs d) = node_links d"
  "length d = 4096 \<Longrightarrow> node_links (put_at 1 (be16_put v) d) = node_links d"
  by (simp_all add: node_links_def nth_put_other)

lemma bytes_at_keys [simp]:
  "length d = 4096 \<Longrightarrow> 3 \<le> p \<Longrightarrow> p + int n \<le> 4096 \<Longrightarrow> bytes_at p n (put_at 1 (be16_put v) d) = bytes_at p n d"
  by simp

lemma writeTotalKeys_Ok:
  "length d = 4096 \<Longrightarrow> writeTotalKeys (int n) d = Ok ((), put_at 1 (be16_put (of_nat n)) d)"
  by (simp add: writeTotalKeys_def node_layout Write_VUint16_Ok)

lemma leafInsertAt_Ok:
  assumes "leaf_ok d" "nkeys d < 510" "i \<le> nkeys d" "pos = int i \<or> pos = -1 \<and> i = 0"
  shows "\<exists>f. leafInsertAt pos e d = Ok ((), f) \<and> leaf_ok f \<and> node_links f = node_links d \<and>
    leaf_entries f = insertNth i e (leaf_entries d)"
proof -
  have d: "length d = 4096" using assms(1) by (simp add: leaf_ok_def)
  have pos: "(if pos = -1 then 0 else pos) = int i" using assms(4) by auto
  let ?p = "9 + 8 * int i" and ?n = "nkeys d"
  have bound: "?p + 8 \<le> 4096" using assms(2,3) by simp
  define d1 where "d1 = (if i = ?n then d else opened ?p 8 d)"
  define d2 where "d2 = put_at ?p (leaf_bytes e) d1"
  define f where "f = put_at 1 (be16_put (of_nat (?n + 1))) d2"
  have len: "length d1 = 4096" "length d2 = 4096" "length f = 4096" "length (leaf_bytes e) = 8"
    using bound d by (simp_all add: d1_def d2_def f_def leaf_bytes_def)
  have "if_do (int i \<noteq> int ?n) (Unshift ?p 8) d = Ok ((), d1)"
    using bound d by (simp add: if_do_def d1_def Unshift_opened)
  moreover have "put_at (?p + 6) (be16_put (LocalID (leItem e)))
      (put_at (?p + 4) (be16_put (DataBlockID (leItem e))) (put_at ?p (be32_put (leKey e)) d1)) = d2"
    using len(1) bound by (simp add: put_at_append d2_def leaf_bytes_def)
  ultimately have "leafInsertAt pos e d = Ok ((), f)"
    using d len bound writeTotalKeys_Ok [of d2 "?n + 1"]
    by (simp add: leafInsertAt_def pos Let_def bind_def seq_def nodeTotalKeys_Ok leafOffset_def node_layout
        Write_VUint32_Ok Write_VUint16_Ok mult.commute f_def add.commute)
  moreover have nf: "nkeys f = ?n + 1"
    unfolding f_def using len assms(2) by (intro nkeys_write) simp_all
  moreover have "node_links f = node_links d"
  proof -
    have "node_links (opened ?p 8 d) = node_links d"
      using d bound by (simp add: opened_def)
    then have "node_links d1 = node_links d" by (simp add: d1_def)
    then show ?thesis using len bound by (simp add: f_def d2_def)
  qed
  moreover have "leaf_entries f = insertNth i e (leaf_entries d)"
  proof (rule nth_equalityI)
    show "length (leaf_entries f) = length (insertNth i e (leaf_entries d))" by (simp add: nf)
    fix j assume "j < length (leaf_entries f)"
    then have j: "j \<le> ?n" "j < 510" using nf assms(2) by simp_all
    have low: "bytes_at (9 + 8 * int j) 8 f = bytes_at (9 + 8 * int j) 8 d1" if "j \<noteq> i"
    proof -
      have "9 + 8 * int j + 8 \<le> ?p \<or> ?p + 8 \<le> 9 + 8 * int j" using that by linarith
      then show ?thesis using j len bound unfolding f_def d2_def by simp
    qed
    consider "j < i" | "j = i" | "i < j" by linarith
    then have "leaf_entry f j = insertNth i e (leaf_entries d) ! j"
    proof cases
      case 1
      then have "bytes_at (9 + 8 * int j) 8 d1 = bytes_at (9 + 8 * int j) 8 d"
        using bound d by (simp add: d1_def opened_below)
      with 1 low have "leaf_entry f j = leaf_entry d j" by (intro leaf_entry_cong) simp
      with 1 j assms(3) show ?thesis by (simp add: nth_insertNth)
    next
      case 2
      have "bytes_at (9 + 8 * int i) 8 f = bytes_at (9 + 8 * int i) 8 d2"
        using len bound unfolding f_def by simp
      then have "leaf_entry f i = leaf_entry d2 i" by (rule leaf_entry_cong)
      with 2 j len assms(3) show ?thesis by (simp add: nth_insertNth d2_def leaf_entry_put)
    next
      case 3
      then have "bytes_at (9 + 8 * int j) 8 d1 = bytes_at (9 + 8 * int j - 8) 8 d"
        using opened_above [of ?p 8 "9 + 8 * int j" 8 d] bound d j by (simp add: d1_def)
      also have "9 + 8 * int j - 8 = 9 + 8 * int (j - 1)" using 3 by (cases j) simp_all
      finally have "bytes_at (9 + 8 * int j) 8 d1 = bytes_at (9 + 8 * int (j - 1)) 8 d" .
      then have "leaf_entry f j = leaf_entry d (j - 1)"
        using 3 by (intro leaf_entry_cong) (simp only: low)
      with 3 j assms(3) show ?thesis by (simp add: nth_insertNth)
    qed
    then show "leaf_entries f ! j = insertNth i e (leaf_entries d) ! j" using j nf by simp
  qed
  ultimately show ?thesis using len nf assms(2) by (auto simp: leaf_ok_def)
qed


lemma leafDeleteAt_Ok:
  assumes "leaf_ok d" "i < nkeys d"
  shows "\<exists>f. leafDeleteAt (int i) d = Ok (leaf_entries d ! i, f) \<and> leaf_ok f \<and> node_links f = node_links d \<and>
    leaf_entries f = deleteNth i (leaf_entries d)"
proof -
  have d: "length d = 4096" and n: "nkeys d \<le> 510" using assms(1) by (simp_all add: leaf_ok_def)
  let ?p = "9 + 8 * int i" and ?n = "nkeys d"
  have bound: "?p + 8 \<le> 4096" using assms(2) n by simp
  define d1 where "d1 = closed_up ?p 8 d"
  define f where "f = put_at 1 (be16_put (of_nat (?n - 1))) d1"
  have len: "length d1 = 4096" "length f = 4096" using bound d by (simp_all add: d1_def f_def)
  have w: "writeTotalKeys (int ?n - 1) d1 = Ok ((), f)"
    using writeTotalKeys_Ok [OF len(1), of "?n - 1"] assms(2) by (simp add: f_def of_nat_diff)
  have "readLeafEntry ?p d = Ok (leaf_entry d i, d)"
    using readLeafEntry_Ok [OF d, of i] assms(2) n by (simp add: leafOffset_def node_layout mult.commute)
  then have "leafDeleteAt (int i) d = Ok (leaf_entry d i, f)"
    using d bound assms(2) w copyWithin_closed [of ?p 8 d]
    by (simp add: leafDeleteAt_def Let_def bind_def seq_def nodeTotalKeys_Ok leafOffset_def node_layout
        mult.commute d1_def)
  moreover have nf: "nkeys f = ?n - 1"
    unfolding f_def using len n by (intro nkeys_write) simp_all
  moreover have "node_links f = node_links d"
    using d bound by (simp add: f_def len d1_def closed_up_def)
  moreover have "leaf_entries f = deleteNth i (leaf_entries d)"
  proof (rule nth_equalityI)
    show "length (leaf_entries f) = length (deleteNth i (leaf_entries d))" using assms(2) by (simp add: nf)
    fix j assume "j < length (leaf_entries f)"
    then have j: "j < ?n - 1" "j < 509" using nf n by simp_all
    have k: "bytes_at (9 + 8 * int j) 8 f = bytes_at (9 + 8 * int j) 8 d1"
      using j len unfolding f_def by simp
    have "leaf_entry f j = leaf_entry d (if j < i then j else j + 1)"
    proof (cases "j < i")
      case True
      then have "bytes_at (9 + 8 * int j) 8 d1 = bytes_at (9 + 8 * int j) 8 d"
        using bound d unfolding d1_def by (intro closed_up_below) auto
      with True k show ?thesis by (intro leaf_entry_cong) simp
    next
      case False
      then have "bytes_at (9 + 8 * int j) 8 d1 = bytes_at (9 + 8 * int j + 8) 8 d"
        using bound d j unfolding d1_def by (intro closed_up_above) auto
      with False k show ?thesis by (intro leaf_entry_cong) (simp add: algebra_simps)
    qed
    then show "leaf_entries f ! j = deleteNth i (leaf_entries d) ! j"
      using j nf assms(2) by (simp add: nth_deleteNth)
  qed
  ultimately show ?thesis using len n assms(2) by (auto simp: leaf_ok_def)
qed

lemma readLeafEntries_Ok:
  "length d = 4096 \<Longrightarrow> i + length is \<le> 510 \<Longrightarrow>
    readLeafEntries (leafOffset (int i)) is d = Ok (map (leaf_entry d) [i ..< i + length is], d)"
proof (induction "is" arbitrary: i)
  case (Cons x "is")
  have "leafOffset (int i) + BTREE_LEAF_ENTRY_SIZE = leafOffset (int (Suc i))"
    by (simp add: leafOffset_def node_layout)
  moreover have "[i ..< i + length (x # is)] = i # [Suc i ..< Suc i + length is]"
    by (simp add: upt_conv_Cons del: upt_Suc)
  ultimately show ?case
    using Cons.IH [of "Suc i"] Cons.prems by (simp add: bind_def readLeafEntry_Ok del: upt_Suc)
qed simp

lemma leafDeleteFrom_Ok:
  assumes "leaf_ok d" "i \<le> nkeys d"
  shows "\<exists>f. leafDeleteFrom (int i) d = Ok (drop i (leaf_entries d), f) \<and> leaf_ok f \<and>
    node_links f = node_links d \<and> leaf_entries f = take i (leaf_entries d)"
proof -
  have d: "length d = 4096" and n: "nkeys d \<le> 510" using assms(1) by (simp_all add: leaf_ok_def)
  define f where "f = put_at 1 (be16_put (of_nat i)) d"
  have len: "length f = 4096" using d by (simp add: f_def)
  have nf: "nkeys f = i" unfolding f_def using d n assms(2) by (intro nkeys_write) simp_all
  have "drop i (leaf_entries d) = map (leaf_entry d) [i ..< nkeys d]"
    by (simp add: leaf_entries_def drop_map)
  then have "leafDeleteFrom (int i) d = Ok (drop i (leaf_entries d), f)"
    using d n assms(2) readLeafEntries_Ok [OF d, of i "[0 ..< nkeys d - i]"] writeTotalKeys_Ok [OF d, of i]
    by (simp add: leafDeleteFrom_def bind_def seq_def nodeTotalKeys_Ok f_def flip: of_nat_diff)
  moreover have "leaf_entries f = take i (leaf_entries d)"
  proof (rule nth_equalityI)
    show "length (leaf_entries f) = length (take i (leaf_entries d))" using assms(2) by (simp add: nf)
    fix j assume "j < length (leaf_entries f)"
    then have j: "j < i" by (simp add: nf)
    then have "bytes_at (9 + 8 * int j) 8 f = bytes_at (9 + 8 * int j) 8 d"
      using d n assms(2) unfolding f_def by simp
    then have "leaf_entry f j = leaf_entry d j" by (rule leaf_entry_cong)
    then show "leaf_entries f ! j = take i (leaf_entries d) ! j" using j assms(2) nf by simp
  qed
  ultimately show ?thesis using len nf n assms(2) d by (auto simp: leaf_ok_def f_def)
qed


section \<open>Branches\<close>

text \<open>The keys of a branch, and its child pointers, one more than keys.\<close>

definition bkey :: "bytes \<Rightarrow> nat \<Rightarrow> u32" where
  "bkey d i = u32_at (11 + 6 * int i) d"

definition bptr :: "bytes \<Rightarrow> nat \<Rightarrow> u16" where
  "bptr d i = u16_at (9 + 6 * int i) d"

definition branch_keys :: "bytes \<Rightarrow> u32 list" where
  "branch_keys d = map (bkey d) [0 ..< nkeys d]"

definition branch_ptrs :: "bytes \<Rightarrow> u16 list" where
  "branch_ptrs d = map (bptr d) [0 ..< nkeys d + 1]"

definition branch_ok :: "bytes \<Rightarrow> bool" where
  "branch_ok d \<longleftrightarrow> length d = 4096 \<and> nkeys d \<le> 680"

lemma length_branch [simp]:
  "length (branch_keys d) = nkeys d" "length (branch_ptrs d) = nkeys d + 1"
  by (simp_all add: branch_keys_def branch_ptrs_def)

lemma nth_branch [simp]:
  "i < nkeys d \<Longrightarrow> branch_keys d ! i = bkey d i"
  "i \<le> nkeys d \<Longrightarrow> branch_ptrs d ! i = bptr d i"
  by (simp_all add: branch_keys_def branch_ptrs_def del: upt_Suc)

lemma branch_eqI:
  assumes "nkeys f = length ks" "length ps = length ks + 1" "\<And>i. i < length ks \<Longrightarrow> bkey f i = ks ! i"
    "\<And>i. i \<le> length ks \<Longrightarrow> bptr f i = ps ! i"
  shows "branch_keys f = ks" "branch_ptrs f = ps"
  using assms by (auto intro!: nth_equalityI)

lemma readBranchEntry_Ok:
  assumes "length d = 4096" "i < 680" "i < nkeys d"
  shows "readBranchEntry (branchOffset (int i)) d = Ok (entry_of (branch_keys d) (branch_ptrs d) i, d)"
  using assms
  by (simp add: readBranchEntry_def branchOffset_def node_layout ReadUint16_Ok ReadUint32_Ok bind_def entry_of_def
      bkey_def bptr_def algebra_simps)

lemma branchKeyAt_Ok:
  "length d = 4096 \<Longrightarrow> i < 680 \<Longrightarrow> branchKeyAt (int i) d = Ok (bkey d i, d)"
  by (simp add: branchKeyAt_def branchOffset_def node_layout ReadUint32_Ok bkey_def algebra_simps)

lemma branchEntryAt_Ok:
  assumes "branch_ok d" "i < nkeys d"
  shows "branchEntryAt (int i) d = Ok (entry_of (branch_keys d) (branch_ptrs d) i, d)"
  using assms readBranchEntry_Ok [of d i] by (simp add: branchEntryAt_def branch_ok_def bind_def nodeTotalKeys_Ok)

text \<open>A key and a pointer in bytes that were opened or closed up at an entry.\<close>

lemma bkey_opened:
  assumes "length d = 4096" "i < 680" "j < 680"
  shows "j < i \<Longrightarrow> bkey (opened (9 + 6 * int i) 6 d) j = bkey d j"
    "i < j \<Longrightarrow> bkey (opened (9 + 6 * int i) 6 d) j = bkey d (j - 1)"
proof -
  show "bkey (opened (9 + 6 * int i) 6 d) j = bkey d j" if "j < i"
    using opened_below [of "9 + 6 * int i" 6 d "11 + 6 * int j" 4] assms that by (simp add: bkey_def u32_at_def)
  show "bkey (opened (9 + 6 * int i) 6 d) j = bkey d (j - 1)" if "i < j"
  proof -
    have e: "11 + 6 * int j - 6 = 11 + 6 * int (j - 1)" using that by (cases j) simp_all
    have "bytes_at (11 + 6 * int j) 4 (opened (9 + 6 * int i) 6 d) = bytes_at (11 + 6 * int j - 6) 4 d"
      using assms that by (intro opened_above) auto
    then show ?thesis unfolding e by (simp add: bkey_def u32_at_def)
  qed
qed

lemma bptr_opened:
  assumes "length d = 4096" "i < 680" "j \<le> 680"
  shows "j \<le> i \<Longrightarrow> bptr (opened (9 + 6 * int i) 6 d) j = bptr d j"
    "i < j \<Longrightarrow> bptr (opened (9 + 6 * int i) 6 d) j = bptr d (j - 1)"
proof -
  show "bptr (opened (9 + 6 * int i) 6 d) j = bptr d j" if "j \<le> i"
    using opened_below [of "9 + 6 * int i" 6 d "9 + 6 * int j" 2] assms that by (simp add: bptr_def u16_at_def)
  show "bptr (opened (9 + 6 * int i) 6 d) j = bptr d (j - 1)" if "i < j"
  proof -
    have e: "9 + 6 * int j - 6 = 9 + 6 * int (j - 1)" using that by (cases j) simp_all
    have "bytes_at (9 + 6 * int j) 2 (opened (9 + 6 * int i) 6 d) = bytes_at (9 + 6 * int j - 6) 2 d"
      using assms that by (intro opened_above) auto
    then show ?thesis unfolding e by (simp add: bptr_def u16_at_def)
  qed
qed

lemma bkey_closed:
  assumes "length d = 4096" "i < 680" "j < 679"
  shows "j < i \<Longrightarrow> bkey (closed_up (9 + 6 * int i) 6 d) j = bkey d j"
    "i \<le> j \<Longrightarrow> bkey (closed_up (9 + 6 * int i) 6 d) j = bkey d (j + 1)"
  using closed_up_below [of "9 + 6 * int i" 6 d "11 + 6 * int j" 4]
    closed_up_above [of "9 + 6 * int i" 6 "11 + 6 * int j" 4 d] assms
  by (simp_all add: bkey_def u32_at_def algebra_simps)

lemma bptr_closed:
  assumes "length d = 4096" "i < 680" "j < 680"
  shows "j < i \<Longrightarrow> bptr (closed_up (9 + 6 * int i) 6 d) j = bptr d j"
    "i \<le> j \<Longrightarrow> bptr (closed_up (9 + 6 * int i) 6 d) j = bptr d (j + 1)"
  using closed_up_below [of "9 + 6 * int i" 6 d "9 + 6 * int j" 2]
    closed_up_above [of "9 + 6 * int i" 6 "9 + 6 * int j" 2 d] assms
  by (simp_all add: bptr_def u16_at_def algebra_simps)

text \<open>Writing a key, a pointer, and the number of keys.\<close>

lemma bkey_put:
  assumes "length d = 4096" "j < 680"
  shows "i \<le> 680 \<Longrightarrow> bkey (put_at (9 + 6 * int i) (be16_put v) d) j = bkey d j"
    "i < 680 \<Longrightarrow> bkey (put_at (11 + 6 * int i) (be32_put k) d) j = (if j = i then k else bkey d j)"
    "bkey (put_at 1 (be16_put v) d) j = bkey d j"
  using assms by (cases "j < i"; cases "j = i"; simp add: bkey_def)+

lemma bptr_put:
  assumes "length d = 4096" "j \<le> 680"
  shows "i \<le> 680 \<Longrightarrow> bptr (put_at (9 + 6 * int i) (be16_put v) d) j = (if j = i then v else bptr d j)"
    "i < 680 \<Longrightarrow> bptr (put_at (11 + 6 * int i) (be32_put k) d) j = bptr d j"
    "bptr (put_at 1 (be16_put v) d) j = bptr d j"
  using assms by (cases "j < i"; cases "j = i"; simp add: bptr_def)+

lemma branch_offsets:
  "branchOffset (int i) + BTREE_BRANCH_OFFSET_LEFT_BLOCK_ID = 9 + 6 * int i"
  "branchOffset (int i) + BTREE_BRANCH_OFFSET_KEY = 11 + 6 * int i"
  "branchOffset (int i) + BTREE_BRANCH_OFFSET_RIGHT_BLOCK_ID = 9 + 6 * int (i + 1)"
  by (simp_all add: branchOffset_def node_layout)

lemma branchInsertAt_Ok:
  assumes "branch_ok d" "nkeys d < 680" "i \<le> nkeys d"
  shows "\<exists>f. branchInsertAt (int i) key gte d = Ok ((), f) \<and> branch_ok f \<and> node_links f = node_links d \<and>
    branch_keys f = insertNth i key (branch_keys d) \<and> branch_ptrs f = insertNth (i + 1) gte (branch_ptrs d)"
proof -
  have d: "length d = 4096" using assms(1) by (simp add: branch_ok_def)
  let ?n = "nkeys d"
  have i: "i < 680" using assms(2,3) by simp
  define d1 where "d1 = opened (9 + 6 * int i) 6 d"
  define d2 where "d2 = put_at (9 + 6 * int (i + 1)) (be16_put gte) (put_at (11 + 6 * int i) (be32_put key) d1)"
  define f where "f = put_at 1 (be16_put (of_nat (?n + 1))) d2"
  have len: "length d1 = 4096" "length d2 = 4096" "length f = 4096"
    using i d by (simp_all add: d1_def d2_def f_def)
  have n2: "nkeys d2 = ?n" using i d len(1) by (simp add: d2_def) (simp add: d1_def opened_def)
  note o = branch_offsets [of i]
  have u: "Unshift (9 + 6 * int i) 6 d = Ok ((), d1)"
    using i d by (simp add: d1_def Unshift_opened)
  have k: "Write (11 + 6 * int i) (VUint32 key) d1 = Ok ((), put_at (11 + 6 * int i) (be32_put key) d1)"
    using i len(1) by (simp add: Write_VUint32_Ok)
  have p: "Write (9 + 6 * int (i + 1)) (VUint16 gte) (put_at (11 + 6 * int i) (be32_put key) d1) = Ok ((), d2)"
    using i len(1) by (simp add: Write_VUint16_Ok d2_def)
  have t: "bind nodeTotalKeys (\<lambda>n. writeTotalKeys (n + 1)) d2 = Ok ((), f)"
    using len n2 writeTotalKeys_Ok [OF len(2), of "?n + 1"] by (simp add: bind_def nodeTotalKeys_Ok f_def add.commute)
  have "branchInsertAt (int i) key gte d = Ok ((), f)"
    unfolding branchInsertAt_def Let_def o BTREE_BRANCH_ENTRY_JUMP_def
    using u k p t by (simp add: seq_def bind_def)
  moreover have nf: "nkeys f = ?n + 1"
    unfolding f_def using len assms(2) by (intro nkeys_write) simp_all
  moreover have "node_links f = node_links d"
    using i d len by (simp add: f_def d2_def) (simp add: d1_def opened_def)
  moreover have "bkey f j = insertNth i key (branch_keys d) ! j" if j: "j < ?n + 1" for j
  proof -
    have l: "length (put_at (11 + 6 * int i) (be32_put key) d1) = 4096" "j < 680" "i + 1 \<le> 680"
      using i j len(1) assms(2) by simp_all
    have "bkey f j = (if j = i then key else bkey d1 j)"
      unfolding f_def d2_def using bkey_put(1) [OF l] bkey_put(2) [OF len(1) l(2) i]
      by (simp only: bkey_put(3) [OF len(2) [unfolded d2_def] l(2)])
    then show ?thesis
      using j i d assms(3) bkey_opened [OF d i, of j] l(2)
      by (cases "j < i"; cases "j = i") (simp_all add: nth_insertNth d1_def)
  qed
  moreover have "bptr f j = insertNth (i + 1) gte (branch_ptrs d) ! j" if j: "j \<le> ?n + 1" for j
  proof -
    have l: "length (put_at (11 + 6 * int i) (be32_put key) d1) = 4096" "j \<le> 680" "i + 1 \<le> 680"
      using i j len(1) assms(2) by simp_all
    have "bptr f j = (if j = i + 1 then gte else bptr d1 j)"
      unfolding f_def d2_def using bptr_put(1) [OF l] bptr_put(2) [OF len(1) l(2) i]
      by (simp only: bptr_put(3) [OF len(2) [unfolded d2_def] l(2)])
    then show ?thesis
      using j i d assms(3) bptr_opened [OF d i, of j] l(2)
      by (cases "j \<le> i"; cases "j = i + 1") (simp_all add: nth_insertNth d1_def)
  qed
  ultimately show ?thesis
    using branch_eqI [of f "insertNth i key (branch_keys d)" "insertNth (i + 1) gte (branch_ptrs d)"] len assms(2)
    by (auto simp: branch_ok_def)
qed


text \<open>The key count after a write of the header field.\<close>

lemma branch_shrink:
  assumes "branch_ok d" "length e = 4096" "n \<le> nkeys d" "f = put_at 1 (be16_put (of_nat n)) e"
    "length ks = n" "length ps = n + 1" "\<And>j. j < n \<Longrightarrow> bkey e j = ks ! j" "\<And>j. j \<le> n \<Longrightarrow> bptr e j = ps ! j"
  shows "branch_ok f" "branch_keys f = ks" "branch_ptrs f = ps" "node_links f = node_links e"
proof -
  have n: "n \<le> 680" using assms(1,3) by (simp add: branch_ok_def)
  have nf: "nkeys f = n" unfolding assms(4) using assms(2) n by (intro nkeys_write) simp_all
  have "bkey f j = bkey e j" if "j < n" for j
    unfolding assms(4) using that n by (intro bkey_put(3) [OF assms(2)]) simp
  moreover have "bptr f j = bptr e j" if "j \<le> n" for j
    unfolding assms(4) using that n by (intro bptr_put(3) [OF assms(2)]) simp
  ultimately show "branch_keys f = ks" "branch_ptrs f = ps"
    using branch_eqI [of f ks ps] nf assms(5-8) by simp_all
  show "branch_ok f" "node_links f = node_links e"
    using nf n assms(2) by (simp_all add: branch_ok_def assms(4))
qed

text \<open>
  \<open>DeleteAt\<close> drops the key and the pointer on its left; at the last position it drops the pointer
  on its right.
\<close>

lemma branchDeleteAt_Ok:
  assumes "branch_ok d" "i < nkeys d"
  shows "\<exists>f. branchDeleteAt (int i) d = Ok (entry_of (branch_keys d) (branch_ptrs d) i, f) \<and> branch_ok f \<and>
    node_links f = node_links d \<and> branch_keys f = deleteNth i (branch_keys d) \<and>
    branch_ptrs f = deleteNth (if i + 1 = nkeys d then i + 1 else i) (branch_ptrs d)"
proof -
  have d: "length d = 4096" and n: "nkeys d \<le> 680" using assms(1) by (simp_all add: branch_ok_def)
  let ?n = "nkeys d"
  define e where "e = (if i + 1 = ?n then d else closed_up (9 + 6 * int i) 6 d)"
  define f where "f = put_at 1 (be16_put (of_nat (?n - 1))) e"
  have i: "i < 680" using assms(2) n by simp
  have len: "length e = 4096" using i d by (simp add: e_def)
  have w: "writeTotalKeys (int ?n - 1) e = Ok ((), f)"
    using writeTotalKeys_Ok [OF len, of "?n - 1"] assms(2) by (simp add: f_def of_nat_diff)
  have r: "readBranchEntry (branchOffset (int i)) d = Ok (entry_of (branch_keys d) (branch_ptrs d) i, d)"
    using d i assms(2) by (rule readBranchEntry_Ok)
  have c: "copyWithin (branchOffset (int i)) (branchOffset (int i) + 6) d = Ok ((), e)" if "i + 1 \<noteq> ?n"
    using copyWithin_closed [of "9 + 6 * int i" 6 d] that i d
    by (simp add: e_def branchOffset_def node_layout mult.commute)
  have "branchDeleteAt (int i) d = Ok (entry_of (branch_keys d) (branch_ptrs d) i, f)"
  proof (cases "i + 1 = ?n")
    case True
    then have "e = d" by (simp add: e_def)
    with True w r show ?thesis
      by (simp add: branchDeleteAt_def bind_def seq_def nodeTotalKeys_Ok d Let_def flip: True)
  next
    case False
    with c w r assms(2) show ?thesis
      by (simp add: branchDeleteAt_def bind_def seq_def nodeTotalKeys_Ok d Let_def BTREE_BRANCH_ENTRY_JUMP_def)
  qed
  moreover have "bkey e j = deleteNth i (branch_keys d) ! j" if j: "j < ?n - 1" for j
  proof -
    have "j < 679" using j n by simp
    then show ?thesis
      using j i assms(2) bkey_closed [OF d i, of j] by (cases "j < i") (auto simp: e_def nth_deleteNth)
  qed
  moreover have "bptr e j = deleteNth (if i + 1 = ?n then i + 1 else i) (branch_ptrs d) ! j" if j: "j \<le> ?n - 1" for j
  proof -
    have "j < 680" using j n assms(2) by simp
    then show ?thesis
      using j i assms(2) bptr_closed [OF d i, of j] by (cases "j < i") (auto simp: e_def nth_deleteNth)
  qed
  moreover have "node_links e = node_links d" using i d by (simp add: e_def closed_up_def)
  ultimately show ?thesis
    using branch_shrink [OF assms(1) len _ f_def, of "deleteNth i (branch_keys d)"
        "deleteNth (if i + 1 = ?n then i + 1 else i) (branch_ptrs d)"] assms(2) by simp
qed

lemma branchShift_Ok:
  assumes "branch_ok d" "0 < nkeys d"
  shows "\<exists>f. branchShift d = Ok ((), f) \<and> branch_ok f \<and> node_links f = node_links d \<and>
    branch_keys f = tl (branch_keys d) \<and> branch_ptrs f = hd (branch_ptrs d) # drop 2 (branch_ptrs d)"
proof -
  have d: "length d = 4096" and n: "nkeys d \<le> 680" using assms(1) by (simp_all add: branch_ok_def)
  let ?n = "nkeys d"
  define e where "e = closed_up 11 6 d"
  define f where "f = put_at 1 (be16_put (of_nat (?n - 1))) e"
  have len: "length e = 4096" using d by (simp add: e_def)
  have ne: "nkeys e = ?n" using d by (simp add: e_def closed_up_def)
  have w: "writeTotalKeys (int ?n - 1) e = Ok ((), f)"
    using writeTotalKeys_Ok [OF len, of "?n - 1"] assms(2) by (simp add: f_def of_nat_diff)
  have "branchShift d = Ok ((), f)"
    using copyWithin_closed [of 11 6 d] d w
    by (simp add: branchShift_def node_layout Let_def seq_def bind_def nodeTotalKeys_Ok len ne flip: e_def)
  moreover have "bkey e j = tl (branch_keys d) ! j" if j: "j < ?n - 1" for j
    using closed_up_above [of 11 6 "11 + 6 * int j" 4 d] j n d
    by (simp add: nth_tl bkey_def u32_at_def e_def algebra_simps)
  moreover have "bptr e j = (hd (branch_ptrs d) # drop 2 (branch_ptrs d)) ! j" if j: "j \<le> ?n - 1" for j
  proof (cases j)
    case 0
    have "bptr e 0 = bptr d 0" using closed_up_below [of 11 6 d 9 2] d by (simp add: bptr_def u16_at_def e_def)
    with 0 show ?thesis by (simp add: hd_conv_nth flip: length_greater_0_conv)
  next
    case (Suc k)
    then show ?thesis
      using closed_up_above [of 11 6 "9 + 6 * int j" 2 d] j n d
      by (simp add: bptr_def u16_at_def e_def algebra_simps)
  qed
  moreover have "node_links e = node_links d" using d by (simp add: e_def closed_up_def)
  ultimately show ?thesis
    using branch_shrink [OF assms(1) len _ f_def, of "tl (branch_keys d)" "hd (branch_ptrs d) # drop 2 (branch_ptrs d)"]
      assms(2) by simp
qed

lemma branchReplaceKeyAt_Ok:
  assumes "branch_ok d" "i < nkeys d"
  shows "\<exists>f. branchReplaceKeyAt (int i) key d = Ok ((), f) \<and> branch_ok f \<and> node_links f = node_links d \<and>
    branch_keys f = (branch_keys d)[i := key] \<and> branch_ptrs f = branch_ptrs d"
proof -
  have d: "length d = 4096" and n: "nkeys d \<le> 680" using assms(1) by (simp_all add: branch_ok_def)
  define f where "f = put_at (11 + 6 * int i) (be32_put key) d"
  have i: "i < 680" using assms(2) n by simp
  have "branchReplaceKeyAt (int i) key d = Ok ((), f)"
    using d i assms(2) by (simp add: branchReplaceKeyAt_def bind_def nodeTotalKeys_Ok branch_offsets Write_VUint32_Ok f_def)
  moreover have nf: "nkeys f = nkeys d" using d i by (simp add: f_def)
  moreover have "bkey f j = (branch_keys d)[i := key] ! j" if "j < nkeys d" for j
    using that n i bkey_put(2) [OF d, of j i] by (simp add: f_def nth_list_update)
  moreover have "bptr f j = branch_ptrs d ! j" if "j \<le> nkeys d" for j
    using that n i bptr_put(2) [OF d, of j i] by (simp add: f_def)
  ultimately show ?thesis
    using branch_eqI [of f "(branch_keys d)[i := key]" "branch_ptrs d"] assms d i by (simp add: branch_ok_def f_def)
qed

lemma branchUnshift_Ok:
  assumes "branch_ok d" "nkeys d < 680"
  shows "\<exists>f. branchUnshift key lt d = Ok ((), f) \<and> branch_ok f \<and> node_links f = node_links d \<and>
    branch_keys f = key # branch_keys d \<and> branch_ptrs f = lt # branch_ptrs d"
proof -
  have d: "length d = 4096" using assms(1) by (simp add: branch_ok_def)
  let ?n = "nkeys d"
  define d1 where "d1 = opened 9 6 d"
  define e1 where "e1 = put_at 11 (be32_put key) d1"
  define e where "e = put_at 9 (be16_put lt) e1"
  define f where "f = put_at 1 (be16_put (of_nat (?n + 1))) e"
  have len: "length d1 = 4096" "length e1 = 4096" "length e = 4096" "length f = 4096"
    using d by (simp_all add: d1_def e1_def e_def f_def)
  have ne: "nkeys e = ?n" using d len by (simp add: e_def e1_def) (simp add: d1_def opened_def)
  have "writeTotalKeys (int ?n + 1) e = Ok ((), f)"
    using writeTotalKeys_Ok [OF len(3), of "?n + 1"] by (simp add: f_def add.commute)
  moreover have "Unshift 9 6 d = Ok ((), d1)" using d by (simp add: d1_def Unshift_opened)
  moreover have "Write 11 (VUint32 key) d1 = Ok ((), e1)" "Write 9 (VUint16 lt) e1 = Ok ((), e)"
    using len by (simp_all add: e1_def e_def Write_VUint32_Ok Write_VUint16_Ok)
  ultimately have "branchUnshift key lt d = Ok ((), f)"
    using len ne by (simp add: branchUnshift_def node_layout Let_def seq_def bind_def nodeTotalKeys_Ok)
  moreover have nf: "nkeys f = ?n + 1"
    unfolding f_def using len assms(2) by (intro nkeys_write) simp_all
  moreover have "bkey f j = (key # branch_keys d) ! j" if j: "j < ?n + 1" for j
  proof -
    have l: "j < 680" using j assms(2) by simp
    have "bkey f j = bkey e j" unfolding f_def by (rule bkey_put(3) [OF len(3) l])
    also have "\<dots> = bkey e1 j" using bkey_put(1) [OF len(2) l, of 0] by (simp add: e_def)
    also have "\<dots> = (if j = 0 then key else bkey d1 j)" using bkey_put(2) [OF len(1) l, of 0] by (simp add: e1_def)
    finally show ?thesis
      using j bkey_opened(2) [OF d _ l, of 0] by (cases j) (simp_all add: d1_def)
  qed
  moreover have "bptr f j = (lt # branch_ptrs d) ! j" if j: "j \<le> ?n + 1" for j
  proof -
    have l: "j \<le> 680" using j assms(2) by simp
    have "bptr f j = bptr e j" unfolding f_def by (rule bptr_put(3) [OF len(3) l])
    also have "\<dots> = (if j = 0 then lt else bptr e1 j)" using bptr_put(1) [OF len(2) l, of 0] by (simp add: e_def)
    also have "bptr e1 j = bptr d1 j" using bptr_put(2) [OF len(1) l, of 0] by (simp add: e1_def)
    finally show ?thesis
      using j bptr_opened(2) [OF d _ l, of 0] by (cases j) (simp_all add: d1_def)
  qed
  moreover have "node_links f = node_links d"
    using d len by (simp add: f_def e_def e1_def) (simp add: d1_def opened_def)
  ultimately show ?thesis
    using branch_eqI [of f "key # branch_keys d" "lt # branch_ptrs d"] len assms(2) by (simp add: branch_ok_def)
qed

lemma readBranchEntries_Ok:
  "length d = 4096 \<Longrightarrow> i + length is \<le> nkeys d \<Longrightarrow> nkeys d \<le> 680 \<Longrightarrow>
    readBranchEntries (branchOffset (int i)) is d =
      Ok (map (entry_of (branch_keys d) (branch_ptrs d)) [i ..< i + length is], d)"
proof (induction "is" arbitrary: i)
  case (Cons x "is")
  have "branchOffset (int i) + BTREE_BRANCH_ENTRY_JUMP = branchOffset (int (Suc i))"
    by (simp add: branchOffset_def node_layout)
  moreover have "[i ..< i + length (x # is)] = i # [Suc i ..< Suc i + length is]"
    by (simp add: upt_conv_Cons del: upt_Suc)
  ultimately show ?case
    using Cons.IH [of "Suc i"] Cons.prems by (simp add: bind_def readBranchEntry_Ok del: upt_Suc)
qed simp

lemma branchDeleteFrom_Ok:
  assumes "branch_ok d" "i \<le> nkeys d"
  shows "\<exists>f. branchDeleteFrom (int i) d = Ok (drop i (entries_of (branch_keys d) (branch_ptrs d)), f) \<and>
    branch_ok f \<and> node_links f = node_links d \<and> branch_keys f = take i (branch_keys d) \<and>
    branch_ptrs f = take (i + 1) (branch_ptrs d)"
proof -
  have d: "length d = 4096" and n: "nkeys d \<le> 680" using assms(1) by (simp_all add: branch_ok_def)
  define f where "f = put_at 1 (be16_put (of_nat i)) d"
  have "drop i (entries_of (branch_keys d) (branch_ptrs d)) =
      map (entry_of (branch_keys d) (branch_ptrs d)) [i ..< nkeys d]"
    by (simp add: entries_of_def drop_map)
  then have "branchDeleteFrom (int i) d = Ok (drop i (entries_of (branch_keys d) (branch_ptrs d)), f)"
    using d n assms(2) readBranchEntries_Ok [OF d, of i "[0 ..< nkeys d - i]"] writeTotalKeys_Ok [OF d, of i]
    by (simp add: branchDeleteFrom_def bind_def seq_def nodeTotalKeys_Ok f_def flip: of_nat_diff)
  then show ?thesis
    using branch_shrink [OF assms(1) d assms(2) f_def, of "take i (branch_keys d)" "take (i + 1) (branch_ptrs d)"]
      assms(2) by (simp add: min_def)
qed


section \<open>Properties\<close>

text \<open>C25: The operations of a leaf on its bytes refine the list of its entries: inserting within the 510
  entries that fit, deleting at a position and deleting from a position give the list operation,
  keep the type and the links of the node, and return what was deleted; reading gives the entry.\<close>

theorem leaf_refines_list:
  assumes "leaf_ok d" "i \<le> nkeys d"
  shows "(nkeys d < 510 \<longrightarrow> (\<exists>f. leafInsertAt (int i) e d = Ok ((), f) \<and> leaf_ok f \<and>
      node_links f = node_links d \<and> leaf_entries f = insertNth i e (leaf_entries d))) \<and>
    (\<exists>f. leafDeleteFrom (int i) d = Ok (drop i (leaf_entries d), f) \<and> leaf_ok f \<and>
      node_links f = node_links d \<and> leaf_entries f = take i (leaf_entries d)) \<and>
    (i < nkeys d \<longrightarrow> leafKeyAt (int i) d = Ok (leKey (leaf_entries d ! i), d) \<and>
      leafItemAt (int i) d = Ok (leItem (leaf_entries d ! i), d) \<and>
      (\<exists>f. leafDeleteAt (int i) d = Ok (leaf_entries d ! i, f) \<and> leaf_ok f \<and>
        node_links f = node_links d \<and> leaf_entries f = deleteNth i (leaf_entries d)))"
proof -
  have "length d = 4096" "nkeys d \<le> 510" using assms(1) by (simp_all add: leaf_ok_def)
  then show ?thesis
    using leafInsertAt_Ok [OF assms(1) _ assms(2), of "int i" e] leafDeleteFrom_Ok [OF assms]
      leafDeleteAt_Ok [OF assms(1), of i] leafKeyAt_Ok [of d i] leafItemAt_Ok [of d i] by auto
qed

definition small_leaf :: bytes where
  "small_leaf = put_at 9 (leaf_bytes \<lparr>leKey = 5, leItem = \<lparr>DataBlockID = 3, LocalID = 0\<rparr>\<rparr>)
     (put_at 1 (be16_put 1) (replicate 4096 0))"

lemma small_leaf:
  "leaf_ok small_leaf" "leaf_entries small_leaf = [\<lparr>leKey = 5, leItem = \<lparr>DataBlockID = 3, LocalID = 0\<rparr>\<rparr>]"
proof -
  let ?d = "put_at 1 (be16_put 1) (replicate 4096 0)"
  have d: "length ?d = 4096" by simp
  have "nkeys ?d = 1" using nkeys_write [of "replicate 4096 0" 1] by simp
  then have n: "nkeys small_leaf = 1" using d by (simp add: small_leaf_def leaf_bytes_def)
  moreover have "leaf_entry small_leaf 0 = \<lparr>leKey = 5, leItem = \<lparr>DataBlockID = 3, LocalID = 0\<rparr>\<rparr>"
    unfolding small_leaf_def using leaf_entry_put [OF d, of 0] by simp
  ultimately show "leaf_ok small_leaf"
    "leaf_entries small_leaf = [\<lparr>leKey = 5, leItem = \<lparr>DataBlockID = 3, LocalID = 0\<rparr>\<rparr>]"
    by (simp_all add: leaf_ok_def leaf_entries_def) (simp_all add: small_leaf_def leaf_bytes_def)
qed

lemma leaf_refines_list_witness:
  "\<exists>f. leafInsertAt 0 \<lparr>leKey = 2, leItem = \<lparr>DataBlockID = 3, LocalID = 1\<rparr>\<rparr> small_leaf = Ok ((), f) \<and>
     map leKey (leaf_entries f) = [2, 5]"
proof -
  have "nkeys small_leaf = 1" using small_leaf(2) by (metis length_leaf_entries One_nat_def length_Cons list.size(3))
  with leaf_refines_list [OF small_leaf(1), of 0 "\<lparr>leKey = 2, leItem = \<lparr>DataBlockID = 3, LocalID = 1\<rparr>\<rparr>"] small_leaf(2)
  show ?thesis by auto
qed

text \<open>C26: The operations of a branch on its bytes refine its keys and child pointers: an insert adds the
  key with the pointer on its right, \<open>Unshift\<close> with the pointer on its left, \<open>Shift\<close> drops the
  first key with the pointer on its right, and \<open>ReplaceKeyAt\<close> replaces a key; but \<open>DeleteAt\<close> drops
  the pointer on the LEFT of its key, except for the last one.\<close>

theorem branch_refines_lists:
  assumes "branch_ok d" "i \<le> nkeys d"
  shows "(nkeys d < 680 \<longrightarrow> (\<exists>f. branchInsertAt (int i) key p d = Ok ((), f) \<and> branch_ok f \<and>
      branch_keys f = insertNth i key (branch_keys d) \<and> branch_ptrs f = insertNth (i + 1) p (branch_ptrs d)) \<and>
      (\<exists>f. branchUnshift key p d = Ok ((), f) \<and> branch_ok f \<and>
        branch_keys f = key # branch_keys d \<and> branch_ptrs f = p # branch_ptrs d)) \<and>
    (0 < nkeys d \<longrightarrow> (\<exists>f. branchShift d = Ok ((), f) \<and> branch_ok f \<and> branch_keys f = tl (branch_keys d) \<and>
      branch_ptrs f = hd (branch_ptrs d) # drop 2 (branch_ptrs d))) \<and>
    (i < nkeys d \<longrightarrow> (\<exists>f. branchReplaceKeyAt (int i) key d = Ok ((), f) \<and> branch_ok f \<and>
        branch_keys f = (branch_keys d)[i := key] \<and> branch_ptrs f = branch_ptrs d) \<and>
      (\<exists>f. branchDeleteAt (int i) d = Ok (entry_of (branch_keys d) (branch_ptrs d) i, f) \<and> branch_ok f \<and>
        branch_keys f = deleteNth i (branch_keys d) \<and>
        branch_ptrs f = deleteNth (if i + 1 = nkeys d then i + 1 else i) (branch_ptrs d)))"
  using branchInsertAt_Ok [OF assms(1) _ assms(2), of key p] branchUnshift_Ok [OF assms(1), of key p]
    branchShift_Ok [OF assms(1)] branchReplaceKeyAt_Ok [OF assms(1), of i key] branchDeleteAt_Ok [OF assms(1), of i]
  by blast

definition small_branch :: bytes where
  "small_branch = put_at 1 (be16_put 3) (replicate 4096 0)"

lemma small_branch: "branch_ok small_branch" "nkeys small_branch = 3"
  using nkeys_write [of "replicate 4096 0" 3] by (simp_all add: small_branch_def branch_ok_def)

lemma branch_refines_lists_witness:
  "\<exists>f. branchDeleteAt 1 small_branch = Ok (entry_of (branch_keys small_branch) (branch_ptrs small_branch) 1, f) \<and>
     branch_ptrs f = deleteNth 1 (branch_ptrs small_branch)"
  using branch_refines_lists [OF small_branch(1), of 1] small_branch(2) by auto

end
