(* ===== verification/InMemoryAdapter.thy ===== *)
theory InMemoryAdapter
  imports BPlusTree
begin

text \<open>
  The adapter that keeps the nodes in memory, \<open>src/src/bplustree/in_memory_adapter.go\<close>. A pointer
  to a node is its index in a heap of leaves or of branches; the map \<open>Nodes\<close> holds such pointers,
  and a freed node stays in the heap for the handles that still point to it. The slices of entries
  are lists: where two slices of the code share an array, the tree never reads one after it wrote
  the other.
\<close>

record 'i inMemoryLeaf =
  lid :: u16
  lparentID :: u16
  lleftID :: u16
  lrightID :: u16
  lentries :: "'i LeafEntry list"

record inMemoryBranch =
  bid :: u16
  bparentID :: u16
  bleftID :: u16
  brightID :: u16
  bentries :: "BranchEntry list"

record 'i InMemoryAdapter =
  rootID :: u16
  firstLeafID :: u16
  nextNodeID :: u16
  Nodes :: "u16 \<rightharpoonup> (nat, nat) node"
  leaves :: "'i inMemoryLeaf list"
  branches :: "inMemoryBranch list"

definition NewInMemoryAdapter :: "'i InMemoryAdapter" where
  "NewInMemoryAdapter = \<lparr>rootID = 9999, firstLeafID = 0, nextNodeID = 1, Nodes = (\<lambda>_. None),
     leaves = [], branches = []\<rparr>"

section \<open>Pointers to nodes\<close>

type_synonym ('i, 'a) mem = "('i InMemoryAdapter, 'a) prog"

definition leafAt :: "nat \<Rightarrow> ('i, 'i inMemoryLeaf) mem" where
  "leafAt p a = (if p < length (leaves a) then Ok (leaves a ! p, a) else Panic NilDereference)"

definition setLeaf :: "nat \<Rightarrow> ('i inMemoryLeaf \<Rightarrow> 'i inMemoryLeaf) \<Rightarrow> ('i, unit) mem" where
  "setLeaf p f a =
     (if p < length (leaves a) then Ok ((), a\<lparr>leaves := (leaves a)[p := f (leaves a ! p)]\<rparr>)
      else Panic NilDereference)"

definition branchAt :: "nat \<Rightarrow> ('i, inMemoryBranch) mem" where
  "branchAt p a = (if p < length (branches a) then Ok (branches a ! p, a) else Panic NilDereference)"

definition setBranch :: "nat \<Rightarrow> (inMemoryBranch \<Rightarrow> inMemoryBranch) \<Rightarrow> ('i, unit) mem" where
  "setBranch p f a =
     (if p < length (branches a) then Ok ((), a\<lparr>branches := (branches a)[p := f (branches a ! p)]\<rparr>)
      else Panic NilDereference)"

text \<open>\<open>xs[i]\<close>, with the check of the index.\<close>

definition nthCheck :: "'a list \<Rightarrow> int \<Rightarrow> ('s, 'a) prog" where
  "nthCheck xs i =
     (if 0 \<le> i \<and> i < int (length xs) then ret (xs ! nat i) else panic IndexOutOfRange)"

section \<open>The fields of a node\<close>

fun mem_NodeID :: "(nat, nat) node \<Rightarrow> ('i, u16) mem" where
  "mem_NodeID (LeafNode p) = bind (leafAt p) (\<lambda>l. ret (lid l))"
| "mem_NodeID (BranchNode p) = bind (branchAt p) (\<lambda>b. ret (bid b))"

fun mem_ParentID :: "(nat, nat) node \<Rightarrow> ('i, u16) mem" where
  "mem_ParentID (LeafNode p) = bind (leafAt p) (\<lambda>l. ret (lparentID l))"
| "mem_ParentID (BranchNode p) = bind (branchAt p) (\<lambda>b. ret (bparentID b))"

fun mem_SetParentID :: "(nat, nat) node \<Rightarrow> u16 \<Rightarrow> ('i, unit) mem" where
  "mem_SetParentID (LeafNode p) nid = setLeaf p (\<lambda>l. l\<lparr>lparentID := nid\<rparr>)"
| "mem_SetParentID (BranchNode p) nid = setBranch p (\<lambda>b. b\<lparr>bparentID := nid\<rparr>)"

fun mem_LeftSiblingID :: "(nat, nat) node \<Rightarrow> ('i, u16) mem" where
  "mem_LeftSiblingID (LeafNode p) = bind (leafAt p) (\<lambda>l. ret (lleftID l))"
| "mem_LeftSiblingID (BranchNode p) = bind (branchAt p) (\<lambda>b. ret (bleftID b))"

fun mem_SetLeftSiblingID :: "(nat, nat) node \<Rightarrow> u16 \<Rightarrow> ('i, unit) mem" where
  "mem_SetLeftSiblingID (LeafNode p) nid = setLeaf p (\<lambda>l. l\<lparr>lleftID := nid\<rparr>)"
| "mem_SetLeftSiblingID (BranchNode p) nid = setBranch p (\<lambda>b. b\<lparr>bleftID := nid\<rparr>)"

fun mem_RightSiblingID :: "(nat, nat) node \<Rightarrow> ('i, u16) mem" where
  "mem_RightSiblingID (LeafNode p) = bind (leafAt p) (\<lambda>l. ret (lrightID l))"
| "mem_RightSiblingID (BranchNode p) = bind (branchAt p) (\<lambda>b. ret (brightID b))"

fun mem_SetRightSiblingID :: "(nat, nat) node \<Rightarrow> u16 \<Rightarrow> ('i, unit) mem" where
  "mem_SetRightSiblingID (LeafNode p) nid = setLeaf p (\<lambda>l. l\<lparr>lrightID := nid\<rparr>)"
| "mem_SetRightSiblingID (BranchNode p) nid = setBranch p (\<lambda>b. b\<lparr>brightID := nid\<rparr>)"

fun mem_TotalKeys :: "(nat, nat) node \<Rightarrow> ('i, int) mem" where
  "mem_TotalKeys (LeafNode p) = bind (leafAt p) (\<lambda>l. ret (int (length (lentries l))))"
| "mem_TotalKeys (BranchNode p) = bind (branchAt p) (\<lambda>b. ret (int (length (bentries b))))"

fun mem_KeyAt :: "(nat, nat) node \<Rightarrow> int \<Rightarrow> ('i, u32) mem" where
  "mem_KeyAt (LeafNode p) position =
     bind (leafAt p) (\<lambda>l. bind (nthCheck (lentries l) position) (\<lambda>e. ret (leKey e)))"
| "mem_KeyAt (BranchNode p) position =
     bind (branchAt p) (\<lambda>b. bind (nthCheck (bentries b) position) (\<lambda>e. ret (beKey e)))"

section \<open>Loading and creating nodes\<close>

definition mem_SetRoot :: "(nat, nat) node \<Rightarrow> ('i, unit) mem" where
  "mem_SetRoot node =
     bind (mem_NodeID node) (\<lambda>nid. seq (modify (\<lambda>a. a\<lparr>rootID := nid\<rparr>)) (mem_SetParentID node 0))"

definition mem_CreateLeaf :: "('i, nat) mem" where
  "mem_CreateLeaf a =
     (let p = length (leaves a); nid = nextNodeID a in
      Ok (p, a\<lparr>leaves := leaves a @ [\<lparr>lid = nid, lparentID = 0, lleftID = 0, lrightID = 0, lentries = []\<rparr>],
               Nodes := (Nodes a)(nid \<mapsto> LeafNode p), nextNodeID := nid + 1\<rparr>))"

definition mem_CreateBranch :: "BranchEntry \<Rightarrow> ('i, nat) mem" where
  "mem_CreateBranch entry a =
     (let p = length (branches a); nid = nextNodeID a in
      Ok (p, a\<lparr>branches := branches a @ [\<lparr>bid = nid, bparentID = 0, bleftID = 0, brightID = 0, bentries = [entry]\<rparr>],
               Nodes := (Nodes a)(nid \<mapsto> BranchNode p), nextNodeID := nid + 1\<rparr>))"

definition mem_Init :: "('i, nat) mem" where
  "mem_Init =
     bind mem_CreateLeaf (\<lambda>root.
     bind (mem_NodeID (LeafNode root)) (\<lambda>nid.
     seq (modify (\<lambda>a. a\<lparr>rootID := nid\<rparr>))
    (seq (modify (\<lambda>a. a\<lparr>firstLeafID := rootID a\<rparr>))
         (ret root))))"

definition mem_IsRoot :: "(nat, nat) node \<Rightarrow> ('i, bool) mem" where
  "mem_IsRoot node = bind (mem_NodeID node) (\<lambda>nid. gets (\<lambda>a. rootID a = nid))"

definition mem_LoadRoot :: "('i, (nat, nat) node option) mem" where
  "mem_LoadRoot = gets (\<lambda>a. Nodes a (rootID a))"

definition mem_LoadNode :: "u16 \<Rightarrow> ('i, (nat, nat) node option) mem" where
  "mem_LoadNode nid = gets (\<lambda>a. Nodes a nid)"

definition mem_Free :: "(nat, nat) node \<Rightarrow> ('i, unit) mem" where
  "mem_Free node = bind (mem_NodeID node) (\<lambda>nid. modify (\<lambda>a. a\<lparr>Nodes := (Nodes a)(nid := None)\<rparr>))"

definition mem_LoadBranch :: "u16 \<Rightarrow> ('i, nat option) mem" where
  "mem_LoadBranch nid =
     bind (mem_LoadNode nid) (\<lambda>node. case node of
       None \<Rightarrow> ret None | Some (BranchNode p) \<Rightarrow> ret (Some p) | Some (LeafNode p) \<Rightarrow> panic BadTypeAssertion)"

definition mem_LoadLeaf :: "u16 \<Rightarrow> ('i, nat option) mem" where
  "mem_LoadLeaf nid =
     bind (mem_LoadNode nid) (\<lambda>node. case node of
       None \<Rightarrow> ret None | Some (LeafNode p) \<Rightarrow> ret (Some p) | Some (BranchNode p) \<Rightarrow> panic BadTypeAssertion)"

definition mem_LoadFirstLeaf :: "('i, nat option) mem" where
  "mem_LoadFirstLeaf =
     bind (gets (\<lambda>a. Nodes a (firstLeafID a))) (\<lambda>node. case node of
       Some (LeafNode p) \<Rightarrow> ret (Some p) | _ \<Rightarrow> panic BadTypeAssertion)"

section \<open>The entries of a leaf\<close>

definition memLeaf_InsertAt :: "nat \<Rightarrow> int \<Rightarrow> 'i LeafEntry \<Rightarrow> ('i, unit) mem" where
  "memLeaf_InsertAt p position entry =
     bind (leafAt p) (\<lambda>l.
     if position = int (length (lentries l)) then setLeaf p (\<lambda>l. l\<lparr>lentries := lentries l @ [entry]\<rparr>)
     else if position = 0 then setLeaf p (\<lambda>l. l\<lparr>lentries := entry # lentries l\<rparr>)
     else if position < 0 \<or> position > int (length (lentries l)) then panic IndexOutOfRange
     else setLeaf p (\<lambda>l. l\<lparr>lentries := insertNth (nat position) entry (lentries l)\<rparr>))"

definition memLeaf_ItemAt :: "nat \<Rightarrow> int \<Rightarrow> ('i, 'i) mem" where
  "memLeaf_ItemAt p position =
     bind (leafAt p) (\<lambda>l. bind (nthCheck (lentries l) position) (\<lambda>e. ret (leItem e)))"

definition memLeaf_DeleteAt :: "nat \<Rightarrow> int \<Rightarrow> ('i, 'i LeafEntry) mem" where
  "memLeaf_DeleteAt p position =
     bind (leafAt p) (\<lambda>l.
     bind (nthCheck (lentries l) position) (\<lambda>deleted.
     seq (setLeaf p (\<lambda>l. l\<lparr>lentries := deleteNth (nat position) (lentries l)\<rparr>)) (ret deleted)))"

definition memLeaf_DeleteFrom :: "nat \<Rightarrow> int \<Rightarrow> ('i, 'i LeafEntry list) mem" where
  "memLeaf_DeleteFrom p startPosition =
     bind (leafAt p) (\<lambda>l.
     if startPosition < 0 \<or> startPosition > int (length (lentries l)) then panic IndexOutOfRange
     else seq (setLeaf p (\<lambda>l. l\<lparr>lentries := take (nat startPosition) (lentries l)\<rparr>))
              (ret (drop (nat startPosition) (lentries l))))"

definition memLeaf_Nth :: "nat \<Rightarrow> nat \<Rightarrow> ('i, 'i LeafEntry) mem" where
  "memLeaf_Nth p i = bind (leafAt p) (\<lambda>l. nthCheck (lentries l) (int i))"

section \<open>The entries of a branch\<close>

definition memBranch_EntryAt :: "nat \<Rightarrow> int \<Rightarrow> ('i, BranchEntry) mem" where
  "memBranch_EntryAt p position = bind (branchAt p) (\<lambda>b. nthCheck (bentries b) position)"

definition memBranch_Nth :: "nat \<Rightarrow> nat \<Rightarrow> ('i, BranchEntry) mem" where
  "memBranch_Nth p i = bind (branchAt p) (\<lambda>b. nthCheck (bentries b) (int i))"

text \<open>Between its neighbours a deleted entry hands the left one's greater pointer to the right one.\<close>

definition memBranch_DeleteAt :: "nat \<Rightarrow> int \<Rightarrow> ('i, BranchEntry) mem" where
  "memBranch_DeleteAt p position =
     bind (branchAt p) (\<lambda>b.
     bind (nthCheck (bentries b) position) (\<lambda>entry.
     let es = bentries b; i = nat position in
     seq (if position = int (length es) - 1 then setBranch p (\<lambda>b. b\<lparr>bentries := take i es\<rparr>)
          else if position = 0 then setBranch p (\<lambda>b. b\<lparr>bentries := drop 1 es\<rparr>)
          else setBranch p (\<lambda>b. b\<lparr>bentries := deleteNth i (es[i + 1 := (es ! (i + 1))
                 \<lparr>LowerThanKeyNodeID := GreaterThanOrEqualToKeyNodeID (es ! (i - 1))\<rparr>])\<rparr>))
         (ret entry)))"

definition memBranch_ReplaceKeyAt :: "nat \<Rightarrow> int \<Rightarrow> u32 \<Rightarrow> ('i, unit) mem" where
  "memBranch_ReplaceKeyAt p position key =
     bind (branchAt p) (\<lambda>b.
     bind (nthCheck (bentries b) position) (\<lambda>e.
     setBranch p (\<lambda>b. b\<lparr>bentries := (bentries b)[nat position := e\<lparr>beKey := key\<rparr>]\<rparr>)))"

definition memBranch_DeleteFrom :: "nat \<Rightarrow> int \<Rightarrow> ('i, BranchEntry list) mem" where
  "memBranch_DeleteFrom p startPosition =
     bind (branchAt p) (\<lambda>b.
     if startPosition < 0 \<or> startPosition > int (length (bentries b)) then panic IndexOutOfRange
     else seq (setBranch p (\<lambda>b. b\<lparr>bentries := take (nat startPosition) (bentries b)\<rparr>))
              (ret (drop (nat startPosition) (bentries b))))"

definition memBranch_Shift :: "nat \<Rightarrow> ('i, unit) mem" where
  "memBranch_Shift p =
     bind (branchAt p) (\<lambda>b. case bentries b of
       e # f # es \<Rightarrow> setBranch p (\<lambda>b. b\<lparr>bentries := f\<lparr>LowerThanKeyNodeID := LowerThanKeyNodeID e\<rparr> # es\<rparr>)
     | _ \<Rightarrow> panic IndexOutOfRange)"

definition memBranch_InsertAt :: "nat \<Rightarrow> int \<Rightarrow> u32 \<Rightarrow> u16 \<Rightarrow> ('i, unit) mem" where
  "memBranch_InsertAt p position key gteID =
     bind (branchAt p) (\<lambda>b.
     let es = bentries b; i = nat position;
         entry = (\<lambda>lt. \<lparr>beKey = key, LowerThanKeyNodeID = lt, GreaterThanOrEqualToKeyNodeID = gteID\<rparr>) in
     if position < 0 then panic (PanicMsg ''IS THIS CORRECT?'')
     else if position = 0 then
       bind (nthCheck es 0) (\<lambda>e.
       setBranch p (\<lambda>b. b\<lparr>bentries := entry (LowerThanKeyNodeID e) # es[0 := e\<lparr>LowerThanKeyNodeID := gteID\<rparr>]\<rparr>))
     else if position = int (length es) then
       setBranch p (\<lambda>b. b\<lparr>bentries := es @ [entry (GreaterThanOrEqualToKeyNodeID (es ! (i - 1)))]\<rparr>)
     else
       bind (nthCheck es (position - 1)) (\<lambda>prevEntry.
       bind (nthCheck es position) (\<lambda>e.
       setBranch p (\<lambda>b. b\<lparr>bentries := insertNth i (entry (GreaterThanOrEqualToKeyNodeID prevEntry))
         (es[i := e\<lparr>LowerThanKeyNodeID := gteID\<rparr>])\<rparr>))))"

definition memBranch_Unshift :: "nat \<Rightarrow> u32 \<Rightarrow> u16 \<Rightarrow> ('i, unit) mem" where
  "memBranch_Unshift p key ltID =
     bind (branchAt p) (\<lambda>b.
     bind (nthCheck (bentries b) 0) (\<lambda>e.
     setBranch p (\<lambda>b. b\<lparr>bentries := \<lparr>beKey = key, LowerThanKeyNodeID = ltID,
       GreaterThanOrEqualToKeyNodeID = LowerThanKeyNodeID e\<rparr> # bentries b\<rparr>)))"

section \<open>The adapter\<close>

definition memAdapter :: "('i InMemoryAdapter, nat, nat, 'i) NodeAdapter" where
  "memAdapter = \<lparr>
     LoadRoot = mem_LoadRoot, IsRoot = mem_IsRoot, InitRoot = mem_Init, SetRoot = mem_SetRoot,
     LoadNode = mem_LoadNode, Free = mem_Free, CreateBranch = mem_CreateBranch,
     LoadBranch = mem_LoadBranch, LoadFirstLeaf = mem_LoadFirstLeaf, CreateLeaf = mem_CreateLeaf,
     LoadLeaf = mem_LoadLeaf, NodeID = mem_NodeID, ParentID = mem_ParentID,
     SetParentID = mem_SetParentID, LeftSiblingID = mem_LeftSiblingID,
     SetLeftSiblingID = mem_SetLeftSiblingID, RightSiblingID = mem_RightSiblingID,
     SetRightSiblingID = mem_SetRightSiblingID, KeyAt = mem_KeyAt, TotalKeys = mem_TotalKeys,
     LeafInsertAt = memLeaf_InsertAt, ItemAt = memLeaf_ItemAt, LeafDeleteAt = memLeaf_DeleteAt,
     LeafDeleteFrom = memLeaf_DeleteFrom, LeafNth = memLeaf_Nth,
     BranchInsertAt = memBranch_InsertAt, BranchUnshift = memBranch_Unshift,
     EntryAt = memBranch_EntryAt, BranchDeleteAt = memBranch_DeleteAt,
     BranchDeleteFrom = memBranch_DeleteFrom, BranchShift = memBranch_Shift,
     ReplaceKeyAt = memBranch_ReplaceKeyAt, BranchNth = memBranch_Nth\<rparr>"

end
