(* ===== verification/AdaptersAgree.thy ===== *)
theory AdaptersAgree
  imports NodeBytes InMemoryAdapter
begin

text \<open>
  The two implementations of the nodes of the tree side by side: the branch in memory is a list of
  entries, each with both its pointers, and the branch in a data block shares them. On a branch
  whose entries fit together the operations agree, but for deleting between two keys.
\<close>

section \<open>Entries that share their pointers\<close>

lemma entries_insert:
  assumes "length ps = length ks + 1" "i \<le> length ks"
  shows "entries_of (insertNth i k ks) (insertNth (i + 1) g ps) =
    insertNth i \<lparr>beKey = k, LowerThanKeyNodeID = ps ! i, GreaterThanOrEqualToKeyNodeID = g\<rparr>
      (if i < length ks then (entries_of ks ps)[i := (entry_of ks ps i)\<lparr>LowerThanKeyNodeID := g\<rparr>]
       else entries_of ks ps)"
  using assms
  by (intro nth_equalityI) (auto simp: nth_insertNth entry_of_def nth_list_update)

lemma entries_unshift:
  "entries_of (k # ks) (g # ps) =
    \<lparr>beKey = k, LowerThanKeyNodeID = g, GreaterThanOrEqualToKeyNodeID = ps ! 0\<rparr> # entries_of ks ps"
  by (intro nth_equalityI) (auto simp: entry_of_def nth_Cons')

lemma entries_delete_right:
  assumes "length ps = length ks + 1" "i < length ks"
  shows "entries_of (deleteNth i ks) (deleteNth (i + 1) ps) =
    deleteNth i (if i + 1 < length ks
      then (entries_of ks ps)[i + 1 := (entry_of ks ps (i + 1))\<lparr>LowerThanKeyNodeID := ps ! i\<rparr>]
      else entries_of ks ps)"
proof (rule nth_equalityI, goal_cases)
  case (2 j)
  then have j: "j < length ks - 1" using assms by simp
  then show ?case
    using assms by (cases "j < i"; cases "j = i") (auto simp: nth_deleteNth entry_of_def nth_list_update)
qed (use assms in simp)

lemma entries_delete_left:
  assumes "length ps = length ks + 1" "0 < length ks"
  shows "entries_of (deleteNth 0 ks) (deleteNth 0 ps) = drop 1 (entries_of ks ps)"
  using assms by (intro nth_equalityI) (auto simp: nth_deleteNth entry_of_def)

lemma entries_shift:
  assumes "length ps = length ks + 1" "2 \<le> length ks"
  shows "entries_of (tl ks) (hd ps # drop 2 ps) =
    (entry_of ks ps 1)\<lparr>LowerThanKeyNodeID := ps ! 0\<rparr> # drop 2 (entries_of ks ps)"
proof (rule nth_equalityI)
  have "hd ps = ps ! 0" using assms(1) by (cases ps) simp_all
  then show "entries_of (tl ks) (hd ps # drop 2 ps) ! i =
      ((entry_of ks ps 1)\<lparr>LowerThanKeyNodeID := ps ! 0\<rparr> # drop 2 (entries_of ks ps)) ! i"
    if "i < length (entries_of (tl ks) (hd ps # drop 2 ps))" for i
    using that assms by (cases i) (simp_all add: entry_of_def nth_tl numeral_2_eq_2)
qed (use assms in simp)

lemma entries_replace:
  "i < length ks \<Longrightarrow> entries_of (ks[i := k]) ps = (entries_of ks ps)[i := (entry_of ks ps i)\<lparr>beKey := k\<rparr>]"
  by (intro nth_equalityI) (auto simp: entry_of_def nth_list_update)

lemma entries_take:
  assumes "length ps = length ks + 1" "i \<le> length ks"
  shows "entries_of (take i ks) (take (i + 1) ps) = take i (entries_of ks ps)"
  using assms by (intro nth_equalityI) (auto simp: entry_of_def)

lemma set_deleteNth:
  assumes "distinct xs" "j < length xs"
  shows "set (deleteNth j xs) = set xs - {xs ! j}"
proof -
  have e: "xs = take j xs @ xs ! j # drop (Suc j) xs" using assms(2) by (rule id_take_nth_drop)
  then have "set xs = insert (xs ! j) (set (deleteNth j xs))"
    by (metis Suc_eq_plus1 Un_insert_right deleteNth_def list.simps(15) set_append)
  moreover have "distinct (take j xs @ xs ! j # drop (Suc j) xs)" using assms(1) e by simp
  then have "xs ! j \<notin> set (deleteNth j xs)" by (simp add: deleteNth_def)
  ultimately show ?thesis by auto
qed

section \<open>The branch in memory\<close>

text \<open>Running an operation on the branch at a pointer.\<close>

definition holds :: "nat \<Rightarrow> BranchEntry list \<Rightarrow> 'i InMemoryAdapter \<Rightarrow> bool" where
  "holds p es a \<longleftrightarrow> p < length (branches a) \<and> bentries (branches a ! p) = es"

lemma setBranch_holds:
  assumes "holds p es a"
  shows "\<exists>a'. setBranch p (\<lambda>b. b\<lparr>bentries := fs\<rparr>) a = Ok ((), a') \<and> holds p fs a'"
    "bentries (branches a ! p) = es" "branchAt p a = Ok (branches a ! p, a)"
  using assms by (auto simp: holds_def setBranch_def branchAt_def)

lemma setBranch_cong:
  "f (branches a ! p) = g (branches a ! p) \<Longrightarrow> setBranch p f a = setBranch p g a"
  by (simp add: setBranch_def)

lemma memBranch_InsertAt_run:
  assumes "holds p (entries_of ks ps) a" "length ps = length ks + 1" "0 < length ks" "i \<le> length ks"
  shows "memBranch_InsertAt p (int i) k g a =
    setBranch p (\<lambda>b. b\<lparr>bentries := entries_of (insertNth i k ks) (insertNth (i + 1) g ps)\<rparr>) a"
proof -
  note H = setBranch_holds(2,3) [OF assms(1)]
  let ?entry = "\<lparr>beKey = k, LowerThanKeyNodeID = ps ! i, GreaterThanOrEqualToKeyNodeID = g\<rparr>"
  let ?fs = "insertNth i ?entry (if i < length ks
    then (entries_of ks ps)[i := (entry_of ks ps i)\<lparr>LowerThanKeyNodeID := g\<rparr>] else entries_of ks ps)"
  have "memBranch_InsertAt p (int i) k g a = setBranch p (\<lambda>b. b\<lparr>bentries := ?fs\<rparr>) a"
  proof -
    consider "i = 0" | "0 < i" "i < length ks" | "0 < i" "i = length ks" using assms(4) by linarith
    then show ?thesis
    proof cases
      case 1
      then show ?thesis
        using assms(2,3) by (simp add: memBranch_InsertAt_def bind_def Let_def H nthCheck_def)
    next
      case 2
      then show ?thesis
        using assms(2) by (simp add: memBranch_InsertAt_def bind_def Let_def H nthCheck_def nat_diff_distrib)
    next
      case 3
      have "insertNth (length ks) ?entry (entries_of ks ps) = entries_of ks ps @ [?entry]"
        using insertNth_end [of "entries_of ks ps" ?entry] by simp
      with 3 show ?thesis
        using assms(2) by (simp add: memBranch_InsertAt_def bind_def Let_def H)
    qed
  qed
  then show ?thesis by (simp only: entries_insert [OF assms(2,4)])
qed

lemma memBranch_InsertAt_Ok:
  assumes "holds p (entries_of ks ps) a" "length ps = length ks + 1" "0 < length ks" "i \<le> length ks"
  shows "\<exists>a'. memBranch_InsertAt p (int i) k g a = Ok ((), a') \<and>
    holds p (entries_of (insertNth i k ks) (insertNth (i + 1) g ps)) a'"
  using memBranch_InsertAt_run [OF assms] setBranch_holds(1) [OF assms(1)] by simp

lemma memBranch_DeleteAt_Ok:
  assumes "holds p (entries_of ks ps) a" "length ps = length ks + 1" "i < length ks"
  shows "\<exists>a'. memBranch_DeleteAt p (int i) a = Ok (entry_of ks ps i, a') \<and>
    holds p (if i = 0 \<and> 1 < length ks then entries_of (deleteNth 0 ks) (deleteNth 0 ps)
      else entries_of (deleteNth i ks) (deleteNth (i + 1) ps)) a'"
proof -
  note H = setBranch_holds(2,3) [OF assms(1)]
  let ?fs = "if i = 0 \<and> 1 < length ks then drop 1 (entries_of ks ps)
    else deleteNth i (if i + 1 < length ks
      then (entries_of ks ps)[i + 1 := (entry_of ks ps (i + 1))\<lparr>LowerThanKeyNodeID := ps ! i\<rparr>]
      else entries_of ks ps)"
  obtain a' where a': "setBranch p (\<lambda>b. b\<lparr>bentries := ?fs\<rparr>) a = Ok ((), a')" "holds p ?fs a'"
    using setBranch_holds(1) [OF assms(1), of ?fs] by blast
  have "memBranch_DeleteAt p (int i) a = Ok (entry_of ks ps i, a')"
  proof -
    consider "i + 1 = length ks" | "i = 0" "1 < length ks" | "0 < i" "i + 1 < length ks"
      using assms(3) by linarith
    then show ?thesis
    proof cases
      case 1
      have "deleteNth i (entries_of ks ps) = take i (entries_of ks ps)"
        using 1 by (simp add: deleteNth_def)
      with 1 a'(1) show ?thesis
        by (auto simp: memBranch_DeleteAt_def bind_def seq_def Let_def H nthCheck_def split: if_splits)
    next
      case 2
      with a'(1) show ?thesis
        by (auto simp: memBranch_DeleteAt_def bind_def seq_def Let_def H nthCheck_def)
    next
      case 3
      then have "i - Suc 0 + 1 = i" "i - Suc 0 < length ks" by auto
      with 3 a'(1) show ?thesis
        by (simp add: memBranch_DeleteAt_def bind_def seq_def Let_def H nthCheck_def)
    qed
  qed
  moreover have "?fs = (if i = 0 \<and> 1 < length ks then entries_of (deleteNth 0 ks) (deleteNth 0 ps)
      else entries_of (deleteNth i ks) (deleteNth (i + 1) ps))"
  proof -
    have "0 < length ks" using assms(3) by linarith
    from entries_delete_left [OF assms(2) this] entries_delete_right [OF assms(2,3)] show ?thesis by simp
  qed
  ultimately show ?thesis using a'(2) by auto
qed

lemma memBranch_Ok:
  assumes "holds p (entries_of ks ps) a" "length ps = length ks + 1" "0 < length ks"
  shows "\<exists>a'. memBranch_Unshift p k g a = Ok ((), a') \<and> holds p (entries_of (k # ks) (g # ps)) a'"
    "1 < length ks \<Longrightarrow> \<exists>a'. memBranch_Shift p a = Ok ((), a') \<and> holds p (entries_of (tl ks) (hd ps # drop 2 ps)) a'"
    "i < length ks \<Longrightarrow> \<exists>a'. memBranch_ReplaceKeyAt p (int i) k a = Ok ((), a') \<and> holds p (entries_of (ks[i := k]) ps) a'"
    "i \<le> length ks \<Longrightarrow> \<exists>a'. memBranch_DeleteFrom p (int i) a = Ok (drop i (entries_of ks ps), a') \<and>
      holds p (entries_of (take i ks) (take (i + 1) ps)) a'"
proof -
  note H = setBranch_holds(2,3) [OF assms(1)]
  show "\<exists>a'. memBranch_Unshift p k g a = Ok ((), a') \<and> holds p (entries_of (k # ks) (g # ps)) a'"
  proof -
    have "memBranch_Unshift p k g a = setBranch p (\<lambda>b. b\<lparr>bentries := entries_of (k # ks) (g # ps)\<rparr>) a"
      using assms(3) by (simp add: memBranch_Unshift_def bind_def H nthCheck_def entries_unshift)
        (rule setBranch_cong, simp add: H)
    then show ?thesis using setBranch_holds(1) [OF assms(1)] by simp
  qed
  show "\<exists>a'. memBranch_Shift p a = Ok ((), a') \<and> holds p (entries_of (tl ks) (hd ps # drop 2 ps)) a'"
    if "1 < length ks"
  proof -
    have "length (entries_of ks ps) = Suc (Suc (length ks - 2))" using that by simp
    then obtain e f es where es: "entries_of ks ps = e # f # es" unfolding length_Suc_conv by blast
    have "0 < length ks" using that by linarith
    from nth_entries_of [OF this, of ps] nth_entries_of [OF that, of ps] es
    have "e = entry_of ks ps 0" "f = entry_of ks ps 1" by simp_all
    then have "entries_of (tl ks) (hd ps # drop 2 ps) = f\<lparr>LowerThanKeyNodeID := LowerThanKeyNodeID e\<rparr> # es"
      using entries_shift [OF assms(2)] that es by simp
    then show ?thesis
      using setBranch_holds(1) [OF assms(1), of "f\<lparr>LowerThanKeyNodeID := LowerThanKeyNodeID e\<rparr> # es"]
      by (simp add: memBranch_Shift_def bind_def H es)
  qed
  show "\<exists>a'. memBranch_ReplaceKeyAt p (int i) k a = Ok ((), a') \<and> holds p (entries_of (ks[i := k]) ps) a'"
    if "i < length ks"
  proof -
    have "memBranch_ReplaceKeyAt p (int i) k a = setBranch p (\<lambda>b. b\<lparr>bentries := entries_of (ks[i := k]) ps\<rparr>) a"
      using that by (simp add: memBranch_ReplaceKeyAt_def bind_def H nthCheck_def entries_replace)
        (rule setBranch_cong, simp add: H)
    then show ?thesis using setBranch_holds(1) [OF assms(1)] by simp
  qed
  show "\<exists>a'. memBranch_DeleteFrom p (int i) a = Ok (drop i (entries_of ks ps), a') \<and>
      holds p (entries_of (take i ks) (take (i + 1) ps)) a'" if "i \<le> length ks"
  proof -
    obtain a' where a': "setBranch p (\<lambda>b. b\<lparr>bentries := take i (entries_of ks ps)\<rparr>) a = Ok ((), a')"
      "holds p (take i (entries_of ks ps)) a'" using setBranch_holds(1) [OF assms(1)] by blast
    have "setBranch p (\<lambda>b. b\<lparr>bentries := take i (bentries b)\<rparr>) a = Ok ((), a')"
      using a'(1) by (subst setBranch_cong [of _ _ _ "\<lambda>b. b\<lparr>bentries := take i (entries_of ks ps)\<rparr>"]) (simp_all add: H)
    then have "memBranch_DeleteFrom p (int i) a = Ok (drop i (entries_of ks ps), a')"
      using that by (simp add: memBranch_DeleteFrom_def bind_def seq_def H)
    with a'(2) entries_take [OF assms(2) that] show ?thesis by simp
  qed
qed

section \<open>Properties\<close>

text \<open>Both steps succeed with the same answer, and the branch in memory ends with the entries that the
  branch in the data block has.\<close>

definition same_step ::
  "nat \<Rightarrow> ('a \<times> bytes) outcome \<Rightarrow> ('a \<times> 'i InMemoryAdapter) outcome \<Rightarrow> bool" where
  "same_step p r s \<longleftrightarrow> (\<exists>x f a'. r = Ok (x, f) \<and> s = Ok (x, a') \<and>
     holds p (entries_of (branch_keys f) (branch_ptrs f)) a')"

text \<open>C27: On a branch with the same keys and pointers, the node in memory and the node in a data block
  take the same steps: inserting, unshifting, shifting (with two keys or more), replacing a key,
  cutting off the end, and deleting the first or the last key return the same and leave the same
  keys and pointers.\<close>

theorem branch_adapters_agree:
  assumes "branch_ok d" "holds p (entries_of (branch_keys d) (branch_ptrs d)) a" "i < nkeys d"
  shows "(nkeys d < 680 \<longrightarrow>
      same_step p (branchInsertAt (int i) k g d) (memBranch_InsertAt p (int i) k g a) \<and>
      same_step p (branchInsertAt (int (nkeys d)) k g d) (memBranch_InsertAt p (int (nkeys d)) k g a) \<and>
      same_step p (branchUnshift k g d) (memBranch_Unshift p k g a)) \<and>
    (1 < nkeys d \<longrightarrow> same_step p (branchShift d) (memBranch_Shift p a)) \<and>
    same_step p (branchReplaceKeyAt (int i) k d) (memBranch_ReplaceKeyAt p (int i) k a) \<and>
    (i = 0 \<or> i + 1 = nkeys d \<longrightarrow>
      same_step p (branchDeleteAt (int i) d) (memBranch_DeleteAt p (int i) a)) \<and>
    same_step p (branchDeleteFrom (int i) d) (memBranch_DeleteFrom p (int i) a)"
proof -
  have l: "length (branch_ptrs d) = length (branch_keys d) + 1" "0 < length (branch_keys d)"
    "i < length (branch_keys d)" using assms(3) by simp_all
  note M = memBranch_Ok [OF assms(2) l(1,2)]
  have d: "same_step p (branchDeleteAt (int i) d) (memBranch_DeleteAt p (int i) a)"
    if ends: "i = 0 \<or> i + 1 = nkeys d"
  proof -
    from branchDeleteAt_Ok [OF assms(1,3)] obtain f where
      f: "branchDeleteAt (int i) d = Ok (entry_of (branch_keys d) (branch_ptrs d) i, f)"
      "branch_keys f = deleteNth i (branch_keys d)"
      "branch_ptrs f = deleteNth (if i + 1 = nkeys d then i + 1 else i) (branch_ptrs d)" by blast
    from memBranch_DeleteAt_Ok [OF assms(2) l(1,3)] obtain a' where
      m: "memBranch_DeleteAt p (int i) a = Ok (entry_of (branch_keys d) (branch_ptrs d) i, a')"
      "holds p (if i = 0 \<and> 1 < nkeys d then entries_of (deleteNth 0 (branch_keys d)) (deleteNth 0 (branch_ptrs d))
        else entries_of (deleteNth i (branch_keys d)) (deleteNth (i + 1) (branch_ptrs d))) a'" by auto
    have "holds p (entries_of (branch_keys f) (branch_ptrs f)) a'"
    proof (cases "i + 1 = nkeys d")
      case True
      then have "\<not> (i = 0 \<and> 1 < nkeys d)" by linarith
      moreover have "branch_ptrs f = deleteNth (i + 1) (branch_ptrs d)" using True f(3) by simp
      ultimately show ?thesis using f(2) m(2) by (simp only: if_False)
    next
      case False
      then have "i = 0 \<and> 1 < nkeys d" using ends assms(3) by linarith
      with False f(2,3) m(2) show ?thesis by metis
    qed
    with f(1) m(1) show ?thesis unfolding same_step_def by blast
  qed
  have "same_step p (branchInsertAt (int j) k g d) (memBranch_InsertAt p (int j) k g a)"
    if "nkeys d < 680" "j \<le> nkeys d" for j
    using branchInsertAt_Ok [OF assms(1) that, of k g] memBranch_InsertAt_Ok [OF assms(2) l(1,2), of j k g] that
    unfolding same_step_def by auto
  moreover have "same_step p (branchUnshift k g d) (memBranch_Unshift p k g a)" if "nkeys d < 680"
    using branchUnshift_Ok [OF assms(1) that, of k g] M(1) [of k g] unfolding same_step_def by auto
  moreover have "same_step p (branchShift d) (memBranch_Shift p a)" if "1 < nkeys d"
    using branchShift_Ok [OF assms(1)] M(2) that unfolding same_step_def by auto
  moreover have "same_step p (branchReplaceKeyAt (int i) k d) (memBranch_ReplaceKeyAt p (int i) k a)"
    using branchReplaceKeyAt_Ok [OF assms(1,3), of k] M(3) [OF l(3), of k] unfolding same_step_def by auto
  moreover have "same_step p (branchDeleteFrom (int i) d) (memBranch_DeleteFrom p (int i) a)"
    using branchDeleteFrom_Ok [OF assms(1), of i] M(4) [of i] assms(3) unfolding same_step_def by auto
  ultimately show ?thesis using d assms(3) by auto
qed

definition small_mem :: "nat InMemoryAdapter" where
  "small_mem = \<lparr>rootID = 1, firstLeafID = 0, nextNodeID = 2, Nodes = [1 \<mapsto> BranchNode 0], leaves = [],
     branches = [\<lparr>bid = 1, bparentID = 0, bleftID = 0, brightID = 0,
       bentries = entries_of (branch_keys small_branch) (branch_ptrs small_branch)\<rparr>]\<rparr>"

lemma small_mem: "holds 0 (entries_of (branch_keys small_branch) (branch_ptrs small_branch)) small_mem"
  by (simp add: holds_def small_mem_def)

lemma branch_adapters_agree_witness:
  "same_step 0 (branchInsertAt 3 7 9 small_branch) (memBranch_InsertAt 0 3 7 9 small_mem)"
  using branch_adapters_agree [OF small_branch(1) small_mem, of 0 7 9] small_branch(2) by auto

text \<open>C28: Between two other keys the two implementations of \<open>DeleteAt\<close> differ: the node in memory gives
  up the child on the right of the deleted key, which is the one that a merge freed, but the node
  in a data block gives up the child on its left and keeps the freed one.\<close>

theorem branch_delete_diverges:
  assumes "branch_ok d" "holds p (entries_of (branch_keys d) (branch_ptrs d)) a" "0 < i" "i + 1 < nkeys d"
    "distinct (branch_ptrs d)"
  shows "\<exists>f a' ps. branchDeleteAt (int i) d = Ok (entry_of (branch_keys d) (branch_ptrs d) i, f) \<and>
    memBranch_DeleteAt p (int i) a = Ok (entry_of (branch_keys d) (branch_ptrs d) i, a') \<and>
    holds p (entries_of (branch_keys f) ps) a' \<and>
    branch_ptrs d ! i \<notin> set (branch_ptrs f) \<and> branch_ptrs d ! (i + 1) \<in> set (branch_ptrs f) \<and>
    branch_ptrs d ! i \<in> set ps \<and> branch_ptrs d ! (i + 1) \<notin> set ps"
proof -
  let ?ks = "branch_keys d" and ?ps = "branch_ptrs d"
  have l: "length ?ps = length ?ks + 1" "i < length ?ks" "i < nkeys d" using assms(4) by simp_all
  from branchDeleteAt_Ok [OF assms(1) l(3)] assms(4) obtain f where
    f: "branchDeleteAt (int i) d = Ok (entry_of ?ks ?ps i, f)" "branch_keys f = deleteNth i ?ks"
      "branch_ptrs f = deleteNth i ?ps" by auto
  from memBranch_DeleteAt_Ok [OF assms(2) l(1,2)] assms(3) obtain a' where
    a': "memBranch_DeleteAt p (int i) a = Ok (entry_of ?ks ?ps i, a')"
      "holds p (entries_of (deleteNth i ?ks) (deleteNth (i + 1) ?ps)) a'" by auto
  have del: "set (deleteNth j ?ps) = set ?ps - {?ps ! j}" if "j < length ?ps" for j
    using set_deleteNth [OF assms(5) that] .
  have "?ps ! i \<noteq> ?ps ! (i + 1)" "?ps ! i \<in> set ?ps" "?ps ! (i + 1) \<in> set ?ps"
    using assms(4,5) by (simp_all add: nth_eq_iff_index_eq del: nth_branch)
  then have "?ps ! i \<notin> set (deleteNth i ?ps)" "?ps ! (i + 1) \<in> set (deleteNth i ?ps)"
    "?ps ! i \<in> set (deleteNth (i + 1) ?ps)" "?ps ! (i + 1) \<notin> set (deleteNth (i + 1) ?ps)"
    using del [of i] del [of "i + 1"] l(1,2) by (simp_all del: nth_branch)
  with f a' show ?thesis by metis
qed

definition wide_branch :: bytes where
  "wide_branch = put_at 9 (be16_put 4) (put_at 15 (be16_put 5) (put_at 21 (be16_put 6) (put_at 27 (be16_put 7)
     (put_at 1 (be16_put 3) (replicate 4096 0)))))"

lemma wide_branch:
  "branch_ok wide_branch" "nkeys wide_branch = 3" "branch_ptrs wide_branch = [4, 5, 6, 7]"
proof -
  show n: "nkeys wide_branch = 3"
    using nkeys_write [of "replicate 4096 0" 3] by (simp add: wide_branch_def)
  then show "branch_ok wide_branch" by (simp add: branch_ok_def wide_branch_def)
  have "bptr wide_branch 0 = 4" "bptr wide_branch 1 = 5" "bptr wide_branch 2 = 6" "bptr wide_branch 3 = 7"
    by (simp_all add: bptr_def wide_branch_def)
  then show "branch_ptrs wide_branch = [4, 5, 6, 7]"
    by (simp add: branch_ptrs_def n upt_rec numeral_2_eq_2 numeral_3_eq_3)
qed

lemma branch_delete_diverges_witness:
  "\<exists>f. branchDeleteAt 1 wide_branch = Ok (entry_of (branch_keys wide_branch) [4, 5, 6, 7] 1, f) \<and>
     5 \<notin> set (branch_ptrs f) \<and> 6 \<in> set (branch_ptrs f)"
proof -
  define a :: "nat InMemoryAdapter" where "a = \<lparr>rootID = 1, firstLeafID = 0, nextNodeID = 2,
    Nodes = [1 \<mapsto> BranchNode 0], leaves = [],
     branches = [\<lparr>bid = 1, bparentID = 0, bleftID = 0, brightID = 0,
       bentries = entries_of (branch_keys wide_branch) (branch_ptrs wide_branch)\<rparr>]\<rparr>"
  have "holds 0 (entries_of (branch_keys wide_branch) (branch_ptrs wide_branch)) a"
    by (simp add: holds_def a_def)
  from branch_delete_diverges [OF wide_branch(1) this, of 1] wide_branch(2,3) show ?thesis by auto
qed

end
