(* ===== verification/TreeSearch.thy ===== *)
theory TreeSearch
  imports TreeView
begin

text \<open>
  Searching the B+ tree. The binary search finds the least position, the search on a node the rank
  of the key, and the walk down ends in the leaf that is responsible for it, so that \<open>Find\<close> is the
  lookup in the list of all entries. The proofs rest on the reading half of an adapter, the locale
  \<open>node_reads\<close>, which the theories of the two adapters interpret.
\<close>

section \<open>Binary search\<close>

lemma sortSearch_Ok:
  assumes "lo \<le> m" "m \<le> hi" "\<And>i. lo \<le> i \<Longrightarrow> i < hi \<Longrightarrow> f i s = Ok (m \<le> i, s)"
  shows "sortSearch f lo hi s = Ok (m, s)"
  using assms
proof (induction f lo hi rule: sortSearch.induct)
  case (1 f i j)
  show ?case
  proof (cases "i < j")
    case True
    let ?h = "(i + j) div 2"
    have h: "i \<le> ?h" "?h < j" using True by auto
    show ?thesis
    proof (cases "m \<le> ?h")
      case True
      then have "sortSearch f i ?h s = Ok (m, s)"
        using 1 h \<open>i < j\<close> by (intro "1.IH"(2)) auto
      with True h 1 \<open>i < j\<close> show ?thesis by (subst sortSearch.simps) (simp add: bind_def)
    next
      case False
      then have "sortSearch f (?h + 1) j s = Ok (m, s)"
        using 1 h \<open>i < j\<close> by (intro "1.IH"(1)) auto
      with False h 1 \<open>i < j\<close> show ?thesis by (subst sortSearch.simps) (simp add: bind_def)
    qed
  next
    case False
    with 1 show ?thesis by (subst sortSearch.simps) simp
  qed
qed

section \<open>Reading through an adapter\<close>

text \<open>
  \<open>repr s x\<close> relates the adapter's state to what it stores, \<open>vw x\<close> are the nodes in it, and
  \<open>at s h i\<close> says that the handle \<open>h\<close> stands for node \<open>i\<close>. Loading a node gives such a handle,
  and reading through it leaves the state alone.
\<close>

locale node_reads =
  fixes A :: "('s, 'l, 'b, 'i) NodeAdapter"
    and repr :: "'s \<Rightarrow> 'x \<Rightarrow> bool"
    and vw :: "'x \<Rightarrow> 'i heapView"
    and at :: "'s \<Rightarrow> ('l, 'b) node \<Rightarrow> u16 \<Rightarrow> bool"
  assumes load_root: "repr s x \<Longrightarrow> (\<And>i. rootOf (vw x) = Some i \<Longrightarrow> nodeOf (vw x) i \<noteq> None) \<Longrightarrow>
      \<exists>r s'. LoadRoot A s = Ok (r, s') \<and> repr s' x \<and>
        (case rootOf (vw x) of None \<Rightarrow> r = None | Some i \<Rightarrow> \<exists>h. r = Some h \<and> at s' h i)"
    and load_node: "repr s x \<Longrightarrow> nodeOf (vw x) i = Some v \<Longrightarrow>
      \<exists>h s'. LoadNode A i s = Ok (Some h, s') \<and> repr s' x \<and> at s' h i"
    and kind_leaf: "repr s x \<Longrightarrow> at s h i \<Longrightarrow> nodeOf (vw x) i = Some v \<Longrightarrow> content v = Entries es \<Longrightarrow>
      \<exists>l. h = LeafNode l"
    and kind_branch: "repr s x \<Longrightarrow> at s h i \<Longrightarrow> nodeOf (vw x) i = Some v \<Longrightarrow> content v = Children ks ps \<Longrightarrow>
      \<exists>b. h = BranchNode b"
    and total_keys: "repr s x \<Longrightarrow> at s h i \<Longrightarrow> nodeOf (vw x) i = Some v \<Longrightarrow>
      TotalKeys A h s = Ok (int (length (keysOf (content v))), s)"
    and key_at: "repr s x \<Longrightarrow> at s h i \<Longrightarrow> nodeOf (vw x) i = Some v \<Longrightarrow> p < length (keysOf (content v)) \<Longrightarrow>
      KeyAt A h (int p) s = Ok (keysOf (content v) ! p, s)"
    and entry_at: "repr s x \<Longrightarrow> at s (BranchNode b) i \<Longrightarrow> nodeOf (vw x) i = Some v \<Longrightarrow>
      content v = Children ks ps \<Longrightarrow> p < length ks \<Longrightarrow> EntryAt A b (int p) s = Ok (entry_of ks ps p, s)"
    and item_at: "repr s x \<Longrightarrow> at s (LeafNode l) i \<Longrightarrow> nodeOf (vw x) i = Some v \<Longrightarrow>
      content v = Entries es \<Longrightarrow> p < length es \<Longrightarrow> ItemAt A l (int p) s = Ok (leItem (es ! p), s)"
begin

lemma findOnNode_Ok:
  assumes "adapter t = A" "repr s x" "at s h i" "nodeOf (vw x) i = Some v" "sorted_wrt (<) (keysOf (content v))"
  defines "ks \<equiv> keysOf (content v)"
  shows "findOnNode t h key s = Ok ((int (rank key ks), key \<in> set ks), s)"
proof -
  note R = total_keys [OF assms(2-4), folded ks_def] key_at [OF assms(2-4), folded ks_def]
  have srt: "sorted_wrt (<) ks" using assms(5) by (simp add: ks_def)
  let ?f = "\<lambda>i. bind (KeyAt A h i) (\<lambda>k. ret (\<not> k < key))"
  have "?f j s = Ok (int (rank key ks) \<le> j, s)" if "0 \<le> j" "j < int (length ks)" for j
  proof -
    from that obtain n where n: "j = int n" "n < length ks" by (metis nonneg_int_cases of_nat_less_iff)
    then show ?thesis using R(2) [of n] rank_iff [OF srt n(2), of key] by (auto simp: bind_def)
  qed
  then have "sortSearch ?f 0 (int (length ks)) s = Ok (int (rank key ks), s)"
    using rank_le [of key ks] by (intro sortSearch_Ok) auto
  moreover have "key \<in> set ks \<longleftrightarrow> rank key ks < length ks \<and> ks ! rank key ks = key"
    using rank_found [OF srt] by simp
  ultimately show ?thesis
    using R(1) R(2) [of "rank key ks"] assms(1) by (simp add: findOnNode_def Let_def bind_def)
qed

lemma findLeafForKey_Ok:
  assumes "adapter t = A" "ordered lo hi tr" "balanced n tr" "n \<le> m" "stored (vw x) tr" "repr s x" "at s h (tid tr)"
  shows "\<exists>l s'. findLeafForKey t m h key s = Ok (l, s') \<and> repr s' x \<and>
    at s' (LeafNode l) (fst (leaf_for key tr))"
  using assms(2-)
proof (induction tr arbitrary: n m h s rule: ordered.induct)
  case (Leafy es lo hi i)
  then obtain l where "h = LeafNode l" using kind_leaf by fastforce
  with Leafy show ?case by simp
next
  case (Branchy ks ts lo hi i)
  from Branchy.prems(3) obtain v where v: "nodeOf (vw x) i = Some v" "content v = Children ks (map tid ts)" by auto
  from kind_branch [OF Branchy.prems(4) _ v] Branchy.prems(5) obtain b where b: "h = BranchNode b" by auto
  from Branchy.prems(1,2) obtain n' m' where nm: "n = Suc n'" "m = Suc m'" "n' \<le> m'"
    by (cases n; cases m) simp_all
  have at: "at s (BranchNode b) i" using Branchy.prems(5) b by simp
  have srt: "sorted_wrt (<) (keysOf (content v))" using Branchy.hyps v by simp
  let ?r = "rank key ks" and ?c = "slot key ks"
  define p where "p = (if length ks \<le> ?r then length ks - 1 else ?r)"
  note p = slot_cases [OF Branchy.hyps(3,1) p_def]
  have c: "?c < length ts" using slot_le [of key ks] Branchy.hyps(2) by simp
  then have child: "map tid ts ! ?c = tid (ts ! ?c)" "ts ! ?c \<in> set ts" by simp_all
  have pos: "(if int (length ks) \<le> int ?r then int ?r - 1 else int ?r) = int p"
    using rank_le [of key ks] p(1) by (auto simp: p_def)
  have e: "EntryAt A b (int p) s = Ok (entry_of ks (map tid ts) p, s)"
    using entry_at [OF Branchy.prems(4) at v p(1)] .
  have cid: "(if key < ks ! p then map tid ts ! p else map tid ts ! (p + 1)) = tid (ts ! ?c)"
    using child(1) p(2) by (cases "key < ks ! p") (simp_all del: nth_map)
  from Branchy.prems(3) child(2) have st: "stored (vw x) (ts ! ?c)" by simp
  then obtain w where w: "nodeOf (vw x) (tid (ts ! ?c)) = Some w" by (cases "ts ! ?c") auto
  from load_node [OF Branchy.prems(4) w] obtain h' s' where
    l: "LoadNode A (tid (ts ! ?c)) s = Ok (Some h', s')" "repr s' x" "at s' h' (tid (ts ! ?c))" by blast
  have bal: "balanced n' (ts ! ?c)" using Branchy.prems(1) nm(1) child(2) by simp
  from Branchy.IH [OF c bal nm(3) st l(2,3)] obtain lf s'' where
    IH: "findLeafForKey t m' h' key s' = Ok (lf, s'')" "repr s'' x" "at s'' (LeafNode lf) (fst (leaf_for key (ts ! ?c)))"
    by blast
  have "findLeafForKey t m h key s = Ok (lf, s'')"
    using findOnNode_Ok [OF assms(1) Branchy.prems(4) at v(1) srt, of key] v(2)
      total_keys [OF Branchy.prems(4) at v(1)] e l(1) IH(1) pos cid
    by (cases "key < ks ! p") (simp_all add: b nm(2) Let_def bind_def assms(1))
  with IH c show ?case by simp
qed

text \<open>The search for a key on a stored tree, up to the leaf and the position in it.\<close>

lemma leafForKey_Ok:
  assumes "adapter t = A" "ordered lo hi tr" "balanced n tr" "n \<le> m" "stored (vw x) tr" "repr s x"
    "rootOf (vw x) = Some (tid tr)"
  shows "\<exists>r s' l s''. LoadRoot A s = Ok (Some r, s') \<and> leafForKey t m r key s' = Ok (l, s'') \<and> repr s'' x \<and>
    at s'' (LeafNode l) (fst (leaf_for key tr)) \<and>
    findOnNode t (LeafNode l) key s'' =
      Ok ((int (rank key (map leKey (snd (leaf_for key tr)))), key \<in> leKey ` set (snd (leaf_for key tr))), s'')"
proof -
  have "nodeOf (vw x) (tid tr) \<noteq> None" using assms(5) by (cases tr) auto
  with load_root [OF assms(6)] assms(7) obtain r s' where
    r: "LoadRoot A s = Ok (Some r, s')" "repr s' x" "at s' r (tid tr)" by auto
  from findLeafForKey_Ok [OF assms(1-5) r(2,3), of key] obtain l s'' where
    l: "findLeafForKey t m r key s' = Ok (l, s'')" "repr s'' x" "at s'' (LeafNode l) (fst (leaf_for key tr))"
    by blast
  from leaf_for_mem [OF assms(2,5)] obtain v where
    v: "nodeOf (vw x) (fst (leaf_for key tr)) = Some v" "content v = Entries (snd (leaf_for key tr))" by blast
  have "leafForKey t m r key s' = Ok (l, s'')" using l(1) by (cases r) (simp_all add: leafForKey_def)
  with r(1) l findOnNode_Ok [OF assms(1) l(2,3) v(1), of key] leaf_for_sorted [OF assms(2), of key] v(2)
  show ?thesis by auto
qed

lemma treeFind_Ok:
  assumes "adapter t = A" "ordered lo hi tr" "balanced n tr" "n \<le> m" "stored (vw x) tr" "repr s x"
    "rootOf (vw x) = Some (tid tr)"
  shows "\<exists>s'. treeFind t m key s =
      Ok (case lookup key (inorder tr) of None \<Rightarrow> Inl (ErrKeyNotFound key) | Some item \<Rightarrow> Inr item, s') \<and>
    repr s' x"
proof -
  let ?es = "snd (leaf_for key tr)"
  from leafForKey_Ok [OF assms, of key] obtain r s' l s'' where
    L: "LoadRoot A s = Ok (Some r, s')" "leafForKey t m r key s' = Ok (l, s'')" "repr s'' x"
      "at s'' (LeafNode l) (fst (leaf_for key tr))"
      "findOnNode t (LeafNode l) key s'' = Ok ((int (rank key (map leKey ?es)), key \<in> leKey ` set ?es), s'')"
    by blast
  from leaf_for_mem [OF assms(2,5)] obtain v where
    v: "nodeOf (vw x) (fst (leaf_for key tr)) = Some v" "content v = Entries ?es" by blast
  have srt: "sorted_wrt (<) (map leKey ?es)" using leaf_for_sorted [OF assms(2)] .
  show ?thesis
  proof (cases "key \<in> leKey ` set ?es")
    case True
    then have r: "rank key (map leKey ?es) < length ?es" "leKey (?es ! rank key (map leKey ?es)) = key"
      using rank_found [OF srt, of key] by auto
    have "distinct (map leKey ?es)" using srt by (simp add: strict_sorted_iff)
    then have "lookup key ?es = Some (leItem (?es ! rank key (map leKey ?es)))"
      unfolding lookup_def using r
      by (intro map_of_is_SomeI) (auto simp: comp_def image_iff intro!: bexI [of _ "?es ! rank key (map leKey ?es)"])
    then show ?thesis
      using True L item_at [OF L(3,4) v r(1)] lookup_inorder [OF assms(2), of key]
      by (simp add: treeFind_def Let_def bind_def assms(1))
  next
    case False
    then have "lookup key ?es = None" by (intro lookup_None) auto
    then show ?thesis
      using False L lookup_inorder [OF assms(2), of key] by (simp add: treeFind_def Let_def bind_def assms(1))
  qed
qed

lemma treeFind_empty:
  assumes "adapter t = A" "rootOf (vw x) = None" "repr s x"
  shows "\<exists>s'. treeFind t m key s = Ok (Inl (ErrKeyNotFound key), s') \<and> repr s' x"
  using load_root [OF assms(3)] assms(1,2) by (auto simp: treeFind_def Let_def bind_def)

end

end
