(* ===== verification/MemStore.thy ===== *)
theory MemStore
  imports TreeSearch InMemoryAdapter
begin

text \<open>
  The nodes that the adapter in memory stores, and its interpretation of the interfaces of the
  tree's proofs: the handle of a node is the pointer that the map of nodes holds for its ID.
\<close>

section \<open>What the adapter stores\<close>

text \<open>The entries of a branch that is not empty share their pointers.\<close>

definition ptrs_of :: "BranchEntry list \<Rightarrow> u16 list" where
  "ptrs_of es = (case es of [] \<Rightarrow> [] | e # _ \<Rightarrow> LowerThanKeyNodeID e # map GreaterThanOrEqualToKeyNodeID es)"

definition shares :: "BranchEntry list \<Rightarrow> bool" where
  "shares es \<longleftrightarrow> entries_of (map beKey es) (ptrs_of es) = es"

definition leafView :: "'i inMemoryLeaf \<Rightarrow> 'i nodeView" where
  "leafView l = \<lparr>content = Entries (lentries l), up = lparentID l, lft = lleftID l, rgt = lrightID l\<rparr>"

definition branchView :: "inMemoryBranch \<Rightarrow> 'i nodeView" where
  "branchView b = \<lparr>content = Children (map beKey (bentries b)) (ptrs_of (bentries b)),
     up = bparentID b, lft = bleftID b, rgt = brightID b\<rparr>"

definition mem_node :: "'i InMemoryAdapter \<Rightarrow> (nat, nat) node \<Rightarrow> 'i nodeView" where
  "mem_node a h = (case h of LeafNode p \<Rightarrow> leafView (leaves a ! p) | BranchNode p \<Rightarrow> branchView (branches a ! p))"

definition mem_view :: "'i InMemoryAdapter \<Rightarrow> 'i heapView" where
  "mem_view a = \<lparr>rootOf = (case Nodes a (rootID a) of None \<Rightarrow> None | Some _ \<Rightarrow> Some (rootID a)),
     firstOf = firstLeafID a, nodeOf = (\<lambda>i. map_option (mem_node a) (Nodes a i))\<rparr>"

text \<open>The pointers of the map lead to nodes that know their IDs; IDs are given out in turn.\<close>

definition mem_fits :: "'i InMemoryAdapter \<Rightarrow> u16 \<Rightarrow> (nat, nat) node \<Rightarrow> bool" where
  "mem_fits a i h = (case h of
     LeafNode p \<Rightarrow> p < length (leaves a) \<and> lid (leaves a ! p) = i
   | BranchNode p \<Rightarrow> p < length (branches a) \<and> bid (branches a ! p) = i \<and> shares (bentries (branches a ! p)))"

definition mem_good :: "'i InMemoryAdapter \<Rightarrow> bool" where
  "mem_good a \<longleftrightarrow> (\<forall>i h. Nodes a i = Some h \<longrightarrow> mem_fits a i h \<and> 0 < i \<and> i < nextNodeID a)"

definition mem_repr :: "'i InMemoryAdapter \<Rightarrow> 'i InMemoryAdapter \<Rightarrow> bool" where
  "mem_repr a x \<longleftrightarrow> a = x \<and> mem_good a"

definition mem_at :: "'i InMemoryAdapter \<Rightarrow> (nat, nat) node \<Rightarrow> u16 \<Rightarrow> bool" where
  "mem_at a h i \<longleftrightarrow> Nodes a i = Some h"

lemma mem_atD:
  assumes "mem_repr a x" "mem_at a h i"
  shows "x = a" "mem_fits a i h" "nodeOf (mem_view x) i = Some (mem_node a h)"
  using assms by (auto simp: mem_repr_def mem_good_def mem_at_def mem_view_def)

lemma mem_leafD:
  assumes "mem_repr a x" "mem_at a (LeafNode p) i" "nodeOf (mem_view x) i = Some v"
  shows "v = leafView (leaves a ! p)" "leafAt p a = Ok (leaves a ! p, a)" "p < length (leaves a)" "lid (leaves a ! p) = i"
  using mem_atD [OF assms(1,2)] assms(3) by (auto simp: mem_fits_def mem_node_def leafAt_def)

lemma mem_branchD:
  assumes "mem_repr a x" "mem_at a (BranchNode p) i" "nodeOf (mem_view x) i = Some v"
  shows "v = branchView (branches a ! p)" "branchAt p a = Ok (branches a ! p, a)" "p < length (branches a)"
    "bid (branches a ! p) = i" "shares (bentries (branches a ! p))"
  using mem_atD [OF assms(1,2)] assms(3) by (auto simp: mem_fits_def mem_node_def branchAt_def)

lemma memAdapter_reads [simp]:
  "LoadRoot memAdapter = mem_LoadRoot" "LoadNode memAdapter = mem_LoadNode" "TotalKeys memAdapter = mem_TotalKeys"
  "KeyAt memAdapter = mem_KeyAt" "EntryAt memAdapter = memBranch_EntryAt" "ItemAt memAdapter = memLeaf_ItemAt"
  by (simp_all add: memAdapter_def)

interpretation mem: node_reads memAdapter mem_repr mem_view mem_at
proof (unfold_locales, goal_cases)
  case (1 s x)
  then show ?case
    by (auto simp: mem_LoadRoot_def mem_view_def mem_repr_def mem_at_def split: option.split)
next
  case (2 s x i v)
  then show ?case by (auto simp: mem_LoadNode_def mem_view_def mem_repr_def mem_at_def)
next
  case (3 s x h i v es)
  then show ?case using mem_atD [of s x h i] by (cases h) (auto simp: mem_node_def branchView_def)
next
  case (4 s x h i v ks ps)
  then show ?case using mem_atD [of s x h i] by (cases h) (auto simp: mem_node_def leafView_def)
next
  case (5 s x h i v)
  then show ?case
    using mem_leafD [of s x _ i v] mem_branchD [of s x _ i v]
    by (cases h) (simp_all add: bind_def leafView_def branchView_def)
next
  case (6 s x h i v p)
  then show ?case
    using mem_leafD [of s x _ i v] mem_branchD [of s x _ i v]
    by (cases h) (simp_all add: bind_def nthCheck_def leafView_def branchView_def)
next
  case (7 s x b i v ks ps p)
  from mem_branchD [OF 7(1-3)] 7(4,5) have
    "ks = map beKey (bentries (branches s ! b))" "ps = ptrs_of (bentries (branches s ! b))"
    "branchAt b s = Ok (branches s ! b, s)" "entries_of ks ps = bentries (branches s ! b)" "p < length ks"
    by (simp_all add: branchView_def shares_def)
  then show ?case using nth_entries_of [of p ks ps] by (simp add: memBranch_EntryAt_def bind_def nthCheck_def)
next
  case (8 s x l i v es p)
  from mem_leafD [OF 8(1-3)] 8(4,5) show ?case
    by (simp add: memLeaf_ItemAt_def bind_def nthCheck_def leafView_def)
qed

section \<open>Properties\<close>

text \<open>C23: \<open>Find\<close> on the tree in memory is the lookup of the key in the entries of the leaves from left to
  right, whatever the capacities, and it changes nothing: for every stored tree whose separators
  order the keys and whose leaves are equally deep, a walk with fuel for its depth returns the item
  of the key, or the error that the key was not found.\<close>

theorem mem_find_refines_lookup:
  assumes "mem_good a" "rootOf (mem_view a) = Some (tid tr)" "stored (mem_view a) tr"
    "ordered 0 (2 ^ 32) tr" "balanced n tr"
  shows "treeFind (newTree memAdapter lc bc) n key a =
    Ok (case lookup key (inorder tr) of None \<Rightarrow> Inl (ErrKeyNotFound key) | Some item \<Rightarrow> Inr item, a)"
  using mem.treeFind_Ok [of "newTree memAdapter lc bc", OF _ assms(4,5) order_refl assms(3) _ assms(2)] assms(1)
  by (auto simp: newTree_def mem_repr_def)

definition three_leaves :: "nat InMemoryAdapter" where
  "three_leaves = \<lparr>rootID = 3, firstLeafID = 1, nextNodeID = 5,
     Nodes = [1 \<mapsto> LeafNode 0, 2 \<mapsto> LeafNode 1, 3 \<mapsto> BranchNode 0, 4 \<mapsto> LeafNode 2],
     leaves =
       [\<lparr>lid = 1, lparentID = 3, lleftID = 0, lrightID = 2, lentries = [\<lparr>leKey = 1, leItem = 10\<rparr>]\<rparr>,
        \<lparr>lid = 2, lparentID = 3, lleftID = 1, lrightID = 4, lentries = [\<lparr>leKey = 5, leItem = 50\<rparr>, \<lparr>leKey = 6, leItem = 60\<rparr>]\<rparr>,
        \<lparr>lid = 4, lparentID = 3, lleftID = 2, lrightID = 0, lentries = [\<lparr>leKey = 9, leItem = 90\<rparr>]\<rparr>],
     branches = [\<lparr>bid = 3, bparentID = 0, bleftID = 0, brightID = 0, bentries =
       [\<lparr>beKey = 5, LowerThanKeyNodeID = 1, GreaterThanOrEqualToKeyNodeID = 2\<rparr>,
        \<lparr>beKey = 8, LowerThanKeyNodeID = 2, GreaterThanOrEqualToKeyNodeID = 4\<rparr>]\<rparr>]\<rparr>"

definition three_tree :: "nat bpt" where
  "three_tree = Branchy 3 [5, 8]
     [Leafy 1 [\<lparr>leKey = 1, leItem = 10\<rparr>],
      Leafy 2 [\<lparr>leKey = 5, leItem = 50\<rparr>, \<lparr>leKey = 6, leItem = 60\<rparr>],
      Leafy 4 [\<lparr>leKey = 9, leItem = 90\<rparr>]]"

lemma three_leaves:
  "mem_good three_leaves" "rootOf (mem_view three_leaves) = Some (tid three_tree)"
  "stored (mem_view three_leaves) three_tree" "ordered 0 (2 ^ 32) three_tree" "balanced 1 three_tree"
proof -
  have e: "entries_of [5, 8] [1, 2, 4] = [\<lparr>beKey = 5, LowerThanKeyNodeID = 1, GreaterThanOrEqualToKeyNodeID = 2\<rparr>,
        \<lparr>beKey = 8, LowerThanKeyNodeID = 2, GreaterThanOrEqualToKeyNodeID = 4\<rparr>]"
    by (simp add: entries_of_def entry_of_def)
  show "mem_good three_leaves"
    by (auto simp: mem_good_def mem_fits_def three_leaves_def shares_def ptrs_of_def e split: if_splits)
  show "rootOf (mem_view three_leaves) = Some (tid three_tree)"
    by (simp add: mem_view_def three_leaves_def three_tree_def)
  show "stored (mem_view three_leaves) three_tree"
    by (simp add: mem_view_def mem_node_def leafView_def branchView_def ptrs_of_def three_leaves_def three_tree_def)
  show "balanced 1 three_tree" by (simp add: three_tree_def)
  have "ordered (lower 0 [5, 8] j) (upper (2 ^ 32) [5, 8] j) ([Leafy 1 [\<lparr>leKey = 1, leItem = 10 :: nat\<rparr>],
      Leafy 2 [\<lparr>leKey = 5, leItem = 50\<rparr>, \<lparr>leKey = 6, leItem = 60\<rparr>], Leafy 4 [\<lparr>leKey = 9, leItem = 90\<rparr>]] ! j)"
    if "j < Suc (Suc (Suc 0))" for j
  proof -
    from that consider "j = 0" | "j = 1" | "j = 2" by linarith
    then show ?thesis by cases (simp_all add: ordered_simps lower_def upper_def)
  qed
  then show "ordered 0 (2 ^ 32) three_tree" by (simp add: three_tree_def ordered_simps)
qed

lemma mem_find_refines_lookup_witness:
  "treeFind (newTree memAdapter 3 3) 1 6 three_leaves = Ok (Inr 60, three_leaves) \<and>
   treeFind (newTree memAdapter 3 3) 1 7 three_leaves = Ok (Inl (ErrKeyNotFound 7), three_leaves)"
  using mem_find_refines_lookup [OF three_leaves, of 3 3 6] mem_find_refines_lookup [OF three_leaves, of 3 3 7]
  by (simp add: three_tree_def lookup_def)

end
