(* ===== verification/TreeContext.thy ===== *)
theory TreeContext
  imports TreeView "HOL-Library.Multiset"
begin

text \<open>
  A B+ tree around one of its nodes: the frames from the node's parent up to the root, and how the
  order of the keys, the IDs, the levels, the balance and the sizes of a tree follow from those of
  the node and its frames. The insertion of the tree works at a node and moves up along the
  frames.
\<close>

section \<open>Frames\<close>

text \<open>A branch with a hole: the keys and the children on its left and on its right.\<close>

datatype 'i frame = Frame u16 "u32 list" "'i bpt list" "u32 list" "'i bpt list"

fun plug :: "'i bpt \<Rightarrow> 'i frame list \<Rightarrow> 'i bpt" where
  "plug c [] = c"
| "plug c (Frame i kl ls kr rs # fs) = plug (Branchy i (kl @ kr) (ls @ c # rs)) fs"

fun up_of :: "'i frame list \<Rightarrow> u16" where
  "up_of [] = 0"
| "up_of (Frame i kl ls kr rs # fs) = i"

text \<open>As many keys as children on each side.\<close>

fun even_frames :: "'i frame list \<Rightarrow> bool" where
  "even_frames [] = True"
| "even_frames (Frame i kl ls kr rs # fs) = (length kl = length ls \<and> length kr = length rs \<and> even_frames fs)"

section \<open>The entries from left to right\<close>

fun inorder_left :: "'i frame list \<Rightarrow> 'i LeafEntry list" where
  "inorder_left [] = []"
| "inorder_left (Frame i kl ls kr rs # fs) = inorder_left fs @ concat (map inorder ls)"

fun inorder_right :: "'i frame list \<Rightarrow> 'i LeafEntry list" where
  "inorder_right [] = []"
| "inorder_right (Frame i kl ls kr rs # fs) = concat (map inorder rs) @ inorder_right fs"

lemma inorder_plug: "inorder (plug c fs) = inorder_left fs @ inorder c @ inorder_right fs"
  by (induction c fs rule: plug.induct) simp_all

section \<open>Keys and separators in one line\<close>

text \<open>
  A key \<open>k\<close> of an entry is written \<open>2 k + 1\<close>, a separator \<open>k\<close> is written \<open>2 k\<close>: then a tree is ordered
  iff the line of both from left to right increases strictly.
\<close>

fun weave :: "nat list list \<Rightarrow> nat list \<Rightarrow> nat list" where
  "weave [] ks = ks"
| "weave (x # xs) [] = x @ concat xs"
| "weave (x # xs) (k # ks) = x @ k # weave xs ks"

definition mark :: "u32 \<Rightarrow> nat" where
  "mark k = 2 * unat k"

fun line :: "'i bpt \<Rightarrow> nat list" where
  "line (Leafy i es) = map (\<lambda>e. mark (leKey e) + 1) es"
| "line (Branchy i ks ts) = weave (map line ts) (map mark ks)"

fun weave_left :: "nat list list \<Rightarrow> nat list \<Rightarrow> nat list" where
  "weave_left (x # xs) (k # ks) = x @ k # weave_left xs ks"
| "weave_left xs ks = []"

fun weave_right :: "nat list \<Rightarrow> nat list list \<Rightarrow> nat list" where
  "weave_right (k # ks) (x # xs) = k # x @ weave_right ks xs"
| "weave_right ks xs = []"

lemma weave_first: "length ks = length xs \<Longrightarrow> weave (x # xs) ks = x @ weave_right ks xs"
  by (induction ks xs arbitrary: x rule: weave_right.induct) simp_all

lemma weave_hole:
  assumes "length ls = length kl" "length rs = length kr"
  shows "weave (ls @ x # rs) (kl @ kr) = weave_left ls kl @ x @ weave_right kr rs"
  using assms(1) weave_first [OF assms(2) [symmetric]]
  by (induction ls kl rule: list_induct2) simp_all

lemma weave_left_append:
  "length ls = length kl \<Longrightarrow> weave_left (ls @ ls') (kl @ kl') = weave_left ls kl @ weave_left ls' kl'"
  by (induction ls kl rule: list_induct2) simp_all

lemma weave_right_append:
  "length ls = length kl \<Longrightarrow> weave_right (kl @ kl') (ls @ ls') = weave_right kl ls @ weave_right kl' ls'"
  by (induction ls kl rule: list_induct2) simp_all

lemma set_weave_left: "length ls = length kl \<Longrightarrow> set kl \<subseteq> set (weave_left ls kl)"
  by (induction ls kl rule: list_induct2) auto

lemma set_weave_right: "length rs = length kr \<Longrightarrow> set kr \<subseteq> set (weave_right kr rs)"
  by (induction rs kr rule: list_induct2) auto

fun line_left :: "'i frame list \<Rightarrow> nat list" where
  "line_left [] = []"
| "line_left (Frame i kl ls kr rs # fs) = line_left fs @ weave_left (map line ls) (map mark kl)"

fun line_right :: "'i frame list \<Rightarrow> nat list" where
  "line_right [] = []"
| "line_right (Frame i kl ls kr rs # fs) = weave_right (map mark kr) (map line rs) @ line_right fs"

lemma line_hole:
  "length ls = length kl \<Longrightarrow> length rs = length kr \<Longrightarrow>
    line (Branchy i (kl @ kr) (ls @ c # rs)) =
    weave_left (map line ls) (map mark kl) @ line c @ weave_right (map mark kr) (map line rs)"
  by (simp add: weave_hole)

lemma line_plug: "even_frames fs \<Longrightarrow> line (plug c fs) = line_left fs @ line c @ line_right fs"
proof (induction c fs rule: plug.induct)
  case (2 c i kl ls kr rs fs)
  then have "line (Branchy i (kl @ kr) (ls @ c # rs)) =
      weave_left (map line ls) (map mark kl) @ line c @ weave_right (map mark kr) (map line rs)"
    by (intro line_hole) simp_all
  with 2 show ?case by (simp del: line.simps)
qed simp

lemma mark_less [simp]:
  "mark k < mark l \<longleftrightarrow> k < l" "Suc (mark k) < mark l \<longleftrightarrow> k < l" "mark k < Suc (mark l) \<longleftrightarrow> k \<le> l"
  by (auto simp: mark_def word_less_nat_alt word_le_nat_alt)

section \<open>IDs\<close>

fun ids :: "'i bpt \<Rightarrow> u16 list" where
  "ids (Leafy i es) = [i]"
| "ids (Branchy i ks ts) = i # concat (map ids ts)"

fun ids_around :: "'i frame list \<Rightarrow> u16 list" where
  "ids_around [] = []"
| "ids_around (Frame i kl ls kr rs # fs) = i # concat (map ids ls) @ concat (map ids rs) @ ids_around fs"

lemma mset_ids_plug: "mset (ids (plug c fs)) = mset (ids c @ ids_around fs)"
  by (induction c fs rule: plug.induct) (simp_all add: ac_simps)

lemma set_ids_plug [simp]: "set (ids (plug c fs)) = set (ids c) \<union> set (ids_around fs)"
  using mset_eq_setD [OF mset_ids_plug] by simp

lemma distinct_ids_plug: "distinct (ids (plug c fs)) \<longleftrightarrow> distinct (ids c @ ids_around fs)"
  by (rule mset_eq_imp_distinct_iff [OF mset_ids_plug])

lemma tid_ids [simp]: "tid t \<in> set (ids t)"
  by (cases t) simp_all

section \<open>Levels and sibling links\<close>

fun lev :: "nat \<Rightarrow> 'i bpt \<Rightarrow> u16 list" where
  "lev 0 t = [tid t]"
| "lev (Suc n) (Leafy i es) = []"
| "lev (Suc n) (Branchy i ks ts) = concat (map (lev n) ts)"

fun lev_left :: "nat \<Rightarrow> 'i frame list \<Rightarrow> u16 list" where
  "lev_left n [] = []"
| "lev_left n (Frame i kl ls kr rs # fs) = lev_left (Suc n) fs @ concat (map (lev n) ls)"

fun lev_right :: "nat \<Rightarrow> 'i frame list \<Rightarrow> u16 list" where
  "lev_right n [] = []"
| "lev_right n (Frame i kl ls kr rs # fs) = concat (map (lev n) rs) @ lev_right (Suc n) fs"

lemma lev_plug: "lev (n + length fs) (plug c fs) = lev_left n fs @ lev n c @ lev_right n fs"
proof (induction c fs arbitrary: n rule: plug.induct)
  case (2 c i kl ls kr rs fs)
  from 2 [of "Suc n"] show ?case by simp
qed simp

lemma lev_above: "m < length fs \<Longrightarrow> lev m (plug c fs) = lev m (plug c' fs)"
proof (induction fs arbitrary: c c')
  case (Cons f fs)
  obtain i kl ls kr rs where f: "f = Frame i kl ls kr rs" by (cases f)
  show ?case
  proof (cases "m = length fs")
    case True
    then show ?thesis using lev_plug [of 0 fs] by (simp add: f)
  next
    case False
    with Cons.prems have "m < length fs" by simp
    with Cons.IH show ?thesis by (simp add: f)
  qed
qed simp

lemma lev_ids: "set (lev n t) \<subseteq> set (ids t)"
  by (induction n t rule: lev.induct) auto

lemma distinct_concatD:
  "distinct (concat (map f ts)) \<Longrightarrow> t \<in> set ts \<Longrightarrow> u \<in> set ts \<Longrightarrow> x \<in> set (f t) \<Longrightarrow> x \<in> set (f u) \<Longrightarrow> t = u"
  by (induction ts) auto

lemma lev_disjoint: "distinct (ids t) \<Longrightarrow> x \<in> set (lev n t) \<Longrightarrow> x \<in> set (lev m t) \<Longrightarrow> n = m"
proof (induction n t arbitrary: m rule: lev.induct)
  case (1 t)
  then show ?case by (cases m; cases t) (auto dest: subsetD [OF lev_ids])
next
  case (3 n i ks ts)
  from "3.prems"(2) obtain t where t: "t \<in> set ts" "x \<in> set (lev n t)" by auto
  then have x: "x \<in> set (ids t)" using lev_ids by blast
  with "3.prems"(1) t(1) have "x \<noteq> i" by auto
  with "3.prems"(3) obtain m' u where m: "m = Suc m'" "u \<in> set ts" "x \<in> set (lev m' u)" by (cases m) auto
  have dt: "distinct (ids t)" using t(1) "3.prems"(1) by (auto dest: split_list)
  have "x \<in> set (ids u)" using m(3) lev_ids by blast
  then have "t = u" using distinct_concatD [of ids ts] "3.prems"(1) t(1) m(2) x by simp
  with "3.IH" [OF t(1) dt t(2), of m'] m show ?case by simp
qed simp

lemma distinct_lev: "distinct (ids t) \<Longrightarrow> distinct (lev n t)"
proof (induction n t rule: lev.induct)
  case (3 n i ks ts)
  have "distinct (concat (map (lev n) us))" if "distinct (concat (map ids us))" "set us \<subseteq> set ts" for us
    using that
  proof (induction us)
    case (Cons u us)
    have "set (ids u) \<inter> set (concat (map ids us)) = {}" using Cons.prems(1) by auto
    moreover have "set (lev n u) \<subseteq> set (ids u)" "set (concat (map (lev n) us)) \<subseteq> set (concat (map ids us))"
      using lev_ids by fastforce+
    ultimately have "set (lev n u) \<inter> set (concat (map (lev n) us)) = {}" by blast
    then show ?case using Cons "3.IH" [of u] by simp
  qed simp
  from this [of ts] 3 show ?case by simp
qed simp_all

text \<open>Nodes linked to their neighbours: \<open>seg H p xs q\<close> between the neighbours \<open>p\<close> and \<open>q\<close>.\<close>

fun seg :: "'i heapView \<Rightarrow> u16 \<Rightarrow> u16 list \<Rightarrow> u16 \<Rightarrow> bool" where
  "seg H p [] q = True"
| "seg H p (x # xs) q =
     ((\<exists>v. nodeOf H x = Some v \<and> lft v = p \<and> rgt v = (if xs = [] then q else hd xs)) \<and> seg H x xs q)"

definition links :: "'i nodeView \<Rightarrow> u16 \<times> u16" where
  "links v = (lft v, rgt v)"

lemma seg_append:
  "seg H p (xs @ ys) q \<longleftrightarrow> seg H p xs (if ys = [] then q else hd ys) \<and> seg H (if xs = [] then p else last xs) ys q"
  by (induction xs arbitrary: p) auto

lemma seg_cong:
  assumes "\<And>x. x \<in> set xs \<Longrightarrow> map_option links (nodeOf H' x) = map_option links (nodeOf H x)"
  shows "seg H p xs q \<Longrightarrow> seg H' p xs q"
  using assms
proof (induction xs arbitrary: p)
  case (Cons x xs)
  from Cons.prems(1) obtain v where v: "nodeOf H x = Some v" "lft v = p" "rgt v = (if xs = [] then q else hd xs)" by auto
  with Cons.prems(2) [of x] have "\<exists>w. nodeOf H' x = Some w \<and> lft w = p \<and> rgt w = (if xs = [] then q else hd xs)"
    by (auto simp: links_def)
  with Cons show ?case by simp
qed simp

text \<open>Every level of the tree is linked from end to end.\<close>

definition chained :: "'i heapView \<Rightarrow> 'i bpt \<Rightarrow> bool" where
  "chained H t \<longleftrightarrow> (\<forall>n. seg H 0 (lev n t) 0)"

section \<open>Balance and sizes\<close>

fun balanced_around :: "nat \<Rightarrow> 'i frame list \<Rightarrow> bool" where
  "balanced_around n [] = True"
| "balanced_around n (Frame i kl ls kr rs # fs) =
     ((\<forall>t \<in> set ls \<union> set rs. balanced n t) \<and> balanced_around (Suc n) fs)"

lemma balanced_plug: "balanced (n + length fs) (plug c fs) \<longleftrightarrow> balanced n c \<and> balanced_around n fs"
proof (induction c fs arbitrary: n rule: plug.induct)
  case (2 c i kl ls kr rs fs)
  from 2 [of "Suc n"] show ?case by auto
qed simp

text \<open>No leaf is empty, no node is over its capacity.\<close>

fun sized :: "nat \<Rightarrow> nat \<Rightarrow> 'i bpt \<Rightarrow> bool" where
  "sized lc bc (Leafy i es) = (es \<noteq> [] \<and> length es \<le> lc)"
| "sized lc bc (Branchy i ks ts) =
     (ks \<noteq> [] \<and> length ks \<le> bc \<and> length ts = length ks + 1 \<and> (\<forall>t \<in> set ts. sized lc bc t))"

fun sized_around :: "nat \<Rightarrow> nat \<Rightarrow> 'i frame list \<Rightarrow> bool" where
  "sized_around lc bc [] = True"
| "sized_around lc bc (Frame i kl ls kr rs # fs) =
     (kl @ kr \<noteq> [] \<and> length (kl @ kr) \<le> bc \<and> length ls = length kl \<and> length rs = length kr \<and>
      (\<forall>t \<in> set ls \<union> set rs. sized lc bc t) \<and> sized_around lc bc fs)"

lemma sized_around_even: "sized_around lc bc fs \<Longrightarrow> even_frames fs"
  by (induction fs rule: even_frames.induct) simp_all

lemma sized_plug: "sized lc bc c \<Longrightarrow> sized_around lc bc fs \<Longrightarrow> sized lc bc (plug c fs)"
  by (induction c fs rule: plug.induct) auto

lemma sized_line: "sized lc bc t \<Longrightarrow> line t \<noteq> []"
proof (induction t rule: line.induct)
  case (2 i ks ts)
  then show ?case by (cases ts; cases ks) auto
qed simp

section \<open>A tree in a heap, with its parents\<close>

fun laid :: "'i heapView \<Rightarrow> u16 \<Rightarrow> 'i bpt \<Rightarrow> bool" where
  "laid H p (Leafy i es) = (\<exists>v. nodeOf H i = Some v \<and> content v = Entries es \<and> up v = p)"
| "laid H p (Branchy i ks ts) =
     ((\<exists>v. nodeOf H i = Some v \<and> content v = Children ks (map tid ts) \<and> up v = p) \<and> (\<forall>t \<in> set ts. laid H i t))"

fun around :: "'i heapView \<Rightarrow> u16 \<Rightarrow> 'i frame list \<Rightarrow> bool" where
  "around H c [] = (rootOf H = Some c)"
| "around H c (Frame i kl ls kr rs # fs) =
     ((\<exists>v. nodeOf H i = Some v \<and> content v = Children (kl @ kr) (map tid ls @ c # map tid rs) \<and> up v = up_of fs) \<and>
      (\<forall>t \<in> set ls \<union> set rs. laid H i t) \<and> around H i fs)"

lemma laid_plug:
  "laid H 0 (plug c fs) \<and> rootOf H = Some (tid (plug c fs)) \<longleftrightarrow> laid H (up_of fs) c \<and> around H (tid c) fs"
proof (induction c fs rule: plug.induct)
  case (2 c i kl ls kr rs fs)
  then show ?case by auto
qed simp

lemma laid_stored: "laid H p t \<Longrightarrow> stored H t"
  by (induction H p t rule: laid.induct) auto

text \<open>What \<open>laid\<close> reads of a node.\<close>

definition body :: "'i nodeView \<Rightarrow> 'i content \<times> u16" where
  "body v = (content v, up v)"

lemma body_eq: "map_option body (nodeOf H' i) = map_option body (nodeOf H i) \<Longrightarrow>
    (\<exists>v. nodeOf H i = Some v \<and> P (content v) (up v)) \<Longrightarrow> (\<exists>v. nodeOf H' i = Some v \<and> P (content v) (up v))"
  by (auto simp: body_def)

lemma laid_cong:
  "laid H p t \<Longrightarrow> (\<And>i. i \<in> set (ids t) \<Longrightarrow> map_option body (nodeOf H' i) = map_option body (nodeOf H i)) \<Longrightarrow>
    laid H' p t"
proof (induction H p t rule: laid.induct)
  case (1 H p i es)
  then show ?case using body_eq [of H' i H "\<lambda>c u. c = Entries es \<and> u = p"] by auto
next
  case (2 H p i ks ts)
  have "\<exists>v. nodeOf H' i = Some v \<and> content v = Children ks (map tid ts) \<and> up v = p"
    using 2 body_eq [of H' i H "\<lambda>c u. c = Children ks (map tid ts) \<and> u = p"] by auto
  moreover have "laid H' i t" if "t \<in> set ts" for t using 2 that by auto
  ultimately show ?case by simp
qed

lemma around_cong:
  "around H c fs \<Longrightarrow> (\<And>i. i \<in> set (ids_around fs) \<Longrightarrow> map_option body (nodeOf H' i) = map_option body (nodeOf H i)) \<Longrightarrow>
    rootOf H' = rootOf H \<Longrightarrow> around H' c fs"
proof (induction H c fs rule: around.induct)
  case (2 H c i kl ls kr rs fs)
  have "\<exists>v. nodeOf H' i = Some v \<and> content v = Children (kl @ kr) (map tid ls @ c # map tid rs) \<and> up v = up_of fs"
    using 2 body_eq [of H' i H "\<lambda>d u. d = Children (kl @ kr) (map tid ls @ c # map tid rs) \<and> u = up_of fs"] by auto
  moreover have "laid H' i t" if t: "t \<in> set ls \<union> set rs" for t
  proof (rule laid_cong)
    show "laid H i t" using 2(2) t by auto
    show "map_option body (nodeOf H' j) = map_option body (nodeOf H j)" if "j \<in> set (ids t)" for j
      using 2(3) [of j] that t by auto
  qed
  moreover have "around H' i fs" using 2 by auto
  ultimately show ?case by simp
qed simp

lemma laid_node: "laid H p t \<Longrightarrow> i \<in> set (ids t) \<Longrightarrow> nodeOf H i \<noteq> None"
  by (induction H p t rule: laid.induct) auto

lemma around_node: "around H c fs \<Longrightarrow> i \<in> set (ids_around fs) \<Longrightarrow> nodeOf H i \<noteq> None"
  by (induction H c fs rule: around.induct) (auto dest: laid_node)

lemma laid_children: "laid H p t \<Longrightarrow> (\<exists>v. nodeOf H (tid t) = Some v \<and> up v = p)"
  by (cases t) auto

end
