(* ===== verification/TreeGraft.thy ===== *)
theory TreeGraft
  imports TreeContext
begin

text \<open>
  Splitting a node of a tree: the node gives way to two, and its parent, or a new root, takes in
  the key between them. The first part is about trees, the second about the nodes of a heap and
  their links.
\<close>

section \<open>Two nodes for one\<close>

fun graft :: "'i bpt \<Rightarrow> u32 \<Rightarrow> 'i bpt \<Rightarrow> u16 \<Rightarrow> 'i frame list \<Rightarrow> 'i bpt" where
  "graft P k R new [] = Branchy new [k] [P, R]"
| "graft P k R new (Frame i kl ls kr rs # fs) = plug (Branchy i (kl @ k # kr) (ls @ P # R # rs)) fs"

definition splits :: "'i bpt \<Rightarrow> 'i bpt \<Rightarrow> u32 \<Rightarrow> 'i bpt \<Rightarrow> bool" where
  "splits X P k R \<longleftrightarrow> tid P = tid X \<and> inorder X = inorder P @ inorder R \<and>
     (\<forall>n. lev (Suc n) X = lev (Suc n) P @ lev (Suc n) R) \<and>
     mset (ids P @ ids R) = mset (tid R # ids X) \<and> sorted_wrt (<) (line P @ mark k # line R) \<and>
     line P \<noteq> [] \<and> line R \<noteq> [] \<and> set (line P) \<subseteq> set (line X) \<and> set (line R) \<subseteq> set (line X)"

lemma splitsD:
  assumes "splits X P k R"
  shows "tid P = tid X" "inorder X = inorder P @ inorder R" "lev (Suc n) X = lev (Suc n) P @ lev (Suc n) R"
    "mset (ids P @ ids R) = mset (tid R # ids X)" "sorted_wrt (<) (line P @ mark k # line R)"
    "line P \<noteq> []" "line R \<noteq> []" "set (line P) \<subseteq> set (line X)" "set (line R) \<subseteq> set (line X)"
  using assms by (simp_all add: splits_def)

lemma sorted_replace:
  fixes A X B P R :: "nat list"
  assumes "sorted_wrt (<) (A @ X @ B)" "sorted_wrt (<) (P @ m # R)" "P \<noteq> []" "R \<noteq> []"
    "set P \<subseteq> set X" "set R \<subseteq> set X"
  shows "sorted_wrt (<) (A @ P @ m # R @ B)"
proof -
  have A: "x < y" if "x \<in> set A" "y \<in> set X \<or> y \<in> set B" for x y
    using assms(1) that by (auto simp: sorted_wrt_append)
  have B: "x < y" if "x \<in> set X" "y \<in> set B" for x y
    using assms(1) that by (auto simp: sorted_wrt_append)
  have s: "sorted_wrt (<) A" "sorted_wrt (<) B" using assms(1) by (simp_all add: sorted_wrt_append)
  have M: "x < m" "m < y" "x < y" if "x \<in> set P" "y \<in> set R" for x y
    using assms(2) that by (auto simp: sorted_wrt_append)
  have p: "hd P \<in> set P" "hd R \<in> set R" using assms(3,4) by simp_all
  have "x < m" if "x \<in> set A" for x
    using A [OF that, of "hd P"] M(1) [OF p] p(1) assms(5) by auto
  moreover have "m < x" if "x \<in> set B" for x
    using B [OF _ that, of "hd R"] M(2) [OF p] p(2) assms(6) by auto
  moreover have "x < y" if "x \<in> set A" "y \<in> set P \<or> y \<in> set R" for x y
    using A [OF that(1), of y] that(2) assms(5,6) by blast
  moreover have "x < y" if "x \<in> set P \<or> x \<in> set R" "y \<in> set B" for x y
    using B [OF _ that(2), of x] that(1) assms(5,6) by blast
  moreover have "x < y" if "x \<in> set A" "y \<in> set B" for x y using A that by blast
  ultimately have "\<forall>x \<in> set A. \<forall>y \<in> set (P @ m # R @ B). x < y" "\<forall>x \<in> set (P @ m # R). \<forall>y \<in> set B. x < y"
    by auto
  then show ?thesis
    using s assms(2) unfolding sorted_wrt_append [of _ A] append_assoc [symmetric] append_Cons [symmetric]
    by (auto simp: sorted_wrt_append)
qed

lemma line_graft:
  assumes "even_frames fs"
  shows "line (graft P k R new fs) = line_left fs @ line P @ mark k # line R @ line_right fs"
proof (cases fs)
  case (Cons f gs)
  obtain i kl ls kr rs where f: "f = Frame i kl ls kr rs" by (cases f)
  with assms Cons have e: "length ls = length kl" "length rs = length kr" "even_frames gs" by simp_all
  have "line (Branchy i (kl @ k # kr) (ls @ P # R # rs)) =
      weave_left (map line ls) (map mark kl) @ line P @ weave_right (map mark (k # kr)) (map line (R # rs))"
    using e by (intro line_hole) simp_all
  then show ?thesis using Cons f line_plug [OF e(3)] by (simp del: line.simps)
qed simp

lemma graft_sorted:
  assumes "sorted_wrt (<) (line (plug X fs))" "even_frames fs" "splits X P k R"
  shows "sorted_wrt (<) (line (graft P k R new fs))"
  using sorted_replace [of "line_left fs" "line X" "line_right fs" "line P" "mark k" "line R"]
    splitsD [OF assms(3)] assms(1) line_plug [OF assms(2)] line_graft [OF assms(2)] by simp

lemma inorder_graft: "splits X P k R \<Longrightarrow> inorder (graft P k R new fs) = inorder (plug X fs)"
  by (cases fs; cases "hd fs") (auto simp: inorder_plug splitsD(2))

lemma ids_graft:
  assumes "splits X P k R"
  shows "mset (ids (graft P k R new fs)) = mset ((if fs = [] then [new] else []) @ tid R # ids (plug X fs))"
proof (cases fs)
  case (Cons f gs)
  obtain i kl ls kr rs where f: "f = Frame i kl ls kr rs" by (cases f)
  show ?thesis using splitsD(4) [OF assms] by (simp add: Cons f mset_ids_plug)
qed (use splitsD(4) [OF assms] in simp)

lemma lev_graft:
  assumes "splits X P k R"
  shows "fs \<noteq> [] \<Longrightarrow> lev m (graft P k R new fs) = (if m < length fs then lev m (plug X fs)
      else lev_left (m - length fs) fs @ (lev (m - length fs) P @ lev (m - length fs) R) @ lev_right (m - length fs) fs)"
    and "lev (Suc m) (graft P k R new []) = lev m P @ lev m R"
proof -
  assume "fs \<noteq> []"
  then obtain i kl ls kr rs gs where f: "fs = Frame i kl ls kr rs # gs" by (cases fs; cases "hd fs") auto
  let ?X = "Branchy i (kl @ kr) (ls @ X # rs)" and ?Y = "Branchy i (kl @ k # kr) (ls @ P # R # rs)"
  show "lev m (graft P k R new fs) = (if m < length fs then lev m (plug X fs)
      else lev_left (m - length fs) fs @ (lev (m - length fs) P @ lev (m - length fs) R) @ lev_right (m - length fs) fs)"
  proof (cases "m \<le> length gs")
    case True
    then consider "m < length gs" | "m = length gs" by linarith
    then show ?thesis
    proof cases
      case 1
      then show ?thesis using lev_above [of m gs ?Y ?X] by (simp add: f)
    next
      case 2
      then show ?thesis using lev_plug [of 0 gs ?Y] lev_plug [of 0 gs ?X] by (simp add: f)
    qed
  next
    case False
    then have "m = Suc (m - length fs) + length gs" by (simp add: f)
    then have "lev m (plug ?Y gs) = lev_left (Suc (m - length fs)) gs @ lev (Suc (m - length fs)) ?Y @
        lev_right (Suc (m - length fs)) gs" by (metis lev_plug)
    with False show ?thesis by (simp add: f)
  qed
qed simp

lemma balanced_graft:
  assumes "balanced n P" "balanced n R" "balanced_around n fs"
  shows "balanced (if fs = [] then Suc n else n + length fs) (graft P k R new fs)"
proof (cases fs)
  case (Cons f gs)
  obtain i kl ls kr rs where f: "f = Frame i kl ls kr rs" by (cases f)
  have "balanced (Suc n) (Branchy i (kl @ k # kr) (ls @ P # R # rs))" "balanced_around (Suc n) gs"
    using assms by (auto simp: Cons f)
  then show ?thesis using balanced_plug [of "Suc n" gs] by (simp add: Cons f del: balanced.simps)
qed (use assms in simp)

section \<open>Updates of a heap\<close>

definition set_node :: "u16 \<Rightarrow> ('i nodeView \<Rightarrow> 'i nodeView) \<Rightarrow> 'i heapView \<Rightarrow> 'i heapView" where
  "set_node i f H = H\<lparr>nodeOf := (nodeOf H)(i := map_option f (nodeOf H i))\<rparr>"

definition new_node :: "u16 \<Rightarrow> 'i content \<Rightarrow> 'i heapView \<Rightarrow> 'i heapView" where
  "new_node i c H = H\<lparr>nodeOf := (nodeOf H)(i \<mapsto> \<lparr>content = c, up = 0, lft = 0, rgt = 0\<rparr>)\<rparr>"

lemma heap_updates [simp]:
  "nodeOf (set_node i f H) j = (if j = i then map_option f (nodeOf H i) else nodeOf H j)"
  "nodeOf (new_node i c H) j = (if j = i then Some \<lparr>content = c, up = 0, lft = 0, rgt = 0\<rparr> else nodeOf H j)"
  "rootOf (set_node i f H) = rootOf H" "rootOf (new_node i c H) = rootOf H"
  "firstOf (set_node i f H) = firstOf H" "firstOf (new_node i c H) = firstOf H"
  by (simp_all add: set_node_def new_node_def)

definition right_of :: "'i heapView \<Rightarrow> u16 \<Rightarrow> u16" where
  "right_of H p = (case nodeOf H p of Some v \<Rightarrow> rgt v | None \<Rightarrow> 0)"

text \<open>Linking \<open>r\<close> in between \<open>p\<close> and its right neighbour.\<close>

definition link :: "u16 \<Rightarrow> u16 \<Rightarrow> 'i heapView \<Rightarrow> 'i heapView" where
  "link p r H = (let q = right_of H p in
     set_node r (\<lambda>v. v\<lparr>lft := p\<rparr>) (set_node p (\<lambda>v. v\<lparr>rgt := r\<rparr>)
       (if q = 0 then H else set_node r (\<lambda>v. v\<lparr>rgt := q\<rparr>) (set_node q (\<lambda>v. v\<lparr>lft := r\<rparr>) H))))"

lemma link_body [simp]: "map_option body (nodeOf (link p r H) j) = map_option body (nodeOf H j)"
  by (cases "nodeOf H j") (auto simp: link_def Let_def body_def option.map_comp comp_def)

lemma link_root [simp]: "rootOf (link p r H) = rootOf H" "firstOf (link p r H) = firstOf H"
  by (simp_all add: link_def Let_def)

lemma link_other: "j \<noteq> p \<Longrightarrow> j \<noteq> r \<Longrightarrow> j \<noteq> right_of H p \<Longrightarrow> nodeOf (link p r H) j = nodeOf H j"
  by (simp add: link_def Let_def)

text \<open>The right neighbour on a linked level.\<close>

lemma seg_right: "seg H 0 (as @ p # bs) 0 \<Longrightarrow> right_of H p = hd (bs @ [0])"
  by (auto simp: seg_append right_of_def hd_append)

lemma seg_link:
  assumes "seg H 0 (as @ p # bs) 0" "distinct (as @ p # bs)" "0 \<notin> set (as @ p # bs)"
    "r \<notin> set (as @ p # bs)" "r \<noteq> 0" "nodeOf H r = Some v" "rgt v = 0"
  shows "seg (link p r H) 0 (as @ p # r # bs) 0"
proof -
  have q: "right_of H p = hd (bs @ [0])" using seg_right [OF assms(1)] .
  let ?a = "if as = [] then 0 else last as"
  from assms(1) obtain w where w: "nodeOf H p = Some w" "lft w = ?a" "rgt w = hd (bs @ [0])"
    and sa: "seg H 0 as p" and sb: "seg H p bs 0" by (auto simp: seg_append hd_append)
  have "seg (link p r H) 0 as p"
  proof (rule seg_cong [OF _ sa])
    fix x assume x: "x \<in> set as"
    have "x \<noteq> right_of H p" using q x assms(2,3) by (cases bs) auto
    then show "map_option links (nodeOf (link p r H) x) = map_option links (nodeOf H x)"
      using x assms(2,4) by (subst link_other) auto
  qed
  moreover have "\<exists>v. nodeOf (link p r H) p = Some v \<and> lft v = ?a \<and> rgt v = r"
    using w q assms(2-5) by (cases bs) (auto simp: link_def Let_def)
  moreover have "\<exists>v. nodeOf (link p r H) r = Some v \<and> lft v = p \<and> rgt v = hd (bs @ [0])"
    using q assms(3-7) by (cases bs) (auto simp: link_def Let_def)
  moreover have "seg (link p r H) r bs 0"
  proof (cases bs)
    case (Cons b bs')
    from sb Cons obtain u where u: "nodeOf H b = Some u" "rgt u = (if bs' = [] then 0 else hd bs')" "seg H b bs' 0" by auto
    have "\<exists>v. nodeOf (link p r H) b = Some v \<and> lft v = r \<and> rgt v = (if bs' = [] then 0 else hd bs')"
      using u q Cons assms(2-5) by (auto simp: link_def Let_def)
    moreover have "seg (link p r H) b bs' 0"
    proof (rule seg_cong [OF _ u(3)])
      fix x assume x: "x \<in> set bs'"
      have "x \<noteq> right_of H p" using q x assms(2) Cons by auto
      then show "map_option links (nodeOf (link p r H) x) = map_option links (nodeOf H x)"
        using x assms(2,4) Cons by (subst link_other) auto
    qed
    ultimately show ?thesis by (simp add: Cons)
  qed simp
  ultimately show ?thesis by (auto simp: seg_append hd_append)
qed

section \<open>The links after a split\<close>

lemma chained_graft:
  assumes "chained H (plug X fs)" "distinct (ids (plug X fs))" "0 \<notin> set (ids (plug X fs))"
    and sp: "splits X P k R" and r: "tid R \<notin> set (ids (plug X fs))" "tid R \<noteq> 0"
    and blank: "nodeOf H (tid R) = Some v" "rgt v = 0"
    and eq: "\<And>j. j \<in> set (ids (plug X fs)) \<Longrightarrow>
      map_option links (nodeOf H' j) = map_option links (nodeOf (link (tid X) (tid R) H) j)"
      "map_option links (nodeOf H' (tid R)) = map_option links (nodeOf (link (tid X) (tid R) H) (tid R))"
    and new: "fs = [] \<Longrightarrow> \<exists>w. nodeOf H' new = Some w \<and> lft w = 0 \<and> rgt w = 0"
  shows "chained H' (graft P k R new fs)"
proof -
  let ?T = "plug X fs" and ?L = "link (tid X) (tid R) H" and ?d = "length fs"
  have same: "seg H' 0 xs 0" if "seg ?L 0 xs 0" "set xs \<subseteq> insert (tid R) (set (ids ?T))" for xs
  proof (rule seg_cong [OF _ that(1)])
    show "map_option links (nodeOf H' x) = map_option links (nodeOf ?L x)" if "x \<in> set xs" for x
      using that \<open>set xs \<subseteq> _\<close> eq by (cases "x = tid R") auto
  qed
  have lx: "lev ?d ?T = lev_left 0 fs @ tid X # lev_right 0 fs" using lev_plug [of 0 fs X] by simp
  have level: "seg H 0 (lev n ?T) 0" "set (lev n ?T) \<subseteq> set (ids ?T)" for n
    using assms(1) lev_ids [of n ?T] by (simp_all add: chained_def)
  have own: "seg H' 0 (lev_left 0 fs @ tid X # tid R # lev_right 0 fs) 0"
  proof (rule same)
    have d: "distinct (lev ?d ?T)" using assms(2) by (rule distinct_lev)
    have "set (lev_left 0 fs @ tid X # lev_right 0 fs) \<subseteq> set (ids ?T)" using level(2) [of ?d] lx by metis
    moreover have "tid X \<in> set (ids ?T)" by simp
    ultimately show "seg ?L 0 (lev_left 0 fs @ tid X # tid R # lev_right 0 fs) 0"
      using level(1) [of ?d] d assms(3) r blank unfolding lx by (intro seg_link [of H]) (auto simp del: set_ids_plug)
    show "set (lev_left 0 fs @ tid X # tid R # lev_right 0 fs) \<subseteq> insert (tid R) (set (ids ?T))"
      using \<open>set (lev_left 0 fs @ tid X # lev_right 0 fs) \<subseteq> set (ids ?T)\<close> by auto
  qed
  have other: "seg H' 0 (lev n ?T) 0" if n: "n \<noteq> ?d" for n
  proof (rule same)
    have out: "x \<noteq> tid X \<and> x \<noteq> tid R \<and> x \<noteq> right_of H (tid X)" if x: "x \<in> set (lev n ?T)" for x
    proof -
      have nx: "x \<in> set (ids ?T)" "x \<notin> set (lev ?d ?T)"
        using x level(2) [of n] lev_disjoint [OF assms(2) x, of ?d] n by blast+
      have "right_of H (tid X) \<in> insert 0 (set (lev ?d ?T))"
        using seg_right [OF level(1) [of ?d, unfolded lx]] lx by (cases "lev_right 0 fs") simp_all
      with nx assms(3) r(1) lx show ?thesis by auto
    qed
    show "seg ?L 0 (lev n ?T) 0"
      using out by (intro seg_cong [OF _ level(1)]) (simp add: link_other)
    show "set (lev n ?T) \<subseteq> insert (tid R) (set (ids ?T))" using level(2) [of n] by blast
  qed
  have "seg H' 0 (lev m (graft P k R new fs)) 0" for m
  proof (cases "fs = []")
    case True
    show ?thesis
    proof (cases m)
      case 0
      with new [OF True] True show ?thesis by simp
    next
      case (Suc j)
      then show ?thesis
        using True own other [of j] lev_graft(2) [OF sp, of j new] splitsD(1) [OF sp] splitsD(3) [OF sp, of "j - 1"]
        by (cases j) (simp_all del: lev.simps(3) add: True)
    qed
  next
    case False
    note lg = lev_graft(1) [OF sp False, of m new]
    consider "m < ?d" | "m = ?d" | n where "m = Suc n + ?d" by (metis add.commute add_Suc_right less_imp_Suc_add linorder_cases)
    then show ?thesis
    proof cases
      case 1
      with lg other [of m] show ?thesis by simp
    next
      case 2
      with lg own splitsD(1) [OF sp] show ?thesis by simp
    next
      case 3
      with lg other [of m] lev_plug [of "Suc n" fs X] splitsD(3) [OF sp, of n] show ?thesis by simp
    qed
  qed
  then show ?thesis by (simp add: chained_def)
qed

end
