(* ===== verification/TreeStore.thy ===== *)
theory TreeStore
  imports TreeSearch TreeGraft
begin

text \<open>
  The writing half of an adapter as a locale: what each operation of the interfaces does to the
  nodes, with handles that stay valid. The proofs of the tree's updates run in it over the one
  assertion \<open>holds\<close>, which gives the nodes and the handles at a state.
\<close>

section \<open>Writing through an adapter\<close>

text \<open>
  \<open>room x n\<close> says that \<open>n\<close> more nodes can be created, and \<open>other x y\<close> that what is stored beside the
  nodes has not changed from \<open>x\<close> to \<open>y\<close>. \<open>wrote k s x H s' x'\<close> is a step that creates \<open>k\<close> nodes and
  leaves the nodes \<open>H\<close>.
\<close>

definition wrote :: "('s \<Rightarrow> 'x \<Rightarrow> bool) \<Rightarrow> ('x \<Rightarrow> 'i heapView) \<Rightarrow> ('s \<Rightarrow> ('l, 'b) node \<Rightarrow> u16 \<Rightarrow> bool)
    \<Rightarrow> ('x \<Rightarrow> nat \<Rightarrow> bool) \<Rightarrow> ('x \<Rightarrow> 'x \<Rightarrow> bool)
    \<Rightarrow> nat \<Rightarrow> 's \<Rightarrow> 'x \<Rightarrow> 'i heapView \<Rightarrow> 's \<Rightarrow> 'x \<Rightarrow> bool" where
  "wrote repr vw at room other k s x H s' x' \<longleftrightarrow>
     repr s' x' \<and> vw x' = H \<and> (\<forall>h i. at s h i \<longrightarrow> at s' h i) \<and>
     (\<forall>n. room x (n + k) \<longrightarrow> room x' n) \<and> other x x'"

locale node_store = node_reads A repr vw at
  for A :: "('s, 'l, 'b, 'i) NodeAdapter"
    and repr :: "'s \<Rightarrow> 'x \<Rightarrow> bool"
    and vw :: "'x \<Rightarrow> 'i heapView"
    and at :: "'s \<Rightarrow> ('l, 'b) node \<Rightarrow> u16 \<Rightarrow> bool" +
  fixes room :: "'x \<Rightarrow> nat \<Rightarrow> bool"
    and other :: "'x \<Rightarrow> 'x \<Rightarrow> bool"
    and leafFits :: "nat \<Rightarrow> bool"
    and branchFits :: "nat \<Rightarrow> bool"
  assumes other_refl: "other x x"
    and other_trans: "other x y \<Longrightarrow> other y z \<Longrightarrow> other x z"
    and room_less: "room x n \<Longrightarrow> m \<le> n \<Longrightarrow> room x m"
    and load_keeps: "repr s x \<Longrightarrow> nodeOf (vw x) i = Some v \<Longrightarrow>
      \<exists>h s'. LoadNode A i s = Ok (Some h, s') \<and> wrote repr vw at room other 0 s x (vw x) s' x \<and> at s' h i"
    and load_nil: "repr s x \<Longrightarrow> LoadNode A 0 s = Ok (None, s)"
    and load_branch: "repr s x \<Longrightarrow> nodeOf (vw x) i = Some v \<Longrightarrow> content v = Children ks ps \<Longrightarrow>
      \<exists>b s'. LoadBranch A i s = Ok (Some b, s') \<and> wrote repr vw at room other 0 s x (vw x) s' x \<and>
        at s' (BranchNode b) i"
    and load_leaf: "repr s x \<Longrightarrow> nodeOf (vw x) i = Some v \<Longrightarrow> content v = Entries es \<Longrightarrow>
      \<exists>l s'. LoadLeaf A i s = Ok (Some l, s') \<and> wrote repr vw at room other 0 s x (vw x) s' x \<and>
        at s' (LeafNode l) i"
    and load_leaf_nil: "repr s x \<Longrightarrow> LoadLeaf A 0 s = Ok (None, s)"
    and load_first: "repr s x \<Longrightarrow> nodeOf (vw x) (firstOf (vw x)) = Some v \<Longrightarrow> content v = Entries es \<Longrightarrow>
      \<exists>l s'. LoadFirstLeaf A s = Ok (Some l, s') \<and> wrote repr vw at room other 0 s x (vw x) s' x \<and>
        at s' (LeafNode l) (firstOf (vw x))"
    and node_id: "repr s x \<Longrightarrow> at s h i \<Longrightarrow> nodeOf (vw x) i = Some v \<Longrightarrow> NodeID A h s = Ok (i, s)"
    and parent_id: "repr s x \<Longrightarrow> at s h i \<Longrightarrow> nodeOf (vw x) i = Some v \<Longrightarrow> ParentID A h s = Ok (up v, s)"
    and right_id: "repr s x \<Longrightarrow> at s h i \<Longrightarrow> nodeOf (vw x) i = Some v \<Longrightarrow> RightSiblingID A h s = Ok (rgt v, s)"
    and is_root: "repr s x \<Longrightarrow> at s h i \<Longrightarrow> nodeOf (vw x) i = Some v \<Longrightarrow> (up v = 0 \<longleftrightarrow> rootOf (vw x) = Some i) \<Longrightarrow>
      IsRoot A h s = Ok (rootOf (vw x) = Some i, s)"
    and branch_nth: "repr s x \<Longrightarrow> at s (BranchNode b) i \<Longrightarrow> nodeOf (vw x) i = Some v \<Longrightarrow>
      content v = Children ks ps \<Longrightarrow> p < length ks \<Longrightarrow> BranchNth A b p s = Ok (entry_of ks ps p, s)"
    and leaf_nth: "repr s x \<Longrightarrow> at s (LeafNode l) i \<Longrightarrow> nodeOf (vw x) i = Some v \<Longrightarrow>
      content v = Entries es \<Longrightarrow> p < length es \<Longrightarrow> LeafNth A l p s = Ok (es ! p, s)"
    and set_parent: "repr s x \<Longrightarrow> at s h i \<Longrightarrow> nodeOf (vw x) i = Some v \<Longrightarrow>
      \<exists>s' x'. SetParentID A h q s = Ok ((), s') \<and>
        wrote repr vw at room other 0 s x (set_node i (\<lambda>v. v\<lparr>up := q\<rparr>) (vw x)) s' x'"
    and set_left: "repr s x \<Longrightarrow> at s h i \<Longrightarrow> nodeOf (vw x) i = Some v \<Longrightarrow>
      \<exists>s' x'. SetLeftSiblingID A h q s = Ok ((), s') \<and>
        wrote repr vw at room other 0 s x (set_node i (\<lambda>v. v\<lparr>lft := q\<rparr>) (vw x)) s' x'"
    and set_right: "repr s x \<Longrightarrow> at s h i \<Longrightarrow> nodeOf (vw x) i = Some v \<Longrightarrow>
      \<exists>s' x'. SetRightSiblingID A h q s = Ok ((), s') \<and>
        wrote repr vw at room other 0 s x (set_node i (\<lambda>v. v\<lparr>rgt := q\<rparr>) (vw x)) s' x'"
    and leaf_insert: "repr s x \<Longrightarrow> at s (LeafNode l) i \<Longrightarrow> nodeOf (vw x) i = Some v \<Longrightarrow>
      content v = Entries es \<Longrightarrow> p \<le> length es \<Longrightarrow> leafFits (length es + 1) \<Longrightarrow>
      \<exists>s' x'. LeafInsertAt A l (int p) e s = Ok ((), s') \<and>
        wrote repr vw at room other 0 s x (set_node i (\<lambda>v. v\<lparr>content := Entries (insertNth p e es)\<rparr>) (vw x)) s' x'"
    and leaf_cut: "repr s x \<Longrightarrow> at s (LeafNode l) i \<Longrightarrow> nodeOf (vw x) i = Some v \<Longrightarrow>
      content v = Entries es \<Longrightarrow> p \<le> length es \<Longrightarrow>
      \<exists>s' x'. LeafDeleteFrom A l (int p) s = Ok (drop p es, s') \<and>
        wrote repr vw at room other 0 s x (set_node i (\<lambda>v. v\<lparr>content := Entries (take p es)\<rparr>) (vw x)) s' x'"
    and branch_insert: "repr s x \<Longrightarrow> at s (BranchNode b) i \<Longrightarrow> nodeOf (vw x) i = Some v \<Longrightarrow>
      content v = Children ks ps \<Longrightarrow> ks \<noteq> [] \<Longrightarrow> length ps = length ks + 1 \<Longrightarrow> p \<le> length ks \<Longrightarrow>
      branchFits (length ks + 1) \<Longrightarrow>
      \<exists>s' x'. BranchInsertAt A b (int p) k g s = Ok ((), s') \<and>
        wrote repr vw at room other 0 s x
          (set_node i (\<lambda>v. v\<lparr>content := Children (insertNth p k ks) (insertNth (p + 1) g ps)\<rparr>) (vw x)) s' x'"
    and branch_cut: "repr s x \<Longrightarrow> at s (BranchNode b) i \<Longrightarrow> nodeOf (vw x) i = Some v \<Longrightarrow>
      content v = Children ks ps \<Longrightarrow> length ps = length ks + 1 \<Longrightarrow> 0 < p \<Longrightarrow> p \<le> length ks \<Longrightarrow>
      \<exists>s' x'. BranchDeleteFrom A b (int p) s = Ok (drop p (entries_of ks ps), s') \<and>
        wrote repr vw at room other 0 s x
          (set_node i (\<lambda>v. v\<lparr>content := Children (take p ks) (take (p + 1) ps)\<rparr>) (vw x)) s' x'"
    and create_leaf: "repr s x \<Longrightarrow> room x (Suc 0) \<Longrightarrow>
      \<exists>l i s' x'. CreateLeaf A s = Ok (l, s') \<and>
        wrote repr vw at room other 1 s x (new_node i (Entries []) (vw x)) s' x' \<and>
        at s' (LeafNode l) i \<and> nodeOf (vw x) i = None \<and> i \<noteq> 0"
    and create_branch: "repr s x \<Longrightarrow> room x (Suc 0) \<Longrightarrow>
      \<exists>b i s' x'. CreateBranch A en s = Ok (b, s') \<and>
        wrote repr vw at room other 1 s x
          (new_node i (Children [beKey en] [LowerThanKeyNodeID en, GreaterThanOrEqualToKeyNodeID en]) (vw x)) s' x' \<and>
        at s' (BranchNode b) i \<and> nodeOf (vw x) i = None \<and> i \<noteq> 0"
    and set_root: "repr s x \<Longrightarrow> at s h i \<Longrightarrow> nodeOf (vw x) i = Some v \<Longrightarrow>
      \<exists>s' x'. SetRoot A h s = Ok ((), s') \<and>
        wrote repr vw at room other 0 s x ((set_node i (\<lambda>v. v\<lparr>up := 0\<rparr>) (vw x))\<lparr>rootOf := Some i\<rparr>) s' x'"
    and init_root: "repr s x \<Longrightarrow> rootOf (vw x) = None \<Longrightarrow> room x (Suc 0) \<Longrightarrow>
      \<exists>l i s' x'. InitRoot A s = Ok (l, s') \<and>
        wrote repr vw at room other 1 s x
          ((new_node i (Entries []) (vw x))\<lparr>rootOf := Some i, firstOf := i\<rparr>) s' x' \<and>
        at s' (LeafNode l) i \<and> nodeOf (vw x) i = None \<and> i \<noteq> 0"
    and left_id: "repr s x \<Longrightarrow> at s h i \<Longrightarrow> nodeOf (vw x) i = Some v \<Longrightarrow> LeftSiblingID A h s = Ok (lft v, s)"

section \<open>The nodes and the handles at a state\<close>

context node_store begin

definition holds :: "'x \<Rightarrow> nat \<Rightarrow> 's \<Rightarrow> 'i heapView \<Rightarrow> (('l, 'b) node \<times> u16) set \<Rightarrow> bool" where
  "holds x0 k s H hs \<longleftrightarrow> (\<exists>x. repr s x \<and> vw x = H \<and> (\<forall>(h, i) \<in> hs. at s h i) \<and> other x0 x \<and>
     (\<forall>n. room x0 (n + k) \<longrightarrow> room x n))"

lemma holdsE:
  assumes "holds x0 k s H hs"
  obtains x where "repr s x" "vw x = H" "\<forall>h i. (h, i) \<in> hs \<longrightarrow> at s h i" "other x0 x"
    "\<forall>n. room x0 (n + k) \<longrightarrow> room x n"
  using assms by (auto simp: holds_def)

lemma holds_mono: "holds x0 k s H hs \<Longrightarrow> gs \<subseteq> hs \<Longrightarrow> holds x0 k s H gs"
  unfolding holds_def by fast

lemma holds_start:
  assumes "repr s x" "\<And>h i. (h, i) \<in> hs \<Longrightarrow> at s h i"
  shows "holds x 0 s (vw x) hs"
  unfolding holds_def using assms other_refl by auto

lemma lift:
  assumes "holds x0 k s H hs"
    "\<And>x. repr s x \<Longrightarrow> vw x = H \<Longrightarrow> \<forall>h i. (h, i) \<in> hs \<longrightarrow> at s h i \<Longrightarrow> \<forall>n. room x0 (n + k) \<longrightarrow> room x n \<Longrightarrow>
      \<exists>s' x'. m s = Ok (r, s') \<and> wrote repr vw at room other 0 s x H' s' x'"
  shows "\<exists>s'. m s = Ok (r, s') \<and> holds x0 k s' H' hs"
proof -
  from assms(1) obtain x where x: "repr s x" "vw x = H" "\<forall>h i. (h, i) \<in> hs \<longrightarrow> at s h i" "other x0 x"
    "\<forall>n. room x0 (n + k) \<longrightarrow> room x n" by (rule holdsE)
  from assms(2) [OF x(1,2,3,5)] obtain s' x' where
    w: "m s = Ok (r, s')" "wrote repr vw at room other 0 s x H' s' x'" by blast
  then have "holds x0 k s' H' hs"
    using x(3,5) other_trans [OF x(4)] unfolding holds_def by (intro exI [of _ x']) (auto simp: wrote_def)
  with w(1) show ?thesis by blast
qed

text \<open>A step that gives a handle.\<close>

lemma lift_new:
  assumes "holds x0 k s H hs"
    "\<And>x. repr s x \<Longrightarrow> vw x = H \<Longrightarrow> \<forall>h i. (h, i) \<in> hs \<longrightarrow> at s h i \<Longrightarrow> \<forall>n. room x0 (n + k) \<longrightarrow> room x n \<Longrightarrow>
      \<exists>r i s' x'. m s = Ok (f r, s') \<and> wrote repr vw at room other j s x (F i) s' x' \<and> at s' (g r) i \<and> P i"
  shows "\<exists>r i s'. m s = Ok (f r, s') \<and> P i \<and> holds x0 (k + j) s' (F i) (insert (g r, i) hs)"
proof -
  from assms(1) obtain x where x: "repr s x" "vw x = H" "\<forall>h i. (h, i) \<in> hs \<longrightarrow> at s h i" "other x0 x"
    "\<forall>n. room x0 (n + k) \<longrightarrow> room x n" by (rule holdsE)
  from assms(2) [OF x(1,2,3,5)] obtain r i s' x' where
    w: "m s = Ok (f r, s')" "wrote repr vw at room other j s x (F i) s' x'" "at s' (g r) i" "P i" by blast
  have "room x' n" if "room x0 (n + (k + j))" for n
    using spec [OF x(5), of "n + j"] that w(2) by (simp add: wrote_def ac_simps)
  with w x(3) other_trans [OF x(4)] have "holds x0 (k + j) s' (F i) (insert (g r, i) hs)"
    unfolding holds_def by (intro exI [of _ x']) (auto simp: wrote_def)
  with w show ?thesis by blast
qed

subsection \<open>Reading\<close>

lemma NodeID_Ok: "holds x0 k s H hs \<Longrightarrow> (h, i) \<in> hs \<Longrightarrow> nodeOf H i = Some v \<Longrightarrow> NodeID A h s = Ok (i, s)"
  by (elim holdsE) (auto intro: node_id)

lemma ParentID_Ok: "holds x0 k s H hs \<Longrightarrow> (h, i) \<in> hs \<Longrightarrow> nodeOf H i = Some v \<Longrightarrow> ParentID A h s = Ok (up v, s)"
  by (elim holdsE) (auto intro: parent_id)

lemma RightSiblingID_Ok:
  "holds x0 k s H hs \<Longrightarrow> (h, i) \<in> hs \<Longrightarrow> nodeOf H i = Some v \<Longrightarrow> RightSiblingID A h s = Ok (rgt v, s)"
  by (elim holdsE) (auto intro: right_id)

lemma LeftSiblingID_Ok:
  "holds x0 k s H hs \<Longrightarrow> (h, i) \<in> hs \<Longrightarrow> nodeOf H i = Some v \<Longrightarrow> LeftSiblingID A h s = Ok (lft v, s)"
  by (elim holdsE) (auto intro: left_id)

lemma IsRoot_Ok:
  "holds x0 k s H hs \<Longrightarrow> (h, i) \<in> hs \<Longrightarrow> nodeOf H i = Some v \<Longrightarrow> (up v = 0 \<longleftrightarrow> rootOf H = Some i) \<Longrightarrow>
    IsRoot A h s = Ok (rootOf H = Some i, s)"
  by (elim holdsE) (auto intro: is_root)

lemma TotalKeys_Ok:
  "holds x0 k s H hs \<Longrightarrow> (h, i) \<in> hs \<Longrightarrow> nodeOf H i = Some v \<Longrightarrow>
    TotalKeys A h s = Ok (int (length (keysOf (content v))), s)"
  by (elim holdsE) (auto intro: total_keys)

lemma KeyAt_Ok:
  "holds x0 k s H hs \<Longrightarrow> (h, i) \<in> hs \<Longrightarrow> nodeOf H i = Some v \<Longrightarrow> p < length (keysOf (content v)) \<Longrightarrow>
    KeyAt A h (int p) s = Ok (keysOf (content v) ! p, s)"
  by (elim holdsE) (auto intro: key_at)

lemma EntryAt_Ok:
  "holds x0 k s H hs \<Longrightarrow> (BranchNode b, i) \<in> hs \<Longrightarrow> nodeOf H i = Some v \<Longrightarrow> content v = Children ks ps \<Longrightarrow>
    p < length ks \<Longrightarrow> EntryAt A b (int p) s = Ok (entry_of ks ps p, s)"
  by (elim holdsE) (auto intro: entry_at)

lemma BranchNth_Ok:
  "holds x0 k s H hs \<Longrightarrow> (BranchNode b, i) \<in> hs \<Longrightarrow> nodeOf H i = Some v \<Longrightarrow> content v = Children ks ps \<Longrightarrow>
    p < length ks \<Longrightarrow> BranchNth A b p s = Ok (entry_of ks ps p, s)"
  by (elim holdsE) (auto intro: branch_nth)

lemma LoadNode_nil: "holds x0 k s H hs \<Longrightarrow> LoadNode A 0 s = Ok (None, s)"
  by (elim holdsE) (auto intro: load_nil)

lemma LoadNode_Ok:
  assumes "holds x0 k s H hs" "nodeOf H i = Some v"
  shows "\<exists>h s'. LoadNode A i s = Ok (Some h, s') \<and> holds x0 k s' H (insert (h, i) hs)"
proof -
  have "\<exists>h j s'. LoadNode A i s = Ok (Some h, s') \<and> j = i \<and> holds x0 (k + 0) s' H (insert (h, j) hs)"
  proof (rule lift_new [OF assms(1)])
    fix x assume "repr s x" "vw x = H"
    with load_keeps [of s x i v] assms(2)
    show "\<exists>h j s' x'. LoadNode A i s = Ok (Some h, s') \<and> wrote repr vw at room other 0 s x H s' x' \<and> at s' h j \<and> j = i"
      by blast
  qed
  then show ?thesis by auto
qed

lemma LoadBranch_Ok:
  assumes "holds x0 k s H hs" "nodeOf H i = Some v" "content v = Children ks ps"
  shows "\<exists>b s'. LoadBranch A i s = Ok (Some b, s') \<and> holds x0 k s' H (insert (BranchNode b, i) hs)"
proof -
  have "\<exists>b j s'. LoadBranch A i s = Ok (Some b, s') \<and> j = i \<and> holds x0 (k + 0) s' H (insert (BranchNode b, j) hs)"
  proof (rule lift_new [OF assms(1), where g = BranchNode])
    fix x assume "repr s x" "vw x = H"
    with load_branch [of s x i v ks ps] assms(2,3)
    show "\<exists>b j s' x'. LoadBranch A i s = Ok (Some b, s') \<and> wrote repr vw at room other 0 s x H s' x' \<and>
      at s' (BranchNode b) j \<and> j = i" by blast
  qed
  then show ?thesis by auto
qed

lemma LeafNth_Ok:
  "holds x0 k s H hs \<Longrightarrow> (LeafNode l, i) \<in> hs \<Longrightarrow> nodeOf H i = Some v \<Longrightarrow> content v = Entries es \<Longrightarrow>
    p < length es \<Longrightarrow> LeafNth A l p s = Ok (es ! p, s)"
  by (elim holdsE) (auto intro: leaf_nth)

lemma LoadLeaf_nil: "holds x0 k s H hs \<Longrightarrow> LoadLeaf A 0 s = Ok (None, s)"
  by (elim holdsE) (auto intro: load_leaf_nil)

lemma LoadLeaf_Ok:
  assumes "holds x0 k s H hs" "nodeOf H i = Some v" "content v = Entries es"
  shows "\<exists>l s'. LoadLeaf A i s = Ok (Some l, s') \<and> holds x0 k s' H (insert (LeafNode l, i) hs)"
proof -
  have "\<exists>l j s'. LoadLeaf A i s = Ok (Some l, s') \<and> j = i \<and> holds x0 (k + 0) s' H (insert (LeafNode l, j) hs)"
  proof (rule lift_new [OF assms(1), where g = LeafNode])
    fix x assume "repr s x" "vw x = H"
    with load_leaf [of s x i v es] assms(2,3)
    show "\<exists>l j s' x'. LoadLeaf A i s = Ok (Some l, s') \<and> wrote repr vw at room other 0 s x H s' x' \<and>
      at s' (LeafNode l) j \<and> j = i" by blast
  qed
  then show ?thesis by auto
qed

lemma LoadFirstLeaf_Ok:
  assumes "holds x0 k s H hs" "nodeOf H (firstOf H) = Some v" "content v = Entries es"
  shows "\<exists>l s'. LoadFirstLeaf A s = Ok (Some l, s') \<and> holds x0 k s' H (insert (LeafNode l, firstOf H) hs)"
proof -
  have "\<exists>l j s'. LoadFirstLeaf A s = Ok (Some l, s') \<and> j = firstOf H \<and> holds x0 (k + 0) s' H (insert (LeafNode l, j) hs)"
  proof (rule lift_new [OF assms(1), where g = LeafNode])
    fix x assume "repr s x" "vw x = H"
    with load_first [of s x v es] assms(2,3)
    show "\<exists>l j s' x'. LoadFirstLeaf A s = Ok (Some l, s') \<and> wrote repr vw at room other 0 s x H s' x' \<and>
      at s' (LeafNode l) j \<and> j = firstOf H" by blast
  qed
  then show ?thesis by auto
qed

lemma kinds:
  assumes "holds x0 k s H hs" "(h, i) \<in> hs" "nodeOf H i = Some v"
  shows "content v = Entries es \<Longrightarrow> \<exists>l. h = LeafNode l" "content v = Children ks ps \<Longrightarrow> \<exists>b. h = BranchNode b"
  using assms by (auto elim!: holdsE intro: kind_leaf kind_branch)

lemma findOnNode_holds:
  assumes "adapter t = A" "holds x0 k s H hs" "(h, i) \<in> hs" "nodeOf H i = Some v" "sorted_wrt (<) (keysOf (content v))"
  shows "findOnNode t h key s = Ok ((int (rank key (keysOf (content v))), key \<in> set (keysOf (content v))), s)"
proof -
  from assms(2) obtain x where "repr s x" "vw x = H" "at s h i" using assms(3) by (auto elim!: holdsE)
  with findOnNode_Ok [OF assms(1), of s x h i v key] assms(4,5) show ?thesis by simp
qed

subsection \<open>Writing\<close>

lemma SetParentID_Ok:
  "holds x0 k s H hs \<Longrightarrow> (h, i) \<in> hs \<Longrightarrow> nodeOf H i = Some v \<Longrightarrow>
    \<exists>s'. SetParentID A h p s = Ok ((), s') \<and> holds x0 k s' (set_node i (\<lambda>v. v\<lparr>up := p\<rparr>) H) hs"
  by (erule lift) (use set_parent in auto)

lemma SetLeftSiblingID_Ok:
  "holds x0 k s H hs \<Longrightarrow> (h, i) \<in> hs \<Longrightarrow> nodeOf H i = Some v \<Longrightarrow>
    \<exists>s'. SetLeftSiblingID A h p s = Ok ((), s') \<and> holds x0 k s' (set_node i (\<lambda>v. v\<lparr>lft := p\<rparr>) H) hs"
  by (erule lift) (use set_left in auto)

lemma SetRightSiblingID_Ok:
  "holds x0 k s H hs \<Longrightarrow> (h, i) \<in> hs \<Longrightarrow> nodeOf H i = Some v \<Longrightarrow>
    \<exists>s'. SetRightSiblingID A h p s = Ok ((), s') \<and> holds x0 k s' (set_node i (\<lambda>v. v\<lparr>rgt := p\<rparr>) H) hs"
  by (erule lift) (use set_right in auto)

lemma LeafInsertAt_Ok:
  "holds x0 k s H hs \<Longrightarrow> (LeafNode l, i) \<in> hs \<Longrightarrow> nodeOf H i = Some v \<Longrightarrow> content v = Entries es \<Longrightarrow>
    p \<le> length es \<Longrightarrow> leafFits (length es + 1) \<Longrightarrow>
    \<exists>s'. LeafInsertAt A l (int p) e s = Ok ((), s') \<and>
      holds x0 k s' (set_node i (\<lambda>v. v\<lparr>content := Entries (insertNth p e es)\<rparr>) H) hs"
  by (erule lift) (use leaf_insert in auto)

lemma LeafDeleteFrom_Ok:
  "holds x0 k s H hs \<Longrightarrow> (LeafNode l, i) \<in> hs \<Longrightarrow> nodeOf H i = Some v \<Longrightarrow> content v = Entries es \<Longrightarrow>
    p \<le> length es \<Longrightarrow>
    \<exists>s'. LeafDeleteFrom A l (int p) s = Ok (drop p es, s') \<and>
      holds x0 k s' (set_node i (\<lambda>v. v\<lparr>content := Entries (take p es)\<rparr>) H) hs"
  by (erule lift) (use leaf_cut in auto)

lemma BranchInsertAt_Ok:
  "holds x0 k s H hs \<Longrightarrow> (BranchNode b, i) \<in> hs \<Longrightarrow> nodeOf H i = Some v \<Longrightarrow> content v = Children ks ps \<Longrightarrow>
    ks \<noteq> [] \<Longrightarrow> length ps = length ks + 1 \<Longrightarrow> p \<le> length ks \<Longrightarrow> branchFits (length ks + 1) \<Longrightarrow>
    \<exists>s'. BranchInsertAt A b (int p) key g s = Ok ((), s') \<and>
      holds x0 k s' (set_node i (\<lambda>v. v\<lparr>content := Children (insertNth p key ks) (insertNth (p + 1) g ps)\<rparr>) H) hs"
  by (erule lift) (use branch_insert in auto)

lemma BranchDeleteFrom_Ok:
  "holds x0 k s H hs \<Longrightarrow> (BranchNode b, i) \<in> hs \<Longrightarrow> nodeOf H i = Some v \<Longrightarrow> content v = Children ks ps \<Longrightarrow>
    length ps = length ks + 1 \<Longrightarrow> 0 < p \<Longrightarrow> p \<le> length ks \<Longrightarrow>
    \<exists>s'. BranchDeleteFrom A b (int p) s = Ok (drop p (entries_of ks ps), s') \<and>
      holds x0 k s' (set_node i (\<lambda>v. v\<lparr>content := Children (take p ks) (take (p + 1) ps)\<rparr>) H) hs"
  by (erule lift) (use branch_cut in auto)

lemma SetRoot_Ok:
  "holds x0 k s H hs \<Longrightarrow> (h, i) \<in> hs \<Longrightarrow> nodeOf H i = Some v \<Longrightarrow>
    \<exists>s'. SetRoot A h s = Ok ((), s') \<and> holds x0 k s' ((set_node i (\<lambda>v. v\<lparr>up := 0\<rparr>) H)\<lparr>rootOf := Some i\<rparr>) hs"
  by (erule lift) (use set_root in auto)

lemma CreateLeaf_Ok:
  assumes "holds x0 k s H hs" "room x0 (Suc k)"
  shows "\<exists>l i s'. CreateLeaf A s = Ok (l, s') \<and> (nodeOf H i = None \<and> i \<noteq> 0) \<and>
    holds x0 (k + 1) s' (new_node i (Entries []) H) (insert (LeafNode l, i) hs)"
proof (rule lift_new [OF assms(1), where g = LeafNode])
  fix x assume x: "repr s x" "vw x = H" "\<forall>n. room x0 (n + k) \<longrightarrow> room x n"
  from create_leaf [OF x(1)] x(2) spec [OF x(3), of "Suc 0"] assms(2)
  show "\<exists>r i s' x'. CreateLeaf A s = Ok (r, s') \<and> wrote repr vw at room other 1 s x (new_node i (Entries []) H) s' x' \<and>
    at s' (LeafNode r) i \<and> nodeOf H i = None \<and> i \<noteq> 0" by auto
qed

lemma CreateBranch_Ok:
  assumes "holds x0 k s H hs" "room x0 (Suc k)"
  shows "\<exists>b i s'. CreateBranch A e s = Ok (b, s') \<and> (nodeOf H i = None \<and> i \<noteq> 0) \<and>
    holds x0 (k + 1) s' (new_node i (Children [beKey e] [LowerThanKeyNodeID e, GreaterThanOrEqualToKeyNodeID e]) H)
      (insert (BranchNode b, i) hs)"
proof (rule lift_new [OF assms(1), where g = BranchNode])
  fix x assume x: "repr s x" "vw x = H" "\<forall>n. room x0 (n + k) \<longrightarrow> room x n"
  from create_branch [OF x(1), of e] x(2) spec [OF x(3), of "Suc 0"] assms(2)
  show "\<exists>r i s' x'. CreateBranch A e s = Ok (r, s') \<and> wrote repr vw at room other 1 s x
      (new_node i (Children [beKey e] [LowerThanKeyNodeID e, GreaterThanOrEqualToKeyNodeID e]) H) s' x' \<and>
    at s' (BranchNode r) i \<and> nodeOf H i = None \<and> i \<noteq> 0" by auto
qed

lemma InitRoot_Ok:
  assumes "holds x0 k s H hs" "rootOf H = None" "room x0 (Suc k)"
  shows "\<exists>l i s'. InitRoot A s = Ok (l, s') \<and> (nodeOf H i = None \<and> i \<noteq> 0) \<and>
    holds x0 (k + 1) s' ((new_node i (Entries []) H)\<lparr>rootOf := Some i, firstOf := i\<rparr>) (insert (LeafNode l, i) hs)"
proof (rule lift_new [OF assms(1), where g = LeafNode])
  fix x assume x: "repr s x" "vw x = H" "\<forall>n. room x0 (n + k) \<longrightarrow> room x n"
  from init_root [OF x(1)] x(2) spec [OF x(3), of "Suc 0"] assms(2,3)
  show "\<exists>r i s' x'. InitRoot A s = Ok (r, s') \<and> wrote repr vw at room other 1 s x
      ((new_node i (Entries []) H)\<lparr>rootOf := Some i, firstOf := i\<rparr>) s' x' \<and>
    at s' (LeafNode r) i \<and> nodeOf H i = None \<and> i \<noteq> 0" by auto
qed

end

end
