(* ===== verification/TreeSplit.thy ===== *)
theory TreeSplit
  imports TreeStore
begin

text \<open>
  Splitting full nodes: what \<open>leafSplit\<close> and \<open>branchSplit\<close> of the tree, with the functions that they
  call, do to the nodes of an adapter.
\<close>

lemma heap_eqI:
  assumes "rootOf H = rootOf (H' :: 'i heapView)" "firstOf H = firstOf H'" "\<And>i. nodeOf H i = nodeOf H' i"
  shows "H = H'"
  using assms by (intro heapView.equality) auto

lemma split_insertNth_left:
  assumes "p < m" "p \<le> length xs"
  shows "take m (insertNth p x xs) = insertNth p x (take (m - 1) xs)" "drop m (insertNth p x xs) = drop (m - 1) xs"
proof -
  obtain j where m: "m = Suc (p + j)" using assms(1) by (metis less_imp_Suc_add)
  show "take m (insertNth p x xs) = insertNth p x (take (m - 1) xs)" "drop m (insertNth p x xs) = drop (m - 1) xs"
    using assms(2) by (simp_all add: m insertNth_def min_def drop_take add.commute)
qed

lemma split_insertNth_right:
  assumes "m \<le> p" "p \<le> length xs"
  shows "take m (insertNth p x xs) = take m xs" "drop m (insertNth p x xs) = insertNth (p - m) x (drop m xs)"
  using assms by (simp_all add: insertNth_def min_def drop_take)

lemma drop_entries_of:
  assumes "m < length ks" "length ps = length ks + 1"
  shows "drop m (entries_of ks ps) = entry_of ks ps m # drop (m + 1) (entries_of ks ps)"
    "map beKey (drop m (entries_of ks ps)) = drop m ks"
    "map GreaterThanOrEqualToKeyNodeID (drop m (entries_of ks ps)) = drop (m + 1) ps"
proof -
  show "drop m (entries_of ks ps) = entry_of ks ps m # drop (m + 1) (entries_of ks ps)"
    using assms by (simp flip: Cons_nth_drop_Suc)
  show "map beKey (drop m (entries_of ks ps)) = drop m ks"
    using assms by (intro nth_equalityI) simp_all
  show "map GreaterThanOrEqualToKeyNodeID (drop m (entries_of ks ps)) = drop (m + 1) ps"
    using assms by (intro nth_equalityI) simp_all
qed

lemma sized_mono: "sized lc bc t \<Longrightarrow> bc \<le> bc' \<Longrightarrow> sized lc bc' t"
  by (induction lc bc t rule: sized.induct) auto

lemma sized_inorder: "sized lc bc t \<Longrightarrow> inorder t \<noteq> []"
proof (induction t)
  case (Branchy i ks ts)
  then show ?case by (cases ts) auto
qed simp

lemma body_SomeD:
  assumes "map_option body (nodeOf H' j) = map_option body (nodeOf H j)" "nodeOf H j = Some v"
  shows "\<exists>v'. nodeOf H' j = Some v' \<and> content v' = content v \<and> up v' = up v"
  using assms by (auto simp: body_def)

section \<open>Pieces of the code\<close>

text \<open>Children that change their parent.\<close>

definition adopt :: "u16 list \<Rightarrow> u16 \<Rightarrow> 'i heapView \<Rightarrow> 'i heapView" where
  "adopt cs p H = foldl (\<lambda>H c. set_node c (\<lambda>v. v\<lparr>up := p\<rparr>) H) H cs"

lemma adopt_simps [simp]:
  "adopt [] p H = H" "adopt (c # cs) p H = adopt cs p (set_node c (\<lambda>v. v\<lparr>up := p\<rparr>) H)"
  "rootOf (adopt cs p H) = rootOf H" "firstOf (adopt cs p H) = firstOf H"
  by (simp_all add: adopt_def) (induction cs arbitrary: H; simp add: adopt_def)+

lemma nodeOf_adopt [simp]:
  "nodeOf (adopt cs p H) j = (if j \<in> set cs then map_option (\<lambda>v. v\<lparr>up := p\<rparr>) (nodeOf H j) else nodeOf H j)"
  by (induction cs arbitrary: H) (auto simp: option.map_comp comp_def)

lemma adopt_append: "adopt (cs @ ds) p H = adopt ds p (adopt cs p H)"
  by (simp add: adopt_def)

context node_store begin

lemma setSiblings_Ok:
  assumes "adapter t = A" "holds x0 k s H hs" "(hp, p) \<in> hs" "(hr, r) \<in> hs" "p \<noteq> r"
    "nodeOf H p = Some v" "nodeOf H r = Some w" "rgt v = 0 \<or> nodeOf H (rgt v) \<noteq> None"
  shows "\<exists>s'. setSiblings t hp hr s = Ok ((), s') \<and> holds x0 k s' (link p r H) hs"
proof -
  let ?H = "if rgt v = 0 then H else set_node r (\<lambda>u. u\<lparr>rgt := rgt v\<rparr>) (set_node (rgt v) (\<lambda>u. u\<lparr>lft := r\<rparr>) H)"
  have old: "\<exists>s'. (bind (LoadNode A (rgt v)) (\<lambda>oldRight. case oldRight of
             Some old \<Rightarrow>
               bind (NodeID A hr) (\<lambda>nid. seq (SetLeftSiblingID A old nid)
              (bind (NodeID A old) (\<lambda>oldID. SetRightSiblingID A hr oldID)))
           | None \<Rightarrow> ret ())) s = Ok ((), s') \<and> holds x0 k s' ?H hs"
  proof (cases "rgt v = 0")
    case True
    with LoadNode_nil [OF assms(2)] assms(2) show ?thesis by (simp add: bind_def)
  next
    case False
    with assms(8) obtain u where u: "nodeOf H (rgt v) = Some u" by blast
    from LoadNode_Ok [OF assms(2) u] obtain h s1 where
      s1: "LoadNode A (rgt v) s = Ok (Some h, s1)" "holds x0 k s1 H (insert (h, rgt v) hs)" by blast
    have n1: "NodeID A hr s1 = Ok (r, s1)" using NodeID_Ok [OF s1(2) _ assms(7)] assms(4) by simp
    from SetLeftSiblingID_Ok [OF s1(2) insertI1 u, of r] obtain s2 where
      s2: "SetLeftSiblingID A h r s1 = Ok ((), s2)"
      "holds x0 k s2 (set_node (rgt v) (\<lambda>u. u\<lparr>lft := r\<rparr>) H) (insert (h, rgt v) hs)" by blast
    have n2: "NodeID A h s2 = Ok (rgt v, s2)" using NodeID_Ok [OF s2(2) insertI1] u by simp
    have "\<exists>w'. nodeOf (set_node (rgt v) (\<lambda>u. u\<lparr>lft := r\<rparr>) H) r = Some w'" using assms(7) by auto
    with SetRightSiblingID_Ok [OF s2(2), of hr r _ "rgt v"] assms(4) obtain s3 where
      s3: "SetRightSiblingID A hr (rgt v) s2 = Ok ((), s3)"
      "holds x0 k s3 (set_node r (\<lambda>u. u\<lparr>rgt := rgt v\<rparr>) (set_node (rgt v) (\<lambda>u. u\<lparr>lft := r\<rparr>) H)) (insert (h, rgt v) hs)"
      by blast
    from holds_mono [OF s3(2), of hs] False s1(1) n1 s2(1) n2 s3(1) show ?thesis
      by (auto simp: bind_def seq_def)
  qed
  then obtain s1 where s1: "(bind (LoadNode A (rgt v)) (\<lambda>oldRight. case oldRight of
             Some old \<Rightarrow>
               bind (NodeID A hr) (\<lambda>nid. seq (SetLeftSiblingID A old nid)
              (bind (NodeID A old) (\<lambda>oldID. SetRightSiblingID A hr oldID)))
           | None \<Rightarrow> ret ())) s = Ok ((), s1)" "holds x0 k s1 ?H hs" by blast
  have p: "\<exists>u. nodeOf ?H p = Some u" and r: "\<exists>u. nodeOf ?H r = Some u"
    using assms(6,7) by auto
  have n1: "NodeID A hr s1 = Ok (r, s1)" using r NodeID_Ok [OF s1(2) assms(4)] by blast
  from SetRightSiblingID_Ok [OF s1(2) assms(3), of _ r] p obtain s2 where
    s2: "SetRightSiblingID A hp r s1 = Ok ((), s2)" "holds x0 k s2 (set_node p (\<lambda>u. u\<lparr>rgt := r\<rparr>) ?H) hs" by blast
  have n2: "NodeID A hp s2 = Ok (p, s2)" using NodeID_Ok [OF s2(2) assms(3)] p by auto
  have "\<exists>u. nodeOf (set_node p (\<lambda>u. u\<lparr>rgt := r\<rparr>) ?H) r = Some u" using r assms(5) by auto
  with SetLeftSiblingID_Ok [OF s2(2) assms(4), of _ p] obtain s3 where
    s3: "SetLeftSiblingID A hr p s2 = Ok ((), s3)"
    "holds x0 k s3 (set_node r (\<lambda>u. u\<lparr>lft := p\<rparr>) (set_node p (\<lambda>u. u\<lparr>rgt := r\<rparr>) ?H)) hs"
    by blast
  have "right_of H p = rgt v" using assms(6) by (simp add: right_of_def)
  then have "link p r H = set_node r (\<lambda>u. u\<lparr>lft := p\<rparr>) (set_node p (\<lambda>u. u\<lparr>rgt := r\<rparr>) ?H)"
    by (simp add: link_def Let_def)
  moreover have "setSiblings t hp hr s = Ok ((), s3)"
    using RightSiblingID_Ok [OF assms(2,3,6)] s1(1) n1 s2(1) n2 s3(1)
    by (auto simp: setSiblings_def Let_def assms(1) bind_def seq_def split: outcome.splits option.splits)
  ultimately show ?thesis using s3(2) by auto
qed

lemma insertEntries_Ok:
  assumes "holds x0 k s H hs" "(LeafNode l, i) \<in> hs" "nodeOf H i = Some v" "content v = Entries fs"
    "\<And>n. n \<le> length fs + length es \<Longrightarrow> leafFits n"
  shows "\<exists>s'. insertEntries A l (int (length fs)) es s = Ok ((), s') \<and>
    holds x0 k s' (set_node i (\<lambda>v. v\<lparr>content := Entries (fs @ es)\<rparr>) H) hs"
  using assms
proof (induction es arbitrary: s H v fs)
  case Nil
  have "set_node i (\<lambda>v. v\<lparr>content := Entries fs\<rparr>) H = H"
    using Nil by (intro heap_eqI) auto
  with Nil show ?case by simp
next
  case (Cons e es)
  from LeafInsertAt_Ok [OF Cons.prems(1-4), of "length fs" e] Cons.prems(5) obtain s1 where
    s1: "LeafInsertAt A l (int (length fs)) e s = Ok ((), s1)"
      "holds x0 k s1 (set_node i (\<lambda>v. v\<lparr>content := Entries (fs @ [e])\<rparr>) H) hs"
    by (auto simp: insertNth_end)
  from Cons.IH [OF s1(2) Cons.prems(2), of _ "fs @ [e]"] Cons.prems(3,5) obtain s2 where
    s2: "insertEntries A l (int (length (fs @ [e]))) es s1 = Ok ((), s2)"
      "holds x0 k s2 (set_node i (\<lambda>v. v\<lparr>content := Entries ((fs @ [e]) @ es)\<rparr>)
        (set_node i (\<lambda>v. v\<lparr>content := Entries (fs @ [e])\<rparr>) H)) hs" by auto
  have "set_node i (\<lambda>v. v\<lparr>content := Entries ((fs @ [e]) @ es)\<rparr>) (set_node i (\<lambda>v. v\<lparr>content := Entries (fs @ [e])\<rparr>) H) =
      set_node i (\<lambda>v. v\<lparr>content := Entries (fs @ e # es)\<rparr>) H"
    using Cons.prems(3) by (intro heap_eqI) auto
  with s2(2) have "holds x0 k s2 (set_node i (\<lambda>v. v\<lparr>content := Entries (fs @ e # es)\<rparr>) H) hs" by simp
  then show ?case using s1(1) s2(1) by (auto simp: seq_def bind_def add.commute)
qed

text \<open>The middle of a full leaf that takes in an entry.\<close>

lemma leafSplit_Ok:
  assumes "adapter t = A" "holds x0 k s H hs" "(LeafNode l, i) \<in> hs" "nodeOf H i = Some v" "content v = Entries es"
    "pos \<le> length es" "halfLeafCapacity t = int h" "0 < h" "h < length es + 1" "room x0 (Suc k)"
    "\<And>n. n \<le> length es \<Longrightarrow> leafFits n" "rgt v = 0 \<or> nodeOf H (rgt v) \<noteq> None"
  shows "\<exists>rl r s'. leafSplit t l (int pos) e s = Ok (rl, s') \<and> nodeOf H r = None \<and> r \<noteq> 0 \<and>
    holds x0 (Suc k) s'
      (link i r (set_node i (\<lambda>v. v\<lparr>content := Entries (take h (insertNth pos e es))\<rparr>)
        (new_node r (Entries (drop h (insertNth pos e es))) H))) (insert (LeafNode rl, r) hs)"
proof -
  let ?sf = "if pos < h then h - 1 else h"
  have sf: "?sf \<le> length es" "(if int pos < int h then int h - 1 else int h) = int ?sf" using assms(8,9) by auto
  from LeafDeleteFrom_Ok [OF assms(2-5) sf(1)] obtain s1 where
    s1: "LeafDeleteFrom A l (int ?sf) s = Ok (drop ?sf es, s1)"
      "holds x0 k s1 (set_node i (\<lambda>v. v\<lparr>content := Entries (take ?sf es)\<rparr>) H) hs" by blast
  let ?H1 = "set_node i (\<lambda>v. v\<lparr>content := Entries (take ?sf es)\<rparr>) H"
  from CreateLeaf_Ok [OF s1(2) assms(10)] obtain rl r s2 where
    s2: "CreateLeaf A s1 = Ok (rl, s2)" "nodeOf ?H1 r = None" "r \<noteq> 0"
      "holds x0 (Suc k) s2 (new_node r (Entries []) ?H1) (insert (LeafNode rl, r) hs)" by auto
  have ri: "r \<noteq> i" "nodeOf H r = None" using s2(2) assms(4) by (auto split: if_splits)
  let ?hs = "insert (LeafNode rl, r) hs"
  from insertEntries_Ok [OF s2(4) insertI1, of _ "[]" "drop ?sf es"] assms(11) obtain s3 where
    s3: "insertEntries A rl 0 (drop ?sf es) s2 = Ok ((), s3)"
      "holds x0 (Suc k) s3 (set_node r (\<lambda>v. v\<lparr>content := Entries (drop ?sf es)\<rparr>) (new_node r (Entries []) ?H1)) ?hs"
    by auto
  let ?H3 = "set_node r (\<lambda>v. v\<lparr>content := Entries (drop ?sf es)\<rparr>) (new_node r (Entries []) ?H1)"
  let ?es = "insertNth pos e es"
  let ?H4 = "set_node i (\<lambda>v. v\<lparr>content := Entries (take h ?es)\<rparr>) (new_node r (Entries (drop h ?es)) H)"
  have "\<exists>s4. (if int pos < int h then LeafInsertAt A l (int pos) e else LeafInsertAt A rl (int pos - int h) e) s3 =
      Ok ((), s4) \<and> holds x0 (Suc k) s4 ?H4 ?hs"
  proof (cases "pos < h")
    case True
    have i: "nodeOf ?H3 i = Some (v\<lparr>content := Entries (take (h - 1) es)\<rparr>)" using assms(4) ri(1) True by simp
    have p: "pos \<le> length (take (h - 1) es)" using True assms(6) by simp
    have len: "length (take (h - 1) es) + 1 \<le> length es" using assms(8,9) by simp
    from LeafInsertAt_Ok [OF s3(2) _ i _ p assms(11) [OF len], of l e] assms(3) obtain s4 where
      s4: "LeafInsertAt A l (int pos) e s3 = Ok ((), s4)"
        "holds x0 (Suc k) s4 (set_node i (\<lambda>v. v\<lparr>content := Entries (insertNth pos e (take (h - 1) es))\<rparr>) ?H3) ?hs"
      by auto
    have "insertNth pos e (take (h - 1) es) = take h ?es" "drop (h - 1) es = drop h ?es"
      using split_insertNth_left [OF True assms(6), of e] by simp_all
    then have "set_node i (\<lambda>v. v\<lparr>content := Entries (insertNth pos e (take (h - 1) es))\<rparr>) ?H3 = ?H4"
      using True ri assms(4) by (intro heap_eqI) auto
    with s4 True show ?thesis by auto
  next
    case False
    have i: "nodeOf ?H3 r = Some \<lparr>content = Entries (drop h es), up = 0, lft = 0, rgt = 0\<rparr>" using False by simp
    have p: "pos - h \<le> length (drop h es)" using False assms(6) by simp
    have len: "length (drop h es) + 1 \<le> length es" using assms(8,9) by simp
    from LeafInsertAt_Ok [OF s3(2) insertI1 i _ p assms(11) [OF len], of e] obtain s4 where
      s4: "LeafInsertAt A rl (int (pos - h)) e s3 = Ok ((), s4)"
        "holds x0 (Suc k) s4 (set_node r (\<lambda>v. v\<lparr>content := Entries (insertNth (pos - h) e (drop h es))\<rparr>) ?H3) ?hs"
      by auto
    have "take h es = take h ?es" "insertNth (pos - h) e (drop h es) = drop h ?es"
      using split_insertNth_right [of h pos es e] False assms(6) by simp_all
    then have "set_node r (\<lambda>v. v\<lparr>content := Entries (insertNth (pos - h) e (drop h es))\<rparr>) ?H3 = ?H4"
      using False ri assms(4) by (intro heap_eqI) auto
    with s4 False show ?thesis by (auto simp: of_nat_diff)
  qed
  then obtain s4 where s4: "(if int pos < int h then LeafInsertAt A l (int pos) e
      else LeafInsertAt A rl (int pos - int h) e) s3 = Ok ((), s4)" "holds x0 (Suc k) s4 ?H4 ?hs" by blast
  let ?v = "v\<lparr>content := Entries (take h ?es)\<rparr>"
  have n: "nodeOf ?H4 i = Some ?v" "nodeOf ?H4 r = Some \<lparr>content = Entries (drop h ?es), up = 0, lft = 0, rgt = 0\<rparr>"
    "rgt ?v = 0 \<or> nodeOf ?H4 (rgt ?v) \<noteq> None" "(LeafNode l, i) \<in> ?hs"
    using assms(3,4,12) ri(1) by auto
  from setSiblings_Ok [OF assms(1) s4(2) n(4) insertI1 ri(1) [symmetric] n(1-3)] obtain s5 where
    s5: "setSiblings t (LeafNode l) (LeafNode rl) s4 = Ok ((), s5)" "holds x0 (Suc k) s5 (link i r ?H4) ?hs" by blast
  have "leafSplit t l (int pos) e s = Ok (rl, s5)"
    using s1(1) s2(1) s3(1) s4(1) s5(1) sf(2) assms(1,7)
    by (cases "pos < h") (simp_all add: leafSplit_def Let_def bind_def seq_def)
  with s5(2) ri(2) s2(3) show ?thesis by blast
qed

text \<open>Children with a new parent: the iterator of the code.\<close>

definition adoptEach :: "('s, 'l, 'b, 'i) bPlusTree \<Rightarrow> 'b \<Rightarrow> unit \<Rightarrow> BranchEntry \<Rightarrow> ('s, unit) prog" where
  "adoptEach t b = (\<lambda>_ entry. bind (NodeID A (BranchNode b)) (updateParentID t (GreaterThanOrEqualToKeyNodeID entry)))"

lemma updateParentID_Ok:
  assumes "adapter t = A" "holds x0 k s H hs" "nodeOf H c = Some w"
  shows "\<exists>s'. updateParentID t c p s = Ok ((), s') \<and> holds x0 k s' (set_node c (\<lambda>v. v\<lparr>up := p\<rparr>) H) hs"
proof -
  from LoadNode_Ok [OF assms(2,3)] obtain h s1 where
    s1: "LoadNode A c s = Ok (Some h, s1)" "holds x0 k s1 H (insert (h, c) hs)" by blast
  from SetParentID_Ok [OF s1(2) insertI1 assms(3), of p] obtain s2 where
    s2: "SetParentID A h p s1 = Ok ((), s2)" "holds x0 k s2 (set_node c (\<lambda>v. v\<lparr>up := p\<rparr>) H) (insert (h, c) hs)" by blast
  from holds_mono [OF s2(2), of hs] s1(1) s2(1) show ?thesis
    by (auto simp: updateParentID_def assms(1) bind_def)
qed

lemma adopt_loop:
  assumes "adapter t = A" "holds x0 k s H hs" "(BranchNode b, r) \<in> hs" "nodeOf H r = Some v"
    "content v = Children ks ps" "length ps = length ks + 1" "\<forall>c \<in> set ps. nodeOf H c \<noteq> None"
    "\<forall>i \<in> set is. i < length ks"
  shows "\<exists>s'. iterate (BranchNth A b) is
      (adoptEach t b) () s = Ok ((), s') \<and>
    holds x0 k s' (adopt (map (\<lambda>i. ps ! (i + 1)) is) r H) hs"
  using assms(2,4,5,7,8)
proof (induction "is" arbitrary: s H v)
  case (Cons i "is")
  have n: "BranchNth A b i s = Ok (entry_of ks ps i, s)" "NodeID A (BranchNode b) s = Ok (r, s)"
    using BranchNth_Ok [OF Cons.prems(1) assms(3) Cons.prems(2,3)] NodeID_Ok [OF Cons.prems(1) assms(3) Cons.prems(2)]
      Cons.prems(5) by auto
  have "ps ! (i + 1) \<in> set ps" using Cons.prems(5) assms(6) by simp
  with Cons.prems(4) obtain w where w: "nodeOf H (ps ! (i + 1)) = Some w" by blast
  from updateParentID_Ok [OF assms(1) Cons.prems(1) w] obtain s1 where
    s1: "updateParentID t (ps ! (i + 1)) r s = Ok ((), s1)"
      "holds x0 k s1 (set_node (ps ! (i + 1)) (\<lambda>v. v\<lparr>up := r\<rparr>) H) hs" by blast
  have "\<exists>v'. nodeOf (set_node (ps ! (i + 1)) (\<lambda>v. v\<lparr>up := r\<rparr>) H) r = Some v' \<and> content v' = Children ks ps"
    using Cons.prems(2,3) by auto
  then obtain v' where "nodeOf (set_node (ps ! (i + 1)) (\<lambda>v. v\<lparr>up := r\<rparr>) H) r = Some v'" "content v' = Children ks ps"
    by blast
  moreover have "\<forall>c \<in> set ps. nodeOf (set_node (ps ! (i + 1)) (\<lambda>v. v\<lparr>up := r\<rparr>) H) c \<noteq> None"
    using Cons.prems(4) by auto
  moreover have "\<forall>i \<in> set is. i < length ks" using Cons.prems(5) by simp
  ultimately obtain s2 where
    "iterate (BranchNth A b) is
      (adoptEach t b) () s1 = Ok ((), s2)"
    "holds x0 k s2 (adopt (map (\<lambda>i. ps ! (i + 1)) is) r (set_node (ps ! (i + 1)) (\<lambda>v. v\<lparr>up := r\<rparr>) H)) hs"
    using Cons.IH [OF s1(2)] by blast
  moreover have "adoptEach t b () (entry_of ks ps i) s = Ok ((), s1)"
    using n(2) s1(1) by (simp add: adoptEach_def bind_def)
  ultimately show ?case using n(1) by (simp add: bind_def)
qed simp

lemma adoptAll_Ok:
  assumes "adapter t = A" "holds x0 k s H hs" "(BranchNode b, r) \<in> hs" "nodeOf H r = Some v"
    "content v = Children ks ps" "length ps = length ks + 1" "\<forall>c \<in> set ps. nodeOf H c \<noteq> None"
  shows "\<exists>s1 s'. updateParentID t (ps ! 0) r s = Ok ((), s1) \<and>
    branchAll A b (adoptEach t b) ()
      s1 = Ok ((), s') \<and> holds x0 k s' (adopt ps r H) hs"
proof -
  have "ps ! 0 \<in> set ps" using assms(6) by simp
  with assms(7) obtain w where "nodeOf H (ps ! 0) = Some w" by blast
  from updateParentID_Ok [OF assms(1,2) this] obtain s1 where
    s1: "updateParentID t (ps ! 0) r s = Ok ((), s1)" "holds x0 k s1 (set_node (ps ! 0) (\<lambda>v. v\<lparr>up := r\<rparr>) H) hs" by blast
  have "\<exists>v'. nodeOf (set_node (ps ! 0) (\<lambda>v. v\<lparr>up := r\<rparr>) H) r = Some v' \<and> content v' = Children ks ps"
    using assms(4,5) by auto
  then obtain v' where v': "nodeOf (set_node (ps ! 0) (\<lambda>v. v\<lparr>up := r\<rparr>) H) r = Some v'" "content v' = Children ks ps" by blast
  have "\<forall>c \<in> set ps. nodeOf (set_node (ps ! 0) (\<lambda>v. v\<lparr>up := r\<rparr>) H) c \<noteq> None" using assms(7) by auto
  from adopt_loop [OF assms(1) s1(2) assms(3) v' assms(6) this, of "[0 ..< length ks]"] obtain s2 where
    s2: "iterate (BranchNth A b) [0 ..< length ks]
      (adoptEach t b) () s1 = Ok ((), s2)"
    "holds x0 k s2 (adopt (map (\<lambda>i. ps ! (i + 1)) [0 ..< length ks]) r (set_node (ps ! 0) (\<lambda>v. v\<lparr>up := r\<rparr>) H)) hs"
    by auto
  have "ps = ps ! 0 # map (\<lambda>i. ps ! (i + 1)) [0 ..< length ks]"
    using assms(6) by (intro nth_equalityI) (auto simp: nth_Cons split: nat.split)
  then have "adopt (map (\<lambda>i. ps ! (i + 1)) [0 ..< length ks]) r (set_node (ps ! 0) (\<lambda>v. v\<lparr>up := r\<rparr>) H) = adopt ps r H"
    by (metis adopt_simps(2))
  moreover have "TotalKeys A (BranchNode b) s1 = Ok (int (length ks), s1)"
    using TotalKeys_Ok [OF s1(2) assms(3) v'(1)] v'(2) by simp
  ultimately show ?thesis using s1(1) s2 by (auto simp: branchAll_def bind_def)
qed

text \<open>The least key below a branch.\<close>

lemma findMinimum_Ok:
  assumes "adapter t = A" "holds x0 k s H hs" "(BranchNode b, tid (Branchy i ks ts)) \<in> hs"
    "stored H (Branchy i ks ts)" "sized lc bc (Branchy i ks ts)" "balanced n (Branchy i ks ts)" "n \<le> m"
  shows "\<exists>s'. findMinimum t m b s = Ok (leKey (hd (inorder (Branchy i ks ts))), s') \<and> holds x0 k s' H hs"
  using assms(2-)
proof (induction m arbitrary: s i ks ts n b hs)
  case 0
  then show ?case by (cases n) auto
next
  case (Suc m)
  from Suc.prems(5,6) obtain n' where n: "n = Suc n'" "n' \<le> m" by (cases n) auto
  from Suc.prems(4) obtain u us where ts: "ts = u # us" "ks \<noteq> []" by (cases ts) auto
  from Suc.prems(3) obtain v where v: "nodeOf H i = Some v" "content v = Children ks (map tid ts)" by auto
  have e: "EntryAt A b 0 s = Ok (entry_of ks (map tid ts) 0, s)"
    using EntryAt_Ok [OF Suc.prems(1) _ v, of b 0] Suc.prems(2) ts(2) by simp
  have u: "stored H u" "sized lc bc u" "balanced n' u" using Suc.prems(3-5) ts n by auto
  then obtain w where w: "nodeOf H (tid u) = Some w" by (cases u) auto
  from LoadNode_Ok [OF Suc.prems(1) w] obtain h s1 where
    s1: "LoadNode A (tid u) s = Ok (Some h, s1)" "holds x0 k s1 H (insert (h, tid u) hs)" by blast
  have head: "hd (inorder (Branchy i ks ts)) = hd (inorder u)"
    using sized_inorder [OF u(2)] by (simp add: ts)
  show ?case
  proof (cases u)
    case (Leafy j es)
    with u(1) w have c: "content w = Entries es" by simp
    with kinds(1) [OF s1(2) insertI1 w] obtain l where l: "h = LeafNode l" by blast
    have "KeyAt A (LeafNode l) 0 s1 = Ok (leKey (hd es), s1)"
      using KeyAt_Ok [OF s1(2) insertI1 w, of 0] c u(2) Leafy l by (simp add: hd_conv_nth hd_map)
    then show ?thesis
      using e s1 head Leafy l holds_mono [OF s1(2), of hs] ts by (auto simp: Let_def bind_def assms(1))
  next
    case (Branchy j js us')
    with u(1) w have "\<exists>ps. content w = Children js ps" by auto
    with kinds(2) [OF s1(2) insertI1 w] obtain b' where l: "h = BranchNode b'" by blast
    from Suc.IH [of s1 "insert (h, tid u) hs" b' j js us' n'] s1(2) u n(2) Branchy l obtain s2 where
      s2: "findMinimum t m b' s1 = Ok (leKey (hd (inorder u)), s2)" "holds x0 k s2 H (insert (h, tid u) hs)" by auto
    then show ?thesis
      using e s1 head l holds_mono [OF s2(2), of hs] ts by (auto simp: Let_def bind_def assms(1))
  qed
qed

text \<open>The entries that move into the new branch.\<close>

lemma insertBranchEntries_Ok:
  assumes "holds x0 k s H hs" "(BranchNode b, i) \<in> hs" "nodeOf H i = Some v" "content v = Children ks ps"
    "length ks = j + 1" "length ps = length ks + 1" "\<And>n. n \<le> length ks + length es \<Longrightarrow> branchFits n"
  shows "\<exists>s'. insertBranchEntries A b (int j) es s = Ok ((), s') \<and>
    holds x0 k s' (set_node i (\<lambda>v. v\<lparr>content := Children (ks @ map beKey es)
      (ps @ map GreaterThanOrEqualToKeyNodeID es)\<rparr>) H) hs"
  using assms
proof (induction es arbitrary: s H v ks ps j)
  case Nil
  have "set_node i (\<lambda>v. v\<lparr>content := Children ks ps\<rparr>) H = H" using Nil by (intro heap_eqI) auto
  with Nil show ?case by simp
next
  case (Cons e es)
  have "ks \<noteq> []" "branchFits (length ks + 1)" using Cons.prems(5,7) by auto
  from BranchInsertAt_Ok [OF Cons.prems(1-4) this(1) Cons.prems(6) order_refl this(2), of "beKey e"
      "GreaterThanOrEqualToKeyNodeID e"] obtain s1 where
    s1: "BranchInsertAt A b (int j + 1) (beKey e) (GreaterThanOrEqualToKeyNodeID e) s = Ok ((), s1)"
      "holds x0 k s1 (set_node i (\<lambda>v. v\<lparr>content := Children (ks @ [beKey e]) (ps @ [GreaterThanOrEqualToKeyNodeID e])\<rparr>) H) hs"
    using Cons.prems(5,6) insertNth_end [of ks] insertNth_end [of ps] by (auto simp: add.commute)
  let ?H1 = "set_node i (\<lambda>v. v\<lparr>content := Children (ks @ [beKey e]) (ps @ [GreaterThanOrEqualToKeyNodeID e])\<rparr>) H"
  have v: "nodeOf ?H1 i = Some (v\<lparr>content := Children (ks @ [beKey e]) (ps @ [GreaterThanOrEqualToKeyNodeID e])\<rparr>)"
    using Cons.prems(3) by simp
  from Cons.IH [OF s1(2) Cons.prems(2) v, of _ _ "j + 1"] Cons.prems(5-7) obtain s2 where
    s2: "insertBranchEntries A b (int j + 1) es s1 = Ok ((), s2)"
      "holds x0 k s2 (set_node i (\<lambda>v. v\<lparr>content := Children ((ks @ [beKey e]) @ map beKey es)
        ((ps @ [GreaterThanOrEqualToKeyNodeID e]) @ map GreaterThanOrEqualToKeyNodeID es)\<rparr>) ?H1) hs"
    by (auto simp: add.commute)
  have "set_node i (\<lambda>v. v\<lparr>content := Children ((ks @ [beKey e]) @ map beKey es)
        ((ps @ [GreaterThanOrEqualToKeyNodeID e]) @ map GreaterThanOrEqualToKeyNodeID es)\<rparr>) ?H1 =
      set_node i (\<lambda>v. v\<lparr>content := Children (ks @ map beKey (e # es))
        (ps @ map GreaterThanOrEqualToKeyNodeID (e # es))\<rparr>) H"
    using Cons.prems(3) by (intro heap_eqI) auto
  with s2(2) have "holds x0 k s2 (set_node i (\<lambda>v. v\<lparr>content := Children (ks @ map beKey (e # es))
        (ps @ map GreaterThanOrEqualToKeyNodeID (e # es))\<rparr>) H) hs" by simp
  then show ?case using s1(1) s2(1) by (auto simp: seq_def bind_def)
qed

text \<open>A new branch with the given entries.\<close>

lemma newBranch_Ok:
  assumes "holds x0 k s H hs" "room x0 (Suc k)" "\<And>n. n \<le> length es + 1 \<Longrightarrow> branchFits n"
  shows "\<exists>b r s1 s'. CreateBranch A e s = Ok (b, s1) \<and> insertBranchEntries A b 0 es s1 = Ok ((), s') \<and>
    nodeOf H r = None \<and> r \<noteq> 0 \<and>
    holds x0 (Suc k) s' (new_node r (Children (map beKey (e # es))
      (LowerThanKeyNodeID e # map GreaterThanOrEqualToKeyNodeID (e # es))) H) (insert (BranchNode b, r) hs)"
proof -
  from CreateBranch_Ok [OF assms(1,2), of e] obtain b r s1 where
    s1: "CreateBranch A e s = Ok (b, s1)" "nodeOf H r = None" "r \<noteq> 0"
      "holds x0 (Suc k) s1 (new_node r (Children [beKey e] [LowerThanKeyNodeID e, GreaterThanOrEqualToKeyNodeID e]) H)
        (insert (BranchNode b, r) hs)" by auto
  let ?H1 = "new_node r (Children [beKey e] [LowerThanKeyNodeID e, GreaterThanOrEqualToKeyNodeID e]) H"
  have n: "nodeOf ?H1 r = Some \<lparr>content = Children [beKey e] [LowerThanKeyNodeID e, GreaterThanOrEqualToKeyNodeID e],
      up = 0, lft = 0, rgt = 0\<rparr>" by simp
  from insertBranchEntries_Ok [OF s1(4) insertI1 n, of "[beKey e]" _ 0 es] assms(3) obtain s2 where
    s2: "insertBranchEntries A b 0 es s1 = Ok ((), s2)"
      "holds x0 (Suc k) s2 (set_node r (\<lambda>v. v\<lparr>content := Children ([beKey e] @ map beKey es)
        ([LowerThanKeyNodeID e, GreaterThanOrEqualToKeyNodeID e] @ map GreaterThanOrEqualToKeyNodeID es)\<rparr>) ?H1)
        (insert (BranchNode b, r) hs)" by auto
  have "set_node r (\<lambda>v. v\<lparr>content := Children ([beKey e] @ map beKey es)
        ([LowerThanKeyNodeID e, GreaterThanOrEqualToKeyNodeID e] @ map GreaterThanOrEqualToKeyNodeID es)\<rparr>) ?H1 =
      new_node r (Children (map beKey (e # es)) (LowerThanKeyNodeID e # map GreaterThanOrEqualToKeyNodeID (e # es))) H"
    by (intro heap_eqI) auto
  with s1(1-3) s2 show ?thesis by auto
qed

lemma branchSplit_Ok:
  assumes "adapter t = A" "holds x0 k s H hs" "(BranchNode b, p) \<in> hs" "(g, c) \<in> hs" "nodeOf H p = Some v"
    "content v = Children ks ps" "length ps = length ks + 1" "j \<le> length ks"
    and h: "halfBranchCapacity t = int h" "1 < h" "h + 2 \<le> length ks"
    and "room x0 (Suc k)" "\<And>n. n \<le> length ks \<Longrightarrow> branchFits n" "rgt v = 0 \<or> nodeOf H (rgt v) \<noteq> None"
    and nodes: "\<forall>d \<in> insert c (set ps). nodeOf H d \<noteq> None"
    and kids: "map tid us = drop (h + 1) (insertNth (j + 1) c ps)" "\<forall>u \<in> set us. stored H u \<and> sized lc bc u \<and> balanced n u"
      "\<forall>u \<in> set us. p \<notin> set (ids u)" "n < m"
    and ks'_def: "ks' = insertNth j key ks" and ps'_def: "ps' = insertNth (j + 1) c ps"
  shows "\<exists>rb r s'. branchSplit t m b (int j) key g s = Ok ((rb, leKey (hd (inorder (hd us)))), s') \<and>
    nodeOf H r = None \<and> r \<noteq> 0 \<and>
    holds x0 (Suc k) s' (adopt (drop (h + 1) ps') r
      (link p r (set_node p (\<lambda>v. v\<lparr>content := Children (take h ks') (take (h + 1) ps')\<rparr>)
        (new_node r (Children (drop (h + 1) ks') (drop (h + 1) ps')) H)))) (insert (BranchNode rb, r) hs)"
proof -
  let ?sf = "if j < h then h - 1 else h"
  have sf: "0 < ?sf" "?sf \<le> length ks" "(if int j < int h then int h - 1 else int h) = int ?sf" using h by auto
  from BranchDeleteFrom_Ok [OF assms(2,3,5,6,7) sf(1,2)] obtain s1 where
    s1: "BranchDeleteFrom A b (int ?sf) s = Ok (drop ?sf (entries_of ks ps), s1)"
      "holds x0 k s1 (set_node p (\<lambda>v. v\<lparr>content := Children (take ?sf ks) (take (?sf + 1) ps)\<rparr>) H) hs" by blast
  let ?H1 = "set_node p (\<lambda>v. v\<lparr>content := Children (take ?sf ks) (take (?sf + 1) ps)\<rparr>) H"
  obtain w where w: "nodeOf H c = Some w" using nodes by auto
  then have "\<exists>w. nodeOf ?H1 c = Some w" by auto
  then have gid: "NodeID A g s1 = Ok (c, s1)" using NodeID_Ok [OF s1(2) assms(4)] by blast
  text \<open>The left branch.\<close>
  let ?vl = "v\<lparr>content := Children (take h ks') (take (h + 1) ps')\<rparr>"
  let ?H2 = "set_node p (\<lambda>v. v\<lparr>content := Children (take h ks') (take (h + 1) ps')\<rparr>) H"
  have "\<exists>s2. (if int j = -1 then panic (PanicMsg ''Something weird is going on'')
           else if int j < int h then bind (NodeID A g) (\<lambda>nid. BranchInsertAt A b (int j) key nid)
           else ret ()) s1 = Ok ((), s2) \<and> holds x0 k s2 ?H2 hs"
  proof (cases "j < h")
    case True
    have v1: "nodeOf ?H1 p = Some (v\<lparr>content := Children (take (h - 1) ks) (take h ps)\<rparr>)" using assms(5) True h by simp
    have l: "take (h - 1) ks \<noteq> []" "length (take h ps) = length (take (h - 1) ks) + 1" "j \<le> length (take (h - 1) ks)"
      "length (take (h - 1) ks) + 1 \<le> length ks" using h True assms(7,8) by auto
    from BranchInsertAt_Ok [OF s1(2) assms(3) v1 _ l(1-3) assms(13) [OF l(4)], of key c] obtain s2 where
      s2: "BranchInsertAt A b (int j) key c s1 = Ok ((), s2)"
        "holds x0 k s2 (set_node p (\<lambda>v. v\<lparr>content := Children (insertNth j key (take (h - 1) ks))
          (insertNth (j + 1) c (take h ps))\<rparr>) ?H1) hs" by auto
    have "insertNth j key (take (h - 1) ks) = take h ks'" "insertNth (j + 1) c (take h ps) = take (h + 1) ps'"
      using split_insertNth_left(1) [OF True assms(8)] split_insertNth_left(1) [of "j + 1" "h + 1" ps c] True assms(7,8)
      by (simp_all add: ks'_def ps'_def)
    then have "set_node p (\<lambda>v. v\<lparr>content := Children (insertNth j key (take (h - 1) ks))
          (insertNth (j + 1) c (take h ps))\<rparr>) ?H1 = ?H2" by (intro heap_eqI) (auto simp: option.map_comp comp_def)
    with s2 gid True show ?thesis by (auto simp: bind_def)
  next
    case False
    then have "take h ks = take h ks'" "take (h + 1) ps = take (h + 1) ps'"
      using split_insertNth_right(1) [of h j ks key] split_insertNth_right(1) [of "h + 1" "j + 1" ps c] assms(7,8)
      by (simp_all add: ks'_def ps'_def)
    with False s1(2) show ?thesis by auto
  qed
  then obtain s2 where s2: "(if int j = -1 then panic (PanicMsg ''Something weird is going on'')
           else if int j < int h then bind (NodeID A g) (\<lambda>nid. BranchInsertAt A b (int j) key nid)
           else ret ()) s1 = Ok ((), s2)" "holds x0 k s2 ?H2 hs" by blast
  have n2: "nodeOf ?H2 p = Some ?vl" "\<exists>w. nodeOf ?H2 c = Some w" using assms(5) w by auto
  then have gid2: "NodeID A g s2 = Ok (c, s2)" using NodeID_Ok [OF s2(2) assms(4)] by blast
  text \<open>The entries of the right branch, without the one of a new greatest key.\<close>
  let ?m = "if j = h \<or> j < h then h else h + 1"
  let ?lt = "if j = h then c else ps ! ?m"
  let ?es = "drop (?m + 1) (entries_of ks ps)"
  let ?e = "(entry_of ks ps ?m)\<lparr>LowerThanKeyNodeID := ?lt\<rparr>"
  have m: "?m < length ks" using h by simp
  have e0: "drop h (entries_of ks ps) = entry_of ks ps h # drop (h + 1) (entries_of ks ps)"
    using h(3) assms(7) by (intro drop_entries_of) simp_all
  have e1: "drop (h + 1) (entries_of ks ps) = entry_of ks ps (h + 1) # drop (h + 2) (entries_of ks ps)"
    using h(3) assms(7) drop_entries_of(1) [of "h + 1" ks ps] by simp
  have e2: "drop (h - 1) (entries_of ks ps) = entry_of ks ps (h - 1) # drop h (entries_of ks ps)"
    using h assms(7) drop_entries_of(1) [of "h - 1" ks ps] by simp
  have entries: "(if int j = int h then
              (case drop ?sf (entries_of ks ps) of
                 [] \<Rightarrow> panic IndexOutOfRange
               | e # es \<Rightarrow> bind (NodeID A g) (\<lambda>nid. ret (e\<lparr>LowerThanKeyNodeID := nid\<rparr> # es)))
            else (case drop ?sf (entries_of ks ps) of [] \<Rightarrow> panic IndexOutOfRange | e # es \<Rightarrow> ret es)) s2 = Ok (?e # ?es, s2)"
  proof -
    consider "j < h" | "j = h" | "h < j" by linarith
    then show ?thesis
      by cases (simp_all add: e0 e1 [simplified] e2 [simplified] gid2 bind_def entry_of_def)
  qed
  have keys: "map beKey (?e # ?es) = drop ?m ks"
    "LowerThanKeyNodeID ?e # map GreaterThanOrEqualToKeyNodeID (?e # ?es) = ?lt # drop (?m + 1) ps"
    using drop_entries_of [OF m assms(7)] by (auto simp: entry_of_def)
  have len: "length ?es + 1 \<le> length ks" using h by auto
  have "branchFits n" if "n \<le> length ?es + 1" for n using assms(13) [of n] that len by linarith
  from newBranch_Ok [OF s2(2) assms(12), of ?es ?e, OF this, unfolded keys] obtain rb r s3 s4 where
    s4: "CreateBranch A ?e s2 = Ok (rb, s3)" "insertBranchEntries A rb 0 ?es s3 = Ok ((), s4)"
      "nodeOf ?H2 r = None" "r \<noteq> 0"
      "holds x0 (Suc k) s4 (new_node r (Children (drop ?m ks) (?lt # drop (?m + 1) ps)) ?H2)
        (insert (BranchNode rb, r) hs)" by blast
  let ?hs = "insert (BranchNode rb, r) hs"
  have rp: "r \<noteq> p" "nodeOf H r = None" using s4(3) assms(5) by (auto split: if_splits)
  have rc: "r \<noteq> c" using rp w by auto
  text \<open>The new key, when it belongs to the right.\<close>
  let ?H5 = "set_node p (\<lambda>v. v\<lparr>content := Children (take h ks') (take (h + 1) ps')\<rparr>)
        (new_node r (Children (drop (h + 1) ks') (drop (h + 1) ps')) H)"
  have "\<exists>s5. (if int j > int h then bind (NodeID A g) (\<lambda>nid. BranchInsertAt A rb (int j - int h - 1) key nid) else ret ())
      s4 = Ok ((), s5) \<and> holds x0 (Suc k) s5 ?H5 ?hs"
  proof (cases "h < j")
    case True
    let ?H4 = "new_node r (Children (drop ?m ks) (?lt # drop (?m + 1) ps)) ?H2"
    have "\<exists>w. nodeOf ?H4 c = Some w" using n2(2) by auto
    then have gid4: "NodeID A g s4 = Ok (c, s4)" using NodeID_Ok [OF s4(5)] assms(4) by blast
    have "drop (h + 1) ps = ps ! (h + 1) # drop (h + 2) ps"
      using h(3) assms(7) by (metis Cons_nth_drop_Suc Suc_eq_plus1 add_2_eq_Suc' add_leD1 less_Suc_eq_le)
    then have v4: "nodeOf ?H4 r = Some \<lparr>content = Children (drop (h + 1) ks) (drop (h + 1) ps), up = 0, lft = 0, rgt = 0\<rparr>"
      using True by simp
    have l: "drop (h + 1) ks \<noteq> []" "length (drop (h + 1) ps) = length (drop (h + 1) ks) + 1"
      "j - h - 1 \<le> length (drop (h + 1) ks)" "length (drop (h + 1) ks) + 1 \<le> length ks"
      using h True assms(7,8) by auto
    from BranchInsertAt_Ok [OF s4(5) insertI1 v4 _ l(1-3) assms(13) [OF l(4)], of key c] obtain s5 where
      s5: "BranchInsertAt A rb (int (j - h - 1)) key c s4 = Ok ((), s5)"
        "holds x0 (Suc k) s5 (set_node r (\<lambda>v. v\<lparr>content := Children (insertNth (j - h - 1) key (drop (h + 1) ks))
          (insertNth (j - h - 1 + 1) c (drop (h + 1) ps))\<rparr>) ?H4) ?hs" by auto
    have "insertNth (j - h - 1) key (drop (h + 1) ks) = drop (h + 1) ks'"
      "insertNth (j - h - 1 + 1) c (drop (h + 1) ps) = drop (h + 1) ps'"
      using split_insertNth_right(2) [of "h + 1" j ks key] split_insertNth_right(2) [of "h + 1" "j + 1" ps c]
        True assms(7,8) by (simp_all add: ks'_def ps'_def Suc_diff_Suc)
    then have "set_node r (\<lambda>v. v\<lparr>content := Children (insertNth (j - h - 1) key (drop (h + 1) ks))
          (insertNth (j - h - 1 + 1) c (drop (h + 1) ps))\<rparr>) ?H4 = ?H5"
      using rp by (intro heap_eqI) auto
    moreover have "int (j - h - 1) = int j - int h - 1" using True by simp
    ultimately have "BranchInsertAt A rb (int j - int h - 1) key c s4 = Ok ((), s5)" "holds x0 (Suc k) s5 ?H5 ?hs"
      using s5 by metis+
    then show ?thesis using gid4 True by (auto simp: bind_def)
  next
    case False
    have "drop h ks = drop (h + 1) ks'"
    proof (cases "j = h")
      case True
      then show ?thesis using h(3) by (simp add: ks'_def insertNth_def)
    next
      case False
      with \<open>\<not> h < j\<close> show ?thesis using split_insertNth_left(2) [of j "h + 1" ks key] h(3) by (simp add: ks'_def)
    qed
    moreover have "(if j = h then c else ps ! h) # drop (h + 1) ps = drop (h + 1) ps'"
    proof (cases "j = h")
      case True
      then show ?thesis using h(3) assms(7) by (simp add: ps'_def insertNth_def)
    next
      case False
      with \<open>\<not> h < j\<close> have "drop (h + 1) ps' = drop h ps"
        using split_insertNth_left(2) [of "j + 1" "h + 1" ps c] h(3) assms(7) by (simp add: ps'_def)
      with False h(3) assms(7) show ?thesis by (simp add: Cons_nth_drop_Suc)
    qed
    ultimately have "new_node r (Children (drop ?m ks) (?lt # drop (?m + 1) ps)) ?H2 = ?H5"
      using False rp by (intro heap_eqI) auto
    with s4(5) False show ?thesis by auto
  qed
  then obtain s5 where s5: "(if int j > int h then bind (NodeID A g) (\<lambda>nid. BranchInsertAt A rb (int j - int h - 1) key nid)
      else ret ()) s4 = Ok ((), s5)" "holds x0 (Suc k) s5 ?H5 ?hs" by blast
  text \<open>Siblings and parents.\<close>
  let ?vr = "\<lparr>content = Children (drop (h + 1) ks') (drop (h + 1) ps'), up = 0, lft = 0, rgt = 0\<rparr>"
  have n5: "nodeOf ?H5 p = Some ?vl" "nodeOf ?H5 r = Some ?vr" "(BranchNode b, p) \<in> ?hs"
    "rgt ?vl = 0 \<or> nodeOf ?H5 (rgt ?vl) \<noteq> None"
    using assms(3,5,14) rp(1) by auto
  from setSiblings_Ok [OF assms(1) s5(2) n5(3) insertI1 rp(1) [symmetric] n5(1,2,4)] obtain s6 where
    s6: "setSiblings t (BranchNode b) (BranchNode rb) s5 = Ok ((), s6)" "holds x0 (Suc k) s6 (link p r ?H5) ?hs" by blast
  let ?H6 = "link p r ?H5"
  have body: "map_option body (nodeOf ?H6 d) = map_option body (nodeOf ?H5 d)" for d by simp
  from body_SomeD [OF body n5(2)] obtain v6 where
    v6: "nodeOf ?H6 r = Some v6" "content v6 = Children (drop (h + 1) ks') (drop (h + 1) ps')" by auto
  have lr: "length (drop (h + 1) ps') = length (drop (h + 1) ks') + 1" "drop (h + 1) ks' \<noteq> []"
    using h(3) assms(7,8) by (auto simp: ks'_def ps'_def length_insertNth)
  have ex: "\<forall>d \<in> set (drop (h + 1) ps'). nodeOf ?H6 d \<noteq> None"
  proof
    fix d assume "d \<in> set (drop (h + 1) ps')"
    then have "d \<in> insert c (set ps)"
      using assms(7,8) by (auto simp: ps'_def set_insertNth dest: in_set_dropD)
    with nodes obtain u where "nodeOf H d = Some u" by blast
    then obtain u' where "nodeOf ?H5 d = Some u'" by (cases "d = p"; cases "d = r") simp_all
    from body_SomeD [OF body this] show "nodeOf ?H6 d \<noteq> None" by auto
  qed
  have en: "EntryAt A rb 0 s6 = Ok (entry_of (drop (h + 1) ks') (drop (h + 1) ps') 0, s6)"
    using EntryAt_Ok [OF s6(2) insertI1 v6, of 0] lr(2) by simp
  have nid: "NodeID A (BranchNode rb) s6 = Ok (r, s6)" using NodeID_Ok [OF s6(2) insertI1 v6(1)] .
  from adoptAll_Ok [OF assms(1) s6(2) insertI1 v6 lr(1) ex] obtain s7 s8 where
    s8: "updateParentID t (drop (h + 1) ps' ! 0) r s6 = Ok ((), s7)"
      "branchAll A rb (adoptEach t rb) () s7 = Ok ((), s8)" "holds x0 (Suc k) s8 (adopt (drop (h + 1) ps') r ?H6) ?hs"
    by blast
  text \<open>The least key on the right.\<close>
  let ?H8 = "adopt (drop (h + 1) ps') r ?H6"
  have content8: "\<exists>v'. nodeOf ?H8 d = Some v' \<and> content v' = content u" if "nodeOf H d = Some u" "d \<noteq> p" for d u
  proof -
    have "d \<noteq> r" using rp that(1) by auto
    with that have "nodeOf ?H5 d = Some u" by simp
    from body_SomeD [OF body this] have "\<exists>v'. nodeOf ?H6 d = Some v' \<and> content v' = content u" by blast
    then show ?thesis by auto
  qed
  have st: "stored ?H8 u" if "stored H u" "p \<notin> set (ids u)" for u
    using that
  proof (induction u)
    case (Leafy i es)
    then show ?case using content8 by fastforce
  next
    case (Branchy i js ts)
    then have "\<exists>v'. nodeOf ?H8 i = Some v' \<and> content v' = Children js (map tid ts)" using content8 by fastforce
    with Branchy show ?case by auto
  qed
  obtain v8 where "nodeOf ?H8 r = Some v8" "content v8 = Children (drop (h + 1) ks') (drop (h + 1) ps')"
    using v6 by (cases "r \<in> set (drop (h + 1) ps')") auto
  then have R: "stored ?H8 (Branchy r (drop (h + 1) ks') us)" using st kids(1-3) by (auto simp: ps'_def)
  have "length us = length (drop (h + 1) ks') + 1" using lr(1) kids(1) by (metis length_map ps'_def)
  moreover have "\<forall>u \<in> set us. sized lc (max bc (length (drop (h + 1) ks'))) u"
    using kids(2) sized_mono max.cobounded1 by blast
  ultimately have sz: "sized lc (max bc (length (drop (h + 1) ks'))) (Branchy r (drop (h + 1) ks') us)"
    using lr(2) by simp
  then have "\<exists>s'. findMinimum t m rb s8 = Ok (leKey (hd (inorder (Branchy r (drop (h + 1) ks') us))), s') \<and>
      holds x0 (Suc k) s' ?H8 ?hs"
    using kids(2,4) by (intro findMinimum_Ok [OF assms(1) s8(3) _ R sz, where n = "Suc n"]) auto
  moreover have "hd (inorder (Branchy r (drop (h + 1) ks') us)) = hd (inorder (hd us))"
    using kids(2) \<open>length us = _\<close> sized_inorder [of lc bc "hd us"] by (cases us) (auto simp: hd_append)
  ultimately obtain s9 where
    s9: "findMinimum t m rb s8 = Ok (leKey (hd (inorder (hd us))), s9)" "holds x0 (Suc k) s9 ?H8 ?hs" by auto
  have "branchSplit t m b (int j) key g s = Ok ((rb, leKey (hd (inorder (hd us)))), s9)"
    unfolding branchSplit_def Let_def assms(1) h(1) sf(3) adoptEach_def [symmetric]
    using s1(1) s2(1) entries s4(1,2) s5(1) s6(1) en nid s8(1,2) s9(1)
    by (simp add: bind_def seq_def)
  with s9(2) rp(2) s4(4) show ?thesis by blast
qed

end

end
