(* ===== verification/TreeShape.thy ===== *)
theory TreeShape
  imports TreeSplit
begin

text \<open>
  The shape of the tree in a heap: the IDs of its nodes, their order, the links of its levels, its
  depth and its first leaf; and how a split node becomes two nodes of such a tree.
\<close>

section \<open>Splitting nodes of a tree\<close>

lemma sized_line_hd: "sized lc bc t \<Longrightarrow> line t \<noteq> [] \<and> hd (line t) = mark (leKey (hd (inorder t))) + 1"
proof (induction t)
  case (Leafy i es)
  then show ?case by (cases es) simp_all
next
  case (Branchy i ks ts)
  then obtain u us where ts: "ts = u # us" "length ks = length us" by (cases ts) auto
  then have "line (Branchy i ks ts) = line u @ weave_right (map mark ks) (map line us)"
    by (simp add: weave_first)
  moreover have "sized lc bc u" using Branchy.prems ts(1) by simp
  ultimately show ?case using Branchy.IH [of u] sized_inorder [of lc bc u] ts(1) by (auto simp: hd_append)
qed

lemma leaf_splits:
  assumes "sorted_wrt (<) (line (Leafy i es))" "0 < h" "h < length es"
  shows "splits (Leafy i es) (Leafy i (take h es)) (leKey (es ! h)) (Leafy r (drop h es))"
proof -
  let ?f = "\<lambda>e. mark (leKey e) + 1"
  have s: "sorted_wrt (<) (map ?f (take h es @ drop h es))" using assms(1) by simp
  have d: "drop h es = es ! h # drop (Suc h) es" using assms(3) by (simp add: Cons_nth_drop_Suc)
  have "sorted_wrt (<) (map ?f (take h es) @ mark (leKey (es ! h)) # map ?f (drop h es))"
    using s unfolding map_append sorted_wrt_append by (auto simp: d)
  then show ?thesis
    using assms(2,3) by (auto simp: splits_def dest: in_set_takeD in_set_dropD)
qed

lemma line_split:
  assumes "length ts = length ks + 1" "h < length ks"
  shows "line (Branchy p ks ts) =
    line (Branchy p (take h ks) (take (h + 1) ts)) @ mark (ks ! h) # line (Branchy r (drop (h + 1) ks) (drop (h + 1) ts))"
proof -
  have ts: "ts = take h ts @ ts ! h # drop (h + 1) ts" "take (h + 1) ts = take h ts @ ts ! h # []"
    using assms by (simp_all add: id_take_nth_drop take_Suc_conv_app_nth)
  have ks: "ks = take h ks @ drop h ks" "drop h ks = ks ! h # drop (h + 1) ks"
    using assms(2) by (simp_all add: Cons_nth_drop_Suc)
  obtain u us where us: "drop (h + 1) ts = u # us" using assms by (cases "drop (h + 1) ts") auto
  then have len: "length us = length (drop (h + 1) ks)" using assms by (metis diff_Suc_1 add_diff_cancel_right' length_Cons length_drop diff_commute Suc_eq_plus1)
  have "line (Branchy p ks ts) = weave_left (map line (take h ts)) (map mark (take h ks)) @ line (ts ! h) @
      weave_right (map mark (drop h ks)) (map line (drop (h + 1) ts))"
    using line_hole [of "take h ts" "take h ks" "drop (h + 1) ts" "drop h ks" p "ts ! h"] assms ts(1) ks(1)
    by (metis (no_types, lifting) add_diff_cancel_left' diff_add_inverse2 diff_cancel2 length_drop length_take min.absorb4
        less_imp_le_nat min.absorb2 trans_less_add1)
  moreover have "line (Branchy p (take h ks) (take (h + 1) ts)) =
      weave_left (map line (take h ts)) (map mark (take h ks)) @ line (ts ! h)"
    using line_hole [of "take h ts" "take h ks" "[]" "[]" p "ts ! h"] assms ts(2) by simp
  moreover have "line (Branchy r (drop (h + 1) ks) (drop (h + 1) ts)) =
      line u @ weave_right (map mark (drop (h + 1) ks)) (map line us)"
    using len us by (simp add: weave_first)
  ultimately show ?thesis using us by (simp add: ks(2))
qed

lemma concat_split: "concat (map f ts) = concat (map f (take n ts)) @ concat (map f (drop n ts))"
  by (metis append_take_drop_id concat_append map_append)

lemma branch_splits:
  assumes "sorted_wrt (<) (line (Branchy p ks ts))" "length ts = length ks + 1" "h + 1 < length ks"
    "\<forall>u \<in> set ts. sized lc bc u"
  shows "splits (Branchy p ks ts) (Branchy p (take h ks) (take (h + 1) ts)) (leKey (hd (inorder (hd (drop (h + 1) ts)))))
    (Branchy r (drop (h + 1) ks) (drop (h + 1) ts))"
proof -
  let ?P = "Branchy p (take h ks) (take (h + 1) ts)" and ?R = "Branchy r (drop (h + 1) ks) (drop (h + 1) ts)"
  obtain u us where us: "drop (h + 1) ts = u # us" using assms(2,3) by (cases "drop (h + 1) ts") auto
  have u: "sized lc bc u" using us assms(4) in_set_dropD [of u "h + 1" ts] by simp
  let ?k = "leKey (hd (inorder u))"
  have line: "line (Branchy p ks ts) = line ?P @ mark (ks ! h) # line ?R"
    using line_split [OF assms(2), of h p r] assms(3) by (simp del: line.simps)
  have "length (u # us) = length (drop (h + 1) ts)" by (simp only: us)
  then have lu: "length us = length (drop (h + 1) ks)" using assms(2,3) by simp
  then have R: "line ?R = line u @ weave_right (map mark (drop (h + 1) ks)) (map line us)"
    using us by (simp add: weave_first)
  have hd: "line ?R \<noteq> []" "hd (line ?R) = mark ?k + 1" using sized_line_hd [OF u] R by (auto simp: hd_append)
  have s: "sorted_wrt (<) (line ?P @ mark (ks ! h) # line ?R)" using assms(1) line by simp
  then have "mark (ks ! h) < mark ?k + 1" using hd by (metis list.set_sel(1) sorted_wrt.simps(2) sorted_wrt_append)
  then have le: "mark (ks ! h) \<le> mark ?k" by linarith
  obtain y ys where y: "line ?R = y # ys" "y = mark ?k + 1" using hd by (cases "line ?R") auto
  have "sorted_wrt (<) (line ?P @ mark ?k # line ?R)"
    using s le unfolding y(1) by (fastforce simp: sorted_wrt_append y(2))
  moreover have "line ?P \<noteq> []"
  proof -
    obtain w ws where w: "take (h + 1) ts = w # ws" using assms(2) by (cases ts) auto
    then have "sized lc bc w" using assms(4) in_set_takeD [of w "h + 1" ts] by simp
    moreover have "length (w # ws) = length (take (h + 1) ts)" by (simp only: w)
    then have "length ws = length (take h ks)" using assms(2,3) by simp
    then have "line ?P = line w @ weave_right (map mark (take h ks)) (map line ws)" using w by (simp add: weave_first)
    ultimately show ?thesis using sized_line_hd by auto
  qed
  moreover have "set (line ?P) \<subseteq> set (line (Branchy p ks ts))" "set (line ?R) \<subseteq> set (line (Branchy p ks ts))"
    unfolding line by auto
  moreover have hu: "hd (drop (h + 1) ts) = u" using us by simp
  moreover have "\<forall>n. concat (map (lev n) ts) = concat (map (lev n) (take (h + 1) ts)) @ concat (map (lev n) (drop (h + 1) ts))"
    by (rule allI) (rule concat_split)
  ultimately show ?thesis
    using hd(1) concat_split [of inorder ts "h + 1"] concat_split [of ids ts "h + 1"]
    by (simp only: splits_def hu) (simp del: line.simps)
qed

section \<open>The shape of a tree\<close>

fun first_leaf :: "'i bpt \<Rightarrow> u16" where
  "first_leaf (Branchy i ks (t # ts)) = first_leaf t"
| "first_leaf t = tid t"

text \<open>
  All that is required of a tree in a heap, but for the contents of its nodes and their sizes; the
  nodes at depth \<open>n\<close> are the leaves.
\<close>

definition tree_shape :: "'i heapView \<Rightarrow> 'i bpt \<Rightarrow> nat \<Rightarrow> bool" where
  "tree_shape H T n \<longleftrightarrow> distinct (ids T) \<and> 0 \<notin> set (ids T) \<and> sorted_wrt (<) (line T) \<and> chained H T \<and>
     balanced n T \<and> firstOf H = first_leaf T"

text \<open>A tree in a heap; only the root may be an empty leaf.\<close>

definition tree_ok :: "nat \<Rightarrow> nat \<Rightarrow> 'i heapView \<Rightarrow> 'i bpt \<Rightarrow> nat \<Rightarrow> bool" where
  "tree_ok lc bc H T n \<longleftrightarrow> laid H 0 T \<and> rootOf H = Some (tid T) \<and> tree_shape H T n \<and>
     (sized lc bc T \<or> T = Leafy (tid T) [])"

lemma tree_shapeD:
  assumes "tree_shape H T n"
  shows "distinct (ids T)" "0 \<notin> set (ids T)" "sorted_wrt (<) (line T)" "chained H T" "balanced n T"
    "firstOf H = first_leaf T"
  using assms by (simp_all add: tree_shape_def)

lemma chained_cong:
  assumes "chained H T" "\<And>j. j \<in> set (ids T) \<Longrightarrow> map_option links (nodeOf H' j) = map_option links (nodeOf H j)"
  shows "chained H' T"
  unfolding chained_def
proof
  fix n
  have sg: "seg H 0 (lev n T) 0" using assms(1) by (simp add: chained_def)
  show "seg H' 0 (lev n T) 0"
  proof (rule seg_cong [OF _ sg])
    fix x assume "x \<in> set (lev n T)"
    then have "x \<in> set (ids T)" using lev_ids [of n T] by (rule rev_subsetD)
    then show "map_option links (nodeOf H' x) = map_option links (nodeOf H x)" by (rule assms(2))
  qed
qed

lemma tree_shape_cong:
  assumes "tree_shape H T n" "firstOf H' = firstOf H"
    "\<And>j. j \<in> set (ids T) \<Longrightarrow> map_option links (nodeOf H' j) = map_option links (nodeOf H j)"
  shows "tree_shape H' T n"
  unfolding tree_shape_def using tree_shapeD [OF assms(1)] assms(2) chained_cong [OF tree_shapeD(4) [OF assms(1)] assms(3)]
  by metis

lemma first_leaf_plug: "first_leaf c = first_leaf c' \<Longrightarrow> first_leaf (plug c fs) = first_leaf (plug c' fs)"
proof (induction fs arbitrary: c c')
  case (Cons f fs)
  obtain i kl ls kr rs where f: "f = Frame i kl ls kr rs" by (cases f)
  have "first_leaf (Branchy i (kl @ kr) (ls @ c # rs)) = first_leaf (Branchy i (kl @ kr) (ls @ c' # rs))"
    using Cons.prems by (cases ls) simp_all
  from Cons.IH [OF this] show ?case by (simp add: f)
qed simp

lemma first_leaf_graft:
  assumes "first_leaf P = first_leaf X"
  shows "first_leaf (graft P k R new fs) = first_leaf (plug X fs)"
proof (cases fs)
  case (Cons f gs)
  obtain i kl ls kr rs where f: "f = Frame i kl ls kr rs" by (cases f)
  have "first_leaf (Branchy i (kl @ k # kr) (ls @ P # R # rs)) = first_leaf (Branchy i (kl @ kr) (ls @ X # rs))"
    using assms by (cases ls) simp_all
  with first_leaf_plug [OF this] show ?thesis by (simp add: Cons f)
qed (use assms in simp)

lemma tree_shape_graft:
  assumes T: "tree_shape H (plug X fs) (d + length fs)"
    and sp: "splits X P k R" "balanced d P" "balanced d R" "first_leaf P = first_leaf X"
    and fs: "even_frames fs"
    and r: "tid R \<notin> set (ids (plug X fs))" "tid R \<noteq> 0" "nodeOf H (tid R) = Some v" "rgt v = 0"
    and H': "\<And>j. j \<in> set (ids (plug X fs)) \<or> j = tid R \<Longrightarrow>
      map_option links (nodeOf H' j) = map_option links (nodeOf (link (tid X) (tid R) H) j)" "firstOf H' = firstOf H"
    and new: "fs = [] \<Longrightarrow> new \<notin> insert 0 (insert (tid R) (set (ids (plug X fs)))) \<and>
      (\<exists>w. nodeOf H' new = Some w \<and> lft w = 0 \<and> rgt w = 0)"
  shows "tree_shape H' (graft P k R new fs) (if fs = [] then Suc d else d + length fs)"
proof -
  note D = tree_shapeD [OF T]
  have "distinct (ids (graft P k R new fs)) \<longleftrightarrow> distinct ((if fs = [] then [new] else []) @ tid R # ids (plug X fs))"
    by (rule mset_eq_imp_distinct_iff [OF ids_graft [OF sp(1)]])
  moreover have "set (ids (graft P k R new fs)) = set ((if fs = [] then [new] else []) @ tid R # ids (plug X fs))"
    by (rule mset_eq_setD [OF ids_graft [OF sp(1)]])
  moreover have "chained H' (graft P k R new fs)"
    using chained_graft [OF D(4,1,2) sp(1) r(1-4), of H' new] H'(1) new by blast
  moreover have "sorted_wrt (<) (line (graft P k R new fs))" by (rule graft_sorted [OF D(3) fs sp(1)])
  moreover have "balanced_around d fs" using D(5) by (simp add: balanced_plug)
  ultimately show ?thesis
    using D(1,2,6) r(1,2) new sp(2,3) H'(2) first_leaf_graft [OF sp(4)] balanced_graft [of d P R fs k new]
    unfolding tree_shape_def by auto
qed

section \<open>A node that was split\<close>

text \<open>
  After a split the new node \<open>R\<close> is linked but has no parent yet; once its parent is found or made, and
  the links stay, the tree with the two nodes has the shape of a tree.
\<close>

definition split_done :: "nat \<Rightarrow> nat \<Rightarrow> 'i heapView \<Rightarrow> 'i bpt \<Rightarrow> u32 \<Rightarrow> 'i bpt \<Rightarrow> 'i frame list \<Rightarrow> nat \<Rightarrow> bool" where
  "split_done lc bc H P k R fs n \<longleftrightarrow> laid H (up_of fs) P \<and> laid H 0 R \<and> around H (tid P) fs \<and>
     sized lc bc P \<and> sized lc bc R \<and> sized_around lc bc fs \<and>
     distinct (ids P @ ids R @ ids_around fs) \<and> 0 \<notin> set (ids P @ ids R @ ids_around fs) \<and>
     (\<forall>H' new. firstOf H' = firstOf H \<and>
        (\<forall>j \<in> set (ids P @ ids R @ ids_around fs). map_option links (nodeOf H' j) = map_option links (nodeOf H j)) \<and>
        (fs = [] \<longrightarrow> new \<notin> insert 0 (set (ids P @ ids R)) \<and> (\<exists>w. nodeOf H' new = Some w \<and> lft w = 0 \<and> rgt w = 0)) \<longrightarrow>
        tree_shape H' (graft P k R new fs) n)"

lemma split_doneD:
  assumes "split_done lc bc H P k R fs n"
  shows "laid H (up_of fs) P" "laid H 0 R" "around H (tid P) fs" "sized lc bc P" "sized lc bc R"
    "sized_around lc bc fs" "distinct (ids P @ ids R @ ids_around fs)" "0 \<notin> set (ids P @ ids R @ ids_around fs)"
    "fs \<noteq> [] \<Longrightarrow> tree_shape H (graft P k R 0 fs) n"
  using assms unfolding split_done_def by blast+

text \<open>A split node whose right half knows its parent, the first frame.\<close>

definition pending :: "nat \<Rightarrow> nat \<Rightarrow> 'i heapView \<Rightarrow> 'i bpt \<Rightarrow> u32 \<Rightarrow> 'i bpt \<Rightarrow> 'i frame list \<Rightarrow> nat \<Rightarrow> bool" where
  "pending lc bc H P k R fs n \<longleftrightarrow> laid H (up_of fs) P \<and> laid H (up_of fs) R \<and> around H (tid P) fs \<and>
     sized lc bc P \<and> sized lc bc R \<and> sized_around lc bc fs \<and> tree_shape H (graft P k R 0 fs) n"

lemma laid_adopted:
  assumes "laid H p t" "\<And>j. j \<in> set (ids t) \<Longrightarrow> j \<noteq> tid t \<Longrightarrow> map_option body (nodeOf H' j) = map_option body (nodeOf H j)"
    "map_option body (nodeOf H' (tid t)) = map_option body (map_option (\<lambda>v. v\<lparr>up := q\<rparr>) (nodeOf H (tid t)))"
    "distinct (ids t)"
  shows "laid H' q t"
proof (cases t)
  case (Leafy i es)
  with assms(1,3) show ?thesis by (auto simp: body_def)
next
  case (Branchy i ks ts)
  with assms(1,3) have "\<exists>v. nodeOf H' i = Some v \<and> content v = Children ks (map tid ts) \<and> up v = q"
    by (auto simp: body_def)
  moreover have "laid H' i u" if u: "u \<in> set ts" for u
  proof (rule laid_cong)
    show "laid H i u" using assms(1) u Branchy by simp
    show "map_option body (nodeOf H' j) = map_option body (nodeOf H j)" if "j \<in> set (ids u)" for j
      using that u assms(4) Branchy by (intro assms(2)) auto
  qed
  ultimately show ?thesis by (simp add: Branchy)
qed

lemma links_content [simp]:
  "map_option links (nodeOf (set_node i (\<lambda>v. v\<lparr>content := c\<rparr>) H) j) = map_option links (nodeOf H j)"
  "map_option links (nodeOf (set_node i (\<lambda>v. v\<lparr>up := q\<rparr>) H) j) = map_option links (nodeOf H j)"
  "map_option links (nodeOf (adopt cs q H) j) = map_option links (nodeOf H j)"
  by (cases "nodeOf H j"; auto simp: links_def)+

lemma right_of_content [simp]: "right_of (set_node i (\<lambda>v. v\<lparr>content := c\<rparr>) H) p = right_of H p"
  by (auto simp: right_of_def split: option.split)

lemma links_link_content [simp]:
  "map_option links (nodeOf (link p r (set_node i (\<lambda>v. v\<lparr>content := c\<rparr>) H)) j) = map_option links (nodeOf (link p r H) j)"
proof -
  obtain q where q: "right_of H p = q" by simp
  have "set_node x (\<lambda>v. v\<lparr>lft := y\<rparr>) (set_node i (\<lambda>v. v\<lparr>content := c\<rparr>) K) =
      set_node i (\<lambda>v. v\<lparr>content := c\<rparr>) (set_node x (\<lambda>v. v\<lparr>lft := y\<rparr>) K)"
    "set_node x (\<lambda>v. v\<lparr>rgt := y\<rparr>) (set_node i (\<lambda>v. v\<lparr>content := c\<rparr>) K) =
      set_node i (\<lambda>v. v\<lparr>content := c\<rparr>) (set_node x (\<lambda>v. v\<lparr>rgt := y\<rparr>) K)" for x y K
    by ((intro heap_eqI; cases "nodeOf K x"; simp), (intro heap_eqI; cases "nodeOf K x"; simp))
  then show ?thesis by (cases "q = 0") (simp_all add: link_def Let_def q del: heap_updates)
qed

lemma split_doneI:
  assumes T: "tree_shape H (plug X fs) (d + length fs)"
    and sp: "splits X P k R" "balanced d P" "balanced d R" "first_leaf P = first_leaf X"
    and sz: "sized lc bc P" "sized lc bc R" "sized_around lc bc fs"
    and fresh: "tid R \<notin> set (ids (plug X fs))" "tid R \<noteq> 0"
    and H1: "\<And>j. map_option links (nodeOf H1 j) = map_option links (nodeOf (link (tid X) (tid R) (new_node (tid R) c H)) j)"
      "firstOf H1 = firstOf H"
    and laid: "laid H1 (up_of fs) P" "laid H1 0 R" "around H1 (tid P) fs"
  shows "split_done lc bc H1 P k R fs (if fs = [] then Suc d else d + length fs)"
proof -
  let ?H0 = "new_node (tid R) c H"
  have T0: "tree_shape ?H0 (plug X fs) (d + length fs)" using fresh(1) by (intro tree_shape_cong [OF T]) auto
  note D = tree_shapeD [OF T]
  have m: "mset (ids P @ ids R @ ids_around fs) = mset (tid R # ids (plug X fs))"
    using splitsD(4) [OF sp(1)] by (simp add: mset_ids_plug)
  then have s: "set (ids P @ ids R @ ids_around fs) = insert (tid R) (set (ids (plug X fs)))"
    "distinct (ids P @ ids R @ ids_around fs)"
    using mset_eq_setD [OF m] mset_eq_imp_distinct_iff [OF m] D(1) fresh(1) by simp_all
  have all: "tree_shape H' (graft P k R new fs) (if fs = [] then Suc d else d + length fs)"
    if h: "firstOf H' = firstOf H1" "\<forall>j \<in> set (ids P @ ids R @ ids_around fs). map_option links (nodeOf H' j) = map_option links (nodeOf H1 j)"
      "fs = [] \<longrightarrow> new \<notin> insert 0 (set (ids P @ ids R)) \<and> (\<exists>w. nodeOf H' new = Some w \<and> lft w = 0 \<and> rgt w = 0)" for H' new
  proof (rule tree_shape_graft [OF T0 sp sized_around_even [OF sz(3)] fresh])
    show "nodeOf ?H0 (tid R) = Some \<lparr>content = c, up = 0, lft = 0, rgt = 0\<rparr>" by simp
    show "rgt \<lparr>content = c, up = 0, lft = 0, rgt = 0\<rparr> = 0" by simp
    show "firstOf H' = firstOf ?H0" using h(1) H1(2) by simp
    show "map_option links (nodeOf H' j) = map_option links (nodeOf (link (tid X) (tid R) ?H0) j)"
      if "j \<in> set (ids (plug X fs)) \<or> j = tid R" for j
      using h(2) H1(1) [of j] s(1) that by auto
    show "new \<notin> insert 0 (insert (tid R) (set (ids (plug X fs)))) \<and> (\<exists>w. nodeOf H' new = Some w \<and> lft w = 0 \<and> rgt w = 0)"
      if "fs = []" using h(3) s(1) that by auto
  qed
  have "0 \<notin> set (ids P @ ids R @ ids_around fs)" using D(2) fresh(2) s(1) by simp
  then show ?thesis unfolding split_done_def by (intro conjI laid sz s(2) allI impI) (assumption, elim conjE, rule all)
qed

lemma pendingI:
  assumes "split_done lc bc H P k R fs n" "fs \<noteq> []"
  shows "pending lc bc (set_node (tid R) (\<lambda>v. v\<lparr>up := up_of fs\<rparr>) H) P k R fs n"
proof -
  let ?H = "set_node (tid R) (\<lambda>v. v\<lparr>up := up_of fs\<rparr>) H"
  from assms(1) have S: "laid H (up_of fs) P" "laid H 0 R" "around H (tid P) fs" "sized lc bc P" "sized lc bc R"
    "sized_around lc bc fs" "distinct (ids P @ ids R @ ids_around fs)"
    "firstOf ?H = firstOf H \<Longrightarrow> \<forall>j \<in> set (ids P @ ids R @ ids_around fs). map_option links (nodeOf ?H j) = map_option links (nodeOf H j) \<Longrightarrow>
      tree_shape ?H (graft P k R 0 fs) n"
    unfolding split_done_def using assms(2) by blast+
  have R: "tid R \<notin> set (ids P)" "tid R \<notin> set (ids_around fs)" "distinct (ids R)"
    using S(7) tid_ids [of R] by (auto simp del: tid_ids)
  have other: "j \<noteq> tid R \<Longrightarrow> nodeOf ?H j = nodeOf H j" for j by simp
  have "laid ?H (up_of fs) P"
    by (rule laid_cong [OF S(1)]) (use R(1) in \<open>metis other\<close>)
  moreover have "laid ?H (up_of fs) R"
    by (rule laid_adopted [OF S(2) _ _ R(3)]) simp_all
  moreover have "around ?H (tid P) fs"
    by (rule around_cong [OF S(3)]) (use R(2) in \<open>metis other heap_updates(3)\<close>)+
  moreover have "tree_shape ?H (graft P k R 0 fs) n"
    by (rule S(8) [OF heap_updates(5)]) (rule ballI, rule links_content)
  ultimately show ?thesis using S(4-6) unfolding pending_def by blast
qed

end
