(* ===== verification/TreePath.thy ===== *)
theory TreePath
  imports TreeShape
begin

text \<open>
  The way to the leaf of a key: a tree whose line increases is an ordered search tree, the search for a key
  ends in a leaf that has everything smaller on its left and everything greater on its right, and so
  an entry inserted into that leaf is inserted into the sorted list of all entries.
\<close>

section \<open>From the line to the order of the search\<close>

lemma keys_of_line:
  "length ts = length ks + 1 \<Longrightarrow> sorted_wrt (<) (weave (map line ts) (map mark ks)) \<Longrightarrow> sorted_wrt (<) ks"
proof (induction ts arbitrary: ks)
  case (Cons t ts)
  show ?case
  proof (cases ks)
    case k: (Cons k js)
    have l: "length (map line ts) = length (map mark js) + 1" using Cons.prems(1) k by simp
    have "set (map mark js) \<subseteq> set (weave (map line ts) (map mark js))"
    proof -
      from l obtain u us where "ts = u # us" by (cases ts) auto
      with l set_weave_right [of "map line us" "map mark js"] weave_first [of "map mark js" "map line us" "line u"]
      show ?thesis by auto
    qed
    moreover have "sorted_wrt (<) (line t @ mark k # weave (map line ts) (map mark js))" using Cons.prems(2) k by simp
    ultimately have "\<forall>x \<in> mark ` set js. mark k < x" "sorted_wrt (<) (weave (map line ts) (map mark js))"
      unfolding sorted_wrt_append by (simp_all add: subset_iff)
    with Cons.IH [of js] l k show ?thesis by simp
  qed simp
qed simp

lemma set_weave: "set (weave xs ks) = set (concat xs) \<union> set ks"
  by (induction xs ks rule: weave.induct) auto

lemma mark_bound: "mark k + 1 < 2 * 2 ^ 32"
proof -
  have "unat k < 2 ^ LENGTH(32)" by (rule unsigned_less)
  then show ?thesis by (simp add: mark_def)
qed

lemma line_bound: "x \<in> set (line t) \<Longrightarrow> x < 2 * 2 ^ 32"
proof (induction t)
  case (Leafy i es)
  then show ?case using mark_bound by fastforce
next
  case (Branchy i ks ts)
  from Branchy.prems consider u where "u \<in> set ts" "x \<in> set (line u)" | k where "x = mark k"
    by (auto simp: set_weave)
  then show ?case
  proof cases
    case 2
    then show ?thesis using mark_bound [of k] by linarith
  qed (rule Branchy.IH)
qed

lemma line_child:
  assumes "length ts = length ks + 1" "j < length ts"
  shows "line (Branchy i ks ts) = weave_left (map line (take j ts)) (map mark (take j ks)) @ line (ts ! j) @
    weave_right (map mark (drop j ks)) (map line (drop (Suc j) ts))"
  using line_hole [of "take j ts" "take j ks" "drop (Suc j) ts" "drop j ks" i "ts ! j"] assms
    id_take_nth_drop [OF assms(2)] by (simp del: line.simps)

lemma ordered_line:
  assumes "sized lc bc t" "sorted_wrt (<) (line t)" "\<And>x. x \<in> set (line t) \<Longrightarrow> 2 * lo \<le> x \<and> x < 2 * hi"
  shows "ordered lo hi t"
  using assms
proof (induction t arbitrary: lo hi)
  case (Leafy i es)
  have "sorted_wrt (<) (map leKey es)" using Leafy(2) by (auto simp: sorted_wrt_map)
  moreover have "lo \<le> unat (leKey e) \<and> unat (leKey e) < hi" if "e \<in> set es" for e
    using Leafy(3) [of "mark (leKey e) + 1"] that by (auto simp: mark_def)
  ultimately show ?case by (auto simp: ordered_simps)
next
  case (Branchy i ks ts)
  have l: "ks \<noteq> []" "length ts = length ks + 1" "\<And>u. u \<in> set ts \<Longrightarrow> sized lc bc u" using Branchy.prems(1) by auto
  have k: "lo \<le> unat k \<and> unat k < hi" if "k \<in> set ks" for k
    using Branchy.prems(3) [of "mark k"] that by (auto simp: set_weave mark_def)
  have "ordered (lower lo ks j) (upper hi ks j) (ts ! j)" if j: "j < length ts" for j
  proof (rule Branchy.IH)
    let ?L = "weave_left (map line (take j ts)) (map mark (take j ks))"
    let ?R = "weave_right (map mark (drop j ks)) (map line (drop (Suc j) ts))"
    have e: "line (Branchy i ks ts) = ?L @ line (ts ! j) @ ?R" by (rule line_child [OF l(2) j])
    have s: "sorted_wrt (<) (?L @ line (ts ! j) @ ?R)" using Branchy.prems(2) e by simp
    have lr: "set (map mark (take j ks)) \<subseteq> set ?L" "set (map mark (drop j ks)) \<subseteq> set ?R"
      using j l(2) by (auto intro!: subsetD [OF set_weave_left] subsetD [OF set_weave_right])
    show "ts ! j \<in> set ts" using j by simp
    then show "sized lc bc (ts ! j)" by (rule l(3))
    show "sorted_wrt (<) (line (ts ! j))" using s by (simp add: sorted_wrt_append)
    show "2 * lower lo ks j \<le> x \<and> x < 2 * upper hi ks j" if x: "x \<in> set (line (ts ! j))" for x
    proof
      have b: "2 * lo \<le> x \<and> x < 2 * hi" using Branchy.prems(3) [of x] x e by simp
      show "2 * lower lo ks j \<le> x"
      proof (cases "j = 0")
        case False
        then have "ks ! (j - 1) \<in> set (take j ks)" using j l(2) by (auto simp: in_set_conv_nth intro!: exI [of _ "j - 1"])
        then have "mark (ks ! (j - 1)) \<in> set ?L" using lr(1) by auto
        then have "mark (ks ! (j - 1)) < x" using s x by (simp add: sorted_wrt_append)
        then show ?thesis using False by (simp add: lower_def mark_def)
      qed (use b in \<open>simp add: lower_def\<close>)
      show "x < 2 * upper hi ks j"
      proof (cases "j < length ks")
        case True
        then have "ks ! j \<in> set (drop j ks)" by (simp flip: Cons_nth_drop_Suc)
        then have "mark (ks ! j) \<in> set ?R" using lr(2) by auto
        then have "x < mark (ks ! j)" using s x by (simp add: sorted_wrt_append)
        then show ?thesis using True by (simp add: upper_def mark_def)
      qed (use b in \<open>simp add: upper_def\<close>)
    qed
  qed
  moreover have "sorted_wrt (<) ks" using Branchy.prems(2) l(2) by (intro keys_of_line [of ts]) auto
  ultimately show ?case using l k by (auto simp: ordered_simps)
qed

section \<open>The path to a leaf\<close>

definition spot :: "u32 \<Rightarrow> 'i frame list \<Rightarrow> bool" where
  "spot key fs \<longleftrightarrow> (\<forall>x \<in> set (line_left fs). x \<le> mark key) \<and> (\<forall>x \<in> set (line_right fs). mark key + 1 < x)"

lemma plug_append: "plug c (fs @ gs) = plug (plug c fs) gs"
  by (induction c fs rule: plug.induct) simp_all

lemma line_append: "line_left (fs @ gs) = line_left gs @ line_left fs" "line_right (fs @ gs) = line_right fs @ line_right gs"
  by (induction fs rule: line_left.induct) simp_all

lemma even_append: "even_frames (fs @ gs) \<longleftrightarrow> even_frames fs \<and> even_frames gs"
  by (induction fs rule: even_frames.induct) simp_all

lemma weave_left_le: "sorted_wrt (<) (weave_left xs ks) \<Longrightarrow> x \<in> set (weave_left xs ks) \<Longrightarrow> \<exists>k \<in> set ks. x \<le> k"
  by (induction xs ks rule: weave_left.induct) (auto simp: sorted_wrt_append dest: less_imp_le)

lemma weave_right_le: "sorted_wrt (<) (weave_right ks xs) \<Longrightarrow> x \<in> set (weave_right ks xs) \<Longrightarrow> \<exists>k \<in> set ks. k \<le> x"
  by (induction ks xs rule: weave_right.induct) (auto simp: sorted_wrt_append dest: less_imp_le)

lemma leaf_path:
  assumes "sized lc bc t" "sorted_wrt (<) (line t)"
  shows "\<exists>fs. t = plug (Leafy (fst (leaf_for key t)) (snd (leaf_for key t))) fs \<and> even_frames fs \<and> spot key fs"
  using assms
proof (induction t)
  case (Leafy i es)
  then show ?case by (intro exI [of _ "[]"]) (simp add: spot_def)
next
  case (Branchy i ks ts)
  let ?c = "slot key ks"
  have l: "length ts = length ks + 1" "?c < length ts" using Branchy.prems(1) slot_le [of key ks] by auto
  let ?F = "Frame i (take ?c ks) (take ?c ts) (drop ?c ks) (drop (Suc ?c) ts)"
  let ?L = "weave_left (map line (take ?c ts)) (map mark (take ?c ks))"
  let ?R = "weave_right (map mark (drop ?c ks)) (map line (drop (Suc ?c) ts))"
  have ks: "sorted_wrt (<) ks" using Branchy.prems l(1) by (intro keys_of_line [of ts]) auto
  have s: "sorted_wrt (<) (?L @ line (ts ! ?c) @ ?R)" using Branchy.prems(2) line_child [OF l] by metis
  then have s3: "sorted_wrt (<) ?L" "sorted_wrt (<) (line (ts ! ?c))" "sorted_wrt (<) ?R" by (simp_all add: sorted_wrt_append)
  have u: "ts ! ?c \<in> set ts" "sized lc bc (ts ! ?c)" using l(2) Branchy.prems(1) by simp_all
  from Branchy.IH [OF u s3(2)] obtain fs where
    fs: "ts ! ?c = plug (Leafy (fst (leaf_for key (ts ! ?c))) (snd (leaf_for key (ts ! ?c)))) fs" "even_frames fs" "spot key fs"
    by blast
  have "k \<le> key" if "k \<in> set (take ?c ks)" for k
  proof -
    from that obtain j where j: "j < ?c" "j < length ks" "k = ks ! j" by (auto simp: in_set_conv_nth)
    with slot_iff [OF ks j(2), of key] show ?thesis by simp
  qed
  then have left: "x \<le> mark key" if "x \<in> set ?L" for x
    using weave_left_le [OF s3(1) that] by (force simp: mark_def word_le_nat_alt)
  have "key < k" if "k \<in> set (drop ?c ks)" for k
  proof -
    from that obtain j where j: "?c + j < length ks" "k = ks ! (?c + j)"
      by (auto simp: in_set_conv_nth less_diff_conv add.commute)
    with slot_iff [OF ks j(1), of key] show ?thesis by simp
  qed
  then have right: "mark key + 1 < x" if "x \<in> set ?R" for x
    using weave_right_le [OF s3(3) that] by (force simp: mark_def word_less_nat_alt)
  have "spot key (fs @ [?F])" using fs(3) left right by (auto simp: spot_def line_append)
  moreover have "Branchy i ks ts = plug (ts ! ?c) [?F]" using id_take_nth_drop [OF l(2)] by simp
  then have "Branchy i ks ts = plug (Leafy (fst (leaf_for key (ts ! ?c))) (snd (leaf_for key (ts ! ?c)))) (fs @ [?F])"
    using fs(1) by (metis plug_append)
  moreover have "leaf_for key (Branchy i ks ts) = leaf_for key (ts ! ?c)" "even_frames (fs @ [?F])"
    using l fs(2) by (simp_all add: even_append)
  ultimately show ?case by (intro exI [of _ "fs @ [?F]"]) metis
qed

section \<open>Inserting an entry\<close>

lemma insertNth_rank: "insertNth (rank (leKey e) (map leKey es)) e es = insort_key leKey e es"
  by (induction es) (auto simp: insertNth_def rank_def)

lemma lookup_insort:
  "lookup (leKey e) es = None \<Longrightarrow>
    lookup k (insort_key leKey e es) = (if k = leKey e then Some (leItem e) else lookup k es)"
  by (induction es) (auto simp: lookup_def split: if_splits)

lemma insort_around:
  assumes "\<And>x. x \<in> set xs \<Longrightarrow> leKey x < leKey e" "\<And>x. x \<in> set zs \<Longrightarrow> leKey e < leKey x"
  shows "insort_key leKey e (xs @ ys @ zs) = xs @ insort_key leKey e ys @ zs"
proof -
  have "insort_key leKey e (ys @ zs) = insort_key leKey e ys @ zs"
    using assms(2) by (induction ys) (cases zs; auto simp: less_imp_le)+
  with assms(1) show ?thesis
  proof (induction xs)
    case (Cons x xs)
    have "\<not> leKey e \<le> leKey x" using Cons.prems(1) [of x] by simp
    with Cons show ?case by simp
  qed simp
qed

lemma inorder_line: "e \<in> set (inorder t) \<Longrightarrow> mark (leKey e) + 1 \<in> set (line t)"
  by (induction t) (auto simp: set_weave)

lemma line_odd: "filter odd (line t) = map (\<lambda>e. mark (leKey e) + 1) (inorder t)"
proof (induction t)
  case (Leafy i es)
  then show ?case by (induction es) (simp_all add: mark_def)
next
  case (Branchy i ks ts)
  have "filter odd (weave xs (map mark ks)) = concat (map (filter odd) xs)" for xs ks
    by (induction xs "map mark ks" arbitrary: ks rule: weave.induct) (auto simp: filter_concat mark_def filter_empty_conv)
  moreover have "map (\<lambda>t. filter odd (line t)) ts = map (\<lambda>t. map (\<lambda>e. mark (leKey e) + 1) (inorder t)) ts"
    using Branchy by simp
  ultimately show ?case by (simp add: comp_def map_concat cong: map_cong)
qed

lemma line_inorder: "sorted_wrt (<) (line t) \<Longrightarrow> sorted_wrt (<) (map leKey (inorder t))"
proof -
  assume "sorted_wrt (<) (line t)"
  then have "sorted_wrt (<) (filter odd (line t))" by (rule sorted_wrt_filter)
  then show ?thesis by (simp add: line_odd sorted_wrt_map)
qed

lemma concat_weave:
  "length xs = length ks \<Longrightarrow> set (concat xs) \<subseteq> set (weave_left xs ks)"
  "length xs = length ks \<Longrightarrow> set (concat xs) \<subseteq> set (weave_right ks xs)"
  by (induction xs ks rule: list_induct2) auto

lemma inorder_around_line:
  "even_frames fs \<Longrightarrow> (e \<in> set (inorder_left fs) \<longrightarrow> mark (leKey e) + 1 \<in> set (line_left fs)) \<and>
    (e \<in> set (inorder_right fs) \<longrightarrow> mark (leKey e) + 1 \<in> set (line_right fs))"
proof (induction fs rule: inorder_left.induct)
  case (2 i kl ls kr rs fs)
  have kids: "e \<in> set (concat (map inorder ts)) \<Longrightarrow> mark (leKey e) + 1 \<in> set (concat (map line ts))" for ts
    using inorder_line [of e] by auto
  have l: "length (map line ls) = length (map mark kl)" "length (map line rs) = length (map mark kr)"
    using "2.prems" by auto
  from 2 show ?case
    using kids [of ls] kids [of rs] subsetD [OF concat_weave(1) [OF l(1)]] subsetD [OF concat_weave(2) [OF l(2)]] by auto
qed simp

lemma sorted_insort:
  assumes "sorted_wrt (<) (map leKey es)" "leKey e \<notin> leKey ` set es"
  shows "sorted_wrt (<) (map leKey (insort_key leKey e es))"
  using assms by (induction es) (fastforce simp: set_insort_key)+

lemma line_insort:
  assumes "spot (leKey e) fs" "even_frames fs" "sorted_wrt (<) (line (plug (Leafy i es) fs))" "leKey e \<notin> leKey ` set es"
  shows "sorted_wrt (<) (line (plug (Leafy i (insort_key leKey e es)) fs))"
proof -
  let ?f = "\<lambda>e. mark (leKey e) + 1" and ?es = "insort_key leKey e es"
  have s: "sorted_wrt (<) (line_left fs @ map ?f es @ line_right fs)"
    using assms(3) line_plug [OF assms(2), of "Leafy i es"] by simp
  then have "sorted_wrt (<) (map leKey es)" by (auto simp: sorted_wrt_append sorted_wrt_map)
  from sorted_insort [OF this assms(4)] have "sorted_wrt (<) (map ?f ?es)" by (simp add: sorted_wrt_map)
  moreover have "x < ?f y" if "x \<in> set (line_left fs)" "y \<in> set ?es" for x y
    using s that assms(1) by (auto simp: sorted_wrt_append set_insort_key spot_def le_imp_less_Suc)
  moreover have "?f y < x" if "x \<in> set (line_right fs)" "y \<in> set ?es" for x y
    using s that assms(1) by (auto simp: sorted_wrt_append set_insort_key spot_def)
  ultimately have "sorted_wrt (<) (line_left fs @ map ?f ?es @ line_right fs)"
    using s by (auto simp: sorted_wrt_append)
  then show ?thesis using line_plug [OF assms(2), of "Leafy i ?es"] by simp
qed

lemma inorder_insort:
  assumes "spot (leKey e) fs" "even_frames fs"
  shows "inorder (plug (Leafy i (insort_key leKey e es)) fs) = insort_key leKey e (inorder (plug (Leafy i es) fs))"
proof -
  have "leKey x < leKey e" if "x \<in> set (inorder_left fs)" for x
    using inorder_around_line [OF assms(2), of x] that assms(1) by (fastforce simp: spot_def mark_def word_less_nat_alt)
  moreover have "leKey e < leKey x" if "x \<in> set (inorder_right fs)" for x
    using inorder_around_line [OF assms(2), of x] that assms(1) by (fastforce simp: spot_def mark_def word_less_nat_alt)
  ultimately show ?thesis by (simp add: inorder_plug insort_around)
qed

lemma lev_plug_cong: "(\<And>m. lev m c = lev m c') \<Longrightarrow> lev n (plug c fs) = lev n (plug c' fs)"
proof (induction fs arbitrary: c c')
  case (Cons f fs)
  obtain i kl ls kr rs where f: "f = Frame i kl ls kr rs" by (cases f)
  have "lev m (Branchy i (kl @ kr) (ls @ c # rs)) = lev m (Branchy i (kl @ kr) (ls @ c' # rs))" for m
    using Cons.prems by (cases m) simp_all
  from Cons.IH [OF this] show ?case by (simp add: f)
qed simp

lemma balanced_depth: "balanced n (plug c fs) \<Longrightarrow> length fs \<le> n \<and> balanced (n - length fs) c"
proof (induction c fs rule: plug.induct)
  case (2 c i kl ls kr rs fs)
  then have b: "length fs \<le> n" "balanced (n - length fs) (Branchy i (kl @ kr) (ls @ c # rs))" by auto
  then obtain m where m: "n - length fs = Suc m" by (cases "n - length fs") auto
  then have "n - Suc (length fs) = m" by simp
  with b m show ?case by auto
qed simp

text \<open>Other entries in a leaf, the same shape.\<close>

lemma tree_shape_leaf:
  assumes "tree_shape H (plug (Leafy i es) fs) n" "sorted_wrt (<) (line (plug (Leafy i es') fs))"
  shows "tree_shape H (plug (Leafy i es') fs) n"
proof -
  note D = tree_shapeD [OF assms(1)]
  have lev: "lev m (Leafy i es) = lev m (Leafy i es')" for m by (cases m) simp_all
  have "lev m (plug (Leafy i es) fs) = lev m (plug (Leafy i es') fs)" for m by (rule lev_plug_cong) (rule lev)
  moreover have "distinct (ids (plug (Leafy i es') fs))" using D(1) by (simp add: distinct_ids_plug)
  moreover have "balanced n (plug (Leafy i es') fs)" 
  proof -
    have "n = 0 + length fs" using balanced_depth [OF D(5)] by simp
    with D(5) show ?thesis by (simp only: balanced_plug balanced.simps)
  qed
  moreover have "first_leaf (plug (Leafy i es) fs) = first_leaf (plug (Leafy i es') fs)" by (rule first_leaf_plug) simp
  ultimately show ?thesis using D(2,4,6) assms(2) by (simp add: tree_shape_def chained_def)
qed

lemma sized_plugD: "sized lc bc (plug c fs) \<Longrightarrow> even_frames fs \<Longrightarrow> sized lc bc c \<and> sized_around lc bc fs"
proof (induction c fs rule: plug.induct)
  case (2 c i kl ls kr rs fs)
  then have "sized lc bc (Branchy i (kl @ kr) (ls @ c # rs))" "sized_around lc bc fs" by auto
  with "2.prems"(2) show ?case by auto
qed simp

text \<open>The leaf of a key in a tree, with what is around it.\<close>

lemma tree_ok_path:
  assumes "tree_ok lc bc H T n" "leaf_for key T = (i, es)"
  shows "\<exists>fs. T = plug (Leafy i es) fs \<and> even_frames fs \<and> spot key fs \<and> length fs = n \<and> sized_around lc bc fs \<and> length es \<le> lc"
proof -
  from assms(1) have S: "tree_shape H T n" "sized lc bc T \<or> T = Leafy (tid T) []" by (simp_all add: tree_ok_def)
  note D = tree_shapeD [OF S(1)]
  show ?thesis
  proof (cases "sized lc bc T")
    case True
    from leaf_path [OF True D(3), of key] assms(2) obtain fs where
      fs: "T = plug (Leafy i es) fs" "even_frames fs" "spot key fs" by auto
    have "length fs = n" using balanced_depth [OF D(5) [unfolded fs(1)]] by simp
    moreover have "sized_around lc bc fs" "length es \<le> lc" using sized_plugD [OF True [unfolded fs(1)] fs(2)] by simp_all
    ultimately show ?thesis using fs by blast
  next
    case False
    then have T: "T = Leafy (tid T) []" using S(2) by blast
    then have "leaf_for key T = (tid T, [])" by (metis leaf_for.simps(1))
    then have "T = Leafy i es" "es = []" using T assms(2) by simp_all
    with D(5) show ?thesis by (intro exI [of _ "[]"]) (simp add: spot_def)
  qed
qed

lemma tree_ok_ordered:
  assumes "tree_ok lc bc H T n"
  shows "ordered 0 (2 ^ 32) T"
proof (cases "sized lc bc T")
  case True
  from assms have "sorted_wrt (<) (line T)" by (simp add: tree_ok_def tree_shape_def)
  then show ?thesis
  proof (rule ordered_line [OF True])
    show "2 * 0 \<le> x \<and> x < 2 * 2 ^ 32" if "x \<in> set (line T)" for x using line_bound [OF that] by simp
  qed
next
  case False
  with assms have "T = Leafy (tid T) []" by (simp add: tree_ok_def)
  moreover have "ordered 0 (2 ^ 32) (Leafy i [])" for i by (simp add: ordered_simps)
  ultimately show ?thesis by metis
qed

end
