(* ===== verification/TreeInsert.thy ===== *)
theory TreeInsert
  imports TreePath
begin

text \<open>
  Inserting into the B+ tree: the entry goes into the leaf of its key, a full node splits, and the
  separator moves up along the parents until a branch has room or a new root is made. The result is
  again a tree with all the properties of the one before, whose entries are the old ones and the
  new one.
\<close>

section \<open>Positions in a branch\<close>

lemma rank_hole:
  assumes "sorted_wrt (<) (kl @ k # kr)"
  shows "rank k (kl @ kr) = length kl" "k \<notin> set (kl @ kr)"
proof -
  have l: "\<forall>x \<in> set kl. x < k" "\<forall>x \<in> set kr. k < x" using assms by (auto simp: sorted_wrt_append)
  then have "takeWhile (\<lambda>x. x < k) kr = []" by (cases kr) auto
  with l show "rank k (kl @ kr) = length kl" by (simp add: rank_def takeWhile_append2)
  from l show "k \<notin> set (kl @ kr)" by auto
qed

lemma sorted_infix: "sorted_wrt P (xs @ ys @ zs) \<Longrightarrow> sorted_wrt P ys"
  by (simp add: sorted_wrt_append)

text \<open>The key for a split node is not in its parent, and its position there is next to the node.\<close>

lemma graft_keys:
  assumes "sorted_wrt (<) (line (graft P k R new (Frame q kl ls kr rs # fs)))"
    "even_frames (Frame q kl ls kr rs # fs)"
  shows "sorted_wrt (<) (kl @ k # kr)" "sorted_wrt (<) (kl @ kr)"
proof -
  have "sorted_wrt (<) (line (Branchy q (kl @ k # kr) (ls @ P # R # rs)))"
    using assms line_plug [of fs] by (auto intro: sorted_infix simp del: line.simps)
  then show "sorted_wrt (<) (kl @ k # kr)" using assms(2) by (intro keys_of_line [of "ls @ P # R # rs"]) auto
  then show "sorted_wrt (<) (kl @ kr)" by (auto simp: sorted_wrt_append)
qed

lemma graft_inorder: "inorder (graft P k R new fs) = inorder_left fs @ inorder P @ inorder R @ inorder_right fs"
  by (cases fs; cases "hd fs") (simp_all add: inorder_plug)

section \<open>A separator for a branch\<close>

lemma pending_place:
  assumes "pending lc bc H P k R (Frame p kl ls kr rs # fs) n" "length (kl @ kr) < bc"
  shows "tree_ok lc bc (set_node p (\<lambda>v. v\<lparr>content := Children (kl @ k # kr) (map tid (ls @ P # R # rs))\<rparr>) H)
    (graft P k R 0 (Frame p kl ls kr rs # fs)) n"
proof -
  let ?X = "Branchy p (kl @ k # kr) (ls @ P # R # rs)"
  let ?H = "set_node p (\<lambda>v. v\<lparr>content := Children (kl @ k # kr) (map tid (ls @ P # R # rs))\<rparr>) H"
  from assms(1) have S: "laid H p P" "laid H p R" "around H (tid P) (Frame p kl ls kr rs # fs)"
    "sized lc bc P" "sized lc bc R" "sized_around lc bc (Frame p kl ls kr rs # fs)" "tree_shape H (plug ?X fs) n"
    by (simp_all add: pending_def)
  have d: "distinct (ids ?X @ ids_around fs)" using tree_shapeD(1) [OF S(7)] by (simp only: distinct_ids_plug)
  from S(3) obtain v where v: "nodeOf H p = Some v" "up v = up_of fs" by auto
  have other: "nodeOf ?H j = nodeOf H j" if "j \<noteq> p" for j using that by simp
  have "laid ?H p u" if u: "u \<in> set (ls @ P # R # rs)" for u
  proof (rule laid_cong)
    show "laid H p u" using S(1-3) u by auto
    fix j assume "j \<in> set (ids u)"
    then have "j \<noteq> p" using d u by auto
    then show "map_option body (nodeOf ?H j) = map_option body (nodeOf H j)" by (rule arg_cong [OF other])
  qed
  then have "laid ?H (up_of fs) ?X" using v by simp
  moreover have "around ?H (tid ?X) fs"
  proof (rule around_cong)
    show "around H (tid ?X) fs" using S(3) by simp
    fix j assume "j \<in> set (ids_around fs)"
    then have "j \<noteq> p" using d by auto
    then show "map_option body (nodeOf ?H j) = map_option body (nodeOf H j)" by (rule arg_cong [OF other])
  qed simp
  ultimately have "laid ?H 0 (plug ?X fs)" "rootOf ?H = Some (tid (plug ?X fs))" using laid_plug by blast+
  moreover have "tree_shape ?H (plug ?X fs) n" by (rule tree_shape_cong [OF S(7)]) (simp_all only: heap_updates(5) links_content)
  moreover have "sized lc bc (plug ?X fs)" using S(4-6) assms(2) by (intro sized_plug) auto
  ultimately show ?thesis by (simp add: tree_ok_def)
qed

lemma pending_nodes:
  assumes "pending lc bc H P k R (Frame p kl ls kr rs # fs) n" "nodeOf H r = None"
  shows "r \<notin> set (ids (graft P k R 0 (Frame p kl ls kr rs # fs)))"
proof -
  from assms(1) have S: "laid H p P" "laid H p R" "around H (tid P) (Frame p kl ls kr rs # fs)"
    by (simp_all add: pending_def)
  have "r \<noteq> p" using S(3) assms(2) by auto
  moreover have "r \<notin> set (ids_around fs)" using S(3) around_node [of H p fs r] assms(2) by auto
  moreover have "r \<notin> set (ids u)" if "u \<in> set (ls @ P # R # rs)" for u
    using S laid_node [of H p u r] assms(2) that by auto
  ultimately show ?thesis by auto
qed

lemma tids_ids: "set (map tid us) \<subseteq> set (concat (map ids us))"
  by (induction us) auto

lemma body_up: "map_option body a = map_option body b \<Longrightarrow>
    map_option body (map_option (\<lambda>v. v\<lparr>up := q\<rparr>) a) = map_option body (map_option (\<lambda>v. v\<lparr>up := q\<rparr>) b)"
  by (cases a; cases b) (simp_all add: body_def)

text \<open>The heap after the split of a full branch, and the two branches.\<close>

lemma laid_split:
  assumes X: "nodeOf H p = Some v" "up v = q" "distinct (ids (Branchy p ks ts))" "r \<notin> set (ids (Branchy p ks ts))"
    "\<And>u. u \<in> set ts \<Longrightarrow> laid H p u"
    and H1_def: "H1 = adopt (map tid (drop m ts)) r (link p r (set_node p (\<lambda>v. v\<lparr>content := Children (take (m - 1) ks) (map tid (take m ts))\<rparr>)
      (new_node r (Children (drop m ks) (map tid (drop m ts))) H)))"
  shows "laid H1 q (Branchy p (take (m - 1) ks) (take m ts))" "laid H1 0 (Branchy r (drop m ks) (drop m ts))"
    "\<And>j. j \<notin> set (ids (Branchy p ks ts)) \<Longrightarrow> j \<noteq> r \<Longrightarrow> map_option body (nodeOf H1 j) = map_option body (nodeOf H j)"
proof -
  let ?G = "set_node p (\<lambda>v. v\<lparr>content := Children (take (m - 1) ks) (map tid (take m ts))\<rparr>)
      (new_node r (Children (drop m ks) (map tid (drop m ts))) H)"
  have pr: "p \<noteq> r" using X(4) by auto
  have kids: "tid u \<in> set (concat (map ids ts))" if "u \<in> set (drop m ts)" for u
    using in_set_dropD [OF that] tid_ids [of u] by (auto simp del: tid_ids)
  have body: "map_option body (nodeOf H1 j) = map_option body (nodeOf ?G j)" if "j \<notin> set (map tid (drop m ts))" for j
    using that by (simp add: H1_def del: heap_updates(1,2))
  have adopted: "map_option body (nodeOf H1 j) = map_option body (map_option (\<lambda>v. v\<lparr>up := r\<rparr>) (nodeOf ?G j))"
    if "j \<in> set (map tid (drop m ts))" for j
    using that body_up [OF link_body [of p r ?G j]] by (simp add: H1_def del: heap_updates(1,2))
  have same: "nodeOf ?G j = nodeOf H j" if "j \<noteq> p" "j \<noteq> r" for j using that by simp
  have dt: "distinct (concat (map ids ts))" "p \<notin> set (concat (map ids ts))" "r \<notin> set (concat (map ids ts))"
    using X(3,4) by simp_all
  have "set (map tid (drop m ts)) \<subseteq> set (concat (map ids ts))"
    using tids_ids [of "drop m ts"] concat_split [of ids ts m] by auto
  then have "p \<notin> set (map tid (drop m ts))" "r \<notin> set (map tid (drop m ts))" using dt by blast+
  then have pn: "map_option body (nodeOf H1 p) = map_option body (nodeOf ?G p)"
    "map_option body (nodeOf H1 r) = map_option body (nodeOf ?G r)" using body by blast+
  have cut: "distinct (concat (map ids (take m ts)) @ concat (map ids (drop m ts)))"
    using dt(1) concat_split [of ids ts m] by simp
  have left: "laid H1 p u" if u: "u \<in> set (take m ts)" for u
  proof (rule laid_cong)
    show "laid H p u" using X(5) in_set_takeD [OF u] .
    fix j assume j: "j \<in> set (ids u)"
    then have m: "j \<in> set (concat (map ids (take m ts)))" "j \<in> set (concat (map ids ts))"
      using u in_set_takeD [OF u] by auto
    have "j \<notin> set (map tid (drop m ts))"
    proof
      assume "j \<in> set (map tid (drop m ts))"
      then have "j \<in> set (concat (map ids (drop m ts)))" by (rule subsetD [OF tids_ids])
      with cut m(1) show False by auto
    qed
    moreover have "j \<noteq> p" "j \<noteq> r" using dt m(2) by auto
    ultimately show "map_option body (nodeOf H1 j) = map_option body (nodeOf H j)" using body same by simp
  qed
  show "laid H1 q (Branchy p (take (m - 1) ks) (take m ts))"
    using pn(1) X(1,2) pr left by (auto simp: body_def)
  have right: "laid H1 r u" if u: "u \<in> set (drop m ts)" for u
  proof (rule laid_adopted)
    show "laid H p u" using X(5) in_set_dropD [OF u] .
    show du: "distinct (ids u)" using dt(1) in_set_dropD [OF u] by (auto dest: split_list)
    have n: "j \<noteq> p \<and> j \<noteq> r" if "j \<in> set (ids u)" for j using dt in_set_dropD [OF u] that by auto
    fix j assume j: "j \<in> set (ids u)" "j \<noteq> tid u"
    have "j \<notin> set (map tid (drop m ts))"
    proof
      assume "j \<in> set (map tid (drop m ts))"
      then obtain w where w: "w \<in> set (drop m ts)" "j = tid w" by auto
      have "w = u" using distinct_concatD [of ids "drop m ts" w u j] cut w u j(1) by auto
      with j(2) w(2) show False by simp
    qed
    with n [OF j(1)] show "map_option body (nodeOf H1 j) = map_option body (nodeOf H j)" using body same by simp
  next
    have "tid u \<noteq> p" "tid u \<noteq> r" using kids [OF u] dt by auto
    then show "map_option body (nodeOf H1 (tid u)) = map_option body (map_option (\<lambda>v. v\<lparr>up := r\<rparr>) (nodeOf H (tid u)))"
      using adopted [of "tid u"] same [of "tid u"] u by simp
  qed
  show "laid H1 0 (Branchy r (drop m ks) (drop m ts))"
    using pn(2) pr right by (auto simp: body_def)
  show "map_option body (nodeOf H1 j) = map_option body (nodeOf H j)"
    if "j \<notin> set (ids (Branchy p ks ts))" "j \<noteq> r" for j
  proof -
    have "j \<noteq> p" "j \<notin> set (map tid (drop m ts))" using that kids by auto
    then show ?thesis using body same that(2) by simp
  qed
qed

lemma pending_split:
  assumes pd: "pending lc bc H P k R (Frame p kl ls kr rs # fs) (Suc d + length fs)"
    and full: "length (kl @ kr) = bc" "4 \<le> bc" "h = bc div 2" and r: "nodeOf H r = None" "r \<noteq> 0"
    and ks'_def: "ks' = kl @ k # kr" and ts'_def: "ts' = ls @ P # R # rs"
    and H1_def: "H1 = adopt (map tid (drop (h + 1) ts')) r (link p r (set_node p (\<lambda>v. v\<lparr>content := Children (take h ks') (map tid (take (h + 1) ts'))\<rparr>)
      (new_node r (Children (drop (h + 1) ks') (map tid (drop (h + 1) ts'))) H)))"
  shows "split_done lc bc H1 (Branchy p (take h ks') (take (h + 1) ts')) (leKey (hd (inorder (hd (drop (h + 1) ts')))))
      (Branchy r (drop (h + 1) ks') (drop (h + 1) ts')) fs (if fs = [] then Suc (Suc d) else Suc d + length fs)"
proof -
  let ?X = "Branchy p ks' ts'" and ?P = "Branchy p (take h ks') (take (h + 1) ts')"
  let ?R = "Branchy r (drop (h + 1) ks') (drop (h + 1) ts')"
  from pd have S: "laid H p P" "laid H p R" "around H (tid P) (Frame p kl ls kr rs # fs)"
    "sized lc bc P" "sized lc bc R" "sized_around lc bc (Frame p kl ls kr rs # fs)"
    "tree_shape H (plug ?X fs) (Suc d + length fs)"
    by (simp_all add: pending_def ks'_def ts'_def)
  have bal: "balanced (Suc d) ?X" using tree_shapeD(5) [OF S(7)] by (simp only: balanced_plug)
  have fresh: "r \<notin> set (ids (plug ?X fs))" using pending_nodes [OF pd r(1)] by (simp add: ks'_def ts'_def)
  have len: "length ks' = bc + 1" "length ts' = length ks' + 1" "h + 1 < length ks'" "0 < h"
    using full S(6) by (auto simp: ks'_def ts'_def)
  have sz: "\<forall>u \<in> set ts'. sized lc bc u" using S(4-6) by (auto simp: ts'_def)
  have dx: "distinct (ids ?X @ ids_around fs)" using tree_shapeD(1) [OF S(7)] by (simp only: distinct_ids_plug)
  have "sorted_wrt (<) (line ?X)"
    using tree_shapeD(3) [OF S(7)] line_plug [of fs ?X] sized_around_even [OF S(6)]
    by (auto intro: sorted_infix simp del: line.simps)
  from branch_splits [OF this len(2,3) sz, of r] have
    sp: "splits ?X ?P (leKey (hd (inorder (hd (drop (h + 1) ts'))))) ?R" .
  have "r \<notin> set (ids ?X)" "distinct (ids ?X)" using fresh dx by auto
  moreover from S(3) obtain v where v: "nodeOf H p = Some v" "up v = up_of fs" by auto
  moreover have "laid H p u" if "u \<in> set ts'" for u using S(1-3) that by (auto simp: ts'_def)
  ultimately have laid: "laid H1 (up_of fs) ?P" "laid H1 0 ?R"
    "\<And>j. j \<notin> set (ids ?X) \<Longrightarrow> j \<noteq> r \<Longrightarrow> map_option body (nodeOf H1 j) = map_option body (nodeOf H j)"
    using laid_split [of H p v "up_of fs" ks' ts' r H1 "h + 1"] H1_def by simp_all
  have "around H1 (tid ?P) fs"
  proof (rule around_cong)
    show "around H (tid ?P) fs" using S(3) by simp
    show "rootOf H1 = rootOf H" by (simp add: H1_def)
    fix j assume "j \<in> set (ids_around fs)"
    then have "j \<notin> set (ids ?X)" "j \<noteq> r" using dx fresh by auto
    then show "map_option body (nodeOf H1 j) = map_option body (nodeOf H j)" by (rule laid(3))
  qed
  moreover have "map_option links (nodeOf H1 j) = map_option links (nodeOf (link p r
      (new_node r (Children (drop (h + 1) ks') (map tid (drop (h + 1) ts'))) H)) j)" for j
    unfolding H1_def by (simp only: links_content links_link_content)
  moreover have "first_leaf ?P = first_leaf ?X" using len(2) by (cases ts') simp_all
  moreover have "balanced (Suc d) ?P" "balanced (Suc d) ?R" using bal by (auto dest: in_set_takeD in_set_dropD)
  moreover have "sized lc bc ?P" "sized lc bc ?R" "sized_around lc bc fs"
    using sz len full S(6) by (auto dest: in_set_takeD in_set_dropD)
  moreover have "firstOf H1 = firstOf H" by (simp add: H1_def)
  ultimately show ?thesis
    using split_doneI [OF S(7) sp, of lc bc H1] fresh r(2) laid(1,2)
    by (simp del: laid.simps sized.simps balanced.simps set_ids_plug)
qed

lemma around_root: "around H c fs \<Longrightarrow> rootOf H = Some z \<Longrightarrow> fs \<noteq> [] \<Longrightarrow> z \<in> set (ids_around fs)"
proof (induction H c fs rule: around.induct)
  case (2 H c i kl ls kr rs fs)
  then show ?case by (cases fs) auto
qed simp

text \<open>The two halves of the root under a new one.\<close>

lemma newRoot_tree:
  assumes "split_done lc bc H P k R [] n" "nodeOf H r = None" "r \<noteq> 0" "1 \<le> bc"
    and H1_def: "H1 = (set_node r (\<lambda>v. v\<lparr>up := 0\<rparr>) (set_node (tid R) (\<lambda>v. v\<lparr>up := r\<rparr>) (set_node (tid P) (\<lambda>v. v\<lparr>up := r\<rparr>)
      (new_node r (Children [k] [tid P, tid R]) H))))\<lparr>rootOf := Some r\<rparr>"
  shows "tree_ok lc bc H1 (graft P k R r []) n"
proof -
  from assms(1) have S: "laid H 0 P" "laid H 0 R" "sized lc bc P" "sized lc bc R" "distinct (ids P @ ids R)"
    "\<And>H' new. firstOf H' = firstOf H \<Longrightarrow>
        (\<forall>j \<in> set (ids P @ ids R). map_option links (nodeOf H' j) = map_option links (nodeOf H j)) \<Longrightarrow>
        new \<notin> insert 0 (set (ids P @ ids R)) \<and> (\<exists>w. nodeOf H' new = Some w \<and> lft w = 0 \<and> rgt w = 0) \<Longrightarrow>
        tree_shape H' (graft P k R new []) n"
    by (simp_all add: split_done_def)
  have r: "r \<notin> set (ids P)" "r \<notin> set (ids R)" using laid_node [OF S(1), of r] laid_node [OF S(2), of r] assms(2) by auto
  have t: "tid P \<notin> set (ids R)" "tid R \<notin> set (ids P)" using S(5) tid_ids [of P] tid_ids [of R] by (auto simp del: tid_ids)
  have n: "nodeOf H1 j = (if j = tid P \<or> j = tid R then map_option (\<lambda>v. v\<lparr>up := r\<rparr>) (nodeOf H j) else nodeOf H j)"
    if "j \<noteq> r" for j using that t tid_ids [of P] by (auto simp: H1_def simp del: tid_ids)
  have in_ids: "j \<noteq> r" "j = tid P \<or> j = tid R \<longleftrightarrow> j = tid u" if "j \<in> set (ids u)" "u = P \<or> u = R" for j u
    using that r t by auto
  have "laid H1 r u" if u: "u = P \<or> u = R" for u
  proof (rule laid_adopted)
    show "laid H 0 u" "distinct (ids u)" using S(1,2,5) u by auto
    show "map_option body (nodeOf H1 (tid u)) = map_option body (map_option (\<lambda>v. v\<lparr>up := r\<rparr>) (nodeOf H (tid u)))"
      using n [of "tid u"] in_ids [OF tid_ids u] by simp
    show "map_option body (nodeOf H1 j) = map_option body (nodeOf H j)" if "j \<in> set (ids u)" "j \<noteq> tid u" for j
      using n [of j] in_ids [OF that(1) u] that(2) by simp
  qed
  then have "laid H1 r P" "laid H1 r R" by simp_all
  moreover have rn: "nodeOf H1 r = Some \<lparr>content = Children [k] [tid P, tid R], up = 0, lft = 0, rgt = 0\<rparr>"
    using r by (auto simp: H1_def)
  ultimately have "laid H1 0 (graft P k R r [])" by simp
  moreover have "tree_shape H1 (graft P k R r []) n"
  proof (rule S(6))
    show "\<forall>j \<in> set (ids P @ ids R). map_option links (nodeOf H1 j) = map_option links (nodeOf H j)"
    proof
      fix j assume "j \<in> set (ids P @ ids R)"
      then have "j \<noteq> r" using r by auto
      then show "map_option links (nodeOf H1 j) = map_option links (nodeOf H j)"
        using n by (cases "nodeOf H j") (simp_all add: links_def)
    qed
  qed (use rn r assms(3) in \<open>auto simp: H1_def\<close>)
  ultimately show ?thesis using S(3,4) assms(4) by (simp add: tree_ok_def H1_def)
qed

section \<open>An entry for a leaf\<close>

lemma leaf_room:
  assumes "tree_ok lc bc H (plug (Leafy i es) fs) n" "even_frames fs" "spot (leKey e) fs" "sized_around lc bc fs"
    "leKey e \<notin> leKey ` set es" "length es < lc"
    and H1_def: "H1 = set_node i (\<lambda>v. v\<lparr>content := Entries (insort_key leKey e es)\<rparr>) H"
  shows "tree_ok lc bc H1 (plug (Leafy i (insort_key leKey e es)) fs) n"
proof -
  let ?es = "insort_key leKey e es"
  from assms(1) have S: "laid H 0 (plug (Leafy i es) fs)" "rootOf H = Some (tid (plug (Leafy i es) fs))"
    "tree_shape H (plug (Leafy i es) fs) n" by (simp_all add: tree_ok_def)
  then have L: "laid H (up_of fs) (Leafy i es)" "around H i fs" using laid_plug [of H "Leafy i es" fs] by simp_all
  have d: "i \<notin> set (ids_around fs)" using tree_shapeD(1) [OF S(3)] by (simp add: distinct_ids_plug)
  have other: "nodeOf H1 j = nodeOf H j" if "j \<noteq> i" for j using that by (simp add: H1_def)
  have "around H1 i fs"
  proof (rule around_cong [OF L(2)])
    show "rootOf H1 = rootOf H" by (simp add: H1_def)
    fix j assume "j \<in> set (ids_around fs)"
    then have "j \<noteq> i" using d by auto
    then show "map_option body (nodeOf H1 j) = map_option body (nodeOf H j)" by (rule arg_cong [OF other])
  qed
  moreover have "laid H1 (up_of fs) (Leafy i ?es)" using L(1) by (auto simp: H1_def)
  ultimately have "laid H1 0 (plug (Leafy i ?es) fs)" "rootOf H1 = Some (tid (plug (Leafy i ?es) fs))"
    using laid_plug [of H1 "Leafy i ?es" fs] by simp_all
  moreover have "tree_shape H (plug (Leafy i ?es) fs) n"
    by (rule tree_shape_leaf [OF S(3) line_insort [OF assms(3,2) tree_shapeD(3) [OF S(3)] assms(5)]])
  then have "tree_shape H1 (plug (Leafy i ?es) fs) n"
    by (rule tree_shape_cong) (simp_all only: H1_def heap_updates(5) links_content)
  moreover have "sized lc bc (plug (Leafy i ?es) fs)"
    using assms(4,6) by (intro sized_plug) (simp_all add: length_insort)
  ultimately show ?thesis by (simp add: tree_ok_def)
qed

lemma leaf_split:
  assumes "tree_ok lc bc H (plug (Leafy i es) fs) (length fs)" "even_frames fs" "spot (leKey e) fs" "sized_around lc bc fs"
    "leKey e \<notin> leKey ` set es" "length es = lc" "2 \<le> lc" "h = lc div 2" "nodeOf H r = None" "r \<noteq> 0"
    and es'_def: "es' = insort_key leKey e es"
    and H1_def: "H1 = link i r (set_node i (\<lambda>v. v\<lparr>content := Entries (take h es')\<rparr>) (new_node r (Entries (drop h es')) H))"
  shows "split_done lc bc H1 (Leafy i (take h es')) (leKey (es' ! h)) (Leafy r (drop h es')) fs
      (if fs = [] then Suc 0 else length fs)"
proof -
  from assms(1) have S: "laid H 0 (plug (Leafy i es) fs)" "rootOf H = Some (tid (plug (Leafy i es) fs))"
    "tree_shape H (plug (Leafy i es) fs) (length fs)" by (simp_all add: tree_ok_def)
  then have L: "laid H (up_of fs) (Leafy i es)" "around H i fs" using laid_plug [of H "Leafy i es" fs] by simp_all
  have r: "r \<noteq> i" "r \<notin> set (ids_around fs)" using L assms(9) around_node [OF L(2), of r] by auto
  have d: "i \<notin> set (ids_around fs)" using tree_shapeD(1) [OF S(3)] by (simp add: distinct_ids_plug)
  have h: "0 < h" "h < length es'" "length es' = lc + 1" using assms(6-8) by (auto simp: es'_def length_insort)
  have T: "tree_shape H (plug (Leafy i es') fs) (0 + length fs)"
    using tree_shape_leaf [OF S(3) line_insort [OF assms(3,2) tree_shapeD(3) [OF S(3)] assms(5)]] by (simp add: es'_def)
  then have "sorted_wrt (<) (line (Leafy i es'))"
    using tree_shapeD(3) [OF T] line_plug [OF assms(2), of "Leafy i es'"] by (auto intro: sorted_infix simp del: line.simps)
  from leaf_splits [OF this h(1,2), of r] have sp: "splits (Leafy i es') (Leafy i (take h es')) (leKey (es' ! h)) (Leafy r (drop h es'))" .
  let ?G = "set_node i (\<lambda>v. v\<lparr>content := Entries (take h es')\<rparr>) (new_node r (Entries (drop h es')) H)"
  have body: "map_option body (nodeOf H1 j) = map_option body (nodeOf ?G j)" for j unfolding H1_def by (rule link_body)
  have "laid H1 (up_of fs) (Leafy i (take h es'))" "laid H1 0 (Leafy r (drop h es'))"
    using body [of i] body [of r] L(1) r(1) by (auto simp: body_def)
  moreover have "around H1 (tid (Leafy i (take h es'))) fs"
  proof (rule around_cong)
    show "around H (tid (Leafy i (take h es'))) fs" using L(2) by simp
    show "rootOf H1 = rootOf H" by (simp add: H1_def)
    fix j assume "j \<in> set (ids_around fs)"
    then have "nodeOf ?G j = nodeOf H j" using d r by auto
    with body [of j] show "map_option body (nodeOf H1 j) = map_option body (nodeOf H j)" by simp
  qed
  moreover have "map_option links (nodeOf H1 j) = map_option links (nodeOf (link i r (new_node r (Entries (drop h es')) H)) j)" for j
    unfolding H1_def by (rule links_link_content)
  moreover have "sized lc bc (Leafy i (take h es'))" "sized lc bc (Leafy r (drop h es'))" using h assms(7,8) by auto
  moreover have "firstOf H1 = firstOf H" by (simp add: H1_def)
  moreover have "r \<notin> set (ids (plug (Leafy i es') fs))" using r by simp
  ultimately show ?thesis
    using split_doneI [OF T sp, of lc bc H1 "Entries (drop h es')"] assms(4,10)
    by (cases "fs = []") (simp_all del: laid.simps sized.simps set_ids_plug)
qed

section \<open>The code of the insertion\<close>

text \<open>A tree in the adapter, with the room that is left.\<close>

context node_store begin

definition tree_at :: "nat \<Rightarrow> nat \<Rightarrow> 'x \<Rightarrow> nat \<Rightarrow> nat \<Rightarrow> 's \<Rightarrow> 'i LeafEntry list \<Rightarrow> nat \<Rightarrow> bool" where
  "tree_at lc bc x0 lo hi s es n \<longleftrightarrow>
     (\<exists>k H T. holds x0 k s H {} \<and> lo \<le> k \<and> k \<le> hi \<and> tree_ok lc bc H T n \<and> inorder T = es)"

lemma tree_atI:
  assumes "holds x0 k s H hs" "lo \<le> k" "k \<le> hi" "tree_ok lc bc H T n" "inorder T = es"
  shows "tree_at lc bc x0 lo hi s es n"
  unfolding tree_at_def using assms(2-) holds_mono [OF assms(1), of "{}"] by blast

lemma allocateNewRoot_Ok:
  assumes "adapter t = A" "holds x0 k s H hs" "(hp, tid P) \<in> hs" "(hr, tid R) \<in> hs"
    "split_done lc bc H P key R [] n" "room x0 (Suc k)" "1 \<le> bc"
  shows "\<exists>root s'. allocateNewRoot t key hp hr s = Ok (root, s') \<and>
    tree_at lc bc x0 (Suc k) (Suc k) s' (inorder P @ inorder R) n"
proof -
  from assms(5) have L: "laid H 0 P" "laid H 0 R" by (simp_all add: split_done_def)
  from laid_children [OF L(1)] obtain vp where vp: "nodeOf H (tid P) = Some vp" by blast
  from laid_children [OF L(2)] obtain vr where vr: "nodeOf H (tid R) = Some vr" by blast
  have i1: "NodeID A hp s = Ok (tid P, s)" "NodeID A hr s = Ok (tid R, s)"
    using NodeID_Ok [OF assms(2,3) vp] NodeID_Ok [OF assms(2,4) vr] by simp_all
  from CreateBranch_Ok [OF assms(2,6), of "\<lparr>beKey = key, LowerThanKeyNodeID = tid P, GreaterThanOrEqualToKeyNodeID = tid R\<rparr>"]
  obtain b r s1 where s1: "CreateBranch A \<lparr>beKey = key, LowerThanKeyNodeID = tid P, GreaterThanOrEqualToKeyNodeID = tid R\<rparr> s = Ok (b, s1)"
    "nodeOf H r = None" "r \<noteq> 0" "holds x0 (Suc k) s1 (new_node r (Children [key] [tid P, tid R]) H) (insert (BranchNode b, r) hs)"
    by auto
  let ?H1 = "new_node r (Children [key] [tid P, tid R]) H" and ?hs = "insert (BranchNode b, r) hs"
  have rn: "r \<noteq> tid P" "r \<noteq> tid R" using s1(2) vp vr by auto
  have i2: "NodeID A (BranchNode b) s1 = Ok (r, s1)" using NodeID_Ok [OF s1(4) insertI1] by simp
  have m: "(hp, tid P) \<in> ?hs" "(hr, tid R) \<in> ?hs" using assms(3,4) by auto
  have "nodeOf ?H1 (tid P) = Some vp" using vp rn by simp
  from SetParentID_Ok [OF s1(4) m(1) this, of r] obtain s2 where
    s2: "SetParentID A hp r s1 = Ok ((), s2)" "holds x0 (Suc k) s2 (set_node (tid P) (\<lambda>v. v\<lparr>up := r\<rparr>) ?H1) ?hs" by blast
  let ?H2 = "set_node (tid P) (\<lambda>v. v\<lparr>up := r\<rparr>) ?H1"
  have "\<exists>v. nodeOf ?H2 (tid R) = Some v" using vr rn by auto
  then obtain w where "nodeOf ?H2 (tid R) = Some w" by blast
  from SetParentID_Ok [OF s2(2) m(2) this, of r] obtain s3 where
    s3: "SetParentID A hr r s2 = Ok ((), s3)" "holds x0 (Suc k) s3 (set_node (tid R) (\<lambda>v. v\<lparr>up := r\<rparr>) ?H2) ?hs" by blast
  let ?H3 = "set_node (tid R) (\<lambda>v. v\<lparr>up := r\<rparr>) ?H2"
  have "\<exists>v. nodeOf ?H3 r = Some v" using rn by auto
  then obtain u where "nodeOf ?H3 r = Some u" by blast
  from SetRoot_Ok [OF s3(2) insertI1 this] obtain s4 where
    s4: "SetRoot A (BranchNode b) s3 = Ok ((), s4)"
      "holds x0 (Suc k) s4 ((set_node r (\<lambda>v. v\<lparr>up := 0\<rparr>) ?H3)\<lparr>rootOf := Some r\<rparr>) ?hs" by blast
  have "tree_ok lc bc ((set_node r (\<lambda>v. v\<lparr>up := 0\<rparr>) ?H3)\<lparr>rootOf := Some r\<rparr>) (graft P key R r []) n"
    by (rule newRoot_tree [OF assms(5) s1(2,3) assms(7) refl])
  from tree_atI [OF s4(2) order_refl order_refl this] have "tree_at lc bc x0 (Suc k) (Suc k) s4 (inorder P @ inorder R) n"
    by simp
  moreover have "allocateNewRoot t key hp hr s = Ok (b, s4)"
    using i1 s1(1) i2 s2(1) s3(1) s4(1) by (simp add: allocateNewRoot_def Let_def bind_def seq_def assms(1))
  ultimately show ?thesis by blast
qed

text \<open>
  The capacities of the tree: half of the keys of a full branch, and one more, are not all of them.
\<close>

definition capacities :: "('s, 'l, 'b, 'i) bPlusTree \<Rightarrow> nat \<Rightarrow> nat \<Rightarrow> bool" where
  "capacities t lc bc \<longleftrightarrow> adapter t = A \<and> leafCapacity t = int lc \<and> halfLeafCapacity t = int (lc div 2) \<and>
     branchCapacity t = int bc \<and> halfBranchCapacity t = int (bc div 2) \<and> 2 \<le> lc \<and> 4 \<le> bc \<and>
     (\<forall>m \<le> lc. leafFits m) \<and> (\<forall>m \<le> bc. branchFits m)"

lemma insertOnBranch_room:
  assumes "capacities t lc bc" "holds x0 k s H hs" "(BranchNode b, p) \<in> hs" "(g, tid R) \<in> hs"
    "pending lc bc H P key R (Frame p kl ls kr rs # fs) n" "length (kl @ kr) < bc"
  shows "\<exists>s'. insertOnBranch t (Suc m) b (int (length kl)) key g s = Ok ((), s') \<and>
    tree_at lc bc x0 k k s' (inorder (graft P key R 0 (Frame p kl ls kr rs # fs))) n"
proof -
  from assms(5) have S: "laid H p R" "around H (tid P) (Frame p kl ls kr rs # fs)" "sized_around lc bc (Frame p kl ls kr rs # fs)"
    by (simp_all add: pending_def)
  from S(2) obtain v where v: "nodeOf H p = Some v" "content v = Children (kl @ kr) (map tid ls @ tid P # map tid rs)" by auto
  from laid_children [OF S(1)] obtain w where w: "nodeOf H (tid R) = Some w" by blast
  have len: "kl @ kr \<noteq> []" "length (map tid ls @ tid P # map tid rs) = length (kl @ kr) + 1" "length kl \<le> length (kl @ kr)"
    "length ls = length kl"
    using S(3) by auto
  have fits: "branchFits (length (kl @ kr) + 1)" using assms(1,6) by (simp add: capacities_def)
  have A: "adapter t = A" "branchCapacity t = int bc" using assms(1) by (simp_all add: capacities_def)
  from BranchInsertAt_Ok [OF assms(2,3) v len(1-3) fits, of key "tid R"] obtain s' where
    s': "BranchInsertAt A b (int (length kl)) key (tid R) s = Ok ((), s')"
      "holds x0 k s' (set_node p (\<lambda>v. v\<lparr>content := Children (insertNth (length kl) key (kl @ kr))
        (insertNth (length kl + 1) (tid R) (map tid ls @ tid P # map tid rs))\<rparr>) H) hs" by blast
  have "insertNth (length kl) key (kl @ kr) = kl @ key # kr"
    "insertNth (length kl + 1) (tid R) (map tid ls @ tid P # map tid rs) = map tid (ls @ P # R # rs)"
    using len(4) by (simp_all add: insertNth_def)
  with s'(2) tree_atI [OF _ order_refl order_refl pending_place [OF assms(5,6)] refl]
  have "tree_at lc bc x0 k k s' (inorder (graft P key R 0 (Frame p kl ls kr rs # fs))) n" by metis
  moreover have "insertOnBranch t (Suc m) b (int (length kl)) key g s = Ok ((), s')"
    using TotalKeys_Ok [OF assms(2,3) v(1)] NodeID_Ok [OF assms(2,4) w] s'(1) v(2) assms(6)
    by (simp add: A bind_def)
  ultimately show ?thesis by blast
qed

text \<open>After a split the code asks whether the node is the root, and finds its parent if it is not.\<close>

lemma split_root:
  assumes "split_done lc bc H P key R fs n" "holds x0 k s H hs" "(hp, tid P) \<in> hs"
  shows "IsRoot A hp s = Ok (fs = [], s)"
proof -
  note D = split_doneD [OF assms(1)]
  have S: "laid H (up_of fs) P" "around H (tid P) fs" "set (ids P) \<inter> set (ids_around fs) = {}" "0 \<notin> set (ids_around fs)"
    using D(1,3,7,8) by auto
  from laid_children [OF S(1)] obtain v where v: "nodeOf H (tid P) = Some v" "up v = up_of fs" by blast
  have "rootOf H = Some (tid P) \<longleftrightarrow> fs = []"
  proof (cases fs)
    case (Cons f gs)
    have "rootOf H \<noteq> Some (tid P)"
      using S(2,3) tid_ids [of P] Cons around_root [of H "tid P" fs] by (auto simp del: tid_ids)
    with Cons show ?thesis by simp
  qed (use S(2) in simp)
  moreover have "up_of fs = 0 \<longleftrightarrow> fs = []" using S(4) by (cases fs rule: up_of.cases) auto
  ultimately show ?thesis using IsRoot_Ok [OF assms(2,3) v(1)] v(2) by simp
qed

lemma split_parent:
  assumes "split_done lc bc H P key R (Frame q kl ls kr rs # fs) n" "holds x0 k s H hs" "(hp, tid P) \<in> hs"
  shows "ParentID A hp s = Ok (q, s)"
    "\<exists>pb s'. LoadBranch A q s = Ok (Some pb, s') \<and> holds x0 k s' H (insert (BranchNode pb, q) hs)"
    "q \<noteq> tid R" "\<exists>v. nodeOf H q = Some v \<and> content v = Children (kl @ kr) (map tid ls @ tid P # map tid rs)"
    "sorted_wrt (<) (kl @ key # kr)"
proof -
  from assms(1) have S: "laid H q P" "around H (tid P) (Frame q kl ls kr rs # fs)" "q \<notin> set (ids R)"
    "sized_around lc bc (Frame q kl ls kr rs # fs)"
    using split_doneD(1,3,6,7) [OF assms(1)] by auto
  from laid_children [OF S(1)] obtain v where v: "nodeOf H (tid P) = Some v" "up v = q" by blast
  then show "ParentID A hp s = Ok (q, s)" using ParentID_Ok [OF assms(2,3)] by simp
  show n: "\<exists>v. nodeOf H q = Some v \<and> content v = Children (kl @ kr) (map tid ls @ tid P # map tid rs)" using S(2) by auto
  then show "\<exists>pb s'. LoadBranch A q s = Ok (Some pb, s') \<and> holds x0 k s' H (insert (BranchNode pb, q) hs)"
    using LoadBranch_Ok [OF assms(2)] by blast
  show "q \<noteq> tid R" using S(3) by auto
  have "tree_shape H (graft P key R 0 (Frame q kl ls kr rs # fs)) n" using split_doneD(9) [OF assms(1)] by blast
  then show "sorted_wrt (<) (kl @ key # kr)"
    using graft_keys(1) [OF _ sized_around_even [OF S(4)]] by (auto dest: tree_shapeD(3) simp del: line.simps graft.simps)
qed

lemma findOnNode_parent:
  assumes "adapter t = A" "holds x0 k s H hs" "(BranchNode pb, q) \<in> hs"
    "\<exists>v. nodeOf H q = Some v \<and> content v = Children (kl @ kr) ps" "sorted_wrt (<) (kl @ key # kr)"
  shows "findOnNode t (BranchNode pb) key s = Ok ((int (length kl), False), s)"
proof -
  from assms(4) obtain v where v: "nodeOf H q = Some v" "content v = Children (kl @ kr) ps" by blast
  have "sorted_wrt (<) (kl @ kr)" using assms(5) by (auto simp: sorted_wrt_append)
  with findOnNode_holds [OF assms(1-3) v(1), of key] v(2) rank_hole [OF assms(5)] show ?thesis by simp
qed

lemma right_neighbour:
  assumes "chained H (plug X fs)" "nodeOf H (tid X) = Some v"
  shows "rgt v = 0 \<or> nodeOf H (rgt v) \<noteq> None"
proof -
  have "seg H 0 (lev (length fs) (plug X fs)) 0" using assms(1) by (simp add: chained_def)
  then have s: "seg H 0 (lev_left 0 fs @ tid X # lev_right 0 fs) 0" using lev_plug [of 0 fs X] by simp
  from seg_right [OF s] assms(2) have "rgt v = hd (lev_right 0 fs @ [0])" by (simp add: right_of_def)
  with s show ?thesis by (cases "lev_right 0 fs") (auto simp: seg_append)
qed

lemma branchSplit_pending:
  assumes C: "capacities t lc bc" and h: "holds x0 k s H hs" "(BranchNode b, p) \<in> hs" "(g, tid R) \<in> hs"
    and pd: "pending lc bc H P key R (Frame p kl ls kr rs # fs) (Suc d + length fs)" "length (kl @ kr) = bc"
    and m: "d < m" "room x0 (Suc k)"
  shows "\<exists>rb P' key' R' s' H'. branchSplit t m b (int (length kl)) key g s = Ok ((rb, key'), s') \<and> tid P' = p \<and>
    holds x0 (Suc k) s' H' (insert (BranchNode rb, tid R') hs) \<and>
    (\<forall>new. inorder (graft P' key' R' new fs) = inorder (graft P key R 0 (Frame p kl ls kr rs # fs))) \<and>
    split_done lc bc H' P' key' R' fs (if fs = [] then Suc (Suc d) else Suc d + length fs)"
proof -
  let ?h = "bc div 2" and ?ks' = "kl @ key # kr" and ?ts' = "ls @ P # R # rs"
  let ?us = "drop (?h + 1) ?ts'" and ?ps = "map tid ls @ tid P # map tid rs"
  from C have c: "adapter t = A" "halfBranchCapacity t = int ?h" "4 \<le> bc" "\<And>n. n \<le> length (kl @ kr) \<Longrightarrow> branchFits n"
    using pd(2) by (simp_all add: capacities_def)
  from pd(1) have S: "laid H p P" "laid H p R" "around H (tid P) (Frame p kl ls kr rs # fs)"
    "sized lc bc P" "sized lc bc R" "sized_around lc bc (Frame p kl ls kr rs # fs)"
    "tree_shape H (plug (Branchy p ?ks' ?ts') fs) (Suc d + length fs)"
    by (simp_all add: pending_def)
  have bal: "balanced (Suc d) (Branchy p ?ks' ?ts')" using tree_shapeD(5) [OF S(7)] by (simp only: balanced_plug)
  have dist: "distinct (ids (Branchy p ?ks' ?ts') @ ids_around fs)" using tree_shapeD(1) [OF S(7)] by (simp only: distinct_ids_plug)
  from S(3) obtain v where v: "nodeOf H p = Some v" "content v = Children (kl @ kr) ?ps" by auto
  have len: "length ?ps = length (kl @ kr) + 1" "length kl \<le> length (kl @ kr)" "length ls = length kl" using S(6) by auto
  have hh: "1 < ?h" "?h + 2 \<le> length (kl @ kr)" using c(3) pd(2) by auto
  have ins: "insertNth (length kl) key (kl @ kr) = ?ks'" "insertNth (length kl + 1) (tid R) ?ps = map tid ?ts'"
    using len(3) by (simp_all add: insertNth_def)
  have "rgt v = 0 \<or> nodeOf H (rgt v) \<noteq> None"
    using right_neighbour [of H "Branchy p ?ks' ?ts'" fs v] tree_shapeD(4) [OF S(7)] v(1) by simp
  moreover have "\<forall>d \<in> insert (tid R) (set ?ps). nodeOf H d \<noteq> None"
    using S(1-3) laid_children by fastforce
  moreover have "map tid ?us = drop (?h + 1) (insertNth (length kl + 1) (tid R) ?ps)" by (simp only: ins drop_map)
  moreover have "\<forall>u \<in> set ?us. stored H u \<and> sized lc bc u \<and> balanced d u"
  proof
    fix u assume "u \<in> set ?us"
    then have "u \<in> set ?ts'" by (rule in_set_dropD)
    then show "stored H u \<and> sized lc bc u \<and> balanced d u"
      using S(1-6) bal laid_stored by auto
  qed
  moreover have "\<forall>u \<in> set ?us. p \<notin> set (ids u)"
  proof
    fix u assume "u \<in> set ?us"
    then have "u \<in> set ?ts'" by (rule in_set_dropD)
    then show "p \<notin> set (ids u)" using dist by auto
  qed
  ultimately obtain rb r s' where s': "branchSplit t m b (int (length kl)) key g s = Ok ((rb, leKey (hd (inorder (hd ?us)))), s')"
    "nodeOf H r = None" "r \<noteq> 0"
    "holds x0 (Suc k) s' (adopt (drop (?h + 1) (map tid ?ts')) r
      (link p r (set_node p (\<lambda>v. v\<lparr>content := Children (take ?h ?ks') (take (?h + 1) (map tid ?ts'))\<rparr>)
        (new_node r (Children (drop (?h + 1) ?ks') (drop (?h + 1) (map tid ?ts'))) H)))) (insert (BranchNode rb, r) hs)"
    using branchSplit_Ok [OF c(1) h v len(1,2) c(2) hh m(2) c(4) _ _ _ _ _ m(1) ins(1) [symmetric] ins(2) [symmetric],
        of ?us lc bc]
    by (auto simp: ins)
  let ?P = "Branchy p (take ?h ?ks') (take (?h + 1) ?ts')" and ?R = "Branchy r (drop (?h + 1) ?ks') ?us"
  let ?key = "leKey (hd (inorder (hd ?us)))"
  let ?H = "adopt (map tid ?us) r (link p r (set_node p (\<lambda>v. v\<lparr>content := Children (take ?h ?ks') (map tid (take (?h + 1) ?ts'))\<rparr>)
        (new_node r (Children (drop (?h + 1) ?ks') (map tid ?us)) H)))"
  have sd: "split_done lc bc ?H ?P ?key ?R fs (if fs = [] then Suc (Suc d) else Suc d + length fs)"
    by (rule pending_split [OF pd c(3) refl s'(2,3) refl refl refl])
  have io: "inorder (Branchy p ?ks' ?ts') = inorder ?P @ inorder ?R" using concat_split [of inorder ?ts' "?h + 1"] by simp
  have "inorder (graft ?P ?key ?R new fs) = inorder (plug (Branchy p ?ks' ?ts') fs)" for new
    using io by (simp only: graft_inorder inorder_plug append_assoc)
  then have gr: "\<forall>new. inorder (graft ?P ?key ?R new fs) = inorder (graft P key R 0 (Frame p kl ls kr rs # fs))" by simp
  have ho: "holds x0 (Suc k) s' ?H (insert (BranchNode rb, tid ?R) hs)" using s'(4) by (simp only: drop_map take_map tid.simps)
  show ?thesis
    by (rule exI [of _ rb], rule exI [of _ ?P], rule exI [of _ ?key], rule exI [of _ ?R], rule exI [of _ s'], rule exI [of _ ?H])
      (intro conjI s'(1) ho gr sd tid.simps(2))
qed

lemma tree_at_mono:
  "tree_at lc bc x0 lo hi s es n \<Longrightarrow> lo' \<le> lo \<Longrightarrow> hi \<le> hi' \<Longrightarrow> tree_at lc bc x0 lo' hi' s es n"
  unfolding tree_at_def by (elim exE conjE, intro exI conjI, assumption, erule (1) order_trans, erule (1) order_trans, assumption+)

lemma insertOnBranch_Ok:
  assumes C: "capacities t lc bc"
  shows "holds x0 k s H hs \<Longrightarrow> (BranchNode b, p) \<in> hs \<Longrightarrow> (g, tid R) \<in> hs \<Longrightarrow>
    pending lc bc H P key R (Frame p kl ls kr rs # fs) (Suc d + length fs) \<Longrightarrow>
    d + 2 * length fs + 2 \<le> m \<Longrightarrow> \<forall>j \<le> k + length fs + 2. room x0 j \<Longrightarrow>
    \<exists>s' n'. insertOnBranch t m b (int (length kl)) key g s = Ok ((), s') \<and>
      n' \<le> Suc (Suc d + length fs) \<and>
      tree_at lc bc x0 k (k + length fs + 2) s' (inorder (graft P key R 0 (Frame p kl ls kr rs # fs))) n'"
proof (induction fs arbitrary: k s H hs b p g R P key kl ls kr rs d m)
  case Nil
  then obtain m' where m: "m = Suc m'" by (cases m) auto
  show ?case
  proof (cases "length (kl @ kr) < bc")
    case True
    from insertOnBranch_room [OF C Nil.prems(1-4) True, of m', folded m] obtain s' where
      s': "insertOnBranch t m b (int (length kl)) key g s = Ok ((), s')"
        "tree_at lc bc x0 k k s' (inorder (graft P key R 0 (Frame p kl ls kr rs # []))) (Suc d + length ([] :: 'i frame list))"
      by (elim exE conjE) (rule that)
    have "tree_at lc bc x0 k (k + length ([] :: 'i frame list) + 2) s' (inorder (graft P key R 0 (Frame p kl ls kr rs # []))) (Suc d + length ([] :: 'i frame list))"
      by (rule tree_at_mono [OF s'(2) order_refl]) simp
    with s'(1) show ?thesis by (meson le_SucI order_refl)
  next
    case False
    have full: "length (kl @ kr) = bc" using False Nil.prems(4) by (auto simp: pending_def)
    have A: "adapter t = A" "branchCapacity t = int bc" "1 \<le> bc" using C by (simp_all add: capacities_def)
    have r: "room x0 (Suc k)" "room x0 (Suc (Suc k))" "d < m'" using Nil.prems(5,6) m by auto
    from branchSplit_pending [OF C Nil.prems(1-4) full r(3,1)] obtain rb P' key' R' s1 H1 where
      s1: "branchSplit t m' b (int (length kl)) key g s = Ok ((rb, key'), s1)" "tid P' = p"
        "holds x0 (Suc k) s1 H1 (insert (BranchNode rb, tid R') hs)"
        "\<forall>new. inorder (graft P' key' R' new []) = inorder (graft P key R 0 [Frame p kl ls kr rs])"
        "split_done lc bc H1 P' key' R' [] (Suc (Suc d))"
      by auto
    have b: "(BranchNode b, tid P') \<in> insert (BranchNode rb, tid R') hs" using Nil.prems(2) s1(2) by simp
    from allocateNewRoot_Ok [OF A(1) s1(3) b insertI1 s1(5) r(2) A(3)] obtain root s2 where
      s2: "allocateNewRoot t key' (BranchNode b) (BranchNode rb) s1 = Ok (root, s2)"
        "tree_at lc bc x0 (Suc (Suc k)) (Suc (Suc k)) s2 (inorder P' @ inorder R') (Suc (Suc d))" by blast
    from Nil.prems(4) have "around H (tid P) [Frame p kl ls kr rs]" by (simp add: pending_def)
    then obtain v where v: "nodeOf H p = Some v" "content v = Children (kl @ kr) (map tid ls @ tid P # map tid rs)" by auto
    have "insertOnBranch t m b (int (length kl)) key g s = Ok ((), s2)"
      using TotalKeys_Ok [OF Nil.prems(1,2) v(1)] v(2) full s1(1) split_root [OF s1(5,3) b] s2(1)
      by (simp add: m A bind_def)
    moreover have "tree_at lc bc x0 k (k + length ([] :: 'i frame list) + 2) s2 (inorder (graft P key R 0 [Frame p kl ls kr rs])) (Suc (Suc d))"
      using tree_at_mono [OF s2(2), of k "k + 2"] spec [OF s1(4), of 0] by simp
    ultimately show ?thesis by auto
  qed
next
  case (Cons f fs)
  obtain q jl us jr vs where f: "f = Frame q jl us jr vs" by (cases f)
  from Cons.prems(5) obtain m' where m: "m = Suc m'" by (cases m) auto
  show ?case
  proof (cases "length (kl @ kr) < bc")
    case True
    from insertOnBranch_room [OF C Cons.prems(1-4) True, of m', folded m] obtain s' where
      s': "insertOnBranch t m b (int (length kl)) key g s = Ok ((), s')"
        "tree_at lc bc x0 k k s' (inorder (graft P key R 0 (Frame p kl ls kr rs # (f # fs)))) (Suc d + length (f # fs))"
      by (elim exE conjE) (rule that)
    have "tree_at lc bc x0 k (k + length (f # fs) + 2) s' (inorder (graft P key R 0 (Frame p kl ls kr rs # (f # fs)))) (Suc d + length (f # fs))"
      by (rule tree_at_mono [OF s'(2) order_refl]) simp
    with s'(1) show ?thesis by (meson le_SucI order_refl)
  next
    case False
    have full: "length (kl @ kr) = bc" using False Cons.prems(4) by (auto simp: pending_def)
    have A: "adapter t = A" "branchCapacity t = int bc" using C by (simp_all add: capacities_def)
    have r: "room x0 (Suc k)" "d < m'" using Cons.prems(5,6) m by auto
    from branchSplit_pending [OF C Cons.prems(1-4) full r(2,1)] obtain rb P' key' R' s1 H1 where
      s1: "branchSplit t m' b (int (length kl)) key g s = Ok ((rb, key'), s1)" "tid P' = p"
        "holds x0 (Suc k) s1 H1 (insert (BranchNode rb, tid R') hs)"
        "\<forall>new. inorder (graft P' key' R' new (f # fs)) = inorder (graft P key R 0 (Frame p kl ls kr rs # f # fs))"
        "split_done lc bc H1 P' key' R' (Frame q jl us jr vs # fs) (Suc (Suc d) + length fs)"
      by (auto simp: f)
    let ?hs = "insert (BranchNode rb, tid R') hs"
    have b: "(BranchNode b, tid P') \<in> ?hs" using Cons.prems(2) s1(2) by simp
    note Q = split_parent [OF s1(5,3) b]
    from Q(2) obtain pb s2 where s2: "LoadBranch A q s1 = Ok (Some pb, s2)" "holds x0 (Suc k) s2 H1 (insert (BranchNode pb, q) ?hs)"
      by blast
    let ?gs = "insert (BranchNode pb, q) ?hs"
    from Q(4) have nq: "NodeID A (BranchNode pb) s2 = Ok (q, s2)" using NodeID_Ok [OF s2(2) insertI1] by blast
    from laid_children [OF split_doneD(2) [OF s1(5)]] obtain w where w: "nodeOf H1 (tid R') = Some w" by blast
    have rin: "(BranchNode rb, tid R') \<in> ?gs" by simp
    from SetParentID_Ok [OF s2(2) rin w, of q] obtain s3 where
      s3: "SetParentID A (BranchNode rb) q s2 = Ok ((), s3)"
        "holds x0 (Suc k) s3 (set_node (tid R') (\<lambda>v. v\<lparr>up := q\<rparr>) H1) ?gs" by blast
    let ?H = "set_node (tid R') (\<lambda>v. v\<lparr>up := q\<rparr>) H1"
    have "\<exists>v. nodeOf ?H q = Some v \<and> content v = Children (jl @ jr) (map tid us @ tid P' # map tid vs)"
      using Q(3,4) by simp
    from findOnNode_parent [OF A(1) s3(2) insertI1 this Q(5)] have
      fn: "findOnNode t (BranchNode pb) key' s3 = Ok ((int (length jl), False), s3)" .
    have pd: "pending lc bc ?H P' key' R' (Frame q jl us jr vs # fs) (Suc (Suc d) + length fs)"
      using pendingI [OF s1(5)] by simp
    have fuel: "Suc d + 2 * length fs + 2 \<le> m'" "\<forall>j \<le> Suc k + length fs + 2. room x0 j"
      using Cons.prems(5,6) m by auto
    from Cons.IH [OF s3(2) insertI1 rin pd fuel] obtain s4 n' where
      s4: "insertOnBranch t m' pb (int (length jl)) key' (BranchNode rb) s3 = Ok ((), s4)" "n' \<le> Suc (Suc (Suc d) + length fs)"
        "tree_at lc bc x0 (Suc k) (Suc k + length fs + 2) s4 (inorder (graft P' key' R' 0 (f # fs))) n'"
      unfolding f by blast
    from Cons.prems(4) have "around H (tid P) (Frame p kl ls kr rs # f # fs)" by (simp add: pending_def)
    then obtain v where v: "nodeOf H p = Some v" "content v = Children (kl @ kr) (map tid ls @ tid P # map tid rs)" by auto
    have "insertOnBranch t m b (int (length kl)) key g s = Ok ((), s4)"
      using TotalKeys_Ok [OF Cons.prems(1,2) v(1)] v(2) full s1(1) split_root [OF s1(5,3) b] Q(1) s2(1) nq s3(1) fn s4(1)
      by (simp add: m A bind_def seq_def)
    moreover have "tree_at lc bc x0 k (k + length (f # fs) + 2) s4 (inorder (graft P key R 0 (Frame p kl ls kr rs # f # fs))) n'"
      using tree_at_mono [OF s4(3), of k "k + length (f # fs) + 2"] spec [OF s1(4), of 0] by simp
    ultimately show ?thesis using s4(2) by (intro exI [of _ s4] exI [of _ n']) simp
  qed
qed

lemma insertOnLeaf_Ok:
  assumes C: "capacities t lc bc" and h: "holds x0 k s H hs" "(LeafNode l, i) \<in> hs"
    and T: "tree_ok lc bc H (plug (Leafy i es) fs) (length fs)" "even_frames fs" "spot (leKey e) fs" "sized_around lc bc fs"
    "leKey e \<notin> leKey ` set es" "length es \<le> lc"
    and fuel: "2 * length fs \<le> m" "\<forall>j \<le> k + length fs + 2. room x0 j"
  shows "\<exists>s' n'. insertOnLeaf t m l (int (rank (leKey e) (map leKey es))) e s = Ok ((), s') \<and> n' \<le> Suc (length fs) \<and>
    tree_at lc bc x0 k (k + length fs + 2) s' (insort_key leKey e (inorder (plug (Leafy i es) fs))) n'"
proof -
  let ?pos = "rank (leKey e) (map leKey es)" and ?es = "insort_key leKey e es"
  have A: "adapter t = A" "leafCapacity t = int lc" "halfLeafCapacity t = int (lc div 2)" "2 \<le> lc" "1 \<le> bc"
    "\<And>n. n \<le> lc \<Longrightarrow> leafFits n" using C by (simp_all add: capacities_def)
  have "laid H (up_of fs) (Leafy i es)" using T(1) laid_plug [of H "Leafy i es" fs] by (simp add: tree_ok_def)
  then obtain v where v: "nodeOf H i = Some v" "content v = Entries es" by auto
  have pos: "?pos \<le> length es" using rank_le [of "leKey e" "map leKey es"] by simp
  have tk: "TotalKeys A (LeafNode l) s = Ok (int (length es), s)" using TotalKeys_Ok [OF h v(1)] v(2) by simp
  note io = inorder_insort [OF T(3,2), of i es]
  show ?thesis
  proof (cases "length es < lc")
    case True
    from LeafInsertAt_Ok [OF h v pos, of e] A(6) True obtain s' where
      s': "LeafInsertAt A l (int ?pos) e s = Ok ((), s')"
        "holds x0 k s' (set_node i (\<lambda>v. v\<lparr>content := Entries (insertNth ?pos e es)\<rparr>) H) hs" by auto
    have "tree_at lc bc x0 k (k + length fs + 2) s' (insort_key leKey e (inorder (plug (Leafy i es) fs))) (length fs)"
      by (rule tree_atI [OF s'(2) order_refl _ leaf_room [OF T(1-5) True] io]) (simp_all add: insertNth_rank)
    moreover have "insertOnLeaf t m l (int ?pos) e s = Ok ((), s')"
      using tk s'(1) True A(1,2) by (simp add: insertOnLeaf_def bind_def)
    ultimately show ?thesis by (intro exI [of _ s'] exI [of _ "length fs"]) simp
  next
    case False
    let ?h = "lc div 2"
    have full: "length es = lc" using False T(6) by simp
    have hh: "0 < ?h" "?h < length es + 1" "room x0 (Suc k)" using A(4) full fuel(2) by auto
    have "rgt v = 0 \<or> nodeOf H (rgt v) \<noteq> None"
      using right_neighbour [of H "Leafy i es" fs v] T(1) v(1) by (auto simp: tree_ok_def dest: tree_shapeD(4))
    from leafSplit_Ok [OF A(1) h v pos A(3) hh, of e] A(6) full this obtain rl r s1 where
      s1: "leafSplit t l (int ?pos) e s = Ok (rl, s1)" "nodeOf H r = None" "r \<noteq> 0"
        "holds x0 (Suc k) s1 (link i r (set_node i (\<lambda>v. v\<lparr>content := Entries (take ?h ?es)\<rparr>)
          (new_node r (Entries (drop ?h ?es)) H))) (insert (LeafNode rl, r) hs)"
      by (auto simp: insertNth_rank)
    let ?P = "Leafy i (take ?h ?es)" and ?R = "Leafy r (drop ?h ?es)" and ?key = "leKey (?es ! ?h)"
    let ?H = "link i r (set_node i (\<lambda>v. v\<lparr>content := Entries (take ?h ?es)\<rparr>) (new_node r (Entries (drop ?h ?es)) H))"
    let ?hs = "insert (LeafNode rl, r) hs"
    have sd: "split_done lc bc ?H ?P ?key ?R fs (if fs = [] then Suc 0 else length fs)"
      by (rule leaf_split [OF T(1-5) full A(4) refl s1(2,3) refl refl])
    have io2: "inorder (graft ?P ?key ?R new fs) = insort_key leKey e (inorder (plug (Leafy i es) fs))" for new
      using io append_take_drop_id [of ?h ?es] by (simp only: graft_inorder inorder_plug inorder.simps(1) append_assoc [symmetric])
    from split_doneD(2) [OF sd] obtain w where w: "nodeOf ?H r = Some w" "content w = Entries (drop ?h ?es)" by auto
    have ka: "KeyAt A (LeafNode rl) 0 s1 = Ok (?key, s1)"
      using KeyAt_Ok [OF s1(4) insertI1 w(1), of 0] w(2) full hh(2) by (simp add: length_insort)
    have l: "(LeafNode l, tid ?P) \<in> ?hs" using h(2) by simp
    show ?thesis
    proof (cases fs)
      case Nil
      have sd': "split_done lc bc ?H ?P ?key ?R [] (Suc 0)" using sd Nil by simp
      have rl: "(LeafNode rl, tid ?R) \<in> ?hs" "room x0 (Suc (Suc k))" using fuel(2) by simp_all
      from allocateNewRoot_Ok [OF A(1) s1(4) l rl(1) sd' rl(2) A(5)] obtain root s2 where
        s2: "allocateNewRoot t ?key (LeafNode l) (LeafNode rl) s1 = Ok (root, s2)"
          "tree_at lc bc x0 (Suc (Suc k)) (Suc (Suc k)) s2 (inorder ?P @ inorder ?R) (Suc 0)" by blast
      have "insertOnLeaf t m l (int ?pos) e s = Ok ((), s2)"
        using tk full s1(1) ka split_root [OF sd s1(4) l] s2(1) A(1,2) Nil by (simp add: insertOnLeaf_def Let_def bind_def)
      moreover have "tree_at lc bc x0 k (k + length fs + 2) s2 (insort_key leKey e (inorder (plug (Leafy i es) fs))) (Suc 0)"
        using tree_at_mono [OF s2(2), of k "k + length fs + 2"] io2 [of 0] Nil by simp
      ultimately show ?thesis by (intro exI [of _ s2] exI [of _ "Suc 0"]) simp
    next
      case (Cons f gs)
      obtain q jl us jr vs where f: "f = Frame q jl us jr vs" by (cases f)
      have sd': "split_done lc bc ?H ?P ?key ?R (Frame q jl us jr vs # gs) (Suc 0 + length gs)" using sd Cons f by simp
      note Q = split_parent [OF sd' s1(4) l]
      from Q(2) obtain pb s2 where s2: "LoadBranch A q s1 = Ok (Some pb, s2)" "holds x0 (Suc k) s2 ?H (insert (BranchNode pb, q) ?hs)"
        by blast
      let ?gs = "insert (BranchNode pb, q) ?hs"
      from Q(4) have nq: "NodeID A (BranchNode pb) s2 = Ok (q, s2)" using NodeID_Ok [OF s2(2) insertI1] by blast
      from findOnNode_parent [OF A(1) s2(2) insertI1 Q(4,5)] have
        fn: "findOnNode t (BranchNode pb) ?key s2 = Ok ((int (length jl), False), s2)" .
      have rin: "(LeafNode rl, r) \<in> ?gs" "(LeafNode rl, tid ?R) \<in> ?gs" by simp_all
      from SetParentID_Ok [OF s2(2) rin(1) w(1), of q] obtain s3 where
        s3: "SetParentID A (LeafNode rl) q s2 = Ok ((), s3)" "holds x0 (Suc k) s3 (set_node r (\<lambda>v. v\<lparr>up := q\<rparr>) ?H) ?gs" by blast
      have pd: "pending lc bc (set_node r (\<lambda>v. v\<lparr>up := q\<rparr>) ?H) ?P ?key ?R (Frame q jl us jr vs # gs) (Suc 0 + length gs)"
        using pendingI [OF sd'] by simp
      have fu: "0 + 2 * length gs + 2 \<le> m" "\<forall>j \<le> Suc k + length gs + 2. room x0 j" using fuel Cons by auto
      from insertOnBranch_Ok [OF C s3(2) insertI1 rin(2) pd fu] obtain s4 n' where
        s4: "insertOnBranch t m pb (int (length jl)) ?key (LeafNode rl) s3 = Ok ((), s4)" "n' \<le> Suc (Suc 0 + length gs)"
          "tree_at lc bc x0 (Suc k) (Suc k + length gs + 2) s4 (inorder (graft ?P ?key ?R 0 (Frame q jl us jr vs # gs))) n'"
        by blast
      have "insertOnLeaf t m l (int ?pos) e s = Ok ((), s4)"
        using tk full s1(1) ka split_root [OF sd s1(4) l] Q(1) s2(1) nq fn s3(1) s4(1) A(1,2) Cons
        by (simp add: insertOnLeaf_def Let_def bind_def seq_def)
      moreover have "tree_at lc bc x0 k (k + length fs + 2) s4 (insort_key leKey e (inorder (plug (Leafy i es) fs))) n'"
        using tree_at_mono [OF s4(3), of k "k + length fs + 2"] io2 [of 0] Cons f by simp
      ultimately show ?thesis using s4(2) Cons by (intro exI [of _ s4] exI [of _ n']) simp
    qed
  qed
qed

subsection \<open>Insert\<close>

lemma lookup_None_iff: "lookup key es = None \<longleftrightarrow> key \<notin> leKey ` set es"
  by (force simp: lookup_def map_of_eq_None_iff image_iff)

lemma tree_at_repr:
  assumes "tree_at lc bc x 0 hi s es n"
  shows "\<exists>x' T. repr s x' \<and> tree_ok lc bc (vw x') T n \<and> inorder T = es \<and> other x x' \<and> (\<forall>j. room x (j + hi) \<longrightarrow> room x' j)"
proof -
  from assms obtain k H T where "holds x k s H {}" "k \<le> hi" "tree_ok lc bc H T n" "inorder T = es" by (auto simp: tree_at_def)
  moreover from this(1) obtain x' where x: "repr s x'" "vw x' = H" "other x x'" "\<forall>n. room x (n + k) \<longrightarrow> room x' n"
    by (rule holdsE)
  moreover have "room x' j" if "room x (j + hi)" for j using x(4) room_less [OF that, of "j + k"] \<open>k \<le> hi\<close> by simp
  ultimately show ?thesis by blast
qed

lemma treeInsert_leaf:
  assumes C: "capacities t lc bc" and x: "repr s x" "tree_ok lc bc (vw x) T n" "n \<le> m"
  shows "\<exists>r s1 l s2. LoadRoot A s = Ok (Some r, s1) \<and> leafForKey t m r key s1 = Ok (l, s2) \<and> repr s2 x \<and>
    at s2 (LeafNode l) (fst (leaf_for key T)) \<and>
    findOnNode t (LeafNode l) key s2 = Ok ((int (rank key (map leKey (snd (leaf_for key T)))),
      lookup key (inorder T) \<noteq> None), s2)"
proof -
  from x(2) have S: "laid (vw x) 0 T" "rootOf (vw x) = Some (tid T)" "balanced n T"
    by (simp_all add: tree_ok_def tree_shape_def)
  have A: "adapter t = A" using C by (simp add: capacities_def)
  from leafForKey_Ok [OF A tree_ok_ordered [OF x(2)] S(3) x(3) laid_stored [OF S(1)] x(1) S(2), of key]
    lookup_inorder [OF tree_ok_ordered [OF x(2)], of key]
  show ?thesis by (simp add: lookup_None_iff)
qed

lemma treeInsert_exists:
  assumes "capacities t lc bc" "repr s x" "tree_ok lc bc (vw x) T n" "n \<le> m" "lookup key (inorder T) \<noteq> None"
  shows "\<exists>s'. treeInsert t m key item s = Ok (Some (ErrKeyExists key), s') \<and> repr s' x"
proof -
  have "adapter t = A" using assms(1) by (simp add: capacities_def)
  with treeInsert_leaf [OF assms(1-4), of key] assms(5) show ?thesis
    by (auto simp: treeInsert_def Let_def bind_def)
qed

lemma treeInsert_new:
  assumes C: "capacities t lc bc" and x: "repr s x" "tree_ok lc bc (vw x) T n" "2 * n \<le> m" "room x (n + 2)"
    and new: "lookup key (inorder T) = None"
  shows "\<exists>s' n'. treeInsert t m key item s = Ok (None, s') \<and> n' \<le> Suc n \<and>
    tree_at lc bc x 0 (n + 2) s' (insort_key leKey \<lparr>leKey = key, leItem = item\<rparr> (inorder T)) n'"
proof -
  let ?e = "\<lparr>leKey = key, leItem = item\<rparr>"
  have A: "adapter t = A" using C by (simp add: capacities_def)
  obtain i es where p: "leaf_for key T = (i, es)" by (cases "leaf_for key T")
  from treeInsert_leaf [OF C x(1,2), of m key] x(3) p obtain r s1 l s2 where
    L: "LoadRoot A s = Ok (Some r, s1)" "leafForKey t m r key s1 = Ok (l, s2)" "repr s2 x" "at s2 (LeafNode l) i"
      "findOnNode t (LeafNode l) key s2 = Ok ((int (rank key (map leKey es)), False), s2)"
    using new by auto
  from tree_ok_path [OF x(2) p] obtain fs where fs: "T = plug (Leafy i es) fs" "even_frames fs" "spot key fs"
    "length fs = n" "sized_around lc bc fs" "length es \<le> lc" by blast
  have "leKey ?e \<notin> leKey ` set es"
    using new lookup_inorder [OF tree_ok_ordered [OF x(2)], of key] p by (simp add: lookup_None_iff)
  moreover have "holds x 0 s2 (vw x) {(LeafNode l, i)}" using L(3,4) by (intro holds_start) auto
  moreover have "\<forall>j \<le> 0 + length fs + 2. room x j" using room_less [OF x(4)] fs(4) by simp
  ultimately obtain s' n' where
    s': "insertOnLeaf t m l (int (rank key (map leKey es))) ?e s2 = Ok ((), s')" "n' \<le> Suc n"
      "tree_at lc bc x 0 (n + 2) s' (insort_key leKey ?e (inorder T)) n'"
    using insertOnLeaf_Ok [OF C, of x 0 s2 "vw x" "{(LeafNode l, i)}" l i es fs ?e m] x(2,3) fs by auto
  with L A show ?thesis by (intro exI [of _ s'] exI [of _ n']) (simp add: treeInsert_def Let_def bind_def seq_def)
qed

text \<open>The first entry makes the root.\<close>

lemma treeInsert_first:
  assumes C: "capacities t lc bc" and x: "repr s x" "rootOf (vw x) = None" "room x 3"
  shows "\<exists>s'. treeInsert t m key item s = Ok (None, s') \<and>
    (\<exists>n' \<le> 1. tree_at lc bc x 0 3 s' [\<lparr>leKey = key, leItem = item\<rparr>] n')"
proof -
  let ?e = "\<lparr>leKey = key, leItem = item\<rparr>"
  have A: "adapter t = A" using C by (simp add: capacities_def)
  from load_root [OF x(1)] x(2) obtain s1 where s1: "LoadRoot A s = Ok (None, s1)" "repr s1 x" by auto
  have h1: "holds x 0 s1 (vw x) {}" by (rule holds_start [OF s1(2)]) simp
  from InitRoot_Ok [OF h1 x(2)] room_less [OF x(3)] obtain l i s2 where
    s2: "InitRoot A s1 = Ok (l, s2)" "i \<noteq> 0"
      "holds x 1 s2 ((new_node i (Entries []) (vw x))\<lparr>rootOf := Some i, firstOf := i\<rparr>) {(LeafNode l, i)}" by auto
  let ?H = "(new_node i (Entries []) (vw x))\<lparr>rootOf := Some i, firstOf := i\<rparr>"
  have n: "nodeOf ?H i = Some \<lparr>content = Entries [], up = 0, lft = 0, rgt = 0\<rparr>" by simp
  have "seg ?H 0 (lev m (Leafy i [] :: 'i bpt)) 0" for m :: nat by (cases m) simp_all
  then have "tree_ok lc bc ?H (Leafy i []) 0" using s2(2) by (simp add: tree_ok_def tree_shape_def chained_def)
  moreover have "\<forall>j \<le> 1 + length ([] :: 'i frame list) + 2. room x j" using room_less [OF x(3)] by simp
  ultimately obtain s' n' where
    s': "insertOnLeaf t m l 0 ?e s2 = Ok ((), s')" "n' \<le> 1" "tree_at lc bc x 1 3 s' [?e] n'"
    using insertOnLeaf_Ok [OF C s2(3) insertI1, of "[]" "[]" ?e m] by (auto simp: spot_def rank_def numeral_3_eq_3)
  have "findOnNode t (LeafNode l) key s2 = Ok ((0, False), s2)"
    using findOnNode_holds [OF A s2(3) insertI1 n, of key] by (simp add: rank_def)
  with s' s1(1) s2(1) A tree_at_mono [OF s'(3), of 0 3] show ?thesis
    by (intro exI [of _ s']) (auto simp: treeInsert_def Let_def bind_def seq_def)
qed

end

end
