(* ===== verification/TreeAll.thy ===== *)
theory TreeAll
  imports TreeInsert
begin

text \<open>
  The iteration over all entries: it follows the links of the leaves from the first one, and so
  visits the entries of the tree in the order of the keys.
\<close>

fun leaves_in :: "'i bpt \<Rightarrow> (u16 \<times> 'i LeafEntry list) list" where
  "leaves_in (Leafy i es) = [(i, es)]"
| "leaves_in (Branchy i ks ts) = concat (map leaves_in ts)"

lemma leaves_inorder: "concat (map snd (leaves_in t)) = inorder t"
proof (induction t)
  case (Branchy i ks ts)
  then show ?case by (induction ts) auto
qed simp

lemma leaves_lev: "balanced n t \<Longrightarrow> map fst (leaves_in t) = lev n t"
proof (induction n t rule: balanced.induct)
  case (3 n i ks ts)
  then have "map fst (leaves_in t) = lev n t" if "t \<in> set ts" for t using that by simp
  then show ?case by (induction ts) auto
qed simp_all

lemma leaves_first: "sized lc bc t \<or> t = Leafy i [] \<Longrightarrow> leaves_in t \<noteq> [] \<and> fst (hd (leaves_in t)) = first_leaf t"
proof (induction t rule: first_leaf.induct)
  case (1 j ks t ts)
  then show ?case by (auto simp: hd_append)
qed auto

lemma leaves_laid: "laid H p t \<Longrightarrow> (j, es) \<in> set (leaves_in t) \<Longrightarrow> \<exists>v. nodeOf H j = Some v \<and> content v = Entries es"
  by (induction H p t rule: laid.induct) auto

context node_store begin

lemma leafAll_Ok:
  assumes "holds x0 k s H hs" "(LeafNode l, i) \<in> hs" "nodeOf H i = Some v" "content v = Entries es"
    "\<And>acc e s. iterator acc e s = Ok (f acc e, s)"
  shows "leafAll A l iterator acc s = Ok (foldl f acc es, s)"
proof -
  have "iterate (LeafNth A l) [j ..< length es] iterator acc s = Ok (foldl f acc (drop j es), s)" if "j \<le> length es" for j acc
    using that
  proof (induction "length es - j" arbitrary: j acc)
    case (Suc d)
    then have j: "j < length es" by simp
    then have "[j ..< length es] = j # [Suc j ..< length es]" "drop j es = es ! j # drop (Suc j) es"
      by (simp_all add: upt_conv_Cons Cons_nth_drop_Suc)
    moreover have "LeafNth A l j s = Ok (es ! j, s)" using LeafNth_Ok [OF assms(1-4) j] .
    moreover have "iterate (LeafNth A l) [Suc j ..< length es] iterator (f acc (es ! j)) s =
        Ok (foldl f (f acc (es ! j)) (drop (Suc j) es), s)" using Suc(2) j by (intro Suc(1)) simp_all
    ultimately show ?case using assms(5) by (simp add: bind_def)
  qed simp
  from this [of 0] TotalKeys_Ok [OF assms(1-3)] assms(4) show ?thesis by (simp add: leafAll_def bind_def)
qed

text \<open>
  An iterator may have effects of its own, as long as the nodes and the handles survive it: \<open>calm\<close>
  is such a step, and a \<open>steady\<close> iterator takes one on each entry.
\<close>

definition calm :: "'x \<Rightarrow> 's \<Rightarrow> 's \<Rightarrow> bool" where
  "calm x s s' \<longleftrightarrow> repr s' x \<and> (\<forall>h i. at s h i \<longrightarrow> at s' h i)"

definition steady :: "'x \<Rightarrow> ('a \<Rightarrow> 'e \<Rightarrow> 'a) \<Rightarrow> ('a \<Rightarrow> 'e \<Rightarrow> ('s, 'a) prog) \<Rightarrow> 'e list \<Rightarrow> bool" where
  "steady x f iterator es \<longleftrightarrow>
     (\<forall>e \<in> set es. \<forall>acc s. repr s x \<longrightarrow> (\<exists>s'. iterator acc e s = Ok (f acc e, s') \<and> calm x s s'))"

lemma calmD: "calm x s s' \<Longrightarrow> repr s' x" "calm x s s' \<Longrightarrow> at s h i \<Longrightarrow> at s' h i"
  by (simp_all add: calm_def)

lemma calm_refl: "repr s x \<Longrightarrow> calm x s s"
  by (simp add: calm_def)

lemma calm_trans: "calm x s s' \<Longrightarrow> calm x s' s'' \<Longrightarrow> calm x s s''"
  by (simp add: calm_def)

lemma steady_append: "steady x f iterator (es @ fs) \<longleftrightarrow> steady x f iterator es \<and> steady x f iterator fs"
  by (auto simp: steady_def)

lemma steadyD:
  "steady x f iterator es \<Longrightarrow> e \<in> set es \<Longrightarrow> repr s x \<Longrightarrow> \<exists>s'. iterator acc e s = Ok (f acc e, s') \<and> calm x s s'"
  by (simp add: steady_def)

lemma leafAll_steps:
  assumes "repr s x" "at s (LeafNode l) i" "nodeOf (vw x) i = Some v" "content v = Entries es" "steady x f iterator es"
  shows "\<exists>s'. leafAll A l iterator acc s = Ok (foldl f acc es, s') \<and> calm x s s'"
proof -
  have "\<exists>s'. iterate (LeafNth A l) [j ..< length es] iterator acc s = Ok (foldl f acc (drop j es), s') \<and> calm x s s'"
    if "j \<le> length es" "repr s x" "at s (LeafNode l) i" for j acc s
    using that
  proof (induction "length es - j" arbitrary: j acc s)
    case 0
    then show ?case using calm_refl by simp
  next
    case (Suc d)
    then have j: "j < length es" by simp
    then have u: "[j ..< length es] = j # [Suc j ..< length es]" "drop j es = es ! j # drop (Suc j) es"
      by (simp_all add: upt_conv_Cons Cons_nth_drop_Suc)
    have n: "LeafNth A l j s = Ok (es ! j, s)" by (rule leaf_nth [OF Suc.prems(2,3) assms(3,4) j])
    from steadyD [OF assms(5) nth_mem [OF j] Suc.prems(2)] obtain s1 where
      s1: "iterator acc (es ! j) s = Ok (f acc (es ! j), s1)" "calm x s s1" by blast
    have "d = length es - Suc j" "Suc j \<le> length es" using Suc.hyps(2) j by simp_all
    from Suc.hyps(1) [OF this calmD(1) [OF s1(2)] calmD(2) [OF s1(2) Suc.prems(3)], of "f acc (es ! j)"] obtain s2 where
      "iterate (LeafNth A l) [Suc j ..< length es] iterator (f acc (es ! j)) s1 =
        Ok (foldl f (f acc (es ! j)) (drop (Suc j) es), s2)" "calm x s1 s2" by blast
    with n s1 calm_trans [OF s1(2)] show ?case unfolding u by (auto simp: bind_def)
  qed
  from this [of 0 s acc] total_keys [OF assms(1-3)] assms(1,2,4) show ?thesis by (simp add: leafAll_def bind_def)
qed

lemma allLoop_steps:
  assumes "adapter t = A"
  shows "repr s x \<Longrightarrow> at s (LeafNode l) i \<Longrightarrow> seg (vw x) p (i # map fst ls) 0 \<Longrightarrow>
    \<forall>(j, es) \<in> set ((i, es) # ls). j \<noteq> 0 \<and> (\<exists>v. nodeOf (vw x) j = Some v \<and> content v = Entries es) \<Longrightarrow> length ls < m \<Longrightarrow>
    steady x f iterator (es @ concat (map snd ls)) \<Longrightarrow>
    \<exists>s'. allLoop t m (Some l) iterator acc s = Ok (foldl f acc (es @ concat (map snd ls)), s') \<and> calm x s s'"
proof (induction ls arbitrary: m s l i es p acc)
  case Nil
  then obtain m' where m: "m = Suc m'" by (cases m) auto
  from Nil.prems(4) obtain v where v: "nodeOf (vw x) i = Some v" "content v = Entries es" by auto
  with Nil.prems(3) have r: "rgt v = 0" by simp
  have "steady x f iterator es" using Nil.prems(6) by simp
  from leafAll_steps [OF Nil.prems(1,2) v this] obtain s1 where
    s1: "leafAll A l iterator acc s = Ok (foldl f acc es, s1)" "calm x s s1" by blast
  then show ?case
    using right_id [OF Nil.prems(1,2) v(1)] load_leaf_nil [OF calmD(1) [OF s1(2)]]
    by (simp add: m bind_def assms r)
next
  case (Cons y ls)
  obtain j fs where y: "y = (j, fs)" by (cases y)
  from Cons.prems(5) obtain m' where m: "m = Suc m'" by (cases m) auto
  from Cons.prems(4) obtain v where v: "nodeOf (vw x) i = Some v" "content v = Entries es" by auto
  with Cons.prems(3) have r: "rgt v = j" using y by simp
  from Cons.prems(4) obtain w where w: "nodeOf (vw x) j = Some w" "content w = Entries fs" using y by auto
  have st: "steady x f iterator es" "steady x f iterator (fs @ concat (map snd ls))"
    using Cons.prems(6) unfolding steady_append y by (simp_all add: steady_append)
  from leafAll_steps [OF Cons.prems(1,2) v st(1)] obtain s1 where
    s1: "leafAll A l iterator acc s = Ok (foldl f acc es, s1)" "calm x s s1" by blast
  from load_leaf [OF calmD(1) [OF s1(2)] w] obtain l' s2 where
    s2: "LoadLeaf A j s1 = Ok (Some l', s2)" "calm x s1 s2" "at s2 (LeafNode l') j" by (auto simp: calm_def wrote_def)
  have "seg (vw x) i (j # map fst ls) 0" using Cons.prems(3) y by simp
  moreover have "\<forall>(j, es) \<in> set ((j, fs) # ls). j \<noteq> 0 \<and> (\<exists>v. nodeOf (vw x) j = Some v \<and> content v = Entries es)"
    using Cons.prems(4) y by simp
  moreover have "length ls < m'" using Cons.prems(5) m by simp
  ultimately obtain s3 where s3: "allLoop t m' (Some l') iterator (foldl f acc es) s2 =
      Ok (foldl f (foldl f acc es) (fs @ concat (map snd ls)), s3)" "calm x s2 s3"
    using Cons.IH [OF calmD(1) [OF s2(2)] s2(3) _ _ _ st(2)] by blast
  then show ?case
    using right_id [OF Cons.prems(1,2) v(1)] s1(1) s2(1) r y calm_trans [OF s1(2) calm_trans [OF s2(2) s3(2)]]
    by (simp add: m bind_def assms)
qed

lemma treeAll_steps:
  assumes "adapter t = A" "steady x f iterator (inorder T)" "repr s x" "tree_ok lc bc (vw x) T n"
    "length (leaves_in T) \<le> m"
  shows "\<exists>s'. treeAll t m iterator acc s = Ok (foldl f acc (inorder T), s') \<and> repr s' x"
proof -
  from assms(4) have S: "laid (vw x) 0 T" "tree_shape (vw x) T n" "sized lc bc T \<or> T = Leafy (tid T) []"
    by (simp_all add: tree_ok_def)
  note D = tree_shapeD [OF S(2)]
  from leaves_first [OF S(3)] obtain es ls where l: "leaves_in T = (first_leaf T, es) # ls"
    by (cases "leaves_in T"; cases "hd (leaves_in T)") auto
  have lev: "lev n T = first_leaf T # map fst ls" using leaves_lev [OF D(5)] l by simp
  have "\<exists>v. nodeOf (vw x) (first_leaf T) = Some v \<and> content v = Entries es"
    using leaves_laid [OF S(1), of "first_leaf T" es] l by simp
  then obtain v where "nodeOf (vw x) (firstOf (vw x)) = Some v" "content v = Entries es" using D(6) by auto
  then obtain lf s1 where
    s1: "LoadFirstLeaf A s = Ok (Some lf, s1)" "repr s1 x" "at s1 (LeafNode lf) (first_leaf T)"
    using load_first [OF assms(3)] D(6) by (metis wrote_def)
  have sg: "seg (vw x) 0 (first_leaf T # map fst ls) 0" using D(4) lev unfolding chained_def by metis
  have nd: "\<forall>(j, es) \<in> set ((first_leaf T, es) # ls). j \<noteq> 0 \<and> (\<exists>v. nodeOf (vw x) j = Some v \<and> content v = Entries es)"
  proof (clarify, intro conjI)
    fix j fs assume j: "(j, fs) \<in> set ((first_leaf T, es) # ls)"
    then have "j \<in> set (lev n T)" using lev by force
    then have "j \<in> set (ids T)" using lev_ids [of n T] by auto
    then show "j \<noteq> 0" using D(2) by auto
    show "\<exists>v. nodeOf (vw x) j = Some v \<and> content v = Entries fs" using leaves_laid [OF S(1), of j fs] j l by simp
  qed
  have ln: "length ls < m" using assms(5) l by simp
  have io: "es @ concat (map snd ls) = inorder T" using leaves_inorder [of T] l by simp
  from allLoop_steps [OF assms(1) s1(2,3) sg nd ln, unfolded io, OF assms(2), of acc] obtain s2 where
    "allLoop t m (Some lf) iterator acc s1 = Ok (foldl f acc (inorder T), s2)" "calm x s1 s2" by blast
  then show ?thesis
    using s1(1) by (intro exI [of _ s2]) (simp add: treeAll_def bind_def assms(1) calmD(1))
qed

lemma treeAll_Ok:
  assumes "adapter t = A" "\<And>acc e s. iterator acc e s = Ok (f acc e, s)" "repr s x" "tree_ok lc bc (vw x) T n"
    "length (leaves_in T) \<le> m"
  shows "\<exists>s'. treeAll t m iterator acc s = Ok (foldl f acc (inorder T), s') \<and>
    (\<exists>x'. repr s' x' \<and> vw x' = vw x \<and> other x x')"
proof -
  have "steady x f iterator (inorder T)" using assms(2) calm_refl by (simp add: steady_def)
  from treeAll_steps [OF assms(1) this assms(3-5)] show ?thesis using other_refl by blast
qed

end

end
