(* ===== verification/MemWrites.thy ===== *)
theory MemWrites
  imports TreeAll MemStore AdaptersAgree
begin

text \<open>
  Writing through the adapter in memory: every operation keeps the map of nodes in order and does to
  the nodes what the proofs of the tree's updates ask for, and with it the properties of inserting
  into a tree in memory and of iterating over it.
\<close>

section \<open>The entries of a branch\<close>

lemma shares_entries_of: "ks \<noteq> [] \<Longrightarrow> length ps = length ks + 1 \<Longrightarrow> shares (entries_of ks ps) \<and> ptrs_of (entries_of ks ps) = ps \<and>
    map beKey (entries_of ks ps) = ks"
proof -
  assume a: "ks \<noteq> []" "length ps = length ks + 1"
  have k: "map beKey (entries_of ks ps) = ks" by (intro nth_equalityI) simp_all
  have "ptrs_of (entries_of ks ps) = ps"
  proof (rule nth_equalityI)
    obtain e es where e: "entries_of ks ps = e # es" using a(1) by (cases "entries_of ks ps") auto
    then have p: "ptrs_of (entries_of ks ps) = LowerThanKeyNodeID (entries_of ks ps ! 0) # map GreaterThanOrEqualToKeyNodeID (entries_of ks ps)"
      by (simp add: ptrs_of_def)
    then show "length (ptrs_of (entries_of ks ps)) = length ps" using a(2) by simp
    show "ptrs_of (entries_of ks ps) ! i = ps ! i" if "i < length (ptrs_of (entries_of ks ps))" for i
      using that a unfolding p by (cases i) simp_all
  qed
  with k show ?thesis by (simp add: shares_def)
qed

lemma shares_length: "shares es \<Longrightarrow> es \<noteq> [] \<Longrightarrow> length (ptrs_of es) = length es + 1"
  by (cases es) (simp_all add: ptrs_of_def)

lemma shares_nth:
  "shares es \<Longrightarrow> i < length es \<Longrightarrow> es ! i = entry_of (map beKey es) (ptrs_of es) i"
  unfolding shares_def by (metis length_map nth_entries_of)

section \<open>The map of nodes\<close>

text \<open>
  IDs are given out in turn and do not wrap around; while there is no root, the ID that stands for
  it, 9999 in a new adapter, is not reached.
\<close>

definition mem_room :: "'i InMemoryAdapter \<Rightarrow> nat \<Rightarrow> bool" where
  "mem_room a n \<longleftrightarrow> unat (nextNodeID a) + n < 2 ^ 16 \<and> 0 < nextNodeID a \<and>
     (Nodes a (rootID a) = None \<longrightarrow> unat (nextNodeID a) + n \<le> unat (rootID a))"

abbreviation mem_wrote where
  "mem_wrote \<equiv> wrote mem_repr mem_view mem_at mem_room (\<lambda>_ _. True)"

lemma mem_wroteI:
  assumes "mem_good a'" "mem_view a' = H" "\<And>h i. Nodes a i = Some h \<Longrightarrow> Nodes a' i = Some h"
    "\<And>n. mem_room a (n + k) \<Longrightarrow> mem_room a' n"
  shows "mem_wrote k a a H a' a'"
  using assms by (auto simp: wrote_def mem_repr_def mem_at_def)

lemma mem_goodD: "mem_good a \<Longrightarrow> Nodes a i = Some h \<Longrightarrow> mem_fits a i h"
  by (simp add: mem_good_def)

lemma mem_pointer:
  assumes "mem_good a" "Nodes a i = Some h" "Nodes a j = Some h"
  shows "i = j"
proof -
  have "mem_fits a i h" "mem_fits a j h" using assms by (auto simp: mem_good_def)
  then show ?thesis by (cases h) (auto simp: mem_fits_def)
qed

lemma mem_setLeaf:
  assumes "mem_repr a x" "mem_at a (LeafNode p) i" "lid (f (leaves a ! p)) = lid (leaves a ! p)"
    "leafView (f (leaves a ! p)) = g (leafView (leaves a ! p))"
  shows "\<exists>a'. setLeaf p f a = Ok ((), a') \<and> mem_wrote 0 a x (set_node i g (mem_view x)) a' a'"
proof -
  note A = mem_atD [OF assms(1,2)]
  have p: "p < length (leaves a)" using A(2) by (simp add: mem_fits_def)
  have good: "mem_good a" and n: "Nodes a i = Some (LeafNode p)" using assms(1,2) by (auto simp: mem_repr_def mem_at_def)
  let ?a = "a\<lparr>leaves := (leaves a)[p := f (leaves a ! p)]\<rparr>"
  have "mem_good ?a" unfolding mem_good_def
  proof (intro allI impI)
    fix j h assume "Nodes ?a j = Some h"
    then have "mem_fits a j h \<and> 0 < j \<and> j < nextNodeID a" using good by (simp add: mem_good_def)
    then show "mem_fits ?a j h \<and> 0 < j \<and> j < nextNodeID ?a"
      using assms(3) p by (cases h) (auto simp: mem_fits_def nth_list_update)
  qed
  moreover have "mem_view ?a = set_node i g (mem_view a)"
  proof (rule heap_eqI)
    fix j
    have "mem_node ?a h = mem_node a h" if "Nodes a j = Some h" "j \<noteq> i" for h
      using mem_pointer [OF good n, of j] that p by (cases h) (auto simp: mem_node_def nth_list_update)
    then show "nodeOf (mem_view ?a) j = nodeOf (set_node i g (mem_view a)) j"
      using n p assms(4) by (cases "Nodes a j") (auto simp: mem_view_def mem_node_def)
  qed (simp_all add: mem_view_def split: option.split)
  ultimately have "mem_wrote 0 a a (set_node i g (mem_view a)) ?a ?a" by (rule mem_wroteI) (simp_all add: mem_room_def)
  with p A(1) show ?thesis by (simp add: setLeaf_def)
qed

lemma mem_setBranch:
  assumes "mem_repr a x" "mem_at a (BranchNode p) i" "bid (f (branches a ! p)) = bid (branches a ! p)"
    "branchView (f (branches a ! p)) = g (branchView (branches a ! p))" "shares (bentries (f (branches a ! p)))"
  shows "\<exists>a'. setBranch p f a = Ok ((), a') \<and> mem_wrote 0 a x (set_node i g (mem_view x)) a' a'"
proof -
  note A = mem_atD [OF assms(1,2)]
  have p: "p < length (branches a)" using A(2) by (simp add: mem_fits_def)
  have good: "mem_good a" and n: "Nodes a i = Some (BranchNode p)" using assms(1,2) by (auto simp: mem_repr_def mem_at_def)
  let ?a = "a\<lparr>branches := (branches a)[p := f (branches a ! p)]\<rparr>"
  have "mem_good ?a" unfolding mem_good_def
  proof (intro allI impI)
    fix j h assume "Nodes ?a j = Some h"
    then have "mem_fits a j h \<and> 0 < j \<and> j < nextNodeID a" using good by (simp add: mem_good_def)
    then show "mem_fits ?a j h \<and> 0 < j \<and> j < nextNodeID ?a"
      using assms(3,5) p by (cases h) (auto simp: mem_fits_def nth_list_update)
  qed
  moreover have "mem_view ?a = set_node i g (mem_view a)"
  proof (rule heap_eqI)
    fix j
    have "mem_node ?a h = mem_node a h" if "Nodes a j = Some h" "j \<noteq> i" for h
      using mem_pointer [OF good n, of j] that p by (cases h) (auto simp: mem_node_def nth_list_update)
    then show "nodeOf (mem_view ?a) j = nodeOf (set_node i g (mem_view a)) j"
      using n p assms(4) by (cases "Nodes a j") (auto simp: mem_view_def mem_node_def)
  qed (simp_all add: mem_view_def split: option.split)
  ultimately have "mem_wrote 0 a a (set_node i g (mem_view a)) ?a ?a" by (rule mem_wroteI) (simp_all add: mem_room_def)
  with p A(1) show ?thesis by (simp add: setBranch_def)
qed

section \<open>Creating nodes\<close>

lemma next_word: "unat (i :: u16) + 1 < 2 ^ 16 \<Longrightarrow> unat (i + 1) = unat i + 1"
  using unat_plus_no_wrap [of i 1] by simp

lemma mem_fresh:
  assumes "mem_good a" "mem_room a (Suc 0)"
  shows "Nodes a (nextNodeID a) = None" "nextNodeID a \<noteq> 0" "unat (nextNodeID a + 1) = unat (nextNodeID a) + 1"
    "\<And>i. i < nextNodeID a \<Longrightarrow> i < nextNodeID a + 1" "nextNodeID a < nextNodeID a + 1"
proof -
  show n: "unat (nextNodeID a + 1) = unat (nextNodeID a) + 1" using assms(2) by (intro next_word) (simp add: mem_room_def)
  show "nextNodeID a \<noteq> 0" using assms(2) by (auto simp: mem_room_def)
  show "Nodes a (nextNodeID a) = None" using assms(1) unfolding mem_good_def by (metis less_irrefl not_None_eq)
  show "i < nextNodeID a + 1" if "i < nextNodeID a" for i using that n by (simp add: word_less_nat_alt)
  show "nextNodeID a < nextNodeID a + 1" using n by (simp add: word_less_nat_alt)
qed

lemma mem_room_next:
  assumes "mem_room a (n + 1)" "nextNodeID a' = nextNodeID a + 1" "unat (nextNodeID a + 1) = unat (nextNodeID a) + 1"
    "Nodes a' (rootID a') = None \<longrightarrow> rootID a' = rootID a \<and> Nodes a (rootID a) = None"
  shows "mem_room a' n"
  using assms by (auto simp: mem_room_def word_less_nat_alt)

lemma mem_CreateLeaf_Ok:
  assumes "mem_repr a x" "mem_room a (Suc 0)"
  shows "\<exists>a'. mem_CreateLeaf a = Ok (length (leaves a), a') \<and>
    mem_wrote 1 a x (new_node (nextNodeID a) (Entries []) (mem_view x)) a' a' \<and>
    mem_at a' (LeafNode (length (leaves a))) (nextNodeID a)"
proof -
  have g: "mem_good a" and x: "x = a" using assms(1) by (auto simp: mem_repr_def)
  note F = mem_fresh [OF g assms(2)]
  let ?i = "nextNodeID a" and ?p = "length (leaves a)"
  let ?a = "a\<lparr>leaves := leaves a @ [\<lparr>lid = ?i, lparentID = 0, lleftID = 0, lrightID = 0, lentries = []\<rparr>],
    Nodes := (Nodes a)(?i \<mapsto> LeafNode ?p), nextNodeID := ?i + 1\<rparr>"
  have "mem_good ?a" unfolding mem_good_def
  proof (intro allI impI)
    fix j h assume j: "Nodes ?a j = Some h"
    show "mem_fits ?a j h \<and> 0 < j \<and> j < nextNodeID ?a"
    proof (cases "j = ?i")
      case True
      with j F(2,5) show ?thesis by (auto simp: mem_fits_def word_gt_0)
    next
      case False
      then have "mem_fits a j h \<and> 0 < j \<and> j < ?i" using j g by (simp add: mem_good_def)
      then show ?thesis using F(4) by (cases h) (auto simp: mem_fits_def nth_append)
    qed
  qed
  moreover have "mem_view ?a = new_node ?i (Entries []) (mem_view a)"
  proof (rule heap_eqI)
    show "rootOf (mem_view ?a) = rootOf (new_node ?i (Entries []) (mem_view a))"
      using assms(2) by (cases "rootID a = ?i") (auto simp: mem_view_def mem_room_def F(1) split: option.split)
    show "nodeOf (mem_view ?a) j = nodeOf (new_node ?i (Entries []) (mem_view a)) j" for j
    proof (cases "j = ?i")
      case False
      have "mem_node ?a h = mem_node a h" if "Nodes a j = Some h" for h
        using mem_goodD [OF g that] by (cases h) (auto simp: mem_node_def mem_fits_def nth_append)
      with False show ?thesis by (cases "Nodes a j") (auto simp: mem_view_def)
    qed (simp add: mem_view_def mem_node_def leafView_def)
  qed (simp add: mem_view_def split: option.split)
  ultimately have "mem_wrote 1 a a (new_node ?i (Entries []) (mem_view a)) ?a ?a"
  proof (rule mem_wroteI)
    show "Nodes ?a j = Some h" if "Nodes a j = Some h" for h j using that F(1) by auto
    show "mem_room ?a n" if "mem_room a (n + 1)" for n
      by (rule mem_room_next [OF that _ F(3)]) auto
  qed
  then show ?thesis using x by (simp add: mem_CreateLeaf_def Let_def mem_at_def)
qed

lemma mem_CreateBranch_Ok:
  assumes "mem_repr a x" "mem_room a (Suc 0)"
  shows "\<exists>a'. mem_CreateBranch e a = Ok (length (branches a), a') \<and>
    mem_wrote 1 a x (new_node (nextNodeID a)
      (Children [beKey e] [LowerThanKeyNodeID e, GreaterThanOrEqualToKeyNodeID e]) (mem_view x)) a' a' \<and>
    mem_at a' (BranchNode (length (branches a))) (nextNodeID a)"
proof -
  have g: "mem_good a" and x: "x = a" using assms(1) by (auto simp: mem_repr_def)
  note F = mem_fresh [OF g assms(2)]
  let ?i = "nextNodeID a" and ?p = "length (branches a)"
  let ?c = "Children [beKey e] [LowerThanKeyNodeID e, GreaterThanOrEqualToKeyNodeID e]"
  let ?a = "a\<lparr>branches := branches a @ [\<lparr>bid = ?i, bparentID = 0, bleftID = 0, brightID = 0, bentries = [e]\<rparr>],
    Nodes := (Nodes a)(?i \<mapsto> BranchNode ?p), nextNodeID := ?i + 1\<rparr>"
  have sh: "shares [e]" by (simp add: shares_def ptrs_of_def entries_of_def entry_of_def)
  have "mem_good ?a" unfolding mem_good_def
  proof (intro allI impI)
    fix j h assume j: "Nodes ?a j = Some h"
    show "mem_fits ?a j h \<and> 0 < j \<and> j < nextNodeID ?a"
    proof (cases "j = ?i")
      case True
      with j F(2,5) sh show ?thesis by (auto simp: mem_fits_def word_gt_0)
    next
      case False
      then have "mem_fits a j h \<and> 0 < j \<and> j < ?i" using j g by (simp add: mem_good_def)
      then show ?thesis using F(4) by (cases h) (auto simp: mem_fits_def nth_append)
    qed
  qed
  moreover have "mem_view ?a = new_node ?i ?c (mem_view a)"
  proof (rule heap_eqI)
    show "rootOf (mem_view ?a) = rootOf (new_node ?i ?c (mem_view a))"
      using assms(2) by (cases "rootID a = ?i") (auto simp: mem_view_def mem_room_def F(1) split: option.split)
    show "nodeOf (mem_view ?a) j = nodeOf (new_node ?i ?c (mem_view a)) j" for j
    proof (cases "j = ?i")
      case False
      have "mem_node ?a h = mem_node a h" if "Nodes a j = Some h" for h
        using mem_goodD [OF g that] by (cases h) (auto simp: mem_node_def mem_fits_def nth_append)
      with False show ?thesis by (cases "Nodes a j") (auto simp: mem_view_def)
    qed (simp add: mem_view_def mem_node_def branchView_def ptrs_of_def)
  qed (simp add: mem_view_def split: option.split)
  ultimately have "mem_wrote 1 a a (new_node ?i ?c (mem_view a)) ?a ?a"
  proof (rule mem_wroteI)
    show "Nodes ?a j = Some h" if "Nodes a j = Some h" for h j using that F(1) by auto
    show "mem_room ?a n" if "mem_room a (n + 1)" for n
      by (rule mem_room_next [OF that _ F(3)]) auto
  qed
  then show ?thesis using x by (simp add: mem_CreateBranch_def Let_def mem_at_def)
qed

text \<open>The root, and the first leaf with it.\<close>

lemma mem_setRootID:
  assumes "mem_good a" "Nodes a i = Some h"
  shows "mem_wrote 0 a a ((mem_view a)\<lparr>rootOf := Some i\<rparr>) (a\<lparr>rootID := i\<rparr>) (a\<lparr>rootID := i\<rparr>)"
    "mem_wrote 0 a a ((mem_view a)\<lparr>rootOf := Some i, firstOf := i\<rparr>) (a\<lparr>rootID := i, firstLeafID := i\<rparr>)
      (a\<lparr>rootID := i, firstLeafID := i\<rparr>)"
proof -
  have g: "mem_good (a\<lparr>rootID := i\<rparr>)" "mem_good (a\<lparr>rootID := i, firstLeafID := i\<rparr>)"
    using assms(1) by (simp_all add: mem_good_def mem_fits_def cong: node.case_cong)
  have n: "mem_node (a\<lparr>rootID := i\<rparr>) = mem_node a" "mem_node (a\<lparr>rootID := i, firstLeafID := i\<rparr>) = mem_node a"
    by (simp_all add: fun_eq_iff mem_node_def split: node.split)
  have v: "mem_view (a\<lparr>rootID := i\<rparr>) = (mem_view a)\<lparr>rootOf := Some i\<rparr>"
    "mem_view (a\<lparr>rootID := i, firstLeafID := i\<rparr>) = (mem_view a)\<lparr>rootOf := Some i, firstOf := i\<rparr>"
    using assms(2) n by (simp_all add: mem_view_def)
  show "mem_wrote 0 a a ((mem_view a)\<lparr>rootOf := Some i\<rparr>) (a\<lparr>rootID := i\<rparr>) (a\<lparr>rootID := i\<rparr>)"
    by (rule mem_wroteI [OF g(1) v(1)]) (use assms(2) in \<open>auto simp: mem_room_def\<close>)
  show "mem_wrote 0 a a ((mem_view a)\<lparr>rootOf := Some i, firstOf := i\<rparr>) (a\<lparr>rootID := i, firstLeafID := i\<rparr>)
      (a\<lparr>rootID := i, firstLeafID := i\<rparr>)"
    by (rule mem_wroteI [OF g(2) v(2)]) (use assms(2) in \<open>auto simp: mem_room_def\<close>)
qed

lemma mem_wrote_trans:
  assumes "mem_wrote k a x H b b" "mem_wrote j b b G c c"
  shows "mem_wrote (k + j) a x G c c"
  using assms unfolding wrote_def by (auto simp: add.assoc add.left_commute) (metis add.assoc add.commute)

lemma mem_Init_Ok:
  assumes "mem_repr a x" "mem_room a (Suc 0)"
  shows "\<exists>a'. mem_Init a = Ok (length (leaves a), a') \<and>
    mem_wrote 1 a x ((new_node (nextNodeID a) (Entries []) (mem_view x))\<lparr>rootOf := Some (nextNodeID a), firstOf := nextNodeID a\<rparr>) a' a' \<and>
    mem_at a' (LeafNode (length (leaves a))) (nextNodeID a)"
proof -
  let ?i = "nextNodeID a" and ?p = "length (leaves a)"
  from mem_CreateLeaf_Ok [OF assms] obtain b where
    b: "mem_CreateLeaf a = Ok (?p, b)" "mem_wrote 1 a x (new_node ?i (Entries []) (mem_view x)) b b"
      "mem_at b (LeafNode ?p) ?i" by blast
  have g: "mem_good b" and v: "mem_view b = new_node ?i (Entries []) (mem_view x)" and r: "mem_repr b b"
    using b(2) by (auto simp: wrote_def mem_repr_def)
  have n: "Nodes b ?i = Some (LeafNode ?p)" using b(3) by (simp add: mem_at_def)
  have nid: "mem_NodeID (LeafNode ?p) b = Ok (?i, b)"
    using mem_leafD [OF r b(3) mem_atD(3) [OF r b(3)]] by (simp add: bind_def)
  let ?c = "b\<lparr>rootID := ?i, firstLeafID := ?i\<rparr>"
  have "mem_wrote (1 + 0) a x ((mem_view b)\<lparr>rootOf := Some ?i, firstOf := ?i\<rparr>) ?c ?c"
    by (rule mem_wrote_trans [OF b(2) mem_setRootID(2) [OF g n]])
  then have "mem_wrote 1 a x ((new_node ?i (Entries []) (mem_view x))\<lparr>rootOf := Some ?i, firstOf := ?i\<rparr>) ?c ?c"
    by (simp add: v)
  moreover have "mem_Init a = Ok (?p, ?c)"
    using b(1) nid by (simp add: mem_Init_def bind_def seq_def modify_def)
  moreover have "mem_at ?c (LeafNode ?p) ?i" using b(3) by (simp add: mem_at_def)
  ultimately show ?thesis by blast
qed

section \<open>The adapter as a store\<close>

lemma memAdapter_writes [simp]:
  "IsRoot memAdapter = mem_IsRoot" "InitRoot memAdapter = mem_Init" "SetRoot memAdapter = mem_SetRoot"
  "CreateBranch memAdapter = mem_CreateBranch" "LoadBranch memAdapter = mem_LoadBranch"
  "LoadFirstLeaf memAdapter = mem_LoadFirstLeaf" "CreateLeaf memAdapter = mem_CreateLeaf"
  "LoadLeaf memAdapter = mem_LoadLeaf" "NodeID memAdapter = mem_NodeID" "ParentID memAdapter = mem_ParentID"
  "SetParentID memAdapter = mem_SetParentID" "SetLeftSiblingID memAdapter = mem_SetLeftSiblingID"
  "RightSiblingID memAdapter = mem_RightSiblingID" "LeftSiblingID memAdapter = mem_LeftSiblingID" "SetRightSiblingID memAdapter = mem_SetRightSiblingID"
  "LeafInsertAt memAdapter = memLeaf_InsertAt" "LeafDeleteFrom memAdapter = memLeaf_DeleteFrom"
  "LeafNth memAdapter = memLeaf_Nth" "BranchInsertAt memAdapter = memBranch_InsertAt"
  "BranchDeleteFrom memAdapter = memBranch_DeleteFrom" "BranchNth memAdapter = memBranch_Nth"
  by (simp_all add: memAdapter_def)

lemma mem_reads:
  assumes "mem_repr a x" "mem_at a h i" "nodeOf (mem_view x) i = Some v"
  shows "mem_NodeID h a = Ok (i, a)" "mem_ParentID h a = Ok (up v, a)" "mem_RightSiblingID h a = Ok (rgt v, a)"
    "mem_LeftSiblingID h a = Ok (lft v, a)"
  using mem_leafD [OF assms(1) _ assms(3)] mem_branchD [OF assms(1) _ assms(3)] assms(2)
  by (cases h; auto simp: bind_def leafView_def branchView_def)+

lemma mem_sets:
  assumes "mem_repr a x" "mem_at a h i"
  shows "\<exists>a'. mem_SetParentID h q a = Ok ((), a') \<and> mem_wrote 0 a x (set_node i (\<lambda>v. v\<lparr>up := q\<rparr>) (mem_view x)) a' a'"
    "\<exists>a'. mem_SetLeftSiblingID h q a = Ok ((), a') \<and> mem_wrote 0 a x (set_node i (\<lambda>v. v\<lparr>lft := q\<rparr>) (mem_view x)) a' a'"
    "\<exists>a'. mem_SetRightSiblingID h q a = Ok ((), a') \<and> mem_wrote 0 a x (set_node i (\<lambda>v. v\<lparr>rgt := q\<rparr>) (mem_view x)) a' a'"
proof -
  have sh: "shares (bentries (branches a ! p))" if "h = BranchNode p" for p
    using mem_atD(2) [OF assms] that by (simp add: mem_fits_def)
  show "\<exists>a'. mem_SetParentID h q a = Ok ((), a') \<and> mem_wrote 0 a x (set_node i (\<lambda>v. v\<lparr>up := q\<rparr>) (mem_view x)) a' a'"
    "\<exists>a'. mem_SetLeftSiblingID h q a = Ok ((), a') \<and> mem_wrote 0 a x (set_node i (\<lambda>v. v\<lparr>lft := q\<rparr>) (mem_view x)) a' a'"
    "\<exists>a'. mem_SetRightSiblingID h q a = Ok ((), a') \<and> mem_wrote 0 a x (set_node i (\<lambda>v. v\<lparr>rgt := q\<rparr>) (mem_view x)) a' a'"
    using assms sh by (cases h; auto intro!: mem_setLeaf mem_setBranch simp: leafView_def branchView_def)+
qed

lemma mem_same: "mem_repr a x \<Longrightarrow> mem_wrote 0 a x (mem_view x) a x"
  by (simp add: wrote_def)

lemma mem_leaf_at:
  assumes "mem_repr a x" "mem_at a (LeafNode p) i" "nodeOf (mem_view x) i = Some v" "content v = Entries es"
  shows "leafAt p a = Ok (leaves a ! p, a)" "lentries (leaves a ! p) = es"
  using mem_leafD [OF assms(1-3)] assms(4) by (simp_all add: leafView_def)

lemma mem_branch_at:
  assumes "mem_repr a x" "mem_at a (BranchNode p) i" "nodeOf (mem_view x) i = Some v" "content v = Children ks ps"
  shows "branchAt p a = Ok (branches a ! p, a)" "ks = map beKey (bentries (branches a ! p))"
    "ps = ptrs_of (bentries (branches a ! p))" "bentries (branches a ! p) = entries_of ks ps"
  using mem_branchD [OF assms(1-3)] assms(4) by (simp_all add: branchView_def shares_def)

lemma mem_leaf_update:
  assumes "mem_repr a x" "mem_at a (LeafNode p) i" "leafAt p a = Ok (leaves a ! p, a)"
  shows "\<exists>a'. setLeaf p (\<lambda>l. l\<lparr>lentries := g (lentries l)\<rparr>) a = Ok ((), a') \<and>
    mem_wrote 0 a x (set_node i (\<lambda>v. v\<lparr>content := Entries (g (lentries (leaves a ! p)))\<rparr>) (mem_view x)) a' a'"
  using assms by (intro mem_setLeaf) (simp_all add: leafView_def)

lemma mem_branch_update:
  assumes "mem_repr a x" "mem_at a (BranchNode p) i" "ks \<noteq> []" "length ps = length ks + 1"
  shows "\<exists>a'. setBranch p (\<lambda>b. b\<lparr>bentries := entries_of ks ps\<rparr>) a = Ok ((), a') \<and>
    mem_wrote 0 a x (set_node i (\<lambda>v. v\<lparr>content := Children ks ps\<rparr>) (mem_view x)) a' a'"
  using assms shares_entries_of [of ks ps] by (intro mem_setBranch) (simp_all add: branchView_def)

interpretation mem: node_store memAdapter mem_repr mem_view mem_at mem_room "\<lambda>_ _. True" "\<lambda>_. True" "\<lambda>_. True"
proof (unfold_locales, goal_cases)
  case (3 x n m)
  then show ?case by (auto simp: mem_room_def)
next
  case (4 s x i v)
  then obtain h where "Nodes s i = Some h" by (auto simp: mem_repr_def mem_view_def)
  then show ?case using mem_same [OF 4(1)] 4(1)
    by (intro exI [of _ h] exI [of _ s]) (auto simp: mem_LoadNode_def mem_repr_def mem_at_def)
next
  case (5 s x)
  then have "Nodes s 0 = None" unfolding mem_repr_def mem_good_def by (metis less_irrefl not_None_eq)
  then show ?case by (simp add: mem_LoadNode_def)
next
  case (6 s x i v ks ps)
  then obtain h where n: "Nodes s i = Some h" "v = mem_node s h" by (auto simp: mem_repr_def mem_view_def)
  with 6(3) obtain p where "h = BranchNode p" by (cases h) (simp_all add: mem_node_def leafView_def)
  with n mem_same [OF 6(1)] show ?case
    by (intro exI [of _ p] exI [of _ s]) (simp add: mem_LoadBranch_def mem_LoadNode_def bind_def mem_at_def)
next
  case (7 s x i v es)
  then obtain h where n: "Nodes s i = Some h" "v = mem_node s h" by (auto simp: mem_repr_def mem_view_def)
  with 7(3) obtain p where "h = LeafNode p" by (cases h) (simp_all add: mem_node_def branchView_def)
  with n mem_same [OF 7(1)] show ?case
    by (intro exI [of _ p] exI [of _ s]) (simp add: mem_LoadLeaf_def mem_LoadNode_def bind_def mem_at_def)
next
  case (8 s x)
  then have "Nodes s 0 = None" unfolding mem_repr_def mem_good_def by (metis less_irrefl not_None_eq)
  then show ?case by (simp add: mem_LoadLeaf_def mem_LoadNode_def bind_def)
next
  case (9 s x v es)
  have f: "firstOf (mem_view x) = firstLeafID s" using 9(1) by (simp add: mem_repr_def mem_view_def)
  with 9 obtain h where n: "Nodes s (firstLeafID s) = Some h" "v = mem_node s h" by (auto simp: mem_repr_def mem_view_def)
  with 9(3) obtain p where "h = LeafNode p" by (cases h) (simp_all add: mem_node_def branchView_def)
  with n mem_same [OF 9(1)] f show ?case
    by (intro exI [of _ p] exI [of _ s]) (simp add: mem_LoadFirstLeaf_def bind_def mem_at_def)
next
  case (13 s x h i v)
  have "mem_NodeID h s = Ok (i, s)" using mem_reads(1) [OF 13(1-3)] .
  moreover have "rootOf (mem_view x) = Some i \<longleftrightarrow> rootID s = i"
    using 13(1,2) by (auto simp: mem_repr_def mem_view_def mem_at_def split: option.split)
  ultimately show ?case by (simp add: mem_IsRoot_def bind_def)
next
  case (14 s x b i v ks ps p)
  from mem_branch_at(1,4) [OF 14(1-4)] 14(5) show ?case by (simp add: memBranch_Nth_def bind_def nthCheck_def)
next
  case (15 s x l i v es p)
  from mem_leaf_at [OF 15(1-4)] 15(5) show ?case by (simp add: memLeaf_Nth_def bind_def nthCheck_def)
next
  case (16 s x h i v q)
  from mem_sets(1) [OF 16(1,2), of q] show ?case by auto
next
  case (17 s x h i v q)
  from mem_sets(2) [OF 17(1,2), of q] show ?case by auto
next
  case (18 s x h i v q)
  from mem_sets(3) [OF 18(1,2), of q] show ?case by auto
next
  case (19 s x l i v es p e)
  note L = mem_leaf_at [OF 19(1-4)]
  have "memLeaf_InsertAt l (int p) e s = setLeaf l (\<lambda>l. l\<lparr>lentries := insertNth p e (lentries l)\<rparr>) s"
    using L 19(5) insertNth_end [of es e] by (auto simp: memLeaf_InsertAt_def bind_def setLeaf_def)
  with mem_leaf_update [OF 19(1,2) L(1), of "insertNth p e"] L(2) show ?case by auto
next
  case (20 s x l i v es p)
  note L = mem_leaf_at [OF 20(1-4)]
  from mem_leaf_update [OF 20(1,2) L(1), of "take p"] L(2) obtain s' where
    s': "setLeaf l (\<lambda>l. l\<lparr>lentries := take p (lentries l)\<rparr>) s = Ok ((), s')"
      "mem_wrote 0 s x (set_node i (\<lambda>v. v\<lparr>content := Entries (take p es)\<rparr>) (mem_view x)) s' s'" by blast
  then show ?case using L 20(5) by (auto simp: memLeaf_DeleteFrom_def bind_def seq_def)
next
  case (21 s x b i v ks ps p k g)
  note B = mem_branch_at [OF 21(1-4)]
  have "AdaptersAgree.holds b (entries_of ks ps) s"
    using B(4) mem_branchD(3) [OF 21(1-3)] by (simp add: AdaptersAgree.holds_def)
  from memBranch_InsertAt_run [OF this 21(6) _ 21(7), of k g] 21(5)
  have "memBranch_InsertAt b (int p) k g s =
    setBranch b (\<lambda>b. b\<lparr>bentries := entries_of (insertNth p k ks) (insertNth (p + 1) g ps)\<rparr>) s" by simp
  moreover have "insertNth p k ks \<noteq> []" by (simp add: insertNth_def)
  ultimately show ?case
    using mem_branch_update [OF 21(1,2), of "insertNth p k ks" "insertNth (p + 1) g ps"] 21(6) by auto
next
  case (22 s x b i v ks ps p)
  note B = mem_branch_at [OF 22(1-4)]
  have t: "take p ks \<noteq> []" "length (take (p + 1) ps) = length (take p ks) + 1" using 22(5-7) by auto
  from mem_branch_update [OF 22(1,2) t] obtain s' where
    s': "setBranch b (\<lambda>b. b\<lparr>bentries := entries_of (take p ks) (take (p + 1) ps)\<rparr>) s = Ok ((), s')"
      "mem_wrote 0 s x (set_node i (\<lambda>v. v\<lparr>content := Children (take p ks) (take (p + 1) ps)\<rparr>) (mem_view x)) s' s'" by blast
  have "setBranch b (\<lambda>b. b\<lparr>bentries := take p (bentries b)\<rparr>) s =
      setBranch b (\<lambda>b. b\<lparr>bentries := entries_of (take p ks) (take (p + 1) ps)\<rparr>) s"
    using B(4) entries_take [OF 22(5,7)] by (intro setBranch_cong) simp
  with s' B(1,4) 22(7) show ?case by (auto simp: memBranch_DeleteFrom_def bind_def seq_def)
next
  case (23 s x)
  from mem_CreateLeaf_Ok [OF 23(1)] 23 obtain a' where
    "mem_CreateLeaf s = Ok (length (leaves s), a')"
    "mem_wrote 1 s x (new_node (nextNodeID s) (Entries []) (mem_view x)) a' a'"
    "mem_at a' (LeafNode (length (leaves s))) (nextNodeID s)" by (auto simp: mem_repr_def)
  moreover have "nodeOf (mem_view x) (nextNodeID s) = None" "nextNodeID s \<noteq> 0"
    using mem_fresh(1,2) [of s] 23 by (auto simp: mem_repr_def mem_view_def)
  ultimately show ?case by auto
next
  case (24 s x en)
  from mem_CreateBranch_Ok [OF 24(1), of en] 24 obtain a' where
    "mem_CreateBranch en s = Ok (length (branches s), a')"
    "mem_wrote 1 s x (new_node (nextNodeID s)
       (Children [beKey en] [LowerThanKeyNodeID en, GreaterThanOrEqualToKeyNodeID en]) (mem_view x)) a' a'"
    "mem_at a' (BranchNode (length (branches s))) (nextNodeID s)" by (auto simp: mem_repr_def)
  moreover have "nodeOf (mem_view x) (nextNodeID s) = None" "nextNodeID s \<noteq> 0"
    using mem_fresh(1,2) [of s] 24 by (auto simp: mem_repr_def mem_view_def)
  ultimately show ?case by auto
next
  case (25 s x h i v)
  have g: "mem_good s" "x = s" and n: "Nodes s i = Some h" using 25(1,2) by (auto simp: mem_repr_def mem_at_def)
  note W = mem_setRootID(1) [OF g(1) n]
  have "mem_repr (s\<lparr>rootID := i\<rparr>) (s\<lparr>rootID := i\<rparr>)" "mem_at (s\<lparr>rootID := i\<rparr>) h i"
    "mem_view (s\<lparr>rootID := i\<rparr>) = (mem_view s)\<lparr>rootOf := Some i\<rparr>"
    using W n by (auto simp: wrote_def mem_at_def)
  with mem_sets(1) [of "s\<lparr>rootID := i\<rparr>" "s\<lparr>rootID := i\<rparr>" h i 0] obtain s' where
    s': "mem_SetParentID h 0 (s\<lparr>rootID := i\<rparr>) = Ok ((), s')"
      "mem_wrote 0 (s\<lparr>rootID := i\<rparr>) (s\<lparr>rootID := i\<rparr>) (set_node i (\<lambda>v. v\<lparr>up := 0\<rparr>) ((mem_view s)\<lparr>rootOf := Some i\<rparr>)) s' s'"
    by auto
  have "set_node i (\<lambda>v. v\<lparr>up := 0\<rparr>) ((mem_view s)\<lparr>rootOf := Some i\<rparr>) =
      (set_node i (\<lambda>v. v\<lparr>up := 0\<rparr>) (mem_view s))\<lparr>rootOf := Some i\<rparr>" by (simp add: set_node_def)
  with mem_wrote_trans [OF W s'(2)] s'(1) mem_reads(1) [OF 25(1-3)] g(2) show ?case
    by (auto simp: mem_SetRoot_def bind_def seq_def)
next
  case (26 s x)
  from mem_Init_Ok [OF 26(1)] 26 obtain a' where
    "mem_Init s = Ok (length (leaves s), a')"
    "mem_wrote 1 s x ((new_node (nextNodeID s) (Entries []) (mem_view x))\<lparr>rootOf := Some (nextNodeID s), firstOf := nextNodeID s\<rparr>) a' a'"
    "mem_at a' (LeafNode (length (leaves s))) (nextNodeID s)" by (auto simp: mem_repr_def)
  moreover have "nodeOf (mem_view x) (nextNodeID s) = None" "nextNodeID s \<noteq> 0"
    using mem_fresh(1,2) [of s] 26 by (auto simp: mem_repr_def mem_view_def)
  ultimately show ?case by auto
qed (use mem_reads mem_sets in auto)

section \<open>Properties\<close>

lemma mem_capacities:
  "2 \<le> lc \<Longrightarrow> 4 \<le> bc \<Longrightarrow> mem.capacities (newTree memAdapter (int lc) (int bc)) lc bc"
  by (simp add: mem.capacities_def newTree_def half_def zdiv_int)

lemma mem_tree_room:
  assumes "mem_good a" "tree_ok lc bc (mem_view a) T n"
  shows "mem_room a j \<longleftrightarrow> unat (nextNodeID a) + j < 2 ^ 16"
proof -
  have "rootOf (mem_view a) = Some (tid T)" using assms(2) by (simp add: tree_ok_def)
  then have "Nodes a (rootID a) \<noteq> None" by (auto simp: mem_view_def split: option.splits)
  moreover from this assms(1) have "0 < nextNodeID a" unfolding mem_good_def by (metis not_None_eq word_greater_zero_iff less_trans word_not_simps(1) word_gt_0)
  ultimately show ?thesis by (auto simp: mem_room_def)
qed

lemma mem_insert_step:
  assumes "mem_good a" "tree_ok lc bc (mem_view a) T n" "2 \<le> lc" "4 \<le> bc" "2 * n \<le> m"
    "unat (nextNodeID a) + n + 2 < 2 ^ 16" "lookup key (inorder T) = None"
  shows "\<exists>a' T' n'. treeInsert (newTree memAdapter (int lc) (int bc)) m key item a = Ok (None, a') \<and> mem_good a' \<and>
    tree_ok lc bc (mem_view a') T' n' \<and> n' \<le> Suc n \<and>
    inorder T' = insort_key leKey \<lparr>leKey = key, leItem = item\<rparr> (inorder T) \<and>
    unat (nextNodeID a') \<le> unat (nextNodeID a) + n + 2"
proof -
  have r: "mem_repr a a" "mem_room a (n + 2)" using assms(1,6) mem_tree_room [OF assms(1,2)] by (simp_all add: mem_repr_def)
  from mem.treeInsert_new [OF mem_capacities [OF assms(3,4)] r(1) assms(2,5) r(2) assms(7), of item] obtain a' n' where
    i: "treeInsert (newTree memAdapter (int lc) (int bc)) m key item a = Ok (None, a')" "n' \<le> Suc n"
      "mem.tree_at lc bc a 0 (n + 2) a' (insort_key leKey \<lparr>leKey = key, leItem = item\<rparr> (inorder T)) n'" by blast
  from mem.tree_at_repr [OF i(3)] obtain x' T' where
    x: "mem_repr a' x'" "tree_ok lc bc (mem_view x') T' n'"
      "inorder T' = insort_key leKey \<lparr>leKey = key, leItem = item\<rparr> (inorder T)"
      "\<forall>j. mem_room a (j + (n + 2)) \<longrightarrow> mem_room x' j" by blast
  let ?j = "65535 - (unat (nextNodeID a) + n + 2)"
  have "mem_room a (?j + (n + 2))" using assms(6) mem_tree_room [OF assms(1,2)] by simp
  with x(4) have "mem_room x' ?j" by blast
  then have "unat (nextNodeID x') \<le> unat (nextNodeID a) + n + 2" using assms(6) by (auto simp: mem_room_def)
  with i(1,2) x(1-3) show ?thesis by (auto simp: mem_repr_def)
qed

text \<open>C3: inserting a new key into a tree in memory cannot fail and keeps the tree: when IDs are left for
  one node on every level and a new root, and the fuel is twice the depth, \<open>Insert\<close> returns no
  error, and the nodes form a tree again (linked, ordered, equally deep, no node over its
  capacity), whose entries are the old ones with the new one in its place, at most one level
  deeper.\<close>

theorem mem_insert_keeps_tree:
  assumes "mem_good a" "tree_ok lc bc (mem_view a) T n" "2 \<le> lc" "4 \<le> bc" "2 * n \<le> m"
    "unat (nextNodeID a) + n + 2 < 2 ^ 16" "lookup key (inorder T) = None"
  shows "\<exists>a' T' n'. treeInsert (newTree memAdapter (int lc) (int bc)) m key item a = Ok (None, a') \<and> mem_good a' \<and>
    tree_ok lc bc (mem_view a') T' n' \<and> n' \<le> Suc n \<and>
    inorder T' = insort_key leKey \<lparr>leKey = key, leItem = item\<rparr> (inorder T) \<and>
    unat (nextNodeID a') \<le> unat (nextNodeID a) + n + 2"
  by (rule mem_insert_step [OF assms])

text \<open>Inserting a key that the tree has reports \<open>ErrKeyExists\<close> and changes nothing.\<close>

theorem mem_insert_existing:
  assumes "mem_good a" "tree_ok lc bc (mem_view a) T n" "2 \<le> lc" "4 \<le> bc" "n \<le> m"
    "lookup key (inorder T) = Some item'"
  shows "treeInsert (newTree memAdapter (int lc) (int bc)) m key item a = Ok (Some (ErrKeyExists key), a)"
  using mem.treeInsert_exists [OF mem_capacities [OF assms(3,4)] _ assms(2,5), of a key item] assms(1,6)
  by (auto simp: mem_repr_def)

lemma mem_find_tree:
  assumes "mem_good a" "tree_ok lc bc (mem_view a) T n" "n \<le> m"
  shows "treeFind (newTree memAdapter lc' bc') m k a =
    Ok (case lookup k (inorder T) of None \<Rightarrow> Inl (ErrKeyNotFound k) | Some item \<Rightarrow> Inr item, a)"
proof -
  have T: "laid (mem_view a) 0 T" "rootOf (mem_view a) = Some (tid T)" "balanced n T"
    using assms(2) by (auto simp: tree_ok_def tree_shape_def)
  show ?thesis
    using mem.treeFind_Ok [of "newTree memAdapter lc' bc'", OF _ tree_ok_ordered [OF assms(2)] T(3) assms(3)
        laid_stored [OF T(1)] _ T(2), of a k] assms(1)
    by (auto simp: newTree_def mem_repr_def)
qed

text \<open>After inserting a new key, \<open>Find\<close> returns its item for it and for every other key what it
  returned before.\<close>

theorem mem_insert_find:
  assumes "mem_good a" "tree_ok lc bc (mem_view a) T n" "2 \<le> lc" "4 \<le> bc" "2 * n \<le> m"
    "unat (nextNodeID a) + n + 2 < 2 ^ 16" "lookup key (inorder T) = None"
  shows "\<exists>a'. treeInsert (newTree memAdapter (int lc) (int bc)) m key item a = Ok (None, a') \<and>
    treeFind (newTree memAdapter (int lc) (int bc)) (Suc m) key a' = Ok (Inr item, a') \<and>
    (\<forall>k r. k \<noteq> key \<longrightarrow> treeFind (newTree memAdapter (int lc) (int bc)) (Suc m) k a = Ok (r, a) \<longrightarrow>
      treeFind (newTree memAdapter (int lc) (int bc)) (Suc m) k a' = Ok (r, a'))"
proof -
  let ?e = "\<lparr>leKey = key, leItem = item\<rparr>"
  have r: "mem_repr a a" "mem_room a (n + 2)" using assms(1,6) mem_tree_room [OF assms(1,2)] by (simp_all add: mem_repr_def)
  from mem.treeInsert_new [OF mem_capacities [OF assms(3,4)] r(1) assms(2,5) r(2) assms(7), of item] obtain a' n' where
    i: "treeInsert (newTree memAdapter (int lc) (int bc)) m key item a = Ok (None, a')" "n' \<le> Suc n"
      "mem.tree_at lc bc a 0 (n + 2) a' (insort_key leKey ?e (inorder T)) n'" by blast
  from mem.tree_at_repr [OF i(3)] obtain T' where
    x: "mem_good a'" "tree_ok lc bc (mem_view a') T' n'" "inorder T' = insort_key leKey ?e (inorder T)"
    by (auto simp: mem_repr_def)
  have l: "lookup k (inorder T') = (if k = key then Some item else lookup k (inorder T))" for k
    using lookup_insort [of ?e "inorder T" k] assms(7) by (simp add: x(3))
  have "n \<le> Suc m" "n' \<le> Suc m" using i(2) assms(5) by simp_all
  then show ?thesis using i(1) mem_find_tree [OF x(1,2)] mem_find_tree [OF assms(1,2)] by (auto simp: l)
qed

text \<open>A history of insertions, with what they return.\<close>

fun insertAll :: "('s, 'l, 'b, 'i) bPlusTree \<Rightarrow> nat \<Rightarrow> (u32 \<times> 'i) list \<Rightarrow> ('s, goerror option list) prog" where
  "insertAll t m [] = ret []"
| "insertAll t m ((key, item) # kvs) =
     bind (treeInsert t m key item) (\<lambda>e. bind (insertAll t m kvs) (\<lambda>es. ret (e # es)))"

definition entries_sorted :: "(u32 \<times> 'i) list \<Rightarrow> 'i LeafEntry list" where
  "entries_sorted kvs = foldl (\<lambda>es (k, v). insort_key leKey \<lparr>leKey = k, leItem = v\<rparr> es) [] kvs"

lemma lookup_insort_key:
  "lookup k (insort_key leKey \<lparr>leKey = j, leItem = v\<rparr> es) = None \<longleftrightarrow> k \<noteq> j \<and> lookup k es = None"
  by (auto simp: mem.lookup_None_iff set_insort_key)

text \<open>The depth of a tree is at most 16: it has at least two to the depth leaves, each with an ID of its own.\<close>

lemma lev_bound: "balanced n T \<Longrightarrow> sized lc bc T \<Longrightarrow> 2 ^ n \<le> length (lev n T)"
proof (induction n T rule: balanced.induct)
  case (3 n i ks ts)
  have "2 ^ n \<le> length (lev n t)" if "t \<in> set ts" for t using 3 that by simp
  then have "length ts * 2 ^ n \<le> length (concat (map (lev n) ts))"
    by (induction ts) (auto intro!: add_mono)
  moreover have "2 \<le> length ts" using 3(3) by (cases ks) auto
  then have "2 * 2 ^ n \<le> length ts * (2 ^ n :: nat)" by (rule mult_le_mono1)
  ultimately show ?case unfolding lev.simps power_Suc by (blast intro: order_trans)
qed simp_all

lemma depth_bound:
  assumes "tree_ok lc bc H T n"
  shows "n \<le> 16"
proof -
  have s: "tree_shape H T n" "balanced n T" "sized lc bc T \<or> T = Leafy (tid T) []"
    using assms by (simp_all add: tree_ok_def tree_shape_def)
  have "2 ^ n \<le> length (lev n T)" using s(2,3) lev_bound [OF s(2)] by (cases T) auto
  also have "length (lev n T) = card (set (lev n T))"
    using distinct_lev [of T n] s(1) by (simp add: distinct_card tree_shape_def)
  also have "\<dots> \<le> card (UNIV :: u16 set)" by (intro card_mono) simp_all
  also have "\<dots> = 2 ^ 16" by (simp add: card_word)
  finally have "(2 :: nat) ^ n \<le> 2 ^ 16" .
  then show ?thesis by (rule power_le_imp_le_exp [rotated]) simp
qed

text \<open>
  Insertions succeed while an ID is left for every level and a new root: the first \<open>i\<close> of a list of
  entries with new keys do, where \<open>i\<close> is all of them unless the IDs are used up to the depth and two.
\<close>

lemma mem_insertAll:
  assumes "mem_good a" "tree_ok lc bc (mem_view a) T n" "2 \<le> lc" "4 \<le> bc" "32 \<le> m"
    "distinct (map fst kvs)" "\<forall>k \<in> fst ` set kvs. lookup k (inorder T) = None"
  shows "\<exists>i a' T' n'. i \<le> length kvs \<and>
    insertAll (newTree memAdapter (int lc) (int bc)) m (take i kvs) a = Ok (replicate i None, a') \<and>
    mem_good a' \<and> tree_ok lc bc (mem_view a') T' n' \<and>
    inorder T' = foldl (\<lambda>es (k, v). insort_key leKey \<lparr>leKey = k, leItem = v\<rparr> es) (inorder T) (take i kvs) \<and>
    unat (nextNodeID a') \<le> unat (nextNodeID a) + 18 * i \<and> (i = length kvs \<or> 2 ^ 16 \<le> unat (nextNodeID a') + n' + 2)"
  using assms
proof (induction kvs arbitrary: a T n)
  case Nil
  then show ?case by (intro exI [of _ 0] exI [of _ a] exI [of _ T] exI [of _ n]) simp
next
  case (Cons kv kvs)
  obtain k v where kv: "kv = (k, v)" by (cases kv)
  let ?t = "newTree memAdapter (int lc) (int bc)"
  have n: "n \<le> 16" by (rule depth_bound [OF Cons.prems(2)])
  show ?case
  proof (cases "unat (nextNodeID a) + n + 2 < 2 ^ 16")
    case False
    then show ?thesis
      using Cons.prems(1,2) by (intro exI [of _ 0] exI [of _ a] exI [of _ T] exI [of _ n]) simp
  next
    case True
    have b: "2 * n \<le> m" "lookup k (inorder T) = None" using n Cons.prems(5,7) kv by auto
    from mem_insert_step [OF Cons.prems(1-4) b(1) True b(2), of v] obtain a1 T1 n1 where
      s1: "treeInsert ?t m k v a = Ok (None, a1)" "mem_good a1" "tree_ok lc bc (mem_view a1) T1 n1"
        "inorder T1 = insort_key leKey \<lparr>leKey = k, leItem = v\<rparr> (inorder T)" "unat (nextNodeID a1) \<le> unat (nextNodeID a) + n + 2"
      by blast
    have "\<forall>j \<in> fst ` set kvs. lookup j (inorder T1) = None"
      using Cons.prems(6,7) kv by (auto simp: s1(4) lookup_insort_key)
    moreover have "distinct (map fst kvs)" using Cons.prems(6) by simp
    ultimately obtain i a2 T2 n2 where
      s2: "i \<le> length kvs" "insertAll ?t m (take i kvs) a1 = Ok (replicate i None, a2)" "mem_good a2"
        "tree_ok lc bc (mem_view a2) T2 n2"
        "inorder T2 = foldl (\<lambda>es (k, v). insort_key leKey \<lparr>leKey = k, leItem = v\<rparr> es) (inorder T1) (take i kvs)"
        "unat (nextNodeID a2) \<le> unat (nextNodeID a1) + 18 * i" "i = length kvs \<or> 2 ^ 16 \<le> unat (nextNodeID a2) + n2 + 2"
      using Cons.IH [OF s1(2,3) Cons.prems(3-5)] by blast
    then show ?thesis
      using s1(1,4,5) kv n by (intro exI [of _ "Suc i"] exI [of _ a2] exI [of _ T2] exI [of _ n2]) (simp add: bind_def)
  qed
qed

text \<open>The first entry in a new adapter: the root is a leaf with it.\<close>

definition mem_one :: "u32 \<Rightarrow> 'i \<Rightarrow> 'i InMemoryAdapter" where
  "mem_one k v = \<lparr>rootID = 1, firstLeafID = 1, nextNodeID = 2, Nodes = [1 \<mapsto> LeafNode 0],
     leaves = [\<lparr>lid = 1, lparentID = 0, lleftID = 0, lrightID = 0, lentries = [\<lparr>leKey = k, leItem = v\<rparr>]\<rparr>], branches = []\<rparr>"

lemma mem_first:
  assumes "2 \<le> lc"
  shows "treeInsert (newTree memAdapter (int lc) (int bc)) m k v NewInMemoryAdapter = Ok (None, mem_one k v)"
proof -
  let ?a = "\<lparr>rootID = 1, firstLeafID = 1, nextNodeID = 2, Nodes = [1 \<mapsto> LeafNode 0],
     leaves = [\<lparr>lid = 1, lparentID = 0, lleftID = 0, lrightID = 0, lentries = []\<rparr>], branches = []\<rparr> :: 'a InMemoryAdapter"
  let ?t = "newTree memAdapter (int lc) (int bc)"
  have t: "adapter ?t = memAdapter" "leafCapacity ?t = int lc" by (simp_all add: newTree_def)
  have "mem_LoadRoot NewInMemoryAdapter = Ok (None, NewInMemoryAdapter :: 'a InMemoryAdapter)"
    by (simp add: mem_LoadRoot_def NewInMemoryAdapter_def)
  moreover have "mem_Init NewInMemoryAdapter = Ok (0, ?a)"
    by (simp add: mem_Init_def mem_CreateLeaf_def NewInMemoryAdapter_def bind_def seq_def leafAt_def)
  moreover have "mem_TotalKeys (LeafNode 0) ?a = Ok (0, ?a)" by (simp add: bind_def leafAt_def)
  moreover from this have "findOnNode ?t (LeafNode 0) k ?a = Ok ((0, False), ?a)"
    by (simp add: findOnNode_def Let_def bind_def t sortSearch.simps)
  moreover have "memLeaf_InsertAt 0 0 \<lparr>leKey = k, leItem = v\<rparr> ?a = Ok ((), mem_one k v)"
    by (simp add: memLeaf_InsertAt_def bind_def leafAt_def setLeaf_def mem_one_def)
  ultimately show ?thesis using assms by (simp add: treeInsert_def insertOnLeaf_def Let_def bind_def seq_def t)
qed

lemma mem_one_tree:
  assumes "1 \<le> lc"
  shows "mem_good (mem_one k v)" "tree_ok lc bc (mem_view (mem_one k v)) (Leafy 1 [\<lparr>leKey = k, leItem = v\<rparr>]) 0"
proof -
  show "mem_good (mem_one k v)" by (simp add: mem_good_def mem_fits_def mem_one_def)
  have "seg (mem_view (mem_one k v)) 0 (lev m (Leafy 1 [\<lparr>leKey = k, leItem = v\<rparr>])) 0" for m
    by (cases m) (simp_all add: mem_view_def mem_one_def mem_node_def leafView_def)
  then show "tree_ok lc bc (mem_view (mem_one k v)) (Leafy 1 [\<lparr>leKey = k, leItem = v\<rparr>]) 0"
    using assms by (simp add: tree_ok_def tree_shape_def chained_def mem_view_def mem_one_def mem_node_def leafView_def)
qed

lemma mem_insertAll_new:
  assumes "2 \<le> lc" "4 \<le> bc" "32 \<le> m" "distinct (map fst kvs)" "kvs \<noteq> []"
  shows "\<exists>i a T n. i \<le> length kvs \<and>
    insertAll (newTree memAdapter (int lc) (int bc)) m (take i kvs) NewInMemoryAdapter = Ok (replicate i None, a) \<and>
    mem_good a \<and> tree_ok lc bc (mem_view a) T n \<and> inorder T = entries_sorted (take i kvs) \<and>
    unat (nextNodeID a) \<le> 2 + 18 * i \<and> (i = length kvs \<or> 2 ^ 16 \<le> unat (nextNodeID a) + n + 2)"
proof -
  from assms(5) obtain k v rest where kvs: "kvs = (k, v) # rest" by (cases kvs) auto
  let ?t = "newTree memAdapter (int lc) (int bc)" and ?T = "Leafy 1 [\<lparr>leKey = k, leItem = v\<rparr>]"
  have l: "1 \<le> lc" using assms(1) by simp
  have one: "mem_good (mem_one k v)" "tree_ok lc bc (mem_view (mem_one k v)) ?T 0"
    by (rule mem_one_tree [OF l])+
  have "distinct (map fst rest)" using assms(4) by (simp add: kvs)
  moreover have "\<forall>j \<in> fst ` set rest. lookup j (inorder ?T) = None"
    using assms(4) by (auto simp: kvs lookup_def)
  ultimately obtain i a T n where
    a: "i \<le> length rest" "insertAll ?t m (take i rest) (mem_one k v) = Ok (replicate i None, a)" "mem_good a"
      "tree_ok lc bc (mem_view a) T n"
      "inorder T = foldl (\<lambda>es (k, v). insort_key leKey \<lparr>leKey = k, leItem = v\<rparr> es) (inorder ?T) (take i rest)"
      "unat (nextNodeID a) \<le> unat (nextNodeID (mem_one k v)) + 18 * i" "i = length rest \<or> 2 ^ 16 \<le> unat (nextNodeID a) + n + 2"
    using mem_insertAll [OF one assms(1-3)] by blast
  moreover have "unat (nextNodeID (mem_one k v)) = 2" by (simp add: mem_one_def)
  ultimately show ?thesis
    using mem_first [OF assms(1), of bc m k v]
    by (intro exI [of _ "Suc i"] exI [of _ a] exI [of _ T] exI [of _ n]) (simp add: kvs bind_def entries_sorted_def)
qed

lemma entries_sorted_snoc: "entries_sorted (kvs @ [(k, v)]) = insort_key leKey \<lparr>leKey = k, leItem = v\<rparr> (entries_sorted kvs)"
  by (simp add: entries_sorted_def)

lemma entries_sorted_keys:
  "set (entries_sorted kvs) = (\<lambda>(k, v). \<lparr>leKey = k, leItem = v\<rparr>) ` set kvs"
  "distinct (map fst kvs) \<Longrightarrow> sorted_wrt (<) (map leKey (entries_sorted kvs))"
proof (induction kvs rule: rev_induct)
  case (snoc kv kvs)
  obtain k v where kv: "kv = (k, v)" by (cases kv)
  { case 1
    then show ?case using snoc.IH(1) by (simp add: kv entries_sorted_snoc set_insort_key)
  next
    case 2
    then have "k \<notin> leKey ` set (entries_sorted kvs)" using snoc.IH(1) by (force simp: kv)
    with 2 show ?case using snoc.IH(2) sorted_insort [of "entries_sorted kvs" "\<lparr>leKey = k, leItem = v\<rparr>"]
      by (simp add: kv entries_sorted_snoc) }
qed (simp_all add: entries_sorted_def)

lemma lookup_entries_sorted:
  assumes "distinct (map fst kvs)"
  shows "lookup k (entries_sorted kvs) = map_of kvs k"
proof -
  have d: "distinct (map fst (map (\<lambda>e. (leKey e, leItem e)) (entries_sorted kvs)))"
    using entries_sorted_keys(2) [OF assms] by (simp add: strict_sorted_iff comp_def)
  have "lookup k (entries_sorted kvs) = Some v \<longleftrightarrow> map_of kvs k = Some v" for v
  proof -
    have "lookup k (entries_sorted kvs) = Some v \<longleftrightarrow> (k, v) \<in> set (map (\<lambda>e. (leKey e, leItem e)) (entries_sorted kvs))"
      unfolding lookup_def by (rule map_of_eq_Some_iff [OF d])
    also have "\<dots> \<longleftrightarrow> (k, v) \<in> set kvs" by (force simp: entries_sorted_keys(1))
    also have "\<dots> \<longleftrightarrow> map_of kvs k = Some v" by (rule map_of_eq_Some_iff [OF assms, symmetric])
    finally show ?thesis .
  qed
  then show ?thesis by (metis not_None_eq)
qed

text \<open>C5: A history of insertions of different keys into a new tree in memory succeeds until fewer than 19
  of the node IDs are left: the first \<open>i\<close> insertions return no error, do not panic and do not run out
  of fuel, and \<open>Find\<close> then gives every item inserted and reports the other keys as not found, where
  \<open>i\<close> is the whole history unless the IDs were used up to the last 18. An insertion uses at most 18
  IDs, so that any 3639 insertions succeed. The fuel is 32, twice the largest depth of a tree.\<close>

theorem mem_inserts_succeed:
  assumes "2 \<le> lc" "4 \<le> bc" "32 \<le> m" "distinct (map fst kvs)" "kvs \<noteq> []"
  shows "\<exists>i a. i \<le> length kvs \<and>
    insertAll (newTree memAdapter (int lc) (int bc)) m (take i kvs) NewInMemoryAdapter = Ok (replicate i None, a) \<and>
    (\<forall>k. treeFind (newTree memAdapter (int lc) (int bc)) m k a =
      Ok (case map_of (take i kvs) k of None \<Rightarrow> Inl (ErrKeyNotFound k) | Some item \<Rightarrow> Inr item, a)) \<and>
    (i = length kvs \<or> 2 ^ 16 \<le> unat (nextNodeID a) + 18) \<and> unat (nextNodeID a) \<le> 2 + 18 * i \<and>
    (i = length kvs \<or> 3639 \<le> i)"
proof -
  from mem_insertAll_new [OF assms] obtain i a T n where
    a: "i \<le> length kvs"
      "insertAll (newTree memAdapter (int lc) (int bc)) m (take i kvs) NewInMemoryAdapter = Ok (replicate i None, a)"
      "mem_good a" "tree_ok lc bc (mem_view a) T n" "inorder T = entries_sorted (take i kvs)"
      "unat (nextNodeID a) \<le> 2 + 18 * i" "i = length kvs \<or> 2 ^ 16 \<le> unat (nextNodeID a) + n + 2" by blast
  have n: "n \<le> 16" by (rule depth_bound [OF a(4)])
  have "distinct (map fst (take i kvs))" using assms(4) by (simp add: take_map [symmetric])
  note L = lookup_entries_sorted [OF this]
  have "n \<le> m" using n assms(3) by simp
  note F = mem_find_tree [OF a(3,4) this]
  have j: "i = length kvs \<or> 2 ^ 16 \<le> unat (nextNodeID a) + 18" using a(7) n by auto
  then have "i = length kvs \<or> 3639 \<le> i" using a(6) by auto
  with a(1,2,6) j F show ?thesis by (intro exI [of _ i] exI [of _ a]) (simp add: a(5) L)
qed

text \<open>Iterating over a tree in memory visits the entries of the tree in the order of their keys, each
  once, and leaves the nodes as they are, for every iterator that only accumulates.\<close>

theorem mem_all_in_order:
  assumes "mem_good a" "tree_ok lc bc (mem_view a) T n" "length (leaves_in T) \<le> m" "adapter t = memAdapter"
  shows "\<exists>a'. treeAll t m (\<lambda>acc e. ret (f acc e)) acc a = Ok (foldl f acc (inorder T), a') \<and> mem_good a' \<and>
    mem_view a' = mem_view a \<and> sorted_wrt (<) (map leKey (inorder T))"
proof -
  have "mem_repr a a" using assms(1) by (simp add: mem_repr_def)
  from mem.treeAll_Ok [of t "\<lambda>acc e. ret (f acc e)" f, OF assms(4) _ this assms(2,3), of acc] obtain a' where
    "treeAll t m (\<lambda>acc e. ret (f acc e)) acc a = Ok (foldl f acc (inorder T), a')" "mem_good a'" "mem_view a' = mem_view a"
    by (auto simp: mem_repr_def)
  moreover have "sorted_wrt (<) (line T)" using assms(2) by (simp add: tree_ok_def tree_shape_def)
  then have "sorted_wrt (<) (map leKey (inorder T))" by (rule line_inorder)
  ultimately show ?thesis by blast
qed

section \<open>Witnesses\<close>

lemma three_leaves_ok: "tree_ok 3 4 (mem_view three_leaves) three_tree 1"
proof -
  note nodes = mem_view_def three_leaves_def mem_node_def leafView_def branchView_def ptrs_of_def
  have "laid (mem_view three_leaves) 0 three_tree" by (simp add: three_tree_def nodes)
  moreover have "rootOf (mem_view three_leaves) = Some (tid three_tree)" by (rule three_leaves)
  moreover have "balanced 1 three_tree" by (rule three_leaves)
  moreover have "sized 3 4 three_tree" by (simp add: three_tree_def)
  moreover have "firstOf (mem_view three_leaves) = first_leaf three_tree"
    by (simp add: mem_view_def three_tree_def three_leaves_def)
  moreover have "sorted_wrt (<) (line three_tree)" by (simp add: three_tree_def mark_def)
  moreover have "distinct (ids three_tree)" "0 \<notin> set (ids three_tree)" by (simp_all add: three_tree_def)
  moreover have "seg (mem_view three_leaves) 0 (lev n three_tree) 0" for n
  proof -
    consider "n = 0" | "n = 1" | m where "n = Suc (Suc m)" by (metis One_nat_def old.nat.exhaust)
    then show ?thesis by cases (simp_all add: three_tree_def nodes)
  qed
  ultimately show ?thesis by (simp add: tree_ok_def tree_shape_def chained_def)
qed

lemma mem_insert_keeps_tree_witness:
  "\<exists>a' T' n'. treeInsert (newTree memAdapter 3 4) 2 7 70 three_leaves = Ok (None, a') \<and> mem_good a' \<and>
    tree_ok 3 4 (mem_view a') T' n' \<and> n' \<le> Suc 1 \<and> map leKey (inorder T') = [1, 5, 6, 7, 9] \<and> unat (nextNodeID a') \<le> 8"
proof -
  have "nextNodeID three_leaves = 5" "lookup 7 (inorder three_tree) = None"
    by (simp_all add: three_leaves_def three_tree_def lookup_def)
  with mem_insert_keeps_tree [OF three_leaves(1) three_leaves_ok, of 2 7 70] obtain a' T' n' where
    a': "treeInsert (newTree memAdapter 3 4) 2 7 70 three_leaves = Ok (None, a')" "mem_good a'"
      "tree_ok 3 4 (mem_view a') T' n'" "n' \<le> Suc 1"
      "inorder T' = insort_key leKey \<lparr>leKey = 7, leItem = 70\<rparr> (inorder three_tree)" "unat (nextNodeID a') \<le> 8" by auto
  have "map leKey (inorder T') = [1, 5, 6, 7, 9]" unfolding a'(5) by (simp add: three_tree_def word_le_nat_alt)
  then show ?thesis by (intro exI [of _ a'] exI [of _ T'] exI [of _ n'] conjI a')
qed

lemma mem_insert_existing_witness:
  "treeInsert (newTree memAdapter 3 4) 1 6 99 three_leaves = Ok (Some (ErrKeyExists 6), three_leaves)"
  using mem_insert_existing [OF three_leaves(1) three_leaves_ok, of 1 6 60 99]
  by (simp add: three_tree_def lookup_def)

lemma mem_insert_find_witness:
  "\<exists>a'. treeInsert (newTree memAdapter 3 4) 2 7 70 three_leaves = Ok (None, a') \<and>
    treeFind (newTree memAdapter 3 4) 3 7 a' = Ok (Inr 70, a') \<and>
    treeFind (newTree memAdapter 3 4) 3 6 a' = Ok (Inr 60, a')"
proof -
  have "nextNodeID three_leaves = 5" "lookup 7 (inorder three_tree) = None"
    by (simp_all add: three_leaves_def three_tree_def lookup_def)
  moreover have "treeFind (newTree memAdapter 3 4) 3 6 three_leaves = Ok (Inr 60, three_leaves)"
    using mem_find_tree [OF three_leaves(1) three_leaves_ok, of 3 3 4 6] by (simp add: three_tree_def lookup_def)
  ultimately show ?thesis
    using mem_insert_find [OF three_leaves(1) three_leaves_ok, of 2 7 70] by (auto simp: numeral_3_eq_3)
qed

lemma mem_inserts_succeed_witness:
  "\<exists>a. insertAll (newTree memAdapter 2 4) 32 (map (\<lambda>i. (of_nat i, i * i)) [0 ..< 3000]) NewInMemoryAdapter =
      Ok (replicate 3000 None, a) \<and>
    treeFind (newTree memAdapter 2 4) 32 7 a = Ok (Inr 49, a) \<and>
    treeFind (newTree memAdapter 2 4) 32 3000 a = Ok (Inl (ErrKeyNotFound 3000), a)"
proof -
  define kvs :: "(u32 \<times> nat) list" where "kvs = map (\<lambda>i. (of_nat i, i * i)) [0 ..< 3000]"
  have u: "unat (of_nat i :: u32) = i" if "i \<le> 3000" for i
    using that by (simp add: unsigned_of_nat take_bit_nat_eq_self)
  then have "inj_on (of_nat :: nat \<Rightarrow> u32) {0 ..< 3000}"
    by (intro inj_on_inverseI [of _ unat]) simp
  then have k: "distinct (map fst kvs)" "kvs \<noteq> []" "length kvs = 3000"
    by (simp_all add: kvs_def distinct_map comp_def)
  have "(of_nat 7, 7 * 7) \<in> set kvs" unfolding kvs_def set_map by (rule imageI) simp
  then have "map_of kvs (of_nat 7) = Some (7 * 7)" by (rule map_of_is_SomeI [OF k(1)])
  moreover have "(3000 :: u32) \<noteq> of_nat i" if "i < 3000" for i
  proof
    assume "(3000 :: u32) = of_nat i"
    then have "unat (3000 :: u32) = i" using u [of i] that by simp
    with that show False by simp
  qed
  then have "map_of kvs 3000 = None" unfolding map_of_eq_None_iff by (auto simp: kvs_def)
  ultimately show ?thesis
    using mem_inserts_succeed [of 2 4 32 kvs] k unfolding kvs_def [symmetric] by fastforce
qed

lemma mem_all_in_order_witness:
  "\<exists>a'. treeAll (newTree memAdapter 3 4) 3 (\<lambda>acc e. ret (acc @ [leKey e])) [] three_leaves = Ok ([1, 5, 6, 9], a') \<and>
    mem_view a' = mem_view three_leaves"
  using mem_all_in_order [OF three_leaves(1) three_leaves_ok, of 3 "newTree memAdapter 3 4" "\<lambda>acc e. acc @ [leKey e]" "[]"]
  by (auto simp: three_tree_def newTree_def)

end
