(* ===== verification/DataBuffer.thy ===== *)
theory DataBuffer
  imports DataFile
begin

text \<open>
  The block buffer of \<open>src/src/simplejsondb/dbio/data_buffer.go\<close>: a fixed set of frames with a clock
  (second chance) replacement. A pointer to a frame is its index in \<open>frames\<close>, and a \<open>DataBlock\<close>
  holds such a pointer, so a block that was evicted shares its bytes with the block that took its
  frame, as in the code. The lemmas show that the buffer is a transparent cache: over any file that
  keeps the contract \<open>block_file\<close>, fetching, evicting and marking never change the abstract
  contents of a block, and \<open>Sync\<close> brings the file to them.
\<close>

section \<open>The code\<close>

record bufferFrame =
  inUse :: bool
  referenced :: bool
  isDirty :: bool
  position :: nat
  fdata :: bytes

record 'f dataBuffer =
  df :: 'f
  frames :: "bufferFrame list"
  idToFrame :: "u16 \<rightharpoonup> nat"
  nextVictims :: "u16 list"
  bufsize :: nat

record DataBlock =
  ID :: u16
  Frame :: nat

definition NewDataBuffer :: "'f \<Rightarrow> int \<Rightarrow> 'f dataBuffer outcome" where
  "NewDataBuffer f sz =
     (if sz < 0 then Panic MakeNegative
      else Ok \<lparr>df = f,
               frames = map (\<lambda>i. \<lparr>inUse = False, referenced = False, isDirty = False, position = i,
                                  fdata = replicate DATABLOCK_SIZE 0\<rparr>) [0 ..< nat sz],
               idToFrame = (\<lambda>_. None), nextVictims = [], bufsize = nat sz\<rparr>)"

text \<open>A call of a method of the data file, and the use of a pointer to a frame.\<close>

definition onFile :: "('f, 'a) prog \<Rightarrow> ('f dataBuffer, 'a) prog" where
  "onFile m b = (case m (df b) of
     Ok (a, f) \<Rightarrow> Ok (a, b\<lparr>df := f\<rparr>) | Panic p \<Rightarrow> Panic p | NoFuel \<Rightarrow> NoFuel)"

definition frameAt :: "nat \<Rightarrow> ('f dataBuffer, bufferFrame) prog" where
  "frameAt k b = (if k < length (frames b) then Ok (frames b ! k, b) else Panic IndexOutOfRange)"

definition updFrame :: "nat \<Rightarrow> (bufferFrame \<Rightarrow> bufferFrame) \<Rightarrow> ('f dataBuffer, unit) prog" where
  "updFrame k g b =
     (if k < length (frames b) then Ok ((), b\<lparr>frames := (frames b)[k := g (frames b ! k)]\<rparr>)
      else Panic IndexOutOfRange)"

text \<open>
  The scan of \<open>evictFrame\<close>. Every round either stops or clears the reference bit of a frame, so the
  number of referenced frames is the measure.
\<close>

function evict_scan ::
    "(u16 \<rightharpoonup> nat) \<Rightarrow> u16 list \<Rightarrow> nat \<Rightarrow> nat \<Rightarrow> bufferFrame list
      \<Rightarrow> (nat \<times> u16 \<times> nat \<times> bufferFrame list) outcome" where
  "evict_scan m victims sz victimPosition fs =
     (if victimPosition < length victims then
        (case m (victims ! victimPosition) of
           None \<Rightarrow> Panic NilDereference
         | Some k \<Rightarrow>
             if length fs \<le> k then Panic NilDereference
             else if \<not> referenced (fs ! k)
             then Ok (victimPosition, victims ! victimPosition, k, fs)
             else if sz = 0 then Panic DivideByZero
             else evict_scan m victims sz ((victimPosition + 1) mod sz)
                    (fs[k := (fs ! k)\<lparr>referenced := False\<rparr>]))
      else Panic IndexOutOfRange)"
  by pat_completeness auto
termination
proof (relation "measure (\<lambda>(m, victims, sz, pos, fs). length (filter referenced fs))")
  fix k and fs :: "bufferFrame list"
  assume "\<not> length fs \<le> k" "\<not> \<not> referenced (fs ! k)"
  then have "length (filter referenced (fs[k := (fs ! k)\<lparr>referenced := False\<rparr>]))
      < length (filter referenced fs)"
    by (simp add: upd_conv_take_nth_drop) (subst (3) id_take_nth_drop [of k fs], simp_all)
  then show "((m, victims, sz, (pos + 1) mod sz, fs[k := (fs ! k)\<lparr>referenced := False\<rparr>]),
      (m, victims, sz, pos, fs)) \<in> measure (\<lambda>(m, victims, sz, pos, fs). length (filter referenced fs))"
    for m :: "u16 \<rightharpoonup> nat" and victims sz pos by simp
qed simp

declare evict_scan.simps [simp del]

definition evictFrame :: "'f DataFile \<Rightarrow> ('f dataBuffer, goerror + nat) prog" where
  "evictFrame D b =
     (case evict_scan (idToFrame b) (nextVictims b) (bufsize b) 0 (frames b) of
        Panic p \<Rightarrow> Panic p
      | NoFuel \<Rightarrow> NoFuel
      | Ok (victimPosition, victimID, k, fs) \<Rightarrow>
          bind (if isDirty (fs ! k) then onFile (WriteBlock D victimID (fdata (fs ! k))) else ret None)
            (\<lambda>err. case err of
               Some e \<Rightarrow> ret (Inl e)
             | None \<Rightarrow>
                 seq (updFrame k (\<lambda>fr. fr\<lparr>inUse := False, isDirty := False\<rparr>))
                (seq (modify (\<lambda>b. b\<lparr>idToFrame := (idToFrame b)(victimID := None),
                        nextVictims := drop (victimPosition + 1) (nextVictims b)
                                         @ take victimPosition (nextVictims b)\<rparr>))
                     (ret (Inr k))))
            (b\<lparr>frames := fs\<rparr>))"

text \<open>\<open>for i := 0; i < size; i++ \{ frame = frames[i]; if !frame.inUse \{ break \} \}\<close>\<close>

fun pickFrame :: "nat list \<Rightarrow> nat option \<Rightarrow> ('f dataBuffer, nat option) prog" where
  "pickFrame [] frame = ret frame"
| "pickFrame (i # is) frame =
     bind (frameAt i) (\<lambda>fr. if \<not> inUse fr then ret (Some i) else pickFrame is (Some i))"

text \<open>\<open>ReadBlock\<close> of the file into the bytes of a frame.\<close>

definition readInto :: "'f DataFile \<Rightarrow> u16 \<Rightarrow> nat \<Rightarrow> ('f dataBuffer, goerror option) prog" where
  "readInto D blockID k =
     bind (frameAt k) (\<lambda>fr.
     bind (onFile (ReadBlock D blockID (fdata fr))) (\<lambda>(err, data).
     seq (updFrame k (\<lambda>fr. fr\<lparr>fdata := data\<rparr>)) (ret err)))"

text \<open>The frame for a block that is not cached: lines 61 to 74 of \<open>FetchBlock\<close>.\<close>

definition acquireFrame :: "'f DataFile \<Rightarrow> bool \<Rightarrow> ('f dataBuffer, goerror + nat) prog" where
  "acquireFrame D needsEvict =
     (if needsEvict then evictFrame D
      else bind (gets bufsize) (\<lambda>sz. bind (pickFrame [0 ..< sz] None) (\<lambda>fr.
           case fr of None \<Rightarrow> panic NilDereference | Some k \<Rightarrow> ret (Inr k))))"

definition FetchBlock :: "'f DataFile \<Rightarrow> u16 \<Rightarrow> ('f dataBuffer, goerror + DataBlock) prog" where
  "FetchBlock D blockID =
     bind (gets (\<lambda>b. idToFrame b blockID)) (\<lambda>frame.
     case frame of
       Some k \<Rightarrow>
         seq (updFrame k (\<lambda>fr. fr\<lparr>referenced := True\<rparr>)) (ret (Inr \<lparr>ID = blockID, Frame = k\<rparr>))
     | None \<Rightarrow>
         bind (gets (\<lambda>b. length (nextVictims b) = bufsize b)) (\<lambda>needsEvict.
         bind (acquireFrame D needsEvict)
           (\<lambda>r. case r of
              Inl err \<Rightarrow> ret (Inl err)
            | Inr k \<Rightarrow>
                bind (readInto D blockID k) (\<lambda>err.
                case err of
                  Some e \<Rightarrow> ret (Inl e)
                | None \<Rightarrow>
                    seq (updFrame k (\<lambda>fr. fr\<lparr>inUse := True, referenced := needsEvict\<rparr>))
                   (seq (modify (\<lambda>b. b\<lparr>nextVictims := nextVictims b @ [blockID],
                                       idToFrame := (idToFrame b)(blockID \<mapsto> k)\<rparr>))
                        (ret (Inr \<lparr>ID = blockID, Frame = k\<rparr>)))))))"

definition MarkAsDirty :: "u16 \<Rightarrow> ('f dataBuffer, goerror option) prog" where
  "MarkAsDirty dataBlockID =
     bind (gets (\<lambda>b. idToFrame b dataBlockID)) (\<lambda>frame.
     case frame of
       None \<Rightarrow> panic (PanicMsg ''Tried to mark as dirty a block that is no longer on the buffer'')
     | Some k \<Rightarrow> seq (updFrame k (\<lambda>fr. fr\<lparr>isDirty := True, referenced := True\<rparr>)) (ret None))"

text \<open>
  \<open>Sync\<close> ranges over the map \<open>idToFrame\<close>, in an order that Go leaves open: the argument \<open>order\<close>
  lists the keys as the range visits them.
\<close>

fun Sync :: "'f DataFile \<Rightarrow> u16 list \<Rightarrow> ('f dataBuffer, goerror option) prog" where
  "Sync D [] = ret None"
| "Sync D (dataBlockID # order) =
     bind (gets (\<lambda>b. idToFrame b dataBlockID)) (\<lambda>frame.
     case frame of
       None \<Rightarrow> Sync D order
     | Some k \<Rightarrow>
         bind (frameAt k) (\<lambda>fr.
         if \<not> isDirty fr then Sync D order
         else bind (onFile (WriteBlock D dataBlockID (fdata fr))) (\<lambda>err.
              case err of
                Some e \<Rightarrow> ret (Some e)
              | None \<Rightarrow> seq (updFrame k (\<lambda>fr. fr\<lparr>isDirty := False\<rparr>)) (Sync D order))))"

text \<open>A program on the bytes \<open>block.Data\<close>, which are those of the frame the block points to.\<close>

definition onBlock :: "DataBlock \<Rightarrow> (bytes, 'a) prog \<Rightarrow> ('f dataBuffer, 'a) prog" where
  "onBlock block m b =
     (if Frame block < length (frames b) then
        (case m (fdata (frames b ! Frame block)) of
           Ok (a, d) \<Rightarrow>
             Ok (a, b\<lparr>frames := (frames b)[Frame block := (frames b ! Frame block)\<lparr>fdata := d\<rparr>]\<rparr>)
         | Panic p \<Rightarrow> Panic p
         | NoFuel \<Rightarrow> NoFuel)
      else Panic NilDereference)"

section \<open>The choice of the victim\<close>

definition unref :: "bufferFrame \<Rightarrow> bufferFrame" where
  "unref fr = fr\<lparr>referenced := False\<rparr>"

definition is_ref :: "(u16 \<rightharpoonup> nat) \<Rightarrow> bufferFrame list \<Rightarrow> u16 \<Rightarrow> bool" where
  "is_ref m fs b = (case m b of None \<Rightarrow> False | Some k \<Rightarrow> referenced (fs ! k))"

text \<open>\<open>fs\<close> with the reference bits of the frames of \<open>ids\<close> cleared.\<close>

fun clear_refs :: "(u16 \<rightharpoonup> nat) \<Rightarrow> u16 list \<Rightarrow> bufferFrame list \<Rightarrow> bufferFrame list" where
  "clear_refs m [] fs = fs"
| "clear_refs m (b # ids) fs =
     clear_refs m ids (case m b of None \<Rightarrow> fs | Some k \<Rightarrow> fs[k := unref (fs ! k)])"

text \<open>Every victim has a frame, and no two victims have the same.\<close>

definition victims_ok :: "(u16 \<rightharpoonup> nat) \<Rightarrow> u16 list \<Rightarrow> bufferFrame list \<Rightarrow> bool" where
  "victims_ok m victims fs \<longleftrightarrow> distinct victims \<and> inj_on m (set victims) \<and>
     (\<forall>b \<in> set victims. \<exists>k < length fs. m b = Some k)"

lemma unref_simps [simp]:
  "inUse (unref fr) = inUse fr" "isDirty (unref fr) = isDirty fr" "fdata (unref fr) = fdata fr"
  "\<not> referenced (unref fr)" "position (unref fr) = position fr" "unref (unref fr) = unref fr"
  by (simp_all add: unref_def)

lemma map_unref_update [simp]: "map unref (fs[k := unref (fs ! k)]) = map unref fs"
  by (cases "k < length fs") (simp_all add: list_eq_iff_nth_eq nth_list_update list_update_beyond)

lemma map_unref_clear_refs [simp]: "map unref (clear_refs m ids fs) = map unref fs"
  by (induction ids arbitrary: fs) (simp_all split: option.split)

lemma length_clear_refs [simp]: "length (clear_refs m ids fs) = length fs"
  by (metis length_map map_unref_clear_refs)

lemma map_unref_nth:
  assumes "map unref gs = map unref fs" "k < length fs"
  shows "inUse (gs ! k) = inUse (fs ! k)" "isDirty (gs ! k) = isDirty (fs ! k)"
    "fdata (gs ! k) = fdata (fs ! k)" "length gs = length fs"
proof -
  show l: "length gs = length fs" using assms(1) by (metis length_map)
  have "unref (gs ! k) = unref (fs ! k)" using assms l by (metis nth_map)
  then show "inUse (gs ! k) = inUse (fs ! k)" "isDirty (gs ! k) = isDirty (fs ! k)"
    "fdata (gs ! k) = fdata (fs ! k)" by (metis unref_simps)+
qed

lemma victims_ok_update [simp]: "victims_ok m victims (fs[k := fr]) = victims_ok m victims fs"
  by (simp add: victims_ok_def)

lemma victims_ok_frame:
  assumes "victims_ok m victims fs" "i < length victims"
  obtains k where "m (victims ! i) = Some k" "k < length fs"
  using assms unfolding victims_ok_def by (metis nth_mem)

lemma victims_ok_distinct:
  assumes "victims_ok m victims fs" "i < length victims" "j < length victims" "i \<noteq> j"
  shows "m (victims ! i) \<noteq> m (victims ! j)"
  using assms unfolding victims_ok_def by (metis inj_onD nth_eq_iff_index_eq nth_mem)

lemma is_ref_update:
  assumes "victims_ok m victims fs" "i < length victims" "j < length victims"
    "m (victims ! i) = Some k"
  shows "is_ref m (fs[k := unref (fs ! k)]) (victims ! j) \<longleftrightarrow> j \<noteq> i \<and> is_ref m fs (victims ! j)"
proof -
  obtain k' where k': "m (victims ! j) = Some k'" "k' < length fs"
    using assms(1,3) by (rule victims_ok_frame)
  have "k = k' \<longleftrightarrow> i = j"
    using victims_ok_distinct [OF assms(1-3)] assms(4) k'(1) by auto
  with k' show ?thesis by (auto simp: is_ref_def)
qed

lemma evict_scan_stop:
  assumes "victims_ok m victims fs" "pos < length victims" "\<not> is_ref m fs (victims ! pos)"
  shows "evict_scan m victims sz pos fs = Ok (pos, victims ! pos, the (m (victims ! pos)), fs)"
  using assms by (subst evict_scan.simps) (auto simp: is_ref_def elim: victims_ok_frame)

lemma evict_scan_next:
  assumes "victims_ok m victims fs" "pos < length victims" "is_ref m fs (victims ! pos)"
    "m (victims ! pos) = Some k"
  shows "evict_scan m victims (length victims) pos fs =
    evict_scan m victims (length victims) ((pos + 1) mod length victims) (fs[k := unref (fs ! k)])"
proof -
  from assms(1,2) obtain k' where "m (victims ! pos) = Some k'" "k' < length fs"
    by (rule victims_ok_frame)
  then show ?thesis
    using assms(2-4) by (subst evict_scan.simps) (auto simp: is_ref_def unref_def)
qed

lemma evict_scan_run:
  assumes "victims_ok m victims fs" "pos + n < length victims"
    "\<forall>i < n. is_ref m fs (victims ! (pos + i))" "\<not> is_ref m fs (victims ! (pos + n))"
  shows "evict_scan m victims (length victims) pos fs =
    Ok (pos + n, victims ! (pos + n), the (m (victims ! (pos + n))),
        clear_refs m (take n (drop pos victims)) fs)"
  using assms
proof (induction n arbitrary: pos fs)
  case 0
  then show ?case by (simp add: evict_scan_stop)
next
  case (Suc n)
  then have pos: "pos < length victims" "is_ref m fs (victims ! pos)" by force+
  with Suc.prems(1) obtain k where k: "m (victims ! pos) = Some k" by (auto elim: victims_ok_frame)
  let ?fs = "fs[k := unref (fs ! k)]"
  have ref: "is_ref m ?fs (victims ! j) \<longleftrightarrow> j \<noteq> pos \<and> is_ref m fs (victims ! j)"
    if "j < length victims" for j
    using Suc.prems(1) pos(1) that k by (rule is_ref_update)
  have "evict_scan m victims (length victims) (pos + 1) ?fs =
      Ok (pos + 1 + n, victims ! (pos + 1 + n), the (m (victims ! (pos + 1 + n))),
        clear_refs m (take n (drop (pos + 1) victims)) ?fs)"
    using Suc.prems ref by (intro Suc.IH) (auto dest: spec [where x = "Suc _"])
  moreover have "take (Suc n) (drop pos victims) = victims ! pos # take n (drop (pos + 1) victims)"
    using pos(1) by (metis Cons_nth_drop_Suc Suc_eq_plus1 take_Suc_Cons)
  moreover have "(pos + 1) mod length victims = pos + 1" using Suc.prems(2) by simp
  ultimately show ?case
    using evict_scan_next [OF Suc.prems(1) pos k] k by simp
qed

lemma evict_scan_wrap:
  assumes "victims_ok m victims fs" "pos < length victims"
    "\<forall>i < length victims. pos \<le> i \<longrightarrow> is_ref m fs (victims ! i)"
  shows "evict_scan m victims (length victims) pos fs =
    evict_scan m victims (length victims) 0 (clear_refs m (drop pos victims) fs)"
  using assms
proof (induction "length victims - pos" arbitrary: pos fs)
  case 0
  then show ?case by simp
next
  case (Suc n)
  from Suc.prems have ref: "is_ref m fs (victims ! pos)" by simp
  from Suc.prems(1,2) obtain k where k: "m (victims ! pos) = Some k" by (rule victims_ok_frame)
  let ?fs = "fs[k := unref (fs ! k)]"
  note step = evict_scan_next [OF Suc.prems(1,2) ref k]
  have drop: "clear_refs m (drop pos victims) fs = clear_refs m (drop (pos + 1) victims) ?fs"
    using Suc.prems(2) k by (subst Cons_nth_drop_Suc [symmetric]) simp_all
  show ?case
  proof (cases "pos + 1 < length victims")
    case False
    with Suc.prems(2) have "pos + 1 = length victims" by simp
    with step drop show ?thesis by simp
  next
    case True
    have "evict_scan m victims (length victims) (pos + 1) ?fs =
        evict_scan m victims (length victims) 0 (clear_refs m (drop (pos + 1) victims) ?fs)"
      using Suc True is_ref_update [OF Suc.prems(1,2) _ k] by (intro Suc.hyps(1)) auto
    with step drop True show ?thesis by simp
  qed
qed

lemma clear_refs_not_ref:
  assumes "victims_ok m victims fs" "set ids \<subseteq> set victims" "b \<in> set victims"
    "b \<in> set ids \<or> \<not> is_ref m fs b"
  shows "\<not> is_ref m (clear_refs m ids fs) b"
  using assms
proof (induction ids arbitrary: fs)
  case Nil
  then show ?case by simp
next
  case (Cons c ids)
  then obtain i where i: "i < length victims" "victims ! i = c" by (auto simp: in_set_conv_nth)
  from Cons.prems obtain j where j: "j < length victims" "victims ! j = b" by (auto simp: in_set_conv_nth)
  obtain k where k: "m c = Some k" using victims_ok_frame [OF Cons.prems(1) i(1)] i(2) by auto
  have "b = c \<longleftrightarrow> j = i"
    using i j Cons.prems(1) by (auto simp: victims_ok_def nth_eq_iff_index_eq)
  then have "is_ref m (fs[k := unref (fs ! k)]) b \<longleftrightarrow> b \<noteq> c \<and> is_ref m fs b"
    using is_ref_update [OF Cons.prems(1) i(1) j(1)] i j k by auto
  then have "\<not> is_ref m (clear_refs m ids (fs[k := unref (fs ! k)])) b"
    using Cons.prems by (intro Cons.IH) auto
  with k show ?case by simp
qed

text \<open>
  Second chance: the first block of the queue whose reference bit is clear is the victim and the
  bits of those before it are cleared; if every bit is set, all are cleared and the head of the
  queue is the victim.
\<close>

lemma evict_scan_second_chance:
  assumes "victims_ok m victims fs" "victims \<noteq> []"
  shows "evict_scan m victims (length victims) 0 fs =
    (let n = length (takeWhile (is_ref m fs) victims) in
     if n < length victims
     then Ok (n, victims ! n, the (m (victims ! n)), clear_refs m (take n victims) fs)
     else Ok (0, hd victims, the (m (hd victims)), clear_refs m victims fs))"
proof -
  define n where "n = length (takeWhile (is_ref m fs) victims)"
  have ref: "is_ref m fs (victims ! i)" if "i < n" for i
    using that nth_length_takeWhile unfolding n_def
    by (metis nth_mem set_takeWhileD takeWhile_nth)
  show ?thesis
  proof (cases "n < length victims")
    case True
    then have "\<not> is_ref m fs (victims ! n)" unfolding n_def by (rule nth_length_takeWhile)
    then show ?thesis
      using evict_scan_run [of m victims fs 0 n] assms(1) True ref by (simp add: n_def [symmetric] Let_def)
  next
    case False
    then have all: "\<forall>i < length victims. is_ref m fs (victims ! i)" using ref by auto
    let ?fs = "clear_refs m victims fs"
    have "victims_ok m victims ?fs" using assms(1) by (simp add: victims_ok_def)
    moreover have "\<not> is_ref m ?fs (victims ! 0)"
      using clear_refs_not_ref [OF assms(1)] assms(2) by simp
    ultimately have "evict_scan m victims (length victims) 0 ?fs =
        Ok (0, victims ! 0, the (m (victims ! 0)), ?fs)"
      using assms(2) by (intro evict_scan_stop) simp_all
    with evict_scan_wrap [of m victims fs 0] assms all False show ?thesis
      by (simp add: n_def [symmetric] hd_conv_nth Let_def)
  qed
qed

section \<open>The invariant and the abstract contents\<close>

text \<open>
  The bookkeeping of the buffer: the queue lists the cached blocks once each, the map gives each
  its own frame, exactly the mapped frames are in use, and only frames in use are dirty.
\<close>

definition shape_of :: "nat \<Rightarrow> bufferFrame list \<Rightarrow> (u16 \<rightharpoonup> nat) \<Rightarrow> u16 list \<Rightarrow> bool" where
  "shape_of n fs m v \<longleftrightarrow>
     length fs = n \<and> distinct v \<and> set v = dom m \<and> inj_on m (dom m) \<and>
     (\<forall>i k. m i = Some k \<longrightarrow> k < n) \<and>
     (\<forall>k < n. inUse (fs ! k) \<longleftrightarrow> (\<exists>i. m i = Some k)) \<and>
     (\<forall>k < n. isDirty (fs ! k) \<longrightarrow> inUse (fs ! k)) \<and>
     (\<forall>k < n. length (fdata (fs ! k)) = DATABLOCK_SIZE)"

definition buf_shape :: "'f dataBuffer \<Rightarrow> bool" where
  "buf_shape b \<longleftrightarrow> shape_of (bufsize b) (frames b) (idToFrame b) (nextVictims b)"

text \<open>A clean frame holds what the file holds, and a dirty one may be written to the file.\<close>

definition buf_inv :: "('f \<Rightarrow> bool) \<Rightarrow> ('f \<Rightarrow> u16 \<Rightarrow> bytes) \<Rightarrow> ('f \<Rightarrow> u16 \<Rightarrow> bool) \<Rightarrow> 'f dataBuffer \<Rightarrow> bool" where
  "buf_inv finv fblk writable b \<longleftrightarrow> buf_shape b \<and> finv (df b) \<and>
     (\<forall>i k. idToFrame b i = Some k \<longrightarrow>
        (if isDirty (frames b ! k) then writable (df b) i
         else fdata (frames b ! k) = fblk (df b) i))"

text \<open>The contents of a block: those of its frame, or of the file if it is not cached.\<close>

definition buf_view :: "('f \<Rightarrow> u16 \<Rightarrow> bytes) \<Rightarrow> 'f dataBuffer \<Rightarrow> u16 \<Rightarrow> bytes" where
  "buf_view fblk b i =
     (case idToFrame b i of Some k \<Rightarrow> fdata (frames b ! k) | None \<Rightarrow> fblk (df b) i)"

lemma shape_ofI:
  assumes "length fs = n" "distinct v" "set v = dom m" "inj_on m (dom m)"
    "\<And>i k. m i = Some k \<Longrightarrow> k < n"
    "\<And>k. k < n \<Longrightarrow> inUse (fs ! k) \<longleftrightarrow> (\<exists>i. m i = Some k)"
    "\<And>k. k < n \<Longrightarrow> isDirty (fs ! k) \<Longrightarrow> inUse (fs ! k)"
    "\<And>k. k < n \<Longrightarrow> length (fdata (fs ! k)) = DATABLOCK_SIZE"
  shows "shape_of n fs m v"
  using assms unfolding shape_of_def by blast

lemma buf_shape_update [simp]:
  "buf_shape (b\<lparr>frames := fs\<rparr>) = shape_of (bufsize b) fs (idToFrame b) (nextVictims b)"
  "buf_shape (b\<lparr>frames := fs, idToFrame := m, nextVictims := v\<rparr>) = shape_of (bufsize b) fs m v"
  "buf_shape (b\<lparr>df := f\<rparr>) = buf_shape b"
  by (simp_all add: buf_shape_def)

lemma buf_shapeD:
  assumes "buf_shape b"
  shows "length (frames b) = bufsize b" "distinct (nextVictims b)"
    "set (nextVictims b) = dom (idToFrame b)" "inj_on (idToFrame b) (dom (idToFrame b))"
    "idToFrame b i = Some k \<Longrightarrow> k < bufsize b"
    "k < bufsize b \<Longrightarrow> inUse (frames b ! k) \<longleftrightarrow> (\<exists>i. idToFrame b i = Some k)"
    "k < bufsize b \<Longrightarrow> isDirty (frames b ! k) \<Longrightarrow> inUse (frames b ! k)"
    "k < bufsize b \<Longrightarrow> length (fdata (frames b ! k)) = DATABLOCK_SIZE"
  using assms unfolding buf_shape_def shape_of_def by blast+

lemma buf_shape_frame:
  assumes "buf_shape b" "idToFrame b i = Some k"
  shows "k < bufsize b" "k < length (frames b)" "inUse (frames b ! k)" "i \<in> set (nextVictims b)"
  using buf_shapeD [OF assms(1)] assms(2) by (metis domI)+

lemma buf_shape_inj:
  "buf_shape b \<Longrightarrow> idToFrame b i = Some k \<Longrightarrow> idToFrame b j = Some k \<Longrightarrow> i = j"
  using buf_shapeD(4) unfolding inj_on_def by (metis domI)

lemma buf_shape_victims_ok:
  assumes "buf_shape b"
  shows "victims_ok (idToFrame b) (nextVictims b) (frames b)"
  using buf_shapeD [OF assms] by (auto simp: victims_ok_def)

lemma buf_shape_length:
  assumes "buf_shape b"
  shows "length (nextVictims b) \<le> bufsize b"
    "length (nextVictims b) < bufsize b \<Longrightarrow> \<exists>k < bufsize b. \<not> inUse (frames b ! k)"
proof -
  let ?m = "\<lambda>i. the (idToFrame b i)"
  have inj: "inj_on ?m (set (nextVictims b))"
    using buf_shapeD(3) [OF assms] buf_shape_inj [OF assms] by (auto simp: inj_on_def dom_def)
  have card: "card (?m ` set (nextVictims b)) = length (nextVictims b)"
    using card_image [OF inj] distinct_card [OF buf_shapeD(2) [OF assms]] by simp
  have sub: "?m ` set (nextVictims b) \<subseteq> {..< bufsize b}"
    using buf_shapeD(3,5) [OF assms] by auto
  from card_mono [OF _ sub] card show "length (nextVictims b) \<le> bufsize b" by simp
  assume "length (nextVictims b) < bufsize b"
  with card have "?m ` set (nextVictims b) \<noteq> {..< bufsize b}"
    by (metis card_lessThan less_irrefl)
  with sub obtain k where k: "k < bufsize b" "k \<notin> ?m ` set (nextVictims b)" by blast
  then have "\<not> (\<exists>i. idToFrame b i = Some k)"
    using buf_shapeD(3) [OF assms] by (metis domI image_eqI option.sel)
  with buf_shapeD(6) [OF assms k(1)] k(1) show "\<exists>k < bufsize b. \<not> inUse (frames b ! k)"
    by blast
qed

text \<open>Changing the reference bits only, or a frame in the same place.\<close>

lemma buf_shape_refs:
  assumes "buf_shape b" "map unref fs = map unref (frames b)"
  shows "buf_shape (b\<lparr>frames := fs\<rparr>)"
  unfolding buf_shape_update
proof (rule shape_ofI)
  fix k assume "k < bufsize b"
  then have k: "k < length (frames b)" using buf_shapeD(1) [OF assms(1)] by simp
  note buf_shapeD [OF assms(1)] map_unref_nth [OF assms(2) k]
  then show "inUse (fs ! k) \<longleftrightarrow> (\<exists>i. idToFrame b i = Some k)"
    "isDirty (fs ! k) \<Longrightarrow> inUse (fs ! k)" "length (fdata (fs ! k)) = DATABLOCK_SIZE"
    using \<open>k < bufsize b\<close> by simp_all
qed (use buf_shapeD [OF assms(1)] assms(2) in \<open>auto dest: map_eq_imp_length_eq\<close>)

lemma buf_shape_set_frame:
  assumes "buf_shape b" "k < bufsize b" "inUse fr = inUse (frames b ! k)"
    "isDirty fr \<Longrightarrow> inUse fr" "length (fdata fr) = DATABLOCK_SIZE"
  shows "buf_shape (b\<lparr>frames := (frames b)[k := fr]\<rparr>)"
  unfolding buf_shape_update
  using buf_shapeD [OF assms(1)] assms(2-)
  by (intro shape_ofI) (simp_all add: nth_list_update split: if_splits)

text \<open>The state after the block at position \<open>n\<close> of the queue lost its frame.\<close>

definition drop_victim :: "nat \<Rightarrow> 'f dataBuffer \<Rightarrow> 'f dataBuffer" where
  "drop_victim n b =
     (let i = nextVictims b ! n; k = the (idToFrame b i) in
      b\<lparr>frames := (frames b)[k := (frames b ! k)\<lparr>inUse := False, isDirty := False\<rparr>],
        idToFrame := (idToFrame b)(i := None),
        nextVictims := drop (n + 1) (nextVictims b) @ take n (nextVictims b)\<rparr>)"

text \<open>The state after block \<open>i\<close> was read into frame \<open>k\<close>.\<close>

definition install_block :: "u16 \<Rightarrow> nat \<Rightarrow> bytes \<Rightarrow> bool \<Rightarrow> 'f dataBuffer \<Rightarrow> 'f dataBuffer" where
  "install_block i k d r b =
     b\<lparr>frames := (frames b)[k := (frames b ! k)\<lparr>fdata := d, inUse := True, referenced := r\<rparr>],
       nextVictims := nextVictims b @ [i], idToFrame := (idToFrame b)(i \<mapsto> k)\<rparr>"

lemma queue_drop:
  assumes "distinct v" "n < length v"
  shows "distinct (drop (n + 1) v @ take n v)" "set (drop (n + 1) v @ take n v) = set v - {v ! n}"
    "length (drop (n + 1) v @ take n v) = length v - 1"
proof -
  have v: "v = take n v @ v ! n # drop (n + 1) v" using assms(2) by (simp add: id_take_nth_drop)
  then have "distinct (take n v @ v ! n # drop (n + 1) v)" using assms(1) by simp
  moreover have "set v = set (take n v @ v ! n # drop (n + 1) v)" using v by simp
  ultimately show "distinct (drop (n + 1) v @ take n v)"
    "set (drop (n + 1) v @ take n v) = set v - {v ! n}" by auto
  show "length (drop (n + 1) v @ take n v) = length v - 1" using assms(2) by simp
qed

lemma drop_victim_shape:
  assumes "buf_shape b" "n < length (nextVictims b)"
  shows "buf_shape (drop_victim n b)"
    "length (nextVictims (drop_victim n b)) < length (nextVictims b)"
    "bufsize (drop_victim n b) = bufsize b" "df (drop_victim n b) = df b"
    "idToFrame (drop_victim n b) = (idToFrame b)(nextVictims b ! n := None)"
proof -
  let ?i = "nextVictims b ! n"
  have "?i \<in> dom (idToFrame b)" using assms by (metis buf_shapeD(3) nth_mem)
  then obtain k where k: "idToFrame b ?i = Some k" by blast
  have d: "distinct (nextVictims b)" by (rule buf_shapeD(2) [OF assms(1)])
  have inj: "inj_on ((idToFrame b)(?i := None)) (dom (idToFrame b) - {?i})"
    using buf_shapeD(4) [OF assms(1)] by (auto simp: inj_on_def)
  have only: "idToFrame b j = Some k \<Longrightarrow> j = ?i" for j
    using buf_shape_inj [OF assms(1) _ k] .
  have run: "drop_victim n b = b\<lparr>frames := (frames b)[k := (frames b ! k)\<lparr>inUse := False, isDirty := False\<rparr>],
      idToFrame := (idToFrame b)(?i := None), nextVictims := drop (n + 1) (nextVictims b) @ take n (nextVictims b)\<rparr>"
    using k by (simp add: drop_victim_def Let_def)
  have used: "(\<exists>j. j \<noteq> ?i \<and> idToFrame b j = Some k') \<longleftrightarrow> k' \<noteq> k \<and> (\<exists>j. idToFrame b j = Some k')" for k'
    by (metis k only option.inject)
  have "dom ((idToFrame b)(?i := None)) = set (drop (n + 1) (nextVictims b) @ take n (nextVictims b))"
    using queue_drop(2) [OF d assms(2)] by (simp only: dom_fun_upd buf_shapeD(3) [OF assms(1)] refl if_True)
  moreover have "inj_on ((idToFrame b)(?i := None)) (dom ((idToFrame b)(?i := None)))"
    using inj by (simp only: dom_fun_upd refl if_True)
  moreover have kb: "k < bufsize b" "length (frames b) = bufsize b"
    using buf_shapeD [OF assms(1)] k by blast+
  moreover have "inUse ((frames b)[k := (frames b ! k)\<lparr>inUse := False, isDirty := False\<rparr>] ! k') \<longleftrightarrow>
      (\<exists>j. ((idToFrame b)(?i := None)) j = Some k')"
    "isDirty ((frames b)[k := (frames b ! k)\<lparr>inUse := False, isDirty := False\<rparr>] ! k') \<Longrightarrow>
      inUse ((frames b)[k := (frames b ! k)\<lparr>inUse := False, isDirty := False\<rparr>] ! k')"
    "length (fdata ((frames b)[k := (frames b ! k)\<lparr>inUse := False, isDirty := False\<rparr>] ! k'))
      = DATABLOCK_SIZE"
    if "k' < bufsize b" for k'
    using buf_shapeD(6-8) [OF assms(1) that] used [of k'] kb that
    by (auto simp: nth_list_update)
  moreover have "((idToFrame b)(?i := None)) j = Some k' \<Longrightarrow> k' < bufsize b" for j k'
    using buf_shapeD(5) [OF assms(1)] by (simp split: if_splits)
  ultimately show "buf_shape (drop_victim n b)"
    using queue_drop(1) [OF d assms(2)] unfolding run buf_shape_update
    by (intro shape_ofI) simp_all
  show "length (nextVictims (drop_victim n b)) < length (nextVictims b)"
    using queue_drop(3) [OF d assms(2)] assms(2) by (simp add: drop_victim_def Let_def)
qed (simp_all add: drop_victim_def Let_def)

lemma install_block_shape:
  assumes "buf_shape b" "k < bufsize b" "\<not> inUse (frames b ! k)" "idToFrame b i = None"
    "length d = DATABLOCK_SIZE"
  shows "buf_shape (install_block i k d r b)"
proof -
  note D = buf_shapeD [OF assms(1)]
  have free: "idToFrame b j \<noteq> Some k" for j using D(6) [OF assms(2)] assms(3) by auto
  have used: "(\<exists>j. ((idToFrame b)(i \<mapsto> k)) j = Some k') \<longleftrightarrow> k' = k \<or> (\<exists>j. idToFrame b j = Some k')" for k'
    using assms(4) by (metis fun_upd_apply option.distinct(1) option.inject)
  have "install_block i k d r b = b\<lparr>frames := (frames b)[k := (frames b ! k)\<lparr>fdata := d, inUse := True, referenced := r\<rparr>],
      idToFrame := (idToFrame b)(i \<mapsto> k), nextVictims := nextVictims b @ [i]\<rparr>"
    by (simp add: install_block_def)
  moreover have "shape_of (bufsize b) ((frames b)[k := (frames b ! k)\<lparr>fdata := d, inUse := True, referenced := r\<rparr>])
      ((idToFrame b)(i \<mapsto> k)) (nextVictims b @ [i])"
  proof (rule shape_ofI)
    show "inj_on ((idToFrame b)(i \<mapsto> k)) (dom ((idToFrame b)(i \<mapsto> k)))"
      using D(4) free assms(4) by (auto simp: inj_on_def)
    fix k' assume "k' < bufsize b"
    then show "inUse ((frames b)[k := (frames b ! k)\<lparr>fdata := d, inUse := True, referenced := r\<rparr>] ! k') \<longleftrightarrow>
        (\<exists>j. ((idToFrame b)(i \<mapsto> k)) j = Some k')"
      unfolding used using D(1) D(6) [of k'] assms(2) by (simp add: nth_list_update)
    show "isDirty ((frames b)[k := (frames b ! k)\<lparr>fdata := d, inUse := True, referenced := r\<rparr>] ! k') \<Longrightarrow>
        inUse ((frames b)[k := (frames b ! k)\<lparr>fdata := d, inUse := True, referenced := r\<rparr>] ! k')"
      using D(1) D(7) [of k'] assms(2) \<open>k' < bufsize b\<close> by (simp add: nth_list_update split: if_splits)
  qed (use D assms in \<open>auto simp: nth_list_update split: if_splits\<close>)
  ultimately show ?thesis by simp
qed

lemma buf_invD:
  assumes "buf_inv finv fblk writable b"
  shows "buf_shape b" "finv (df b)"
    "idToFrame b i = Some k \<Longrightarrow> isDirty (frames b ! k) \<Longrightarrow> writable (df b) i"
    "idToFrame b i = Some k \<Longrightarrow> \<not> isDirty (frames b ! k) \<Longrightarrow> fdata (frames b ! k) = fblk (df b) i"
  using assms unfolding buf_inv_def by (metis (full_types))+

lemma buf_invI:
  assumes "buf_shape b" "finv (df b)"
    "\<And>i k. idToFrame b i = Some k \<Longrightarrow> isDirty (frames b ! k) \<Longrightarrow> writable (df b) i"
    "\<And>i k. idToFrame b i = Some k \<Longrightarrow> \<not> isDirty (frames b ! k) \<Longrightarrow> fdata (frames b ! k) = fblk (df b) i"
  shows "buf_inv finv fblk writable b"
  using assms unfolding buf_inv_def by (metis (full_types))

lemma evict_scan_some:
  assumes "buf_shape b" "length (nextVictims b) = bufsize b" "0 < bufsize b"
  obtains n fs where "evict_scan (idToFrame b) (nextVictims b) (bufsize b) 0 (frames b) =
      Ok (n, nextVictims b ! n, the (idToFrame b (nextVictims b ! n)), fs)"
    "n < length (nextVictims b)" "map unref fs = map unref (frames b)"
proof -
  have "nextVictims b \<noteq> []" using assms(2,3) by auto
  note sc = evict_scan_second_chance [OF buf_shape_victims_ok [OF assms(1)] this]
  let ?n = "length (takeWhile (is_ref (idToFrame b) (frames b)) (nextVictims b))"
  show thesis
  proof (cases "?n < length (nextVictims b)")
    case True
    then show thesis
      using sc assms(2) that [of ?n "clear_refs (idToFrame b) (take ?n (nextVictims b)) (frames b)"]
      by (simp add: Let_def)
  next
    case False
    then show thesis
      using sc assms(2,3) that [of 0 "clear_refs (idToFrame b) (nextVictims b) (frames b)"]
      by (simp add: Let_def hd_conv_nth \<open>nextVictims b \<noteq> []\<close>)
  qed
qed

lemma refs_inv:
  assumes "buf_inv finv fblk writable b" "map unref fs = map unref (frames b)"
  shows "buf_inv finv fblk writable (b\<lparr>frames := fs\<rparr>)"
    "buf_view fblk (b\<lparr>frames := fs\<rparr>) = buf_view fblk b"
proof -
  note D = buf_invD [OF assms(1)]
  have k: "k < length (frames b)" if "idToFrame b i = Some k" for i k
    using buf_shape_frame(2) [OF D(1) that] .
  show "buf_inv finv fblk writable (b\<lparr>frames := fs\<rparr>)"
    using buf_shape_refs [OF D(1) assms(2)] D map_unref_nth [OF assms(2) k]
    by (intro buf_invI) auto
  show "buf_view fblk (b\<lparr>frames := fs\<rparr>) = buf_view fblk b"
    using map_unref_nth(3) [OF assms(2) k] by (auto simp: buf_view_def fun_eq_iff split: option.split)
qed

lemma drop_victim_inv:
  assumes "buf_inv finv fblk writable b" "n < length (nextVictims b)"
    "idToFrame b (nextVictims b ! n) = Some k"
    "fdata (frames b ! k) = fblk (df b) (nextVictims b ! n)"
  shows "buf_inv finv fblk writable (drop_victim n b)"
    "buf_view fblk (drop_victim n b) = buf_view fblk b"
proof -
  note D = buf_invD [OF assms(1)]
  let ?i = "nextVictims b ! n"
  have run: "drop_victim n b = b\<lparr>frames := (frames b)[k := (frames b ! k)\<lparr>inUse := False, isDirty := False\<rparr>],
      idToFrame := (idToFrame b)(?i := None), nextVictims := drop (n + 1) (nextVictims b) @ take n (nextVictims b)\<rparr>"
    using assms(3) by (simp add: drop_victim_def Let_def)
  have other: "k' \<noteq> k" if "idToFrame b i = Some k'" "i \<noteq> ?i" for i k'
    using buf_shape_inj [OF D(1) assms(3)] that by auto
  show "buf_inv finv fblk writable (drop_victim n b)"
  proof (rule buf_invI)
    fix i k' assume "idToFrame (drop_victim n b) i = Some k'"
    then have i: "idToFrame b i = Some k'" "k' \<noteq> k"
      using other by (auto simp: run split: if_splits)
    then show "isDirty (frames (drop_victim n b) ! k') \<Longrightarrow> writable (df (drop_victim n b)) i"
      "\<not> isDirty (frames (drop_victim n b) ! k') \<Longrightarrow>
        fdata (frames (drop_victim n b) ! k') = fblk (df (drop_victim n b)) i"
      using D(3,4) [of i k'] by (simp_all add: run)
  qed (use drop_victim_shape [OF D(1) assms(2)] D in simp_all)
  show "buf_view fblk (drop_victim n b) = buf_view fblk b"
    using assms(3,4) by (auto simp: buf_view_def run fun_eq_iff split: option.split dest: other)
qed

lemma install_block_inv:
  assumes "buf_inv finv fblk writable b" "k < bufsize b" "\<not> inUse (frames b ! k)"
    "idToFrame b i = None" "length (fblk (df b) i) = DATABLOCK_SIZE"
  shows "buf_inv finv fblk writable (install_block i k (fblk (df b) i) r b)" (is "buf_inv _ _ _ ?b")
    "buf_view fblk (install_block i k (fblk (df b) i) r b) = buf_view fblk b"
proof -
  note D = buf_invD [OF assms(1)]
  have k: "k < length (frames b)" using assms(2) buf_shapeD(1) [OF D(1)] by simp
  have free: "k' \<noteq> k" if "idToFrame b j = Some k'" for j k'
    using buf_shapeD(6) [OF D(1) assms(2)] assms(3) that by auto
  have clean: "\<not> isDirty (frames b ! k)"
    using buf_shapeD(7) [OF D(1) assms(2)] assms(3) by auto
  show "buf_inv finv fblk writable ?b"
  proof (rule buf_invI)
    show "buf_shape ?b" using install_block_shape [OF D(1) assms(2-5)] .
    show "finv (df ?b)" using D(2) by (simp add: install_block_def)
    fix j k' assume "idToFrame ?b j = Some k'"
    then show "isDirty (frames ?b ! k') \<Longrightarrow> writable (df ?b) j"
      "\<not> isDirty (frames ?b ! k') \<Longrightarrow> fdata (frames ?b ! k') = fblk (df ?b) j"
      using D(3,4) [of j k'] free [of j k'] clean k
      by (auto simp: install_block_def split: if_splits)
  qed
  show "buf_view fblk ?b = buf_view fblk b"
    using assms(4) k
    by (auto simp: buf_view_def install_block_def fun_eq_iff split: option.split dest: free)
qed

lemma set_frame_flags_inv:
  assumes "buf_inv finv fblk writable b" "idToFrame b i = Some k"
    "inUse fr" "fdata fr = fdata (frames b ! k)"
    "isDirty fr \<Longrightarrow> writable (df b) i"
    "\<not> isDirty fr \<Longrightarrow> fdata fr = fblk (df b) i"
  shows "buf_inv finv fblk writable (b\<lparr>frames := (frames b)[k := fr]\<rparr>)"
    "buf_view fblk (b\<lparr>frames := (frames b)[k := fr]\<rparr>) = buf_view fblk b"
proof -
  note D = buf_invD [OF assms(1)] and F = buf_shape_frame [OF buf_invD(1) [OF assms(1)] assms(2)]
  show "buf_inv finv fblk writable (b\<lparr>frames := (frames b)[k := fr]\<rparr>)"
  proof (rule buf_invI)
    show "buf_shape (b\<lparr>frames := (frames b)[k := fr]\<rparr>)"
      using F assms(3,4) buf_shapeD(8) [OF D(1) F(1)]
      by (intro buf_shape_set_frame [OF D(1)]) simp_all
    fix j k' assume "idToFrame (b\<lparr>frames := (frames b)[k := fr]\<rparr>) j = Some k'"
    then have j: "idToFrame b j = Some k'" by simp
    have "k' = k \<longleftrightarrow> j = i" using buf_shape_inj [OF D(1) assms(2)] j assms(2) by (metis option.inject)
    then show "isDirty (frames (b\<lparr>frames := (frames b)[k := fr]\<rparr>) ! k') \<Longrightarrow>
        writable (df (b\<lparr>frames := (frames b)[k := fr]\<rparr>)) j"
      "\<not> isDirty (frames (b\<lparr>frames := (frames b)[k := fr]\<rparr>) ! k') \<Longrightarrow>
        fdata (frames (b\<lparr>frames := (frames b)[k := fr]\<rparr>) ! k') = fblk (df (b\<lparr>frames := (frames b)[k := fr]\<rparr>)) j"
      using D(3,4) [OF j] F assms(5,6) by (auto simp: nth_list_update split: if_splits)
  qed (use D in simp)
  show "buf_view fblk (b\<lparr>frames := (frames b)[k := fr]\<rparr>) = buf_view fblk b"
    using assms(4) F by (auto simp: buf_view_def fun_eq_iff nth_list_update split: option.split)
qed

section \<open>The buffer over a file that keeps its contract\<close>

lemma frameAt_Ok: "k < length (frames b) \<Longrightarrow> frameAt k b = Ok (frames b ! k, b)"
  by (simp add: frameAt_def)

lemma updFrame_Ok:
  "k < length (frames b) \<Longrightarrow> updFrame k g b = Ok ((), b\<lparr>frames := (frames b)[k := g (frames b ! k)]\<rparr>)"
  by (simp add: updFrame_def)

lemma onFile_Ok: "m (df b) = Ok (a, f) \<Longrightarrow> onFile m b = Ok (a, b\<lparr>df := f\<rparr>)"
  by (simp add: onFile_def)

lemma pickFrame_Ok:
  assumes "set is \<subseteq> {..< length (frames b)}" "\<exists>i \<in> set is. \<not> inUse (frames b ! i)"
  shows "\<exists>k \<in> set is. pickFrame is cur b = Ok (Some k, b) \<and> \<not> inUse (frames b ! k)"
  using assms
proof (induction "is" arbitrary: cur)
  case Nil
  then show ?case by simp
next
  case (Cons i "is")
  then have i: "i < length (frames b)" by simp
  show ?case
  proof (cases "inUse (frames b ! i)")
    case True
    with Cons.prems have "\<exists>k \<in> set is. pickFrame is (Some i) b = Ok (Some k, b) \<and> \<not> inUse (frames b ! k)"
      by (intro Cons.IH) auto
    with True i show ?thesis by (auto simp: bind_def frameAt_Ok)
  next
    case False
    with i show ?thesis by (simp add: bind_def frameAt_Ok)
  qed
qed

text \<open>What every operation of the buffer keeps of its state.\<close>

definition same_buf :: "('f \<Rightarrow> u16 \<Rightarrow> bytes) \<Rightarrow> ('f \<Rightarrow> u16 \<Rightarrow> bool) \<Rightarrow> ('f \<Rightarrow> u16 \<Rightarrow> bool)
    \<Rightarrow> 'f dataBuffer \<Rightarrow> 'f dataBuffer \<Rightarrow> bool" where
  "same_buf fblk readable writable b b' \<longleftrightarrow>
     buf_view fblk b' = buf_view fblk b \<and> bufsize b' = bufsize b \<and>
     readable (df b') = readable (df b) \<and> writable (df b') = writable (df b)"

lemma same_buf_refl [simp]: "same_buf fblk readable writable b b"
  by (simp add: same_buf_def)

lemma same_buf_trans:
  "same_buf fblk readable writable b c \<Longrightarrow> same_buf fblk readable writable c d
    \<Longrightarrow> same_buf fblk readable writable b d"
  by (simp add: same_buf_def)

context block_file begin

abbreviation inv where "inv \<equiv> buf_inv finv fblk writable"
abbreviation view where "view \<equiv> buf_view fblk"
abbreviation same where "same \<equiv> same_buf fblk readable writable"

text \<open>Writing a dirty frame back: the file takes the contents, and no block changes.\<close>

lemma write_back:
  assumes "inv b" "idToFrame b i = Some k" "isDirty (frames b ! k)"
  obtains f where "onFile (WriteBlock D i (fdata (frames b ! k))) b = Ok (None, b\<lparr>df := f\<rparr>)"
    "inv (b\<lparr>df := f\<rparr>)" "same b (b\<lparr>df := f\<rparr>)" "fblk f = (fblk (df b))(i := fdata (frames b ! k))"
proof -
  note I = buf_invD [OF assms(1)] and F = buf_shape_frame [OF buf_invD(1) [OF assms(1)] assms(2)]
  have "writable (df b) i" "length (fdata (frames b ! k)) = DATABLOCK_SIZE"
    using I(3) [OF assms(2,3)] buf_shapeD(8) [OF I(1) F(1)] by auto
  from write_ok [OF I(2) this] obtain f where f: "WriteBlock D i (fdata (frames b ! k)) (df b) = Ok (None, f)"
    "finv f" "fblk f = (fblk (df b))(i := fdata (frames b ! k))" "readable f = readable (df b)"
    "writable f = writable (df b)" by blast
  have other: "j \<noteq> i" if "idToFrame b j = Some k'" "\<not> isDirty (frames b ! k')" for j k'
    using that assms(2,3) by auto
  have "inv (b\<lparr>df := f\<rparr>)"
    using I f other by (intro buf_invI) auto
  moreover have "same b (b\<lparr>df := f\<rparr>)"
    using f assms(2) by (auto simp: same_buf_def buf_view_def fun_eq_iff split: option.split)
  ultimately show thesis using that f by (simp add: onFile_Ok)
qed

lemma evictFrame_Ok:
  assumes "inv b" "length (nextVictims b) = bufsize b" "0 < bufsize b"
  obtains k b' where "evictFrame D b = Ok (Inr k, b')" "inv b'" "same b b'" "k < bufsize b"
    "\<not> inUse (frames b' ! k)" "\<And>i. idToFrame b i = None \<Longrightarrow> idToFrame b' i = None"
proof -
  note thesisI = that and I = buf_invD [OF assms(1)]
  from evict_scan_some [OF I(1) assms(2,3)] obtain n fs where
    scan: "evict_scan (idToFrame b) (nextVictims b) (bufsize b) 0 (frames b) =
      Ok (n, nextVictims b ! n, the (idToFrame b (nextVictims b ! n)), fs)"
    and n: "n < length (nextVictims b)" and fs: "map unref fs = map unref (frames b)" .
  define i where "i = nextVictims b ! n"
  define c where "c = b\<lparr>frames := fs\<rparr>"
  have "i \<in> dom (idToFrame b)" unfolding i_def using n buf_shapeD(3) [OF I(1)] by (metis nth_mem)
  then obtain k where k: "idToFrame b i = Some k" by blast
  have c: "inv c" "same b c" "idToFrame c = idToFrame b" "nextVictims c = nextVictims b" "bufsize c = bufsize b"
    using refs_inv [OF assms(1) fs] by (simp_all add: c_def same_buf_def)
  note kc = buf_shape_frame [OF buf_invD(1) [OF c(1)] k [folded c(3)]]
  have finish: thesis
    if e: "inv e" "same b e" "idToFrame e = idToFrame b" "nextVictims e = nextVictims b" "bufsize e = bufsize b"
      "frames e = fs" "fblk (df e) i = fdata (frames e ! k)"
      and run: "evictFrame D b = Ok (Inr k, drop_victim n e)" for e
  proof -
    have ne: "n < length (nextVictims e)" "nextVictims e ! n = i" using n e by (simp_all add: i_def)
    note dv = drop_victim_inv [OF e(1) ne(1), of k] and sh = drop_victim_shape [OF buf_invD(1) [OF e(1)] ne(1)]
    have kb: "k < bufsize b" "k < length fs" using kc c by (auto simp: c_def)
    have "inv (drop_victim n e)" "view (drop_victim n e) = view e"
      using dv e k ne by auto
    moreover have "same b (drop_victim n e)"
      using calculation(2) e(2) sh by (simp add: same_buf_def)
    moreover have "\<not> inUse (frames (drop_victim n e) ! k)"
      using e k ne kb by (simp add: drop_victim_def Let_def)
    moreover have "idToFrame (drop_victim n e) j = None" if "idToFrame b j = None" for j
      using that sh(5) e(3) by simp
    ultimately show thesis using run kb(1) thesisI by blast
  qed
  have upd: "seq (updFrame k (\<lambda>fr. fr\<lparr>inUse := False, isDirty := False\<rparr>))
      (seq (modify (\<lambda>b. b\<lparr>idToFrame := (idToFrame b)(i := None), nextVictims := drop (n + 1) (nextVictims b)
        @ take n (nextVictims b)\<rparr>)) (ret (Inr k))) e = Ok (Inr k, drop_victim n e)"
    if "frames e = fs" "idToFrame e = idToFrame b" "nextVictims e = nextVictims b" for e
  proof -
    have "k < length (frames e)" using kc that by (simp add: c_def)
    then show ?thesis using that k by (simp add: seq_def bind_def updFrame_Ok drop_victim_def Let_def i_def)
  qed
  show thesis
  proof (cases "isDirty (fs ! k)")
    case False
    then have "evictFrame D b = Ok (Inr k, drop_victim n c)"
      using scan k upd [of c] by (simp add: evictFrame_def i_def [symmetric] c_def [symmetric] c) (simp add: c_def)
    moreover have "fblk (df c) i = fdata (frames c ! k)"
      using buf_invD(4) [OF c(1) k [folded c(3)]] False by (simp add: c_def)
    ultimately show thesis using finish [of c] c by (simp add: c_def)
  next
    case True
    have "isDirty (frames c ! k)" using True by (simp add: c_def)
    with c(1) k [folded c(3)] obtain f where f:
      "onFile (WriteBlock D i (fdata (frames c ! k))) c = Ok (None, c\<lparr>df := f\<rparr>)" "inv (c\<lparr>df := f\<rparr>)"
      "same c (c\<lparr>df := f\<rparr>)" "fblk f = (fblk (df c))(i := fdata (frames c ! k))" by (rule write_back)
    have "evictFrame D b = Ok (Inr k, drop_victim n (c\<lparr>df := f\<rparr>))"
      using scan k True upd [of "c\<lparr>df := f\<rparr>"] f(1)
      by (simp add: evictFrame_def i_def [symmetric] c_def [symmetric] c bind_def) (simp add: c_def)
    then show thesis
      using finish [of "c\<lparr>df := f\<rparr>"] f c same_buf_trans [OF c(2) f(3)] by (simp add: c_def)
  qed
qed

text \<open>The frame that a miss reads into: an unused one, after an eviction if there is none.\<close>

lemma acquireFrame_Ok:
  assumes "inv b" "0 < bufsize b"
  shows "\<exists>k b'. acquireFrame D (length (nextVictims b) = bufsize b) b = Ok (Inr k, b') \<and> inv b' \<and>
    same b b' \<and> k < bufsize b \<and> \<not> inUse (frames b' ! k) \<and>
    (\<forall>i. idToFrame b i = None \<longrightarrow> idToFrame b' i = None)"
proof (cases "length (nextVictims b) = bufsize b")
  case True
  with assms obtain k b' where "evictFrame D b = Ok (Inr k, b')" "inv b'" "same b b'" "k < bufsize b"
    "\<not> inUse (frames b' ! k)" "\<And>i. idToFrame b i = None \<Longrightarrow> idToFrame b' i = None"
    by (metis evictFrame_Ok)
  with True show ?thesis by (auto simp: acquireFrame_def)
next
  case False
  note I = buf_invD [OF assms(1)]
  have "length (nextVictims b) < bufsize b"
    using buf_shape_length(1) [OF I(1)] False by simp
  then have "\<exists>i \<in> set [0 ..< bufsize b]. \<not> inUse (frames b ! i)"
    using buf_shape_length(2) [OF I(1)] by auto
  moreover have "set [0 ..< bufsize b] \<subseteq> {..< length (frames b)}"
    using buf_shapeD(1) [OF I(1)] by auto
  ultimately obtain k where "k \<in> set [0 ..< bufsize b]" "pickFrame [0 ..< bufsize b] None b = Ok (Some k, b)"
    "\<not> inUse (frames b ! k)"
    using pickFrame_Ok by blast
  with False assms(1) show ?thesis by (simp add: acquireFrame_def bind_def)
qed

lemma readInto_run:
  assumes "inv b" "k < bufsize b"
    "ReadBlock D i (fdata (frames b ! k)) (df b) = Ok ((err, d), f)"
  shows "readInto D i k b =
    Ok (err, b\<lparr>df := f, frames := (frames b)[k := (frames b ! k)\<lparr>fdata := d\<rparr>]\<rparr>)"
proof -
  have "k < length (frames b)" using buf_shapeD(1) [OF buf_invD(1) [OF assms(1)]] assms(2) by simp
  then show ?thesis
    using assms(3) by (simp add: readInto_def bind_def seq_def frameAt_Ok onFile_Ok updFrame_Ok)
qed

lemma df_inv:
  assumes "inv b" "finv f" "fblk f = fblk (df b)" "readable f = readable (df b)" "writable f = writable (df b)"
  shows "inv (b\<lparr>df := f\<rparr>)" "same b (b\<lparr>df := f\<rparr>)"
proof -
  note I = buf_invD [OF assms(1)]
  show "inv (b\<lparr>df := f\<rparr>)" using I assms(2-) by (intro buf_invI) auto
  show "same b (b\<lparr>df := f\<rparr>)" using assms(3-) by (auto simp: same_buf_def buf_view_def fun_eq_iff split: option.split)
qed

lemma fetch_hit:
  assumes "inv b" "idToFrame b i = Some k"
  obtains b' where "FetchBlock D i b = Ok (Inr \<lparr>ID = i, Frame = k\<rparr>, b')" "inv b'" "same b b'"
    "idToFrame b' = idToFrame b" "nextVictims b' = nextVictims b" "df b' = df b"
proof -
  note I = buf_invD [OF assms(1)] and F = buf_shape_frame [OF buf_invD(1) [OF assms(1)] assms(2)]
  let ?b = "b\<lparr>frames := (frames b)[k := (frames b ! k)\<lparr>referenced := True\<rparr>]\<rparr>"
  have "FetchBlock D i b = Ok (Inr \<lparr>ID = i, Frame = k\<rparr>, ?b)"
    using F assms(2) by (simp add: FetchBlock_def bind_def seq_def updFrame_Ok)
  moreover have "inv ?b" "view ?b = view b"
    using set_frame_flags_inv [OF assms, of "(frames b ! k)\<lparr>referenced := True\<rparr>"]
      I(3,4) [OF assms(2)] F by auto
  ultimately show thesis using that by (simp add: same_buf_def)
qed

lemma fetch_miss:
  assumes "inv b" "0 < bufsize b" "idToFrame b i = None" "readable (df b) i"
  obtains k b' where "FetchBlock D i b = Ok (Inr \<lparr>ID = i, Frame = k\<rparr>, b')" "inv b'" "same b b'"
    "idToFrame b' i = Some k"
proof -
  define ne where "ne \<longleftrightarrow> length (nextVictims b) = bufsize b"
  from acquireFrame_Ok [OF assms(1,2)] assms(3) obtain k c where
    pick: "acquireFrame D ne b = Ok (Inr k, c)"
    and c: "inv c" "same b c" "k < bufsize b" "\<not> inUse (frames c ! k)" "idToFrame c i = None"
    unfolding ne_def by blast
  note I = buf_invD [OF c(1)]
  have kc: "k < bufsize c" using c(2,3) by (simp add: same_buf_def)
  have rd: "readable (df c) i" using c(2) assms(4) by (simp add: same_buf_def)
  from read_ok [OF I(2) rd buf_shapeD(8) [OF I(1) kc]] obtain f where
    f: "ReadBlock D i (fdata (frames c ! k)) (df c) = Ok ((None, fblk (df c) i), f)" "finv f"
      "fblk f = fblk (df c)" "readable f = readable (df c)" "writable f = writable (df c)" by blast
  let ?e = "c\<lparr>df := f\<rparr>"
  note e = df_inv [OF c(1) f(2-5)]
  let ?b = "install_block i k (fblk (df ?e) i) ne ?e"
  have "length (fblk (df ?e) i) = DATABLOCK_SIZE" using fblk_length [OF I(2) rd] f(3) by simp
  then have b: "inv ?b" "view ?b = view ?e"
    using install_block_inv [OF e(1), of k i ne] kc c by simp_all
  have "k < length (frames c)" using buf_shapeD(1) [OF I(1)] kc by simp
  then have "FetchBlock D i b = Ok (Inr \<lparr>ID = i, Frame = k\<rparr>, ?b)"
    using assms(3) readInto_run [OF c(1) kc f(1)] pick
    by (simp add: FetchBlock_def bind_def seq_def ne_def [symmetric] updFrame_Ok install_block_def f(3))
  moreover have "same b ?b"
    using b(2) e(2) c(2) by (simp add: same_buf_def install_block_def)
  ultimately show thesis using that b(1) by (simp add: install_block_def)
qed

text \<open>Fetching a readable block succeeds, and the frame returned holds the contents of the block.\<close>

lemma FetchBlock_Ok:
  assumes "inv b" "0 < bufsize b" "readable (df b) i \<or> idToFrame b i \<noteq> None"
  shows "\<exists>k b'. FetchBlock D i b = Ok (Inr \<lparr>ID = i, Frame = k\<rparr>, b') \<and> inv b' \<and> same b b' \<and>
    idToFrame b' i = Some k \<and> fdata (frames b' ! k) = view b i"
proof -
  have "\<exists>k b'. FetchBlock D i b = Ok (Inr \<lparr>ID = i, Frame = k\<rparr>, b') \<and> inv b' \<and> same b b' \<and>
    idToFrame b' i = Some k"
  proof (cases "idToFrame b i")
    case None
    with assms(3) have "readable (df b) i" by simp
    from fetch_miss [OF assms(1,2) None this] show ?thesis by blast
  next
    case (Some k)
    from fetch_hit [OF assms(1) Some] show ?thesis using Some by metis
  qed
  then obtain k b' where f: "FetchBlock D i b = Ok (Inr \<lparr>ID = i, Frame = k\<rparr>, b')" "inv b'" "same b b'"
    "idToFrame b' i = Some k" by blast
  have "view b' i = fdata (frames b' ! k)" using f(4) by (simp add: buf_view_def)
  then have "fdata (frames b' ! k) = view b i" using f(3) by (simp add: same_buf_def)
  with f show ?thesis by blast
qed

text \<open>An unreadable block is reported; nothing is cached for it and no contents change.\<close>

lemma FetchBlock_err:
  assumes "inv b" "0 < bufsize b" "idToFrame b i = None" "\<not> readable (df b) i"
  shows "\<exists>e b'. FetchBlock D i b = Ok (Inl e, b') \<and> inv b' \<and> same b b' \<and> idToFrame b' i = None"
proof -
  define ne where "ne \<longleftrightarrow> length (nextVictims b) = bufsize b"
  from acquireFrame_Ok [OF assms(1,2)] assms(3) obtain k c where
    pick: "acquireFrame D ne b = Ok (Inr k, c)"
    and c: "inv c" "same b c" "k < bufsize b" "\<not> inUse (frames c ! k)" "idToFrame c i = None"
    unfolding ne_def by blast
  note I = buf_invD [OF c(1)]
  have kc: "k < bufsize c" using c(2,3) by (simp add: same_buf_def)
  have rd: "\<not> readable (df c) i" using c(2) assms(4) by (simp add: same_buf_def)
  from read_err [OF I(2) rd buf_shapeD(8) [OF I(1) kc]] obtain e d f where
    f: "ReadBlock D i (fdata (frames c ! k)) (df c) = Ok ((Some e, d), f)" "length d = DATABLOCK_SIZE"
      "finv f" "fblk f = fblk (df c)" "readable f = readable (df c)" "writable f = writable (df c)" by blast
  let ?b = "c\<lparr>df := f, frames := (frames c)[k := (frames c ! k)\<lparr>fdata := d\<rparr>]\<rparr>"
  have run: "FetchBlock D i b = Ok (Inl e, ?b)"
    using assms(3) readInto_run [OF c(1) kc f(1)] pick
    by (simp add: FetchBlock_def bind_def seq_def ne_def [symmetric])
  have free: "k' \<noteq> k" if "idToFrame c j = Some k'" for j k'
    using buf_shapeD(6) [OF I(1) kc] c(4) that by auto
  note e = df_inv [OF c(1) f(3-6)]
  have "inv ?b"
  proof (rule buf_invI)
    show "buf_shape ?b"
      using buf_shape_set_frame [OF buf_invD(1) [OF e(1)], of k "(frames c ! k)\<lparr>fdata := d\<rparr>"] kc f(2)
        buf_shapeD(7) [OF I(1) kc] by simp
    fix j k' assume "idToFrame ?b j = Some k'"
    then show "isDirty (frames ?b ! k') \<Longrightarrow> writable (df ?b) j"
      "\<not> isDirty (frames ?b ! k') \<Longrightarrow> fdata (frames ?b ! k') = fblk (df ?b) j"
      using I(3,4) [of j k'] free [of j k'] f by auto
  qed (use f in simp)
  moreover have "view ?b = view c"
    using f(4) by (auto simp: buf_view_def fun_eq_iff split: option.split dest: free)
  ultimately show ?thesis using run c f by (auto simp: same_buf_def)
qed

end

end
