(* ===== verification/BufferStore.thy ===== *)
theory BufferStore
  imports DataBuffer
begin

text \<open>
  What the clients of the block buffer rely on: a fetched block stays in its frame until a miss
  evicts it, a write through the handle followed by \<open>MarkAsDirty\<close> changes exactly that block,
  \<open>Sync\<close> brings the file to the contents of the buffer, in whatever order the map is visited, and
  a new buffer shows what the file holds. The lemmas hold over every file with the contract
  \<open>block_file\<close>.
\<close>

section \<open>Handles and the pool of blocks\<close>

text \<open>A handle is live while the buffer maps its block to its frame.\<close>

definition live :: "'f dataBuffer \<Rightarrow> DataBlock \<Rightarrow> bool" where
  "live b h \<longleftrightarrow> idToFrame b (ID h) = Some (Frame h)"

text \<open>The buffer is large enough for all blocks of \<open>P\<close>, and caches no others.\<close>

definition pool :: "u16 set \<Rightarrow> 'f dataBuffer \<Rightarrow> bool" where
  "pool P b \<longleftrightarrow> dom (idToFrame b) \<subseteq> P \<and> card P \<le> bufsize b"

lemma pool_room:
  assumes "buf_shape b" "pool P b" "i \<in> P" "idToFrame b i = None"
  shows "length (nextVictims b) < bufsize b"
proof -
  have fin: "finite P" by (rule finite_subset [OF subset_UNIV]) simp
  have "dom (idToFrame b) \<subset> P" using assms(2-4) by (auto simp: pool_def)
  then have "card (dom (idToFrame b)) < card P" by (rule psubset_card_mono [OF fin])
  then show ?thesis
    using buf_shapeD(2,3) [OF assms(1)] assms(2) by (metis distinct_card order_less_le_trans pool_def)
qed

lemma onBlock_bind: "onBlock h (bind m f) = bind (onBlock h m) (\<lambda>a. onBlock h (f a))"
  by (auto simp: fun_eq_iff onBlock_def bind_def split: outcome.split)

lemma onBlock_seq: "onBlock h (seq m k) = seq (onBlock h m) (onBlock h k)"
  by (simp add: seq_def onBlock_bind)

lemma frame_update_id [simp]: "fdata fr = d \<Longrightarrow> fr\<lparr>fdata := d\<rparr> = (fr :: bufferFrame)"
  by (cases fr) simp

lemma frames_update_id [simp]: "b\<lparr>frames := frames b\<rparr> = (b :: 'f dataBuffer)"
  by (cases b) simp

lemma onBlock_run:
  assumes "Frame h < length (frames b)" "m (fdata (frames b ! Frame h)) = Ok (a, d)"
  shows "onBlock h m b =
    Ok (a, b\<lparr>frames := (frames b)[Frame h := (frames b ! Frame h)\<lparr>fdata := d\<rparr>]\<rparr>)"
  using assms by (simp add: onBlock_def)

context block_file begin

lemma live_view:
  assumes "inv b" "live b h"
  shows "fdata (frames b ! Frame h) = view b (ID h)" "Frame h < length (frames b)"
  using assms buf_shape_frame(2) [OF buf_invD(1) [OF assms(1)]] by (simp_all add: live_def buf_view_def)

lemma view_length:
  assumes "inv b" "readable (df b) i \<or> idToFrame b i \<noteq> None"
  shows "length (view b i) = DATABLOCK_SIZE"
  using assms buf_shape_frame(1) [OF buf_invD(1) [OF assms(1)]] buf_shapeD(8) [OF buf_invD(1) [OF assms(1)]]
    fblk_length [OF buf_invD(2) [OF assms(1)]]
  by (auto simp: buf_view_def split: option.split)

text \<open>A program that only reads gives its result on the contents of the block.\<close>

lemma onBlock_read:
  assumes "inv b" "live b h" "m (view b (ID h)) = Ok (a, view b (ID h))"
  shows "onBlock h m b = Ok (a, b)"
  using assms(3) live_view [OF assms(1,2)] by (simp add: onBlock_def)

lemma onBlock_panic:
  assumes "inv b" "live b h" "m (view b (ID h)) = Panic p"
  shows "onBlock h m b = Panic p"
  using assms(3) live_view [OF assms(1,2)] by (simp add: onBlock_def)

lemma MarkAsDirty_Ok:
  assumes "inv b" "idToFrame b i = Some k" "writable (df b) i"
  obtains b' where "MarkAsDirty i b = Ok (None, b')" "inv b'" "same b b'"
    "idToFrame b' = idToFrame b" "nextVictims b' = nextVictims b" "df b' = df b"
proof -
  note I = buf_invD [OF assms(1)] and F = buf_shape_frame [OF buf_invD(1) [OF assms(1)] assms(2)]
  let ?b = "b\<lparr>frames := (frames b)[k := (frames b ! k)\<lparr>isDirty := True, referenced := True\<rparr>]\<rparr>"
  have "MarkAsDirty i b = Ok (None, ?b)"
    using F assms(2) by (simp add: MarkAsDirty_def bind_def seq_def updFrame_Ok)
  moreover have "inv ?b" "view ?b = view b"
    using set_frame_flags_inv [OF assms(1,2), of "(frames b ! k)\<lparr>isDirty := True, referenced := True\<rparr>"]
      F assms(3) by auto
  ultimately show thesis using that by (simp add: same_buf_def)
qed

lemma MarkAsDirty_absent: "idToFrame b i = None \<Longrightarrow>
    MarkAsDirty i b = Panic (PanicMsg ''Tried to mark as dirty a block that is no longer on the buffer'')"
  by (simp add: MarkAsDirty_def)

text \<open>A write through a live handle that is then marked changes the contents of that block only.\<close>

lemma write_mark:
  assumes "inv b" "live b h" "writable (df b) (ID h)"
    "m (view b (ID h)) = Ok (a, d)" "length d = DATABLOCK_SIZE"
  shows "\<exists>b1 b'. onBlock h m b = Ok (a, b1) \<and> MarkAsDirty (ID h) b1 = Ok (None, b') \<and> inv b' \<and>
    view b' = (view b)(ID h := d) \<and> idToFrame b' = idToFrame b \<and> nextVictims b' = nextVictims b \<and>
    df b' = df b \<and> bufsize b' = bufsize b"
proof -
  define k where "k = Frame h"
  have k: "idToFrame b (ID h) = Some k" using assms(2) by (simp add: live_def k_def)
  note I = buf_invD [OF assms(1)] and F = buf_shape_frame [OF buf_invD(1) [OF assms(1)] k]
  have other: "k' \<noteq> k" if "idToFrame b j = Some k'" "j \<noteq> ID h" for j k'
    using buf_shape_inj [OF I(1) k] that by auto
  let ?c = "b\<lparr>frames := (frames b)[k := (frames b ! k)\<lparr>fdata := d\<rparr>]\<rparr>"
  let ?fr = "(frames b ! k)\<lparr>fdata := d, isDirty := True, referenced := True\<rparr>"
  let ?b = "b\<lparr>frames := (frames b)[k := ?fr]\<rparr>"
  have "onBlock h m b = Ok (a, ?c)"
    using onBlock_run [of h b m a d] live_view [OF assms(1,2)] assms(4) by (simp add: k_def)
  moreover have "MarkAsDirty (ID h) ?c = Ok (None, ?b)"
    using F k by (simp add: MarkAsDirty_def bind_def seq_def updFrame_Ok)
  moreover have "inv ?b"
  proof (rule buf_invI)
    show "buf_shape ?b"
      using F assms(5) by (intro buf_shape_set_frame [OF I(1)]) simp_all
    fix j k' assume "idToFrame ?b j = Some k'"
    then have j: "idToFrame b j = Some k'" by simp
    show "isDirty (frames ?b ! k') \<Longrightarrow> writable (df ?b) j"
      "\<not> isDirty (frames ?b ! k') \<Longrightarrow> fdata (frames ?b ! k') = fblk (df ?b) j"
      using I(3,4) [OF j] other [OF j] F k j assms(3)
      by (cases "j = ID h"; auto simp: nth_list_update split: if_splits)+
  qed (use I in simp)
  moreover have "view ?b = (view b)(ID h := d)"
    using k F by (auto simp: buf_view_def fun_eq_iff nth_list_update split: option.split dest: other)
  ultimately show ?thesis by simp
qed

text \<open>A hit, and a miss while the buffer has room, leave every other block in its frame.\<close>

lemma pickFrame_noevict:
  assumes "length (nextVictims b) \<noteq> bufsize b" "acquireFrame D False b = Ok (r, b')"
  shows "b' = b"
proof -
  have "b' = b" if "pickFrame ks fr b = Ok (r, b')" for ks fr and r :: "nat option"
    using that by (induction ks arbitrary: fr) (auto simp: bind_def frameAt_def split: if_splits)
  with assms show ?thesis
    by (auto simp: acquireFrame_def bind_def split: outcome.splits option.splits)
qed

lemma FetchBlock_resident:
  assumes "FetchBlock D i b = Ok (r, b')" "length (nextVictims b) \<noteq> bufsize b \<or> idToFrame b i \<noteq> None"
    "idToFrame b j = Some k"
  shows "idToFrame b' j = Some k"
proof (cases "idToFrame b i")
  case (Some k')
  with assms(1,3) show ?thesis
    by (auto simp: FetchBlock_def bind_def seq_def updFrame_def split: if_splits)
next
  case None
  with assms(2) have ne: "length (nextVictims b) \<noteq> bufsize b" by simp
  from None assms(3) have ij: "j \<noteq> i" by auto
  have "idToFrame c = idToFrame b" if "readInto D i k b = Ok (err, c)" for k err c
    using that by (auto simp: readInto_def bind_def seq_def frameAt_def onFile_def updFrame_def
        split: if_splits outcome.splits)
  with None ne assms(1,3) ij show ?thesis
    by (auto simp: FetchBlock_def bind_def seq_def updFrame_def split: if_splits outcome.splits sum.splits option.splits
        dest!: pickFrame_noevict [OF ne])
qed

lemma FetchBlock_cached:
  assumes "FetchBlock D i b = Ok (Inr h, b')" "idToFrame b' j \<noteq> None"
  shows "j = i \<or> idToFrame b j \<noteq> None"
proof (rule ccontr)
  assume "\<not> (j = i \<or> idToFrame b j \<noteq> None)"
  then have j: "j \<noteq> i" "idToFrame b j = None" by auto
  have ev: "idToFrame c j = None" if "evictFrame D b = Ok (r, c)" for r c
    using that j(2) by (auto simp: evictFrame_def bind_def seq_def onFile_def updFrame_def
        split: outcome.splits if_splits option.splits sum.splits)
  have pick: "idToFrame c = idToFrame b" if "pickFrame ks fr b = Ok (r, c)" for ks fr r c
    using that by (induction ks arbitrary: fr) (auto simp: bind_def frameAt_def split: if_splits)
  have acq: "idToFrame c j = None" if "acquireFrame D ne b = Ok (r, c)" for ne r c
    using that ev j(2) by (auto simp: acquireFrame_def bind_def dest!: pick
        split: outcome.splits if_splits option.splits)
  have rd: "idToFrame c = idToFrame b0" if "readInto D i k b0 = Ok (err, c)" for k err c b0
    using that by (auto simp: readInto_def bind_def seq_def frameAt_def onFile_def updFrame_def
        split: if_splits outcome.splits)
  show False
  proof (cases "idToFrame b i")
    case (Some k')
    with assms j show ?thesis
      by (auto simp: FetchBlock_def bind_def seq_def updFrame_def split: if_splits)
  next
    case None
    with assms j show ?thesis
      by (auto simp: FetchBlock_def bind_def seq_def updFrame_def dest!: acq rd
          split: if_splits outcome.splits sum.splits option.splits)
  qed
qed

text \<open>
  While the buffer is large enough for the blocks in use, a fetched block keeps its frame: the
  handles that the caller holds stay live across later fetches.
\<close>

lemma fetch_pool:
  assumes "inv b" "0 < bufsize b" "pool P b" "i \<in> P" "readable (df b) i"
  obtains k b' where "FetchBlock D i b = Ok (Inr \<lparr>ID = i, Frame = k\<rparr>, b')" "inv b'" "same b b'"
    "live b' \<lparr>ID = i, Frame = k\<rparr>" "pool P b'" "\<And>h. live b h \<Longrightarrow> live b' h"
proof -
  from FetchBlock_Ok [OF assms(1,2)] assms(5) obtain k b' where
    f: "FetchBlock D i b = Ok (Inr \<lparr>ID = i, Frame = k\<rparr>, b')" "inv b'" "same b b'" "idToFrame b' i = Some k"
    by blast
  have room: "length (nextVictims b) \<noteq> bufsize b \<or> idToFrame b i \<noteq> None"
    using pool_room [OF buf_invD(1) [OF assms(1)] assms(3,4)] by fastforce
  have "dom (idToFrame b') \<subseteq> P"
    using FetchBlock_cached [OF f(1)] assms(3,4) by (fastforce simp: pool_def)
  then have "pool P b'" using assms(3) f(3) by (simp add: pool_def same_buf_def)
  moreover have "live b' h" if "live b h" for h
    using FetchBlock_resident [OF f(1) room] that by (simp add: live_def)
  ultimately show thesis using f that by (simp add: live_def)
qed

subsection \<open>Sync and reopening\<close>

definition clean :: "'f dataBuffer \<Rightarrow> u16 \<Rightarrow> bool" where
  "clean b i \<longleftrightarrow> (\<forall>k. idToFrame b i = Some k \<longrightarrow> \<not> isDirty (frames b ! k))"

text \<open>One step of the loop: a dirty block is written and its frame becomes clean.\<close>

lemma sync_step:
  assumes "inv b" "idToFrame b i = Some k" "isDirty (frames b ! k)"
  obtains b1 b2 where "onFile (WriteBlock D i (fdata (frames b ! k))) b = Ok (None, b1)"
    "updFrame k (\<lambda>fr. fr\<lparr>isDirty := False\<rparr>) b1 = Ok ((), b2)" "inv b2" "same b b2"
    "idToFrame b2 = idToFrame b" "clean b2 i" "\<And>j. clean b j \<Longrightarrow> clean b2 j"
proof -
  from write_back [OF assms] obtain f where
    f: "onFile (WriteBlock D i (fdata (frames b ! k))) b = Ok (None, b\<lparr>df := f\<rparr>)" "inv (b\<lparr>df := f\<rparr>)"
      "same b (b\<lparr>df := f\<rparr>)" "fblk f = (fblk (df b))(i := fdata (frames b ! k))" by blast
  let ?b1 = "b\<lparr>df := f\<rparr>" and ?fr = "(frames b ! k)\<lparr>isDirty := False\<rparr>"
  let ?b2 = "?b1\<lparr>frames := (frames b)[k := ?fr]\<rparr>"
  have k1: "idToFrame ?b1 i = Some k" using assms(2) by simp
  note F = buf_shape_frame [OF buf_invD(1) [OF f(2)] k1]
  have "inv ?b2" "view ?b2 = view ?b1"
    using set_frame_flags_inv [OF f(2) k1, of ?fr] F f(4) by auto
  moreover have "updFrame k (\<lambda>fr. fr\<lparr>isDirty := False\<rparr>) ?b1 = Ok ((), ?b2)"
    using F by (simp add: updFrame_Ok)
  moreover have "clean ?b2 j" if "clean b j \<or> j = i" for j
    using that assms(2) F by (auto simp: clean_def nth_list_update)
  moreover have "same b ?b2" using f(3) calculation(2) by (simp add: same_buf_def)
  ultimately show thesis using that f(1) by simp
qed

lemma Sync_run:
  assumes "inv b"
  shows "\<exists>b'. Sync D order b = Ok (None, b') \<and> inv b' \<and> same b b' \<and> idToFrame b' = idToFrame b \<and>
    (\<forall>i. i \<in> set order \<or> clean b i \<longrightarrow> clean b' i)"
  using assms
proof (induction order arbitrary: b)
  case Nil
  then show ?case by simp
next
  case (Cons i order)
  consider (absent) "clean b i" "idToFrame b i = None"
    | (clean) k where "clean b i" "idToFrame b i = Some k" "\<not> isDirty (frames b ! k)"
    | (dirty) k where "idToFrame b i = Some k" "isDirty (frames b ! k)"
    by (cases "idToFrame b i") (auto simp: clean_def)
  then show ?case
  proof cases
    case absent
    with Cons.IH [OF Cons.prems] show ?thesis by (auto simp: bind_def)
  next
    case clean
    have "k < length (frames b)"
      using buf_shape_frame(2) [OF buf_invD(1) [OF Cons.prems] clean(2)] .
    with Cons.IH [OF Cons.prems] clean show ?thesis by (auto simp: bind_def frameAt_Ok)
  next
    case dirty
    have k: "k < length (frames b)"
      using buf_shape_frame(2) [OF buf_invD(1) [OF Cons.prems] dirty(1)] .
    from sync_step [OF Cons.prems dirty] obtain b1 b2 where
      s: "onFile (WriteBlock D i (fdata (frames b ! k))) b = Ok (None, b1)"
        "updFrame k (\<lambda>fr. fr\<lparr>isDirty := False\<rparr>) b1 = Ok ((), b2)" "inv b2" "same b b2"
        "idToFrame b2 = idToFrame b" "clean b2 i" "\<And>j. clean b j \<Longrightarrow> clean b2 j" by blast
    from Cons.IH [OF s(3)] obtain b' where
      b': "Sync D order b2 = Ok (None, b')" "inv b'" "same b2 b'" "idToFrame b' = idToFrame b2"
        "\<forall>i. i \<in> set order \<or> clean b2 i \<longrightarrow> clean b' i" by blast
    have "Sync D (i # order) b = Ok (None, b')"
      using dirty k s(1,2) b'(1) by (simp add: bind_def seq_def frameAt_Ok)
    with b' s same_buf_trans [OF s(4) b'(3)] show ?thesis by auto
  qed
qed

text \<open>\<open>Sync\<close> visits every key of the map, in any order: afterwards the file holds every block.\<close>

lemma Sync_Ok:
  assumes "inv b" "set order = dom (idToFrame b)"
  shows "\<exists>b'. Sync D order b = Ok (None, b') \<and> inv b' \<and> same b b' \<and> idToFrame b' = idToFrame b \<and>
    fblk (df b') = view b"
proof -
  from Sync_run [OF assms(1), of order] obtain b' where
    b': "Sync D order b = Ok (None, b')" "inv b'" "same b b'" "idToFrame b' = idToFrame b"
      "\<forall>i. i \<in> set order \<or> clean b i \<longrightarrow> clean b' i" by blast
  have "clean b' i" for i
    using b'(5) assms(2) by (cases "i \<in> set order") (auto simp: clean_def dom_def)
  then have "fblk (df b') i = view b' i" for i
    using buf_invD(4) [OF b'(2), of i] by (auto simp: clean_def buf_view_def split: option.split)
  with b'(3) have "fblk (df b') = view b" by (simp add: same_buf_def fun_eq_iff)
  with b' show ?thesis by blast
qed

lemma NewDataBuffer_Ok:
  assumes "finv f" "0 \<le> sz"
  obtains b where "NewDataBuffer f sz = Ok b" "inv b" "view b = fblk f" "bufsize b = nat sz" "df b = f"
    "idToFrame b = (\<lambda>_. None)"
proof -
  let ?b = "\<lparr>df = f, frames = map (\<lambda>i. \<lparr>inUse = False, referenced = False, isDirty = False, position = i,
      fdata = replicate DATABLOCK_SIZE 0\<rparr>) [0 ..< nat sz], idToFrame = (\<lambda>_. None), nextVictims = [],
      bufsize = nat sz\<rparr>"
  have "NewDataBuffer f sz = Ok ?b" using assms(2) by (simp add: NewDataBuffer_def)
  moreover have "inv ?b"
    using assms by (intro buf_invI) (auto simp: buf_shape_def intro!: shape_ofI)
  ultimately show thesis using that by (simp add: buf_view_def fun_eq_iff)
qed

lemma same_bufD:
  assumes "same b b'"
  shows "view b' = view b" "bufsize b' = bufsize b" "readable (df b') = readable (df b)"
    "writable (df b') = writable (df b)"
  using assms by (simp_all add: same_buf_def)

end

subsection \<open>Runs of the buffer\<close>

text \<open>
  A client's use of the buffer: reading a block, replacing its contents and marking it, and
  \<open>Sync\<close>; \<open>ord\<close> is the order in which \<open>Sync\<close> visits the map of a state.
\<close>

datatype bufop = LoadBlock u16 | StoreBlock u16 bytes | SyncBlocks

definition run_op :: "'f DataFile \<Rightarrow> ('f dataBuffer \<Rightarrow> u16 list) \<Rightarrow> bufop
    \<Rightarrow> ('f dataBuffer, bytes) prog" where
  "run_op D ord p =
     (case p of
        LoadBlock i \<Rightarrow> bind (FetchBlock D i) (\<lambda>r. case r of
            Inl e \<Rightarrow> panic (PanicError e)
          | Inr h \<Rightarrow> onBlock h (gets (\<lambda>d. d)))
      | StoreBlock i d \<Rightarrow> bind (FetchBlock D i) (\<lambda>r. case r of
            Inl e \<Rightarrow> panic (PanicError e)
          | Inr h \<Rightarrow> seq (onBlock h (modify (\<lambda>_. d))) (seq (MarkAsDirty i) (ret [])))
      | SyncBlocks \<Rightarrow> bind (gets ord) (\<lambda>order. bind (Sync D order) (\<lambda>r. case r of
            Some e \<Rightarrow> panic (PanicError e) | None \<Rightarrow> ret [])))"

fun run_ops :: "'f DataFile \<Rightarrow> ('f dataBuffer \<Rightarrow> u16 list) \<Rightarrow> bufop list
    \<Rightarrow> ('f dataBuffer, bytes list) prog" where
  "run_ops D ord [] = ret []"
| "run_ops D ord (p # ps) = bind (run_op D ord p) (\<lambda>r. bind (run_ops D ord ps) (\<lambda>rs. ret (r # rs)))"

text \<open>The same on an array of blocks.\<close>

fun array_op :: "bufop \<Rightarrow> (u16 \<Rightarrow> bytes) \<Rightarrow> bytes \<times> (u16 \<Rightarrow> bytes)" where
  "array_op (LoadBlock i) a = (a i, a)"
| "array_op (StoreBlock i d) a = ([], a(i := d))"
| "array_op SyncBlocks a = ([], a)"

fun array_ops :: "bufop list \<Rightarrow> (u16 \<Rightarrow> bytes) \<Rightarrow> bytes list \<times> (u16 \<Rightarrow> bytes)" where
  "array_ops [] a = ([], a)"
| "array_ops (p # ps) a = (let (r, a1) = array_op p a; (rs, a2) = array_ops ps a1 in (r # rs, a2))"

fun op_ok :: "(u16 \<Rightarrow> bool) \<Rightarrow> (u16 \<Rightarrow> bool) \<Rightarrow> bufop \<Rightarrow> bool" where
  "op_ok rd wr (LoadBlock i) = rd i"
| "op_ok rd wr (StoreBlock i d) = (rd i \<and> wr i \<and> length d = DATABLOCK_SIZE)"
| "op_ok rd wr SyncBlocks = True"

context block_file begin

lemma run_op_Ok:
  assumes "inv b" "0 < bufsize b" "op_ok (readable (df b)) (writable (df b)) p"
    "\<And>c. set (ord c) = dom (idToFrame c)"
  shows "\<exists>b'. run_op D ord p b = Ok (fst (array_op p (view b)), b') \<and> inv b' \<and>
    view b' = snd (array_op p (view b)) \<and> bufsize b' = bufsize b \<and>
    readable (df b') = readable (df b) \<and> writable (df b') = writable (df b)"
proof (cases p)
  case (LoadBlock i)
  with assms FetchBlock_Ok [OF assms(1,2), of i] obtain k b' where
    f: "FetchBlock D i b = Ok (Inr \<lparr>ID = i, Frame = k\<rparr>, b')" "inv b'" "same b b'" "idToFrame b' i = Some k"
    by auto
  have "onBlock \<lparr>ID = i, Frame = k\<rparr> (gets (\<lambda>d. d)) b' = Ok (view b' i, b')"
    using f by (intro onBlock_read) (simp_all add: live_def)
  with f same_bufD [OF f(3)] LoadBlock show ?thesis by (simp add: run_op_def bind_def)
next
  case (StoreBlock i d)
  with assms FetchBlock_Ok [OF assms(1,2), of i] obtain k b' where
    f: "FetchBlock D i b = Ok (Inr \<lparr>ID = i, Frame = k\<rparr>, b')" "inv b'" "same b b'" "idToFrame b' i = Some k"
    by auto
  let ?h = "\<lparr>ID = i, Frame = k\<rparr>"
  have "live b' ?h" "writable (df b') (ID ?h)" "length d = DATABLOCK_SIZE"
    using f assms(3) StoreBlock by (simp_all add: live_def same_buf_def)
  from write_mark [OF f(2) this(1,2) _ this(3), of "modify (\<lambda>_. d)" "()"] obtain b1 b2 where
    w: "onBlock ?h (modify (\<lambda>_. d)) b' = Ok ((), b1)" "MarkAsDirty i b1 = Ok (None, b2)" "inv b2"
      "view b2 = (view b')(i := d)" "df b2 = df b'" "bufsize b2 = bufsize b'" by auto
  with f same_bufD [OF f(3)] StoreBlock show ?thesis by (simp add: run_op_def bind_def seq_def)
next
  case SyncBlocks
  from Sync_Ok [OF assms(1) assms(4)] obtain b' where
    "Sync D (ord b) b = Ok (None, b')" "inv b'" "same b b'" by blast
  with SyncBlocks same_bufD [of b b'] show ?thesis by (simp add: run_op_def bind_def)
qed

lemma run_ops_Ok:
  assumes "inv b" "0 < bufsize b" "\<forall>p \<in> set ps. op_ok (readable (df b)) (writable (df b)) p"
    "\<And>c. set (ord c) = dom (idToFrame c)"
  shows "\<exists>b'. run_ops D ord ps b = Ok (fst (array_ops ps (view b)), b') \<and> inv b' \<and>
    view b' = snd (array_ops ps (view b))"
  using assms(1-3)
proof (induction ps arbitrary: b)
  case Nil
  then show ?case by simp
next
  case (Cons p ps)
  from run_op_Ok [OF Cons.prems(1,2) _ assms(4), of p] Cons.prems(3) obtain b1 where
    p: "run_op D ord p b = Ok (fst (array_op p (view b)), b1)" "inv b1"
      "view b1 = snd (array_op p (view b))" "bufsize b1 = bufsize b"
      "readable (df b1) = readable (df b)" "writable (df b1) = writable (df b)" by auto
  from Cons.IH [OF p(2)] Cons.prems p obtain b' where
    "run_ops D ord ps b1 = Ok (fst (array_ops ps (view b1)), b')" "inv b'"
      "view b' = snd (array_ops ps (view b1))" by auto
  with p show ?case by (auto simp: bind_def split: prod.splits)
qed

end

section \<open>Properties\<close>

text \<open>C29: The buffer refines an array of blocks, and \<open>Sync\<close> makes it durable: from a new buffer of any
  positive size over a file, every run of loads, stores and syncs of readable and writable blocks
  succeeds and returns what the same run on the array of the file's blocks returns, whatever was
  evicted meanwhile; after a final \<open>Sync\<close> the file holds the resulting array.\<close>

theorem buffer_refines_array:
  assumes "NewDataBuffer f sz = Ok b" "os_inv f" "0 < sz"
    "\<forall>p \<in> set ps. op_ok (os_readable f) (os_writable f) p"
    "\<And>c. set (ord c) = dom (idToFrame c)"
  shows "\<exists>b1 b2. run_ops osDataFile ord ps b = Ok (fst (array_ops ps (os_block f)), b1) \<and>
    Sync osDataFile (ord b1) b1 = Ok (None, b2) \<and> os_block (df b2) = snd (array_ops ps (os_block f))"
proof -
  from osf.NewDataBuffer_Ok [OF assms(2), of sz] assms(1,3) have
    b: "buf_inv os_inv os_block os_writable b" "buf_view os_block b = os_block f" "bufsize b = nat sz" "df b = f"
    by auto
  with osf.run_ops_Ok [OF b(1) _ _ assms(5), of ps] assms(3,4) obtain b1 where
    r: "run_ops osDataFile ord ps b = Ok (fst (array_ops ps (os_block f)), b1)"
      "buf_inv os_inv os_block os_writable b1" "buf_view os_block b1 = snd (array_ops ps (os_block f))" by auto
  with osf.Sync_Ok [OF r(2) assms(5)] show ?thesis by auto
qed

definition key_order :: "'f dataBuffer \<Rightarrow> u16 list" where
  "key_order b = filter (\<lambda>i. idToFrame b i \<noteq> None) (map of_nat [0 ..< 65536])"

lemma set_key_order: "set (key_order b) = dom (idToFrame b)"
proof -
  have "i \<in> of_nat ` {0 ..< 65536}" for i :: u16
    using u16_bound [of i] by (intro image_eqI [of _ _ "unat i"]) simp_all
  then show ?thesis by (auto simp: key_order_def)
qed

lemma buffer_refines_array_witness:
  "\<exists>b b1 b2. NewDataBuffer (zero_file 3) 1 = Ok b \<and>
    run_ops osDataFile key_order
      [StoreBlock 1 (replicate DATABLOCK_SIZE 7), LoadBlock 2, LoadBlock 1] b =
        Ok ([[], os_block (zero_file 3) 2, replicate DATABLOCK_SIZE 7], b1) \<and>
    Sync osDataFile (key_order b1) b1 = Ok (None, b2) \<and>
    os_block (df b2) 1 = replicate DATABLOCK_SIZE 7"
proof -
  obtain b where b: "NewDataBuffer (zero_file 3) 1 = Ok b"
    using osf.NewDataBuffer_Ok [of "zero_file 3" 1] by auto
  show ?thesis
    using buffer_refines_array [OF b _ _ _ set_key_order,
        of "[StoreBlock 1 (replicate DATABLOCK_SIZE 7), LoadBlock 2, LoadBlock 1]"] b
    by auto
qed

text \<open>C30: Fetching a block that is not cached and that the file cannot read returns the file's error;
  the buffer keeps its invariant, no block changes its contents, and the failed block is not
  cached, so a later fetch tries again.\<close>

theorem FetchBlock_error:
  assumes "buf_inv os_inv os_block os_writable b" "0 < bufsize b" "idToFrame b i = None"
    "\<not> os_readable (df b) i"
  shows "\<exists>e b'. FetchBlock osDataFile i b = Ok (Inl e, b') \<and> buf_inv os_inv os_block os_writable b' \<and>
    buf_view os_block b' = buf_view os_block b \<and> idToFrame b' i = None"
  using osf.FetchBlock_err [OF assms] by (auto simp: same_buf_def)

lemma FetchBlock_error_witness:
  "\<exists>b e b'. NewDataBuffer (zero_file 3) 1 = Ok b \<and> FetchBlock osDataFile 3 b = Ok (Inl e, b')"
proof -
  obtain b where b: "NewDataBuffer (zero_file 3) 1 = Ok b" "buf_inv os_inv os_block os_writable b"
    "bufsize b = 1" "df b = zero_file 3" "idToFrame b = (\<lambda>_. None)"
    using osf.NewDataBuffer_Ok [of "zero_file 3" 1] by auto
  show ?thesis using FetchBlock_error [OF b(2), of 3] b by auto
qed

text \<open>C31: The replacement is second chance: the victim is the first block of the queue whose reference
  bit is clear, and the bits of the blocks before it are cleared; if every bit is set, all are
  cleared and the head of the queue is evicted. The victim's frame is the one mapped to it.\<close>

theorem evict_second_chance:
  assumes "buf_shape b" "length (nextVictims b) = bufsize b" "0 < bufsize b"
  shows "evict_scan (idToFrame b) (nextVictims b) (bufsize b) 0 (frames b) =
    (let n = length (takeWhile (is_ref (idToFrame b) (frames b)) (nextVictims b));
         victims = nextVictims b in
     if n < bufsize b
     then Ok (n, victims ! n, the (idToFrame b (victims ! n)),
              clear_refs (idToFrame b) (take n victims) (frames b))
     else Ok (0, hd victims, the (idToFrame b (hd victims)),
              clear_refs (idToFrame b) victims (frames b)))"
proof -
  have "nextVictims b \<noteq> []" using assms(2,3) by auto
  with evict_scan_second_chance [OF buf_shape_victims_ok [OF assms(1)]] assms(2) show ?thesis
    by (simp add: Let_def)
qed

definition full_buffer :: "osFile dataBuffer" where
  "full_buffer = \<lparr>df = zero_file 3, frames = map (\<lambda>k. \<lparr>inUse = True, referenced = k = 0, isDirty = False,
      position = k, fdata = replicate DATABLOCK_SIZE 0\<rparr>) [0, 1],
    idToFrame = [0 \<mapsto> 0, 1 \<mapsto> 1], nextVictims = [0, 1], bufsize = 2\<rparr>"

lemma full_buffer_shape: "buf_shape full_buffer"
  unfolding buf_shape_def full_buffer_def
  by (rule shape_ofI)
     (auto simp: less_Suc_eq numeral_2_eq_2 inj_on_def split: if_splits intro: exI [of _ "1 :: u16"])

lemma evict_second_chance_witness:
  "evict_scan (idToFrame full_buffer) [0, 1] 2 0 (frames full_buffer) =
     Ok (1, 1, 1, clear_refs (idToFrame full_buffer) [0] (frames full_buffer))"
  using evict_second_chance [OF full_buffer_shape]
  by (simp add: full_buffer_def is_ref_def Let_def)

end
