(* ===== verification/BlockStore.thy ===== *)
theory BlockStore
  imports BufferStore
begin

text \<open>
  The repository's way to a block, \<open>fetchBlock\<close> of
  \<open>src/src/simplejsondb/core/data_block_repository.go\<close>, and a small program logic for the code
  above the buffer: \<open>store R a b\<close> says that the buffer \<open>b\<close> shows the array of blocks \<open>a\<close>, and that
  the blocks of \<open>R\<close> can be read and written. The rules for fetching a block, reading it through its
  handle, and writing it and marking it dirty are in terms of the array only.
\<close>

section \<open>The code\<close>

text \<open>If a block cannot be loaded the repository panics.\<close>

definition fetchBlock :: "'f DataFile \<Rightarrow> u16 \<Rightarrow> ('f dataBuffer, DataBlock) prog" where
  "fetchBlock D blockID =
     bind (FetchBlock D blockID) (\<lambda>r. case r of Inl err \<Rightarrow> panic (PanicError err) | Inr block \<Rightarrow> ret block)"

section \<open>The array that a buffer shows\<close>

definition store :: "('f \<Rightarrow> bool) \<Rightarrow> ('f \<Rightarrow> u16 \<Rightarrow> bytes) \<Rightarrow> ('f \<Rightarrow> u16 \<Rightarrow> bool) \<Rightarrow> u16 set \<Rightarrow> (u16 \<Rightarrow> bytes)
    \<Rightarrow> 'f dataBuffer \<Rightarrow> bool" where
  "store fi fb wr R a b \<longleftrightarrow>
     buf_inv fi fb wr b \<and> 0 < bufsize b \<and> buf_view fb b = a \<and> (\<forall>i \<in> R. wr (df b) i)"

text \<open>
  With \<open>p\<close>, the buffer is a pool for the blocks of \<open>R\<close>, and the handles of \<open>g\<close> are live in it.
\<close>

definition kept :: "bool \<Rightarrow> u16 set \<Rightarrow> DataBlock set \<Rightarrow> 'f dataBuffer \<Rightarrow> bool" where
  "kept p R g b \<longleftrightarrow> (p \<longrightarrow> pool R b \<and> (\<forall>h \<in> g. live b h))"

lemma kept_False [simp]: "kept False R g b"
  by (simp add: kept_def)

lemma kept_same: "kept p R g b \<Longrightarrow> (\<forall>h. live b' h = live b h) \<Longrightarrow> pool R b' = pool R b \<Longrightarrow> kept p R g b'"
  by (simp add: kept_def)

lemma kept_mono: "kept p R g b \<Longrightarrow> g' \<subseteq> g \<Longrightarrow> kept p R g' b"
  by (auto simp: kept_def)

lemma bind_assoc: "bind (bind m f) g = bind m (\<lambda>x. bind (f x) g)"
  by (auto simp: fun_eq_iff bind_def split: outcome.split)

lemma wp_OkD: "wp m Q s \<Longrightarrow> \<exists>x s'. m s = Ok (x, s') \<and> Q x s'"
  by (simp add: wp_iff)

context block_file begin

abbreviation st where "st \<equiv> store finv fblk writable"

text \<open>The same while the buffer is large enough for all blocks of \<open>R\<close> and holds no others.\<close>

abbreviation pst where "pst R a b \<equiv> st R a b \<and> pool R b"

lemma stD:
  assumes "st R a b"
  shows "inv b" "0 < bufsize b" "view b = a" "i \<in> R \<Longrightarrow> writable (df b) i" "i \<in> R \<Longrightarrow> readable (df b) i"
proof -
  show I: "inv b" "0 < bufsize b" "view b = a" using assms by (simp_all add: store_def)
  show "writable (df b) i" if "i \<in> R" using assms that by (simp add: store_def)
  then show "readable (df b) i" if "i \<in> R"
    using that writable_readable [OF buf_invD(2) [OF I(1)]] by blast
qed

lemma st_length:
  assumes "st R a b" "i \<in> R"
  shows "length (a i) = DATABLOCK_SIZE"
  using view_length [OF stD(1) [OF assms(1)], of i] stD(3,5) [OF assms(1)] assms(2) by auto

lemma st_same:
  assumes "st R a b" "inv b'" "same b b'"
  shows "st R a b'"
  using assms by (simp add: store_def same_buf_def)

lemma st_fetch_live:
  assumes "st R a b" "i \<in> R"
  shows "\<exists>h b'. FetchBlock D i b = Ok (Inr h, b') \<and> ID h = i \<and> live b' h \<and> st R a b'"
proof -
  from FetchBlock_Ok [OF stD(1,2) [OF assms(1)]] stD(5) [OF assms] obtain k b' where
    "FetchBlock D i b = Ok (Inr \<lparr>ID = i, Frame = k\<rparr>, b')" "inv b'" "same b b'" "idToFrame b' i = Some k"
    by blast
  with st_same [OF assms(1)] show ?thesis by (auto simp: live_def)
qed

text \<open>In a pool, the handles fetched before stay live.\<close>

lemma wp_FetchBlock_kept:
  assumes "st R a b" "kept p R g b" "i \<in> R"
    "\<And>h b'. ID h = i \<Longrightarrow> live b' h \<Longrightarrow> st R a b' \<Longrightarrow> kept p R (insert h g) b' \<Longrightarrow> Q (Inr h) b'"
  shows "wp (FetchBlock D i) Q b"
proof (cases p)
  case True
  note S = stD [OF assms(1)]
  have P: "pool R b" using assms(2) True by (simp add: kept_def)
  from fetch_pool [OF S(1,2) P assms(3) S(5) [OF assms(3)]] obtain k b' where
    f: "FetchBlock D i b = Ok (Inr \<lparr>ID = i, Frame = k\<rparr>, b')" "inv b'" "same b b'"
      "live b' \<lparr>ID = i, Frame = k\<rparr>" "pool R b'" "\<And>h. live b h \<Longrightarrow> live b' h" by metis
  have "Q (Inr \<lparr>ID = i, Frame = k\<rparr>) b'"
    using f st_same [OF assms(1) f(2,3)] assms(2) by (intro assms(4)) (auto simp: kept_def)
  with f(1) show ?thesis by (simp add: wp_def)
next
  case False
  with st_fetch_live [OF assms(1,3)] assms(4) show ?thesis by (auto simp: wp_iff)
qed

lemmas wp_FetchBlock = wp_FetchBlock_kept [where p = False, simplified kept_False True_implies_equals]

lemma wp_fetchBlock_kept:
  assumes "st R a b" "kept p R g b" "i \<in> R"
    "\<And>h b'. ID h = i \<Longrightarrow> live b' h \<Longrightarrow> st R a b' \<Longrightarrow> kept p R (insert h g) b' \<Longrightarrow> Q h b'"
  shows "wp (fetchBlock D i) Q b"
  unfolding fetchBlock_def wp_bind by (rule wp_FetchBlock_kept [OF assms(1-3)]) (simp add: assms(4))

lemmas wp_fetchBlock = wp_fetchBlock_kept [where p = False, simplified kept_False True_implies_equals]

lemma onBlock_st_read:
  assumes "st R a b" "live b h" "m (a (ID h)) = Ok (x, a (ID h))"
  shows "onBlock h m b = Ok (x, b)"
  using assms onBlock_read [OF stD(1) [OF assms(1)] assms(2), of m x] stD(3) [OF assms(1)] by simp

lemma wp_read:
  assumes "st R a b" "live b h" "m (a (ID h)) = Ok (x, a (ID h))" "Q x b"
  shows "wp (onBlock h m) Q b"
  using onBlock_st_read [OF assms(1,2), of m x] assms(3,4) by (simp add: wp_def)

text \<open>A write through a live handle and the mark that follows it.\<close>

lemma wp_write:
  assumes "st R a b" "live b h" "ID h \<in> R" "m (a (ID h)) = Ok (x, d)" "length d = DATABLOCK_SIZE"
    "\<And>b'. st R (a(ID h := d)) b' \<Longrightarrow> (\<forall>g. live b' g = live b g) \<Longrightarrow> pool R b' = pool R b \<Longrightarrow> wp (k x) Q b'"
  shows "wp (bind (onBlock h m) (\<lambda>x. bind (MarkAsDirty (ID h)) (\<lambda>_. k x))) Q b"
proof -
  note S = stD [OF assms(1)]
  from write_mark [OF S(1) assms(2) S(4) [OF assms(3)], of m x d] S(3) assms(4,5) obtain b1 b' where
    w: "onBlock h m b = Ok (x, b1)" "MarkAsDirty (ID h) b1 = Ok (None, b')" "inv b'"
      "view b' = a(ID h := d)" "idToFrame b' = idToFrame b" "df b' = df b" "bufsize b' = bufsize b" by auto
  then have "wp (k x) Q b'"
    using assms(1) by (intro assms(6)) (simp_all add: store_def live_def pool_def)
  with w show ?thesis by (simp add: wp_def bind_def)
qed

lemma wp_write_seq:
  assumes "st R a b" "live b h" "ID h \<in> R" "m (a (ID h)) = Ok (x, d)" "length d = DATABLOCK_SIZE"
    "\<And>b'. st R (a(ID h := d)) b' \<Longrightarrow> (\<forall>g. live b' g = live b g) \<Longrightarrow> pool R b' = pool R b \<Longrightarrow> wp k Q b'"
  shows "wp (seq (onBlock h m) (seq (MarkAsDirty (ID h)) k)) Q b"
  unfolding seq_def using assms by (intro wp_write [of R a b h m x d "\<lambda>_. k"])

lemma st_Sync:
  assumes "st R a b" "set order = dom (idToFrame b)"
  shows "\<exists>b'. Sync D order b = Ok (None, b') \<and> st R a b' \<and> fblk (df b') = a \<and>
    idToFrame b' = idToFrame b"
proof -
  from Sync_Ok [OF stD(1) [OF assms(1)] assms(2)] obtain b' where
    "Sync D order b = Ok (None, b')" "inv b'" "same b b'" "fblk (df b') = view b"
    "idToFrame b' = idToFrame b" by blast
  with st_same [OF assms(1)] stD(3) [OF assms(1)] show ?thesis by auto
qed

lemma st_new:
  assumes "NewDataBuffer f sz = Ok b" "finv f" "0 < sz" "\<forall>i \<in> R. writable f i" "card R \<le> nat sz"
  shows "pst R (fblk f) b" "idToFrame b = (\<lambda>_. None)" "df b = f"
proof -
  from NewDataBuffer_Ok [OF assms(2), of sz] assms(1,3)
  have b: "inv b" "view b = fblk f" "bufsize b = nat sz" "df b = f" "idToFrame b = (\<lambda>_. None)" by auto
  then show "pst R (fblk f) b" "idToFrame b = (\<lambda>_. None)" "df b = f"
    using assms by (simp_all add: store_def pool_def)
qed

end

end
