(* ===== verification/BitMap.thy ===== *)
theory BitMap
  imports DataBlock
begin

text \<open>
  The bit map of \<open>src/src/simplejsondb/dbio/bit_map.go\<close>: a size and a slice of bytes that the map
  shares with the block it was made from. Its methods are programs over that byte array; the field
  \<open>size\<close> of the receiver is their first argument. The lemmas give every branch of \<open>Get\<close>, \<open>Set\<close>
  and \<open>Unset\<close>, and relate them to a set of bit slots. Two neighbouring positions share a slot.
\<close>

section \<open>The code\<close>

record BitMap =
  bsize :: int
  vals :: bytes

text \<open>\<open>make\<close> panics for a negative length; \<open>/\<close> truncates towards zero.\<close>

definition NewBitMap :: "int \<Rightarrow> BitMap outcome" where
  "NewBitMap s =
     (let l = (if 0 \<le> s then s div 8 else - ((- s) div 8)) in
      if l < 0 then Panic MakeNegative else Ok \<lparr>bsize = s, vals = replicate (nat l) 0\<rparr>)"

definition NewBitMapFromBytes :: "bytes \<Rightarrow> BitMap" where
  "NewBitMapFromBytes vs = \<lparr>bsize = int (length vs) * 8, vals = vs\<rparr>"

definition checkRange :: "int \<Rightarrow> int \<Rightarrow> goerror option" where
  "checkRange sz i =
     (if i > sz then Some ErrOutOfRange else if i < 0 then Some ErrOutOfRange else None)"

definition toggle :: "int \<Rightarrow> (bytes, unit) prog" where
  "toggle i =
     (let p = i div 8; remainder = i - p * 8 in
      bind (readByte p) (\<lambda>v.
        if remainder = 0 then writeByte p (v XOR 1)
        else writeByte p (v XOR push_bit (nat (remainder - 1)) 1)))"

definition BitMap_Get :: "int \<Rightarrow> int \<Rightarrow> (bytes, goerror + bool) prog" where
  "BitMap_Get sz i =
     (case checkRange sz i of
        Some x \<Rightarrow> ret (Inl x)
      | None \<Rightarrow>
          (let p = i div 8; remainder = i - p * 8 in
           bind (readByte p) (\<lambda>v.
             if remainder = 0 then ret (Inr (v > v XOR 1))
             else ret (Inr (v > v XOR push_bit (nat (remainder - 1)) 1)))))"

definition BitMap_Set :: "int \<Rightarrow> int \<Rightarrow> (bytes, goerror option) prog" where
  "BitMap_Set sz i =
     (case checkRange sz i of
        Some x \<Rightarrow> ret (Some x)
      | None \<Rightarrow>
          bind (BitMap_Get sz i) (\<lambda>r.
            case r of
              Inl err \<Rightarrow> ret (Some err)
            | Inr val \<Rightarrow> if val then ret None else seq (toggle i) (ret None)))"

definition BitMap_Unset :: "int \<Rightarrow> int \<Rightarrow> (bytes, goerror option) prog" where
  "BitMap_Unset sz i =
     bind (BitMap_Get sz i) (\<lambda>r.
       case r of
         Inl err \<Rightarrow> ret (Some err)
       | Inr val \<Rightarrow> seq (if_do val (toggle i)) (ret None))"

section \<open>Slots\<close>

text \<open>
  The byte and the bit that a position stands for. Positions \<open>8 k\<close> and \<open>8 k + 1\<close> are both bit 0
  of byte \<open>k\<close>, and bit 7 of a byte stands for no position.
\<close>

definition slot :: "int \<Rightarrow> nat \<times> nat" where
  "slot i = (nat (i div 8), nat (i mod 8 - 1))"

definition slots :: "bytes \<Rightarrow> (nat \<times> nat) set" where
  "slots d = {(p, k). p < length d \<and> bit (d ! p) k}"

definition in_map :: "int \<Rightarrow> bytes \<Rightarrow> bool" where
  "in_map i d \<longleftrightarrow> 0 \<le> i \<and> i < int (length d) * 8"

lemma in_mapD: "in_map i d \<Longrightarrow> 0 \<le> i div 8 \<and> i div 8 < int (length d)"
  by (auto simp: in_map_def)

lemma in_map_nat [simp]: "in_map i d \<Longrightarrow> nat (i div 8) < length d"
  using in_mapD [of i d] by auto

lemma slot_bit_bound [simp]: "snd (slot i) < 8"
  using pos_mod_bound [of 8 i] by (simp add: slot_def)

lemma slot_eq_iff:
  assumes "0 \<le> i" "0 \<le> j"
  shows "slot i = slot j \<longleftrightarrow> i = j \<or> (i div 8 = j div 8 \<and> i mod 8 \<le> 1 \<and> j mod 8 \<le> 1)"
proof -
  have "slot i = slot j \<longleftrightarrow> i div 8 = j div 8 \<and> nat (i mod 8 - 1) = nat (j mod 8 - 1)"
    using assms by (simp add: slot_def pos_imp_zdiv_nonneg_iff eq_nat_nat_iff)
  also have "nat (i mod 8 - 1) = nat (j mod 8 - 1) \<longleftrightarrow>
      i mod 8 = j mod 8 \<or> (i mod 8 \<le> 1 \<and> j mod 8 \<le> 1)"
    by linarith
  also have "i div 8 = j div 8 \<and> (i mod 8 = j mod 8 \<or> (i mod 8 \<le> 1 \<and> j mod 8 \<le> 1)) \<longleftrightarrow>
      i = j \<or> (i div 8 = j div 8 \<and> i mod 8 \<le> 1 \<and> j mod 8 \<le> 1)"
    by (metis mult_div_mod_eq)
  finally show ?thesis .
qed

lemma byte_gt_xor_iff:
  fixes v :: byte
  assumes "k < 8"
  shows "v XOR 2 ^ k < v \<longleftrightarrow> bit v k"
proof (cases "bit v k")
  case True
  let ?w = "v XOR 2 ^ k"
  have "v = ?w OR 2 ^ k"
    using True by (intro bit_word_eqI) (auto simp: bit_simps)
  then have "?w \<le> v"
    by (metis le_word_or2 or.commute)
  moreover have "\<not> bit ?w k"
    using True assms by (simp add: bit_simps)
  ultimately show ?thesis using True by (metis order_le_less)
next
  case False
  then have "v XOR 2 ^ k = v OR 2 ^ k"
    by (intro bit_word_eqI) (auto simp: bit_simps)
  then have "v \<le> v XOR 2 ^ k"
    by (metis le_word_or2 or.commute)
  then show ?thesis using False by auto
qed

text \<open>The two branches on \<open>remainder\<close> are one: the bit of the slot.\<close>

lemma remainder_eq: "i - i div 8 * 8 = i mod (8::int)"
  by (simp add: minus_div_mult_eq_mod)

lemma toggle_slot:
  "toggle i = bind (readByte (i div 8)) (\<lambda>v. writeByte (i div 8) (v XOR 2 ^ snd (slot i)))"
  unfolding toggle_def Let_def remainder_eq
  by (cases "i mod 8 = 0") (simp_all add: slot_def)

lemma BitMap_Get_slot:
  "0 \<le> i \<Longrightarrow> i \<le> sz \<Longrightarrow>
     BitMap_Get sz i = bind (readByte (i div 8)) (\<lambda>v. ret (Inr (v XOR 2 ^ snd (slot i) < v)))"
  unfolding BitMap_Get_def Let_def remainder_eq
  by (cases "i mod 8 = 0") (simp_all add: checkRange_def slot_def)

lemma slots_update:
  assumes "p < length d"
  shows "slots (d[p := v]) = {(q, k) \<in> slots d. q \<noteq> p} \<union> {(p, k) | k. bit v k}"
  using assms by (auto simp: slots_def nth_list_update split: if_splits)

section \<open>What the methods do\<close>

lemma BitMap_Get_Ok:
  assumes "in_map i d" "i \<le> sz"
  shows "BitMap_Get sz i d = Ok (Inr (slot i \<in> slots d), d)"
  using assms in_mapD [OF assms(1)]
  by (simp add: BitMap_Get_slot in_map_def bind_def readByte_Ok byte_gt_xor_iff)
     (auto simp: slot_def slots_def)

lemma toggle_Ok:
  assumes "in_map i d"
  shows "\<exists>d'. toggle i d = Ok ((), d') \<and> length d' = length d \<and>
    slots d' = (if slot i \<in> slots d then slots d - {slot i} else insert (slot i) (slots d))"
proof -
  obtain p k where slot: "slot i = (p, k)" by fastforce
  define v where "v = d ! p XOR 2 ^ k"
  have p: "p < length d" "i div 8 = int p"
    using in_mapD [OF assms] slot by (auto simp: slot_def)
  have k: "k < 8" using slot slot_bit_bound [of i] by simp
  have run: "toggle i d = Ok ((), d[p := v])"
    using p slot by (simp add: toggle_slot bind_def readByte_def writeByte_def v_def)
  have "bit v j \<longleftrightarrow> (if j = k then \<not> bit (d ! p) k else bit (d ! p) j)" for j
    using k by (auto simp: v_def bit_simps byte_bit_high)
  then have "slots (d[p := v]) =
      (if slot i \<in> slots d then slots d - {slot i} else insert (slot i) (slots d))"
    using p by (auto simp: slots_update slot) (auto simp: slots_def split: if_splits)
  then show ?thesis using run by simp
qed

lemma BitMap_Set_Ok:
  assumes "in_map i d" "i \<le> sz"
  obtains d' where "BitMap_Set sz i d = Ok (None, d')" "length d' = length d"
    "slots d' = insert (slot i) (slots d)"
proof (cases "slot i \<in> slots d")
  case True
  then have "BitMap_Set sz i d = Ok (None, d)"
    using assms by (simp add: BitMap_Set_def BitMap_Get_Ok bind_def checkRange_def in_map_def)
  with True that show ?thesis by (auto simp: insert_absorb)
next
  case False
  with toggle_Ok [OF assms(1)] obtain d' where d': "toggle i d = Ok ((), d')" "length d' = length d"
    "slots d' = insert (slot i) (slots d)" by auto
  have "BitMap_Set sz i d = Ok (None, d')"
    using assms False d'(1)
    by (simp add: BitMap_Set_def BitMap_Get_Ok bind_def seq_def checkRange_def in_map_def)
  with d' that show ?thesis by blast
qed

lemma BitMap_Unset_Ok:
  assumes "in_map i d" "i \<le> sz"
  obtains d' where "BitMap_Unset sz i d = Ok (None, d')" "length d' = length d"
    "slots d' = slots d - {slot i}"
proof (cases "slot i \<in> slots d")
  case False
  then have "BitMap_Unset sz i d = Ok (None, d)"
    using assms by (simp add: BitMap_Unset_def BitMap_Get_Ok bind_def if_do_def)
  with False that show ?thesis by auto
next
  case True
  with toggle_Ok [OF assms(1)] obtain d' where d': "toggle i d = Ok ((), d')" "length d' = length d"
    "slots d' = slots d - {slot i}" by auto
  have "BitMap_Unset sz i d = Ok (None, d')"
    using assms True d'(1)
    by (simp add: BitMap_Unset_def BitMap_Get_Ok bind_def seq_def if_do_def)
  with d' that show ?thesis by blast
qed

section \<open>Properties\<close>

text \<open>C38: Inside the map and up to its size, \<open>Set\<close> and \<open>Unset\<close> succeed and change the answer of
  \<open>Get\<close> exactly for the positions that share the slot: position \<open>j\<close> reads as \<open>i\<close> was written if
  \<open>j = i\<close> or if both are the first two positions of one byte, and as before otherwise.\<close>

theorem BitMap_get_after_update:
  assumes "in_map i d" "in_map j d" "i \<le> sz" "j \<le> sz"
  shows "\<exists>d1 d2. BitMap_Set sz i d = Ok (None, d1) \<and> BitMap_Unset sz i d = Ok (None, d2) \<and>
    (if i = j \<or> i div 8 = j div 8 \<and> i mod 8 \<le> 1 \<and> j mod 8 \<le> 1
     then BitMap_Get sz j d1 = Ok (Inr True, d1) \<and> BitMap_Get sz j d2 = Ok (Inr False, d2)
     else \<exists>v. BitMap_Get sz j d = Ok (Inr v, d) \<and> BitMap_Get sz j d1 = Ok (Inr v, d1) \<and>
       BitMap_Get sz j d2 = Ok (Inr v, d2))"
proof -
  obtain d1 where d1: "BitMap_Set sz i d = Ok (None, d1)" "length d1 = length d"
    "slots d1 = insert (slot i) (slots d)" using assms(1,3) by (rule BitMap_Set_Ok)
  obtain d2 where d2: "BitMap_Unset sz i d = Ok (None, d2)" "length d2 = length d"
    "slots d2 = slots d - {slot i}" using assms(1,3) by (rule BitMap_Unset_Ok)
  have j: "in_map j d1" "in_map j d2" using assms(2) d1(2) d2(2) by (simp_all add: in_map_def)
  have "0 \<le> i" "0 \<le> j" using assms by (simp_all add: in_map_def)
  from slot_eq_iff [OF this] show ?thesis
    using d1 d2 BitMap_Get_Ok [OF assms(2,4)] BitMap_Get_Ok [OF j(1) assms(4)]
      BitMap_Get_Ok [OF j(2) assms(4)] by auto
qed

lemma BitMap_get_after_update_witness:
  "\<exists>d1. BitMap_Set 16 8 [0, 0] = Ok (None, d1) \<and> BitMap_Get 16 9 d1 = Ok (Inr True, d1)"
  using BitMap_get_after_update [of 8 "[0, 0]" 9 16] by (auto simp: in_map_def)

text \<open>C39: The range check lets the position equal to the size pass: on a map made from bytes, \<open>Get\<close>
  reports every position beyond it and every negative one as out of range, but at the size itself
  it indexes past the slice and panics.\<close>

theorem BitMap_get_outside:
  "BitMap_Get (bsize (NewBitMapFromBytes d)) i d =
    (if i < 0 \<or> bsize (NewBitMapFromBytes d) < i then Ok (Inl ErrOutOfRange, d)
     else if i = bsize (NewBitMapFromBytes d) then Panic IndexOutOfRange
     else Ok (Inr (slot i \<in> slots d), d))"
proof (cases "0 \<le> i \<and> i < int (length d) * 8")
  case True
  then show ?thesis by (simp add: NewBitMapFromBytes_def BitMap_Get_Ok in_map_def)
next
  case False
  then show ?thesis
    by (auto simp: NewBitMapFromBytes_def BitMap_Get_def checkRange_def bind_def readByte_def Let_def)
qed

text \<open>C40: The allocation of \<open>NewBitMap\<close> rounds down, against its comment: a map of size \<open>s\<close> that is
  not a multiple of eight panics at its last positions, within the range that it checks.\<close>

theorem NewBitMap_rounds_down:
  assumes "0 \<le> s" "s div 8 * 8 \<le> i" "i \<le> s"
  shows "\<exists>b. NewBitMap s = Ok b \<and> bsize b = s \<and> BitMap_Get s i (vals b) = Panic IndexOutOfRange \<and>
    BitMap_Set s i (vals b) = Panic IndexOutOfRange"
proof -
  have q: "0 \<le> s div 8" using assms(1) by simp
  then have "0 \<le> i" using assms(2) by linarith
  have "s div 8 \<le> i div 8" using assms(2) by linarith
  then have "BitMap_Get s i (replicate (nat (s div 8)) 0) = Panic IndexOutOfRange"
    using assms \<open>0 \<le> i\<close> q by (simp add: BitMap_Get_def checkRange_def bind_def readByte_def Let_def)
  moreover have "checkRange s i = None"
    using assms \<open>0 \<le> i\<close> by (simp add: checkRange_def)
  ultimately show ?thesis
    using assms(1) by (simp add: NewBitMap_def BitMap_Set_def bind_def Let_def)
qed

lemma NewBitMap_rounds_down_witness:
  "\<exists>b. NewBitMap 10 = Ok b \<and> BitMap_Set 10 9 (vals b) = Panic IndexOutOfRange"
  using NewBitMap_rounds_down [of 10 9] by auto

end
