(* ===== verification/BlocksMap.thy ===== *)
theory BlocksMap
  imports BlockStore BitMap
begin

text \<open>
  The control block, the map of used data blocks and the formatting of a new data file:
  \<open>src/src/simplejsondb/core/control_block.go\<close>, \<open>data_block_repository.go\<close>,
  \<open>data_blocks_map.go\<close> and \<open>data_file_formatter.go\<close>. The methods of the control block are
  programs over the bytes of block 0; the map reads and writes blocks 1 and 2 through the buffer.
\<close>

section \<open>The control block\<close>

definition POS_NEXT_AVAILABLE_DATABLOCK :: int where "POS_NEXT_AVAILABLE_DATABLOCK = 0"
definition POS_FIRST_BLOCK_PTR :: int where "POS_FIRST_BLOCK_PTR = 2"
definition POS_BTREE_ROOT :: int where "POS_BTREE_ROOT = 4"
definition POS_BTREE_FIRST_LEAF :: int where "POS_BTREE_FIRST_LEAF = 6"

lemmas control_pos = POS_NEXT_AVAILABLE_DATABLOCK_def POS_FIRST_BLOCK_PTR_def POS_BTREE_ROOT_def
  POS_BTREE_FIRST_LEAF_def

definition Format :: "(bytes, unit) prog" where
  "Format =
     seq (Write POS_NEXT_AVAILABLE_DATABLOCK (VUint16 3))
    (seq (Write POS_FIRST_BLOCK_PTR (VUint16 3))
    (seq (Write POS_BTREE_ROOT (VUint16 0))
         (Write POS_BTREE_FIRST_LEAF (VUint16 0))))"

definition FirstRecordDataBlock :: "(bytes, u16) prog" where
  "FirstRecordDataBlock = ReadUint16 POS_FIRST_BLOCK_PTR"

definition SetFirstRecordDataBlock :: "u16 \<Rightarrow> (bytes, unit) prog" where
  "SetFirstRecordDataBlock blockID = Write POS_FIRST_BLOCK_PTR (VUint16 blockID)"

definition SetFirstLeaf :: "u16 \<Rightarrow> (bytes, unit) prog" where
  "SetFirstLeaf blockID = Write POS_BTREE_FIRST_LEAF (VUint16 blockID)"

definition FirstLeaf :: "(bytes, u16) prog" where
  "FirstLeaf = ReadUint16 POS_BTREE_FIRST_LEAF"

definition SetIndexRootBlockID :: "u16 \<Rightarrow> (bytes, unit) prog" where
  "SetIndexRootBlockID blockID = Write POS_BTREE_ROOT (VUint16 blockID)"

definition IndexRootBlockID :: "(bytes, u16) prog" where
  "IndexRootBlockID = ReadUint16 POS_BTREE_ROOT"

definition NextAvailableRecordsDataBlockID :: "(bytes, u16) prog" where
  "NextAvailableRecordsDataBlockID = ReadUint16 POS_NEXT_AVAILABLE_DATABLOCK"

definition SetNextAvailableRecordsDataBlockID :: "u16 \<Rightarrow> (bytes, unit) prog" where
  "SetNextAvailableRecordsDataBlockID dataBlockID =
     Write POS_NEXT_AVAILABLE_DATABLOCK (VUint16 dataBlockID)"

lemmas control_defs = Format_def FirstRecordDataBlock_def SetFirstRecordDataBlock_def SetFirstLeaf_def
  FirstLeaf_def SetIndexRootBlockID_def IndexRootBlockID_def NextAvailableRecordsDataBlockID_def
  SetNextAvailableRecordsDataBlockID_def

section \<open>The repository\<close>

text \<open>A control block or a record block is the handle of its data block.\<close>

definition repoControlBlock :: "'f DataFile \<Rightarrow> ('f dataBuffer, DataBlock) prog" where
  "repoControlBlock D = fetchBlock D 0"

definition repoRecordBlock :: "'f DataFile \<Rightarrow> u16 \<Rightarrow> ('f dataBuffer, DataBlock) prog" where
  "repoRecordBlock D blockID = fetchBlock D blockID"

section \<open>The map of data blocks\<close>

definition DATA_BLOCK_MAP_FIRST_BLOCK :: u16 where "DATA_BLOCK_MAP_FIRST_BLOCK = 1"
definition DATA_BLOCK_MAP_BLOCKS_COUNT :: u16 where "DATA_BLOCK_MAP_BLOCKS_COUNT = 2"

text \<open>The methods of the bit map that \<open>NewBitMapFromBytes\<close> makes of the bytes of a block.\<close>

definition blockGet :: "int \<Rightarrow> (bytes, goerror + bool) prog" where
  "blockGet i = bind (gets NewBitMapFromBytes) (\<lambda>bitMap. BitMap_Get (bsize bitMap) i)"

definition blockSet :: "int \<Rightarrow> (bytes, goerror option) prog" where
  "blockSet i = bind (gets NewBitMapFromBytes) (\<lambda>bitMap. BitMap_Set (bsize bitMap) i)"

definition blockUnset :: "int \<Rightarrow> (bytes, goerror option) prog" where
  "blockUnset i = bind (gets NewBitMapFromBytes) (\<lambda>bitMap. BitMap_Unset (bsize bitMap) i)"

text \<open>The inner loop of \<open>FirstFree\<close> and \<open>AllInUse\<close>: the first position that is not in use.\<close>

fun scan_free :: "nat list \<Rightarrow> (bytes, nat option) prog" where
  "scan_free [] = ret None"
| "scan_free (i # is) =
     bind (blockGet (int i)) (\<lambda>r. case r of
       Inl err \<Rightarrow> panic (PanicError err)
     | Inr isInUse \<Rightarrow> if \<not> isInUse then ret (Some i) else scan_free is)"

fun FirstFree_from :: "'f DataFile \<Rightarrow> u16 list \<Rightarrow> ('f dataBuffer, u16) prog" where
  "FirstFree_from D [] = ret 0"
| "FirstFree_from D (blockIndex # rest) =
     bind (FetchBlock D (DATA_BLOCK_MAP_FIRST_BLOCK + blockIndex)) (\<lambda>r. case r of
       Inl err \<Rightarrow> panic (PanicError err)
     | Inr block \<Rightarrow>
         bind (onBlock block (scan_free [0 ..< DATABLOCK_SIZE])) (\<lambda>free. case free of
           Some i \<Rightarrow> ret (of_nat i + blockIndex * of_nat DATABLOCK_SIZE)
         | None \<Rightarrow> FirstFree_from D rest))"

definition FirstFree :: "'f DataFile \<Rightarrow> ('f dataBuffer, u16) prog" where
  "FirstFree D = FirstFree_from D (map of_nat [0 ..< unat DATA_BLOCK_MAP_BLOCKS_COUNT])"

fun AllInUse_from :: "'f DataFile \<Rightarrow> u16 list \<Rightarrow> ('f dataBuffer, bool) prog" where
  "AllInUse_from D [] = ret True"
| "AllInUse_from D (blockIndex # rest) =
     bind (FetchBlock D (DATA_BLOCK_MAP_FIRST_BLOCK + blockIndex)) (\<lambda>r. case r of
       Inl err \<Rightarrow> panic (PanicError err)
     | Inr block \<Rightarrow>
         bind (onBlock block (scan_free [0 ..< DATABLOCK_SIZE])) (\<lambda>free. case free of
           Some i \<Rightarrow> ret False
         | None \<Rightarrow> AllInUse_from D rest))"

definition AllInUse :: "'f DataFile \<Rightarrow> ('f dataBuffer, bool) prog" where
  "AllInUse D = AllInUse_from D (map of_nat [0 ..< unat DATA_BLOCK_MAP_BLOCKS_COUNT])"

definition tupleForBlockID :: "'f DataFile \<Rightarrow> u16 \<Rightarrow> ('f dataBuffer, DataBlock \<times> int) prog" where
  "tupleForBlockID D dataBlockID =
     (let blockOffset = dataBlockID div of_nat DATABLOCK_SIZE;
          flagOffset = dataBlockID mod of_nat DATABLOCK_SIZE in
      bind (FetchBlock D (DATA_BLOCK_MAP_FIRST_BLOCK + blockOffset)) (\<lambda>r. case r of
        Inl err \<Rightarrow> panic (PanicError err)
      | Inr block \<Rightarrow> ret (block, int (unat flagOffset))))"

definition updateBitMap :: "'f DataFile \<Rightarrow> u16 \<Rightarrow> (int \<Rightarrow> (bytes, unit) prog) \<Rightarrow> ('f dataBuffer, unit) prog" where
  "updateBitMap D dataBlockID updateFunc =
     bind (tupleForBlockID D dataBlockID) (\<lambda>(block, flagOffset).
     seq (onBlock block (updateFunc flagOffset))
         (let blockOffset = dataBlockID div of_nat DATABLOCK_SIZE in
          seq (MarkAsDirty (DATA_BLOCK_MAP_FIRST_BLOCK + blockOffset)) (ret ())))"

definition or_panic :: "('s, goerror option) prog \<Rightarrow> ('s, unit) prog" where
  "or_panic m = bind m (\<lambda>r. case r of Some err \<Rightarrow> panic (PanicError err) | None \<Rightarrow> ret ())"

definition MarkAsFree :: "'f DataFile \<Rightarrow> u16 \<Rightarrow> ('f dataBuffer, unit) prog" where
  "MarkAsFree D dataBlockID = updateBitMap D dataBlockID (\<lambda>flagOffset. or_panic (blockUnset flagOffset))"

definition MarkAsUsed :: "'f DataFile \<Rightarrow> u16 \<Rightarrow> ('f dataBuffer, unit) prog" where
  "MarkAsUsed D dataBlockID = updateBitMap D dataBlockID (\<lambda>flagOffset. or_panic (blockSet flagOffset))"

definition IsInUse :: "'f DataFile \<Rightarrow> u16 \<Rightarrow> ('f dataBuffer, bool) prog" where
  "IsInUse D dataBlockID =
     bind (tupleForBlockID D dataBlockID) (\<lambda>(block, flagOffset).
     bind (onBlock block (blockGet flagOffset)) (\<lambda>r. case r of
       Inl err \<Rightarrow> panic (PanicError err) | Inr isInUse \<Rightarrow> ret isInUse))"

section \<open>Formatting a data file\<close>

fun markUsed_loop :: "'f DataFile \<Rightarrow> u16 list \<Rightarrow> ('f dataBuffer, unit) prog" where
  "markUsed_loop D [] = ret ()"
| "markUsed_loop D (i # is) = seq (MarkAsUsed D i) (markUsed_loop D is)"

text \<open>
  The body of \<open>FormatDataFileIfNeeded\<close> on its buffer of five frames; \<open>ord\<close> is the order in which
  \<open>Sync\<close> visits the map.
\<close>

definition formatBuffer ::
    "'f DataFile \<Rightarrow> ('f dataBuffer \<Rightarrow> u16 list) \<Rightarrow> ('f dataBuffer, goerror option) prog" where
  "formatBuffer D ord =
     bind (repoControlBlock D) (\<lambda>controlBlock.
     bind (onBlock controlBlock NextAvailableRecordsDataBlockID) (\<lambda>next.
     if next \<noteq> 0 then ret None
     else seq (onBlock controlBlock Format)
         (seq (MarkAsDirty (ID controlBlock))
         (seq (markUsed_loop D (map of_nat [0 ..< 4]))
              (bind (gets ord) (Sync D))))))"

definition FormatDataFileIfNeeded ::
    "'f DataFile \<Rightarrow> ('f dataBuffer \<Rightarrow> u16 list) \<Rightarrow> ('f, goerror option) prog" where
  "FormatDataFileIfNeeded D ord dataFile =
     (case NewDataBuffer dataFile 5 of
        Panic p \<Rightarrow> Panic p
      | NoFuel \<Rightarrow> NoFuel
      | Ok dataBuffer \<Rightarrow>
          (case formatBuffer D ord dataBuffer of
             Panic p \<Rightarrow> Panic p
           | NoFuel \<Rightarrow> NoFuel
           | Ok (err, b) \<Rightarrow> Ok (err, df b)))"

section \<open>The set of used blocks\<close>

text \<open>
  The block and the flag of a data block, the set of the data blocks in use that blocks 1 and 2
  hold, and the two data blocks that share a flag.
\<close>

definition map_block :: "u16 \<Rightarrow> u16" where
  "map_block i = DATA_BLOCK_MAP_FIRST_BLOCK + i div of_nat DATABLOCK_SIZE"

definition flag :: "u16 \<Rightarrow> int" where
  "flag i = int (unat i mod DATABLOCK_SIZE)"

definition mapped :: "u16 \<Rightarrow> bool" where
  "mapped i \<longleftrightarrow> unat i < 2 * DATABLOCK_SIZE"

definition in_use :: "(u16 \<Rightarrow> bytes) \<Rightarrow> u16 \<Rightarrow> bool" where
  "in_use a i \<longleftrightarrow> slot (flag i) \<in> slots (a (map_block i))"

definition twin :: "u16 \<Rightarrow> u16 \<Rightarrow> bool" where
  "twin i j \<longleftrightarrow> i = j \<or> (unat i div 8 = unat j div 8 \<and> unat i mod 8 \<le> 1 \<and> unat j mod 8 \<le> 1)"

lemma block_size_word: "(of_nat DATABLOCK_SIZE :: u16) = 4096" "DATABLOCK_SIZE = 4096"
  by (simp_all add: DATABLOCK_SIZE_def)

lemma unat_flag [simp]: "int (unat (i mod of_nat DATABLOCK_SIZE)) = flag i"
  by (simp add: flag_def block_size_word unat_mod_distrib)

lemma flag_in_map: "length d = DATABLOCK_SIZE \<Longrightarrow> in_map (flag i) d"
  by (simp add: in_map_def flag_def block_size_word zmod_int)

lemma map_block_eq_iff: "map_block i = map_block j \<longleftrightarrow> unat i div 4096 = unat j div 4096"
proof -
  have "map_block i = map_block j \<longleftrightarrow> unat (i div 4096) = unat (j div 4096)"
    by (simp add: map_block_def block_size_word)
  then show ?thesis by (simp only: unat_div_distrib) simp
qed

lemma int_div_8: "int m div 8 = int n div 8 \<longleftrightarrow> m div 8 = n div 8" "int m mod 8 \<le> 1 \<longleftrightarrow> m mod 8 \<le> 1"
proof -
  show "int m div 8 = int n div 8 \<longleftrightarrow> m div 8 = n div 8"
    using nat_int_comparison(1) [of "m div 8" "n div 8"] by (simp add: zdiv_int)
  show "int m mod 8 \<le> 1 \<longleftrightarrow> m mod 8 \<le> 1" by presburger
qed

lemma flag_twin:
  assumes "map_block i = map_block j"
  shows "slot (flag i) = slot (flag j) \<longleftrightarrow> twin i j"
proof -
  have e: "unat i div 4096 = unat j div 4096" using assms by (simp add: map_block_eq_iff)
  have "slot (flag i) = slot (flag j) \<longleftrightarrow> unat i mod 4096 = unat j mod 4096 \<or>
      (unat i mod 4096 div 8 = unat j mod 4096 div 8 \<and> unat i mod 4096 mod 8 \<le> 1 \<and> unat j mod 4096 mod 8 \<le> 1)"
    by (subst slot_eq_iff) (simp_all add: flag_def block_size_word int_div_8)
  also have "unat i mod 4096 = unat j mod 4096 \<longleftrightarrow> i = j"
    using e by (metis div_mult_mod_eq unat_u16_eq_iff)
  also have "unat i mod 4096 mod 8 = unat i mod 8" by (simp add: mod_mod_cancel)
  also have "unat j mod 4096 mod 8 = unat j mod 8" by (simp add: mod_mod_cancel)
  also have "unat i mod 4096 div 8 = unat j mod 4096 div 8 \<longleftrightarrow> unat i div 8 = unat j div 8"
  proof -
    have q: "x mod 4096 div 8 = x div 8 mod 512" for x :: nat
      using mod_mult2_eq [of x 8 512] by simp
    have "unat i div 8 div 512 = unat j div 8 div 512" using e by (simp add: div_mult2_eq [symmetric])
    then show ?thesis unfolding q by (metis div_mult_mod_eq)
  qed
  finally show ?thesis by (simp add: twin_def)
qed

lemma twin_map_block: "twin i j \<Longrightarrow> map_block i = map_block j"
proof -
  assume "twin i j"
  then have "unat i div 8 = unat j div 8" by (auto simp: twin_def)
  then have "unat i div 8 div 512 = unat j div 8 div 512" by simp
  then show ?thesis by (simp add: map_block_eq_iff div_mult2_eq [symmetric])
qed

lemma in_use_update:
  assumes "slots d = (if v then insert (slot (flag i)) (slots (a (map_block i)))
      else slots (a (map_block i)) - {slot (flag i)})"
  shows "in_use (a(map_block i := d)) j \<longleftrightarrow> (if twin i j then v else in_use a j)"
proof (cases "map_block j = map_block i")
  case True
  then show ?thesis using assms flag_twin [of i j] by (auto simp: in_use_def)
next
  case False
  then show ?thesis using twin_map_block [of i j] by (auto simp: in_use_def)
qed

lemma map_block_mapped:
  assumes "mapped i"
  shows "map_block i = 1 \<or> map_block i = 2"
proof -
  have "unat (i div 4096) < 2"
    using assms by (simp add: mapped_def block_size_word unat_div_distrib less_mult_imp_div_less)
  then have "unat (i div 4096) = unat (0 :: u16) \<or> unat (i div 4096) = unat (1 :: u16)" by auto
  then have "i div 4096 = 0 \<or> i div 4096 = 1" by (simp only: unat_u16_eq_iff)
  then show ?thesis
    by (auto simp: map_block_def block_size_word DATA_BLOCK_MAP_FIRST_BLOCK_def)
qed

section \<open>Running the methods\<close>

lemma blockGet_Ok:
  "length d = DATABLOCK_SIZE \<Longrightarrow> blockGet (flag i) d = Ok (Inr (slot (flag i) \<in> slots d), d)"
  using flag_in_map [of d i] BitMap_Get_Ok [of "flag i" d]
  by (simp add: blockGet_def NewBitMapFromBytes_def in_map_def)

lemma blockSet_Ok:
  assumes "length d = DATABLOCK_SIZE"
  shows "\<exists>d'. or_panic (blockSet (flag i)) d = Ok ((), d') \<and> length d' = DATABLOCK_SIZE \<and>
    slots d' = insert (slot (flag i)) (slots d)"
proof -
  have m: "in_map (flag i) d" by (rule flag_in_map [OF assms])
  then have "flag i \<le> int (length d) * 8" by (simp add: in_map_def)
  with m obtain d' where d': "BitMap_Set (int (length d) * 8) (flag i) d = Ok (None, d')" "length d' = length d"
    "slots d' = insert (slot (flag i)) (slots d)" by (rule BitMap_Set_Ok)
  then show ?thesis
    using assms by (simp add: or_panic_def blockSet_def NewBitMapFromBytes_def bind_def)
qed

lemma blockUnset_Ok:
  assumes "length d = DATABLOCK_SIZE"
  shows "\<exists>d'. or_panic (blockUnset (flag i)) d = Ok ((), d') \<and> length d' = DATABLOCK_SIZE \<and>
    slots d' = slots d - {slot (flag i)}"
proof -
  have m: "in_map (flag i) d" by (rule flag_in_map [OF assms])
  then have "flag i \<le> int (length d) * 8" by (simp add: in_map_def)
  with m obtain d' where d': "BitMap_Unset (int (length d) * 8) (flag i) d = Ok (None, d')" "length d' = length d"
    "slots d' = slots d - {slot (flag i)}" by (rule BitMap_Unset_Ok)
  then show ?thesis
    using assms by (simp add: or_panic_def blockUnset_def NewBitMapFromBytes_def bind_def)
qed

lemma scan_free_Ok:
  assumes "length d = DATABLOCK_SIZE" "\<forall>i \<in> set is. i < DATABLOCK_SIZE"
  shows "scan_free is d = Ok (find (\<lambda>i. slot (int i) \<notin> slots d) is, d)"
  using assms(2)
proof (induction "is")
  case (Cons i "is")
  have "int i = flag (of_nat i)"
    using Cons.prems by (simp add: flag_def block_size_word)
  with Cons show ?case using blockGet_Ok [OF assms(1), of "of_nat i"] by (simp add: bind_def)
qed simp

text \<open>The first free data block that block \<open>k\<close> of the map knows of.\<close>

definition nth_flag :: "u16 \<Rightarrow> nat \<Rightarrow> u16" where
  "nth_flag k i = of_nat i + k * of_nat DATABLOCK_SIZE"

definition block_free :: "(u16 \<Rightarrow> bytes) \<Rightarrow> u16 \<Rightarrow> nat option" where
  "block_free a k = find (\<lambda>i. \<not> in_use a (nth_flag k i)) [0 ..< DATABLOCK_SIZE]"

definition first_free :: "(u16 \<Rightarrow> bytes) \<Rightarrow> u16 option" where
  "first_free a = (case block_free a 0 of
     Some i \<Rightarrow> Some (nth_flag 0 i) | None \<Rightarrow> map_option (nth_flag 1) (block_free a 1))"

lemma unat_nth_flag:
  assumes "i < DATABLOCK_SIZE" "unat k < 16"
  shows "unat (nth_flag k i) = unat k * 4096 + i"
proof -
  have "unat (k * 4096 :: u16) = unat k * 4096"
    using assms(2) by (subst unat_mult_no_wrap) simp_all
  then show ?thesis
    using assms by (simp add: nth_flag_def block_size_word unat_plus_no_wrap)
qed

lemma nth_flag_cases:
  assumes "unat j div 4096 = unat k" "unat k < 16"
  obtains i where "i < DATABLOCK_SIZE" "j = nth_flag k i" "unat j = unat k * 4096 + i"
proof -
  let ?i = "unat j mod 4096"
  have j: "unat j = unat k * 4096 + ?i" using assms(1) by (metis div_mult_mod_eq)
  moreover have "?i < DATABLOCK_SIZE" by (simp add: block_size_word)
  moreover have "j = nth_flag k ?i"
    using unat_nth_flag [OF calculation(2) assms(2)] j by (simp flip: unat_u16_eq_iff)
  ultimately show thesis using that by blast
qed

lemma nth_flag_place:
  assumes "i < DATABLOCK_SIZE" "unat k < 16"
  shows "flag (nth_flag k i) = int i" "map_block (nth_flag k i) = DATA_BLOCK_MAP_FIRST_BLOCK + k"
proof -
  note u = unat_nth_flag [OF assms]
  show "flag (nth_flag k i) = int i" using assms by (simp add: flag_def u block_size_word)
  have "unat (nth_flag k i div 4096) = unat k"
    using assms(1) by (simp add: unat_div_distrib u block_size_word)
  then show "map_block (nth_flag k i) = DATA_BLOCK_MAP_FIRST_BLOCK + k"
    by (simp add: map_block_def block_size_word)
qed

lemma scan_free_block:
  assumes "length (a (DATA_BLOCK_MAP_FIRST_BLOCK + k)) = DATABLOCK_SIZE" "unat k < 16"
  shows "scan_free [0 ..< DATABLOCK_SIZE] (a (DATA_BLOCK_MAP_FIRST_BLOCK + k)) =
    Ok (block_free a k, a (DATA_BLOCK_MAP_FIRST_BLOCK + k))"
proof -
  have "find (\<lambda>i. slot (int i) \<notin> slots (a (DATA_BLOCK_MAP_FIRST_BLOCK + k))) [0 ..< DATABLOCK_SIZE] =
      block_free a k"
    unfolding block_free_def
    by (rule find_cong) (simp_all add: in_use_def nth_flag_place assms(2))
  then show ?thesis using scan_free_Ok [OF assms(1), of "[0 ..< DATABLOCK_SIZE]"] by simp
qed

lemma block_free_Some:
  assumes "block_free a k = Some i" "unat k < 16"
  shows "i < DATABLOCK_SIZE" "\<not> in_use a (nth_flag k i)"
    "unat j div 4096 = unat k \<Longrightarrow> unat j < unat (nth_flag k i) \<Longrightarrow> in_use a j"
proof -
  from assms(1) show i: "i < DATABLOCK_SIZE" "\<not> in_use a (nth_flag k i)"
    by (auto simp: block_free_def find_Some_iff)
  show "in_use a j" if j: "unat j div 4096 = unat k" "unat j < unat (nth_flag k i)"
    using nth_flag_cases [OF j(1) assms(2)]
  proof cases
    case (1 i')
    with j(2) have "i' < i" using unat_nth_flag [OF i(1) assms(2)] by simp
    with 1 assms(1) show ?thesis by (auto simp: block_free_def find_Some_iff)
  qed
qed

lemma block_free_None:
  assumes "block_free a k = None" "unat k < 16" "unat j div 4096 = unat k"
  shows "in_use a j"
  using nth_flag_cases [OF assms(3,2)]
  by cases (use assms(1) in \<open>auto simp: block_free_def find_None_iff\<close>)

lemma first_free_Some:
  assumes "first_free a = Some r"
  shows "mapped r" "\<not> in_use a r" "unat j < unat r \<Longrightarrow> in_use a j"
proof -
  have *: "mapped r \<and> \<not> in_use a r \<and> (\<forall>j. unat j < unat r \<longrightarrow> in_use a j)"
  proof (cases "block_free a 0")
    case (Some i)
    note f = block_free_Some [OF Some] and r = unat_nth_flag [of i 0]
    from Some assms f(1) have "r = nth_flag 0 i" "unat r = i" "i < 4096"
      using r by (auto simp: first_free_def block_size_word)
    with f show ?thesis by (auto simp: mapped_def block_size_word)
  next
    case None
    with assms obtain i where i: "block_free a 1 = Some i" "r = nth_flag 1 i"
      by (auto simp: first_free_def)
    note f = block_free_Some [OF i(1)]
    have r: "unat r = 4096 + i" using unat_nth_flag [of i 1] f(1) i(2) by simp
    have "in_use a j" if "unat j < unat r" for j
    proof (cases "unat j < 4096")
      case True
      then show ?thesis using block_free_None [OF None, of j] by simp
    next
      case False
      with that r f(1) have "unat j div 4096 = 1"
        by (intro div_nat_eqI) (simp_all add: block_size_word)
      with f(3) [of j] that i(2) show ?thesis by simp
    qed
    with f(1,2) i(2) r show ?thesis by (simp add: mapped_def block_size_word)
  qed
  then show "mapped r" "\<not> in_use a r" "unat j < unat r \<Longrightarrow> in_use a j" by blast+
qed

lemma first_free_None:
  assumes "first_free a = None" "mapped j"
  shows "in_use a j"
proof -
  from assms(1) have n: "block_free a 0 = None" "block_free a 1 = None"
    by (auto simp: first_free_def split: option.splits)
  have "unat j div 4096 < 2"
    using assms(2) by (simp add: mapped_def block_size_word less_mult_imp_div_less)
  then have "unat j div 4096 = unat (0 :: u16) \<or> unat j div 4096 = unat (1 :: u16)" by auto
  with block_free_None [OF n(1)] block_free_None [OF n(2)] show ?thesis by auto
qed

lemma first_free_iff: "first_free a = None \<longleftrightarrow> (\<forall>j. mapped j \<longrightarrow> in_use a j)"
  using first_free_None first_free_Some(1,2) by (metis not_None_eq)

text \<open>The rules of the map, over every file with the contract of \<open>block_file\<close>.\<close>

context block_file begin

text \<open>Each rule keeps the live handles of a pool; the rules without a pool are instances.\<close>

lemma wp_tupleForBlockID:
  assumes "st R a b" "kept p R g b" "map_block i \<in> R"
    "\<And>h b'. ID h = map_block i \<Longrightarrow> live b' h \<Longrightarrow> st R a b' \<Longrightarrow> kept p R g b' \<Longrightarrow> Q (h, flag i) b'"
  shows "wp (tupleForBlockID D i) Q b"
  unfolding tupleForBlockID_def Let_def wp_bind map_block_def [symmetric]
  by (rule wp_FetchBlock_kept [OF assms(1-3)]) (simp add: assms(4) kept_mono [OF _ subset_insertI])

lemma wp_updateBitMap:
  assumes "st R a b" "kept p R g b" "map_block i \<in> R" "upd (flag i) (a (map_block i)) = Ok ((), d)"
    "length d = DATABLOCK_SIZE" "\<And>b'. st R (a(map_block i := d)) b' \<Longrightarrow> kept p R g b' \<Longrightarrow> Q () b'"
  shows "wp (updateBitMap D i upd) Q b"
  unfolding updateBitMap_def Let_def wp_bind map_block_def [symmetric]
proof (rule wp_tupleForBlockID [OF assms(1-3)], simp only: case_prod_conv)
  fix h b' assume h: "ID h = map_block i" "live b' h" "st R a b'" "kept p R g b'"
  show "wp (seq (onBlock h (upd (flag i))) (seq (MarkAsDirty (map_block i)) (ret ()))) Q b'"
    unfolding h(1) [symmetric]
    using assms(3-5) h assms(6) [OF _ kept_same [OF h(4)]] by (intro wp_write_seq [of R a b' h _ "()" d]) simp_all
qed

lemma wp_MarkAsUsed_kept:
  assumes "st R a b" "kept p R g b" "map_block i \<in> R"
    "\<And>b' d. st R (a(map_block i := d)) b' \<Longrightarrow> kept p R g b' \<Longrightarrow>
      in_use (a(map_block i := d)) = (\<lambda>j. twin i j \<or> in_use a j) \<Longrightarrow> Q () b'"
  shows "wp (MarkAsUsed D i) Q b"
proof -
  from blockSet_Ok [OF st_length [OF assms(1,3)], of i] obtain d where
    d: "or_panic (blockSet (flag i)) (a (map_block i)) = Ok ((), d)" "length d = DATABLOCK_SIZE"
      "slots d = insert (slot (flag i)) (slots (a (map_block i)))" by blast
  have "in_use (a(map_block i := d)) = (\<lambda>j. twin i j \<or> in_use a j)"
    using in_use_update [of d True i a] d(3) by (auto simp: fun_eq_iff)
  with d(1,2) assms show ?thesis
    unfolding MarkAsUsed_def by (intro wp_updateBitMap [OF assms(1-3), where d = d]) simp_all
qed

lemmas wp_MarkAsUsed = wp_MarkAsUsed_kept [where p = False, simplified kept_False True_implies_equals]

lemma wp_MarkAsFree_kept:
  assumes "st R a b" "kept p R g b" "map_block i \<in> R"
    "\<And>b' d. st R (a(map_block i := d)) b' \<Longrightarrow> kept p R g b' \<Longrightarrow>
      in_use (a(map_block i := d)) = (\<lambda>j. \<not> twin i j \<and> in_use a j) \<Longrightarrow> Q () b'"
  shows "wp (MarkAsFree D i) Q b"
proof -
  from blockUnset_Ok [OF st_length [OF assms(1,3)], of i] obtain d where
    d: "or_panic (blockUnset (flag i)) (a (map_block i)) = Ok ((), d)" "length d = DATABLOCK_SIZE"
      "slots d = slots (a (map_block i)) - {slot (flag i)}" by blast
  have "in_use (a(map_block i := d)) = (\<lambda>j. \<not> twin i j \<and> in_use a j)"
    using in_use_update [of d False i a] d(3) by (auto simp: fun_eq_iff)
  with d(1,2) assms show ?thesis
    unfolding MarkAsFree_def by (intro wp_updateBitMap [OF assms(1-3), where d = d]) simp_all
qed

lemmas wp_MarkAsFree = wp_MarkAsFree_kept [where p = False, simplified kept_False True_implies_equals]

lemma wp_IsInUse_kept:
  assumes "st R a b" "kept p R g b" "map_block i \<in> R"
    "\<And>b'. st R a b' \<Longrightarrow> kept p R g b' \<Longrightarrow> Q (in_use a i) b'"
  shows "wp (IsInUse D i) Q b"
  unfolding IsInUse_def wp_bind
proof (rule wp_tupleForBlockID [OF assms(1-3)], simp only: case_prod_conv wp_bind)
  fix h b' assume h: "ID h = map_block i" "live b' h" "st R a b'" "kept p R g b'"
  show "wp (onBlock h (blockGet (flag i)))
      (\<lambda>x. wp (case x of Inl err \<Rightarrow> panic (PanicError err) | Inr isInUse \<Rightarrow> ret isInUse) Q) b'"
    using blockGet_Ok [OF st_length [OF assms(1,3)], of i] assms(4) [OF h(3,4)]
    by (intro wp_read [OF h(3,2), where x = "Inr (in_use a i)"]) (simp_all add: h(1) in_use_def)
qed

lemmas wp_IsInUse = wp_IsInUse_kept [where p = False, simplified kept_False True_implies_equals]

lemma wp_scan_free:
  assumes "st R a b" "kept p R g b" "DATA_BLOCK_MAP_FIRST_BLOCK + k \<in> R" "unat k < 16"
    "\<And>b'. st R a b' \<Longrightarrow> kept p R g b' \<Longrightarrow> wp (f (block_free a k)) Q b'"
  shows "wp (bind (FetchBlock D (DATA_BLOCK_MAP_FIRST_BLOCK + k)) (\<lambda>r. case r of
       Inl err \<Rightarrow> panic (PanicError err)
     | Inr block \<Rightarrow> bind (onBlock block (scan_free [0 ..< DATABLOCK_SIZE])) f)) Q b"
  unfolding wp_bind
proof (rule wp_FetchBlock_kept [OF assms(1-3)], simp only: sum.case wp_bind)
  fix h b' assume h: "ID h = DATA_BLOCK_MAP_FIRST_BLOCK + k" "live b' h" "st R a b'" "kept p R (insert h g) b'"
  show "wp (onBlock h (scan_free [0 ..< DATABLOCK_SIZE])) (\<lambda>x. wp (f x) Q) b'"
    using scan_free_block [of a k, OF st_length [OF assms(1,3)] assms(4)]
      assms(5) [OF h(3) kept_mono [OF h(4) subset_insertI]]
    by (intro wp_read [OF h(3,2), where x = "block_free a k"]) (simp_all add: h(1))
qed

lemma map_blocks: "map of_nat [0 ..< unat DATA_BLOCK_MAP_BLOCKS_COUNT] = [0, 1 :: u16]"
  by (simp add: DATA_BLOCK_MAP_BLOCKS_COUNT_def upt_rec)

lemma wp_FirstFree_kept:
  assumes "st R a b" "kept p R g b" "{1, 2} \<subseteq> R"
    "\<And>b'. st R a b' \<Longrightarrow> kept p R g b' \<Longrightarrow> Q (case first_free a of Some i \<Rightarrow> i | None \<Rightarrow> 0) b'"
  shows "wp (FirstFree D) Q b"
proof -
  have R: "DATA_BLOCK_MAP_FIRST_BLOCK + 0 \<in> R" "DATA_BLOCK_MAP_FIRST_BLOCK + 1 \<in> R"
    using assms(3) by (simp_all add: DATA_BLOCK_MAP_FIRST_BLOCK_def)
  show ?thesis
    unfolding FirstFree_def map_blocks FirstFree_from.simps
    by (rule wp_scan_free [OF assms(1,2) R(1)], simp, cases "block_free a 0", simp only: option.case,
        rule wp_scan_free [OF _ _ R(2)], assumption, assumption, simp, cases "block_free a 1")
      (use assms(4) in \<open>simp_all add: first_free_def nth_flag_def\<close>)
qed

lemmas wp_FirstFree = wp_FirstFree_kept [where p = False, simplified kept_False True_implies_equals]

lemma wp_AllInUse_kept:
  assumes "st R a b" "kept p R g b" "{1, 2} \<subseteq> R"
    "\<And>b'. st R a b' \<Longrightarrow> kept p R g b' \<Longrightarrow> Q (first_free a = None) b'"
  shows "wp (AllInUse D) Q b"
proof -
  have R: "DATA_BLOCK_MAP_FIRST_BLOCK + 0 \<in> R" "DATA_BLOCK_MAP_FIRST_BLOCK + 1 \<in> R"
    using assms(3) by (simp_all add: DATA_BLOCK_MAP_FIRST_BLOCK_def)
  show ?thesis
    unfolding AllInUse_def map_blocks AllInUse_from.simps
    by (rule wp_scan_free [OF assms(1,2) R(1)], simp, cases "block_free a 0", simp only: option.case,
        rule wp_scan_free [OF _ _ R(2)], assumption, assumption, simp, cases "block_free a 1")
      (use assms(4) in \<open>simp_all add: first_free_def\<close>)
qed

lemmas wp_AllInUse = wp_AllInUse_kept [where p = False, simplified kept_False True_implies_equals]

text \<open>A fetch that needs no eviction leaves the blocks of the file alone.\<close>

lemma FetchBlock_file:
  assumes "inv b" "readable (df b) i" "length (nextVictims b) \<noteq> bufsize b" "FetchBlock D i b = Ok (r, b')"
  shows "fblk (df b') = fblk (df b)"
proof -
  have "fblk (df c) = fblk (df b)" if "readInto D i k b = Ok (err, c)" for k err c
  proof -
    have k: "k < length (frames b)"
      using that by (auto simp: readInto_def bind_def frameAt_def split: if_splits)
    then have "length (fdata (frames b ! k)) = DATABLOCK_SIZE"
      using buf_shapeD(1,8) [OF buf_invD(1) [OF assms(1)]] by simp
    from read_ok [OF buf_invD(2) [OF assms(1)] assms(2) this] that k show ?thesis
      by (auto simp: readInto_def bind_def seq_def frameAt_def onFile_def updFrame_def)
  qed
  with assms(3,4) show ?thesis
    by (auto simp: FetchBlock_def bind_def seq_def updFrame_def
        split: if_splits outcome.splits sum.splits option.splits
        dest!: pickFrame_noevict [OF assms(3)])
qed

end

section \<open>Formatting\<close>

definition formatted :: "bytes \<Rightarrow> bytes" where
  "formatted d = put_at 6 (be16_put 0) (put_at 4 (be16_put 0) (put_at 2 (be16_put 3) (put_at 0 (be16_put 3) d)))"

lemma Format_Ok:
  assumes "length d = DATABLOCK_SIZE"
  shows "Format d = Ok ((), formatted d)" "length (formatted d) = DATABLOCK_SIZE"
    "u16_at 0 (formatted d) = 3" "u16_at 2 (formatted d) = 3" "u16_at 4 (formatted d) = 0"
    "u16_at 6 (formatted d) = 0"
  using assms
  by (simp_all add: Format_def formatted_def control_pos seq_def bind_def Write_VUint16_Ok block_size_word)

lemma map_block_neq_0: "map_block i \<noteq> 0"
proof -
  have "unat (i div 4096) < 16"
    using u16_bound [of i] by (simp add: unat_div_distrib less_mult_imp_div_less)
  then have "unat (1 + i div 4096) = 1 + unat (i div 4096)"
    by (subst unat_plus_no_wrap) simp_all
  then have "unat (map_block i) \<noteq> unat (0 :: u16)"
    by (simp add: map_block_def DATA_BLOCK_MAP_FIRST_BLOCK_def block_size_word)
  then show ?thesis by auto
qed

lemma in_use_block_0 [simp]: "in_use (a(0 := d)) = in_use a"
  using map_block_neq_0 by (simp add: in_use_def fun_eq_iff)

lemma map_block_small: "unat i < 4096 \<Longrightarrow> map_block i = 1"
  using unat_div_distrib [of i 4096]
  by (simp add: map_block_def DATA_BLOCK_MAP_FIRST_BLOCK_def block_size_word unat_eq_zero)

context block_file begin

lemma wp_markUsed_loop:
  assumes "st R a b" "1 \<in> R" "\<forall>i \<in> set is. unat i < 4096"
    "\<And>b' d. st R (a(1 := d)) b' \<Longrightarrow> in_use (a(1 := d)) = (\<lambda>j. (\<exists>i \<in> set is. twin i j) \<or> in_use a j) \<Longrightarrow> Q () b'"
  shows "wp (markUsed_loop D is) Q b"
  using assms(1,3,4)
proof (induction "is" arbitrary: a b)
  case Nil
  show ?case using Nil.prems(1) Nil.prems(3) [of "a 1" b] by (simp add: wp_def)
next
  case (Cons i "is")
  have m: "map_block i = 1" using Cons.prems(2) by (simp add: map_block_small)
  show ?case
    unfolding markUsed_loop.simps wp_seq
  proof (rule wp_MarkAsUsed [OF Cons.prems(1)], unfold m)
    fix b' d assume d: "st R (a(1 := d)) b'" "in_use (a(1 := d)) = (\<lambda>j. twin i j \<or> in_use a j)"
    show "wp (markUsed_loop D is) Q b'"
    proof (rule Cons.IH [OF d(1)])
      fix b'' e assume e: "st R (a(1 := d, 1 := e)) b''"
        "in_use (a(1 := d, 1 := e)) = (\<lambda>j. (\<exists>i\<in>set is. twin i j) \<or> in_use (a(1 := d)) j)"
      then show "Q () b''"
        unfolding d(2) fun_upd_upd by (intro Cons.prems(3) [of e]) (simp_all only: list.set bex_simps, blast)
    qed (use Cons.prems(2) in simp)
  qed (rule assms(2))
qed

lemma twin_first_four: "(\<exists>i \<in> set (map of_nat [0 ..< 4]). twin i j) \<longleftrightarrow> unat j < 4"
proof -
  have s: "set (map of_nat [0 ..< 4]) = {0, 1, 2, 3 :: u16}" by (auto simp: upt_rec)
  have "twin 0 j \<or> twin 1 j \<or> twin 2 j \<or> twin 3 j \<longleftrightarrow> unat j < 4"
    unfolding twin_def unat_u16_eq_iff [symmetric] by simp arith
  then show ?thesis unfolding s by auto
qed

lemma formatBuffer_Ok:
  assumes "st R a b" "{0, 1} \<subseteq> R" "\<And>c. set (ord c) = dom (idToFrame c)" "u16_at 0 (a 0) = 0"
  shows "wp (formatBuffer D ord) (\<lambda>r b'. \<exists>d. r = None \<and> st R (a(0 := formatted (a 0), 1 := d)) b' \<and>
    fblk (df b') = a(0 := formatted (a 0), 1 := d) \<and>
    in_use (a(0 := formatted (a 0), 1 := d)) = (\<lambda>j. unat j < 4 \<or> in_use a j)) b"
  unfolding formatBuffer_def wp_bind repoControlBlock_def
proof (rule wp_fetchBlock [OF assms(1)])
  fix h b1 assume h: "ID h = 0" "live b1 h" "st R a b1"
  have len: "length (a 0) = DATABLOCK_SIZE" using st_length [OF assms(1)] assms(2) by simp
  note F = Format_Ok [OF len]
  let ?Q = "\<lambda>r b'. \<exists>d. r = None \<and> st R (a(0 := formatted (a 0), 1 := d)) b' \<and>
    fblk (df b') = a(0 := formatted (a 0), 1 := d) \<and>
    in_use (a(0 := formatted (a 0), 1 := d)) = (\<lambda>j. unat j < 4 \<or> in_use a j)"
  have "wp (seq (onBlock h Format) (seq (MarkAsDirty (ID h))
      (seq (markUsed_loop D (map of_nat [0 ..< 4])) (bind (gets ord) (Sync D))))) ?Q b1"
  proof (rule wp_write_seq [OF h(3,2)], unfold h(1))
    fix b2 assume b2: "st R (a(0 := formatted (a 0))) b2"
    show "wp (seq (markUsed_loop D (map of_nat [0 ..< 4])) (bind (gets ord) (Sync D))) ?Q b2"
      unfolding wp_seq wp_bind wp_gets
    proof (rule wp_markUsed_loop [OF b2])
      show "\<forall>i \<in> set (map of_nat [0 ..< 4]). unat (i :: u16) < 4096" by (auto simp: upt_rec)
      fix b3 d assume b3: "st R (a(0 := formatted (a 0), 1 := d)) b3"
        "in_use (a(0 := formatted (a 0), 1 := d)) =
          (\<lambda>j. (\<exists>i \<in> set (map of_nat [0 ..< 4]). twin i j) \<or> in_use (a(0 := formatted (a 0))) j)"
      from st_Sync [OF b3(1) assms(3)] b3(2) show "wp (Sync D (ord b3)) ?Q b3"
        unfolding twin_first_four in_use_block_0 by (auto simp: wp_iff)
    qed (use assms(2) in simp)
  qed (use assms(2) in \<open>simp_all add: F\<close>)
  then show "wp (onBlock h NextAvailableRecordsDataBlockID)
      (\<lambda>next. wp (if next \<noteq> 0 then ret None else seq (onBlock h Format) (seq (MarkAsDirty (ID h))
        (seq (markUsed_loop D (map of_nat [0 ..< 4])) (bind (gets ord) (Sync D))))) ?Q) b1"
    using assms(4) len h(1)
    by (intro wp_read [OF h(3,2), where x = 0])
      (simp_all add: NextAvailableRecordsDataBlockID_def control_pos ReadUint16_Ok block_size_word)
qed (use assms(2) in simp)

lemma formatBuffer_skip:
  assumes "st R a b" "0 \<in> R" "u16_at 0 (a 0) \<noteq> 0" "length (nextVictims b) \<noteq> bufsize b"
  shows "wp (formatBuffer D ord) (\<lambda>r b'. r = None \<and> st R a b' \<and> fblk (df b') = fblk (df b)) b"
proof -
  from st_fetch_live [OF assms(1,2)] obtain h b1 where
    h: "FetchBlock D 0 b = Ok (Inr h, b1)" "ID h = 0" "live b1 h" "st R a b1" by auto
  have len: "length (a 0) = DATABLOCK_SIZE" using st_length [OF assms(1,2)] .
  have r: "onBlock h NextAvailableRecordsDataBlockID b1 = Ok (u16_at 0 (a 0), b1)"
    using len h(2) by (intro onBlock_st_read [OF h(4,3)])
      (simp add: NextAvailableRecordsDataBlockID_def control_pos ReadUint16_Ok block_size_word)
  have "fblk (df b1) = fblk (df b)"
    using FetchBlock_file [OF stD(1) [OF assms(1)] stD(5) [OF assms(1,2)] assms(4) h(1)] by simp
  with h r assms(3) show ?thesis
    by (simp add: wp_def formatBuffer_def bind_def repoControlBlock_def fetchBlock_def)
qed

lemma Format_new:
  assumes "finv f" "\<forall>i \<in> R. writable f i" "{0, 1} \<subseteq> R" "u16_at 0 (fblk f 0) = 0"
    "\<And>c. set (ord c) = dom (idToFrame c)"
  shows "\<exists>f' d. FormatDataFileIfNeeded D ord f = Ok (None, f') \<and> finv f' \<and> (\<forall>i \<in> R. writable f' i) \<and>
    fblk f' = (fblk f)(0 := formatted (fblk f 0), 1 := d) \<and>
    in_use (fblk f') = (\<lambda>j. unat j < 4 \<or> in_use (fblk f) j)"
proof -
  obtain b where b: "NewDataBuffer f 5 = Ok b" using NewDataBuffer_Ok [OF assms(1), of 5] by auto
  have "st R (fblk f) b" using st_new [OF b assms(1), of "{}"] assms(2) by (simp add: store_def)
  from wp_OkD [OF formatBuffer_Ok [OF this assms(3,5,4)]] obtain d b' where
    "formatBuffer D ord b = Ok (None, b')" "st R ((fblk f)(0 := formatted (fblk f 0), 1 := d)) b'"
    "fblk (df b') = (fblk f)(0 := formatted (fblk f 0), 1 := d)"
    "in_use (fblk (df b')) = (\<lambda>j. unat j < 4 \<or> in_use (fblk f) j)" by auto
  then show ?thesis
    using b buf_invD(2) [OF stD(1)] stD(4) by (auto simp: FormatDataFileIfNeeded_def)
qed

lemma Format_skip:
  assumes "finv f" "\<forall>i \<in> R. writable f i" "{0, 1} \<subseteq> R" "u16_at 0 (fblk f 0) \<noteq> 0"
  shows "\<exists>f'. FormatDataFileIfNeeded D ord f = Ok (None, f') \<and> finv f' \<and> (\<forall>i \<in> R. writable f' i) \<and> fblk f' = fblk f"
proof -
  obtain b where b: "NewDataBuffer f 5 = Ok b" "bufsize b = 5" using NewDataBuffer_Ok [OF assms(1), of 5] by auto
  note N = st_new [OF b(1) assms(1), of "{}"]
  have s: "st R (fblk f) b" using N(1,3) assms(2) by (simp add: store_def)
  have "nextVictims b = []"
    using buf_shapeD(3) [OF buf_invD(1) [OF stD(1) [OF s]]] N(2) by simp
  with wp_OkD [OF formatBuffer_skip [OF s _ assms(4), of ord]] b N(3) assms(3) obtain b' where
    "formatBuffer D ord b = Ok (None, b')" "st R (fblk f) b'" "fblk (df b') = fblk f" by auto
  with b(1) show ?thesis using buf_invD(2) [OF stD(1)] stD(4) by (auto simp: FormatDataFileIfNeeded_def)
qed

end

section \<open>Properties\<close>

text \<open>C19: Formatting a file whose control block is blank marks data blocks 0 to 3 as used and no other,
  sets both record pointers to block 3 and the index pointers to 0, and changes no block but 0
  and 1; formatting again changes nothing. The five frames of the buffer and any order of \<open>Sync\<close>
  are enough.\<close>

theorem format_once:
  assumes "os_inv f" "os_writable f 0" "os_writable f 1" "u16_at 0 (os_block f 0) = 0"
    "\<And>c. set (ord c) = dom (idToFrame c)"
  shows "\<exists>f' f''. FormatDataFileIfNeeded osDataFile ord f = Ok (None, f') \<and>
    map (\<lambda>p. u16_at p (os_block f' 0))
      [POS_NEXT_AVAILABLE_DATABLOCK, POS_FIRST_BLOCK_PTR, POS_BTREE_ROOT, POS_BTREE_FIRST_LEAF] = [3, 3, 0, 0] \<and>
    in_use (os_block f') = (\<lambda>j. unat j < 4 \<or> in_use (os_block f) j) \<and>
    (\<forall>i. i \<noteq> 0 \<and> i \<noteq> 1 \<longrightarrow> os_block f' i = os_block f i) \<and>
    FormatDataFileIfNeeded osDataFile ord f' = Ok (None, f'') \<and> os_block f'' = os_block f'"
proof -
  from osf.Format_new [of f "{0, 1}" ord] assms obtain f' d where
    f': "FormatDataFileIfNeeded osDataFile ord f = Ok (None, f')" "os_inv f'" "\<forall>i \<in> {0, 1}. os_writable f' i"
      "os_block f' = (os_block f)(0 := formatted (os_block f 0), 1 := d)"
      "in_use (os_block f') = (\<lambda>j. unat j < 4 \<or> in_use (os_block f) j)" by blast
  have "length (os_block f 0) = DATABLOCK_SIZE" by (simp add: os_block_def)
  note F = Format_Ok [OF this]
  from f'(4) F have "u16_at 0 (os_block f' 0) \<noteq> 0" by simp
  with osf.Format_skip [of f' "{0, 1}" ord] f' F show ?thesis by (auto simp: control_pos)
qed

lemma format_once_witness:
  "\<exists>f'. FormatDataFileIfNeeded osDataFile key_order (zero_file 4) = Ok (None, f') \<and>
     in_use (os_block f') = (\<lambda>j. unat j < 4 \<or> in_use (os_block (zero_file 4)) j)"
proof -
  have "u16_at 0 (os_block (zero_file 4) 0) = 0"
    by (simp add: os_block_def zero_file_def map_replicate_const block_size_word)
  then show ?thesis using format_once [of "zero_file 4", OF _ _ _ _ set_key_order] by auto
qed

text \<open>C17: Blocks 1 and 2 hold a set of data blocks: below 8192, \<open>IsInUse\<close> is membership, and
  \<open>MarkAsUsed\<close> and \<open>MarkAsFree\<close> add and remove the data block together with the one that shares its
  flag, and change only the map block that holds the flag.\<close>

theorem blocks_map_refines_set:
  assumes "store os_inv os_block os_writable R a b" "{1, 2} \<subseteq> R" "mapped i"
  shows "\<exists>b1 b2 b3 d e.
    IsInUse osDataFile i b = Ok (in_use a i, b1) \<and> store os_inv os_block os_writable R a b1 \<and>
    MarkAsUsed osDataFile i b = Ok ((), b2) \<and>
    store os_inv os_block os_writable R (a(map_block i := d)) b2 \<and>
    in_use (a(map_block i := d)) = (\<lambda>j. twin i j \<or> in_use a j) \<and>
    MarkAsFree osDataFile i b = Ok ((), b3) \<and>
    store os_inv os_block os_writable R (a(map_block i := e)) b3 \<and>
    in_use (a(map_block i := e)) = (\<lambda>j. \<not> twin i j \<and> in_use a j)"
proof -
  have m: "map_block i \<in> R" using map_block_mapped [OF assms(3)] assms(2) by auto
  have "wp (IsInUse osDataFile i) (\<lambda>r b1. r = in_use a i \<and> store os_inv os_block os_writable R a b1) b"
    by (rule osf.wp_IsInUse [OF assms(1) m]) simp
  moreover have "wp (MarkAsUsed osDataFile i) (\<lambda>_ b2. \<exists>d.
      store os_inv os_block os_writable R (a(map_block i := d)) b2 \<and>
      in_use (a(map_block i := d)) = (\<lambda>j. twin i j \<or> in_use a j)) b"
    by (rule osf.wp_MarkAsUsed [OF assms(1) m]) blast
  moreover have "wp (MarkAsFree osDataFile i) (\<lambda>_ b3. \<exists>e.
      store os_inv os_block os_writable R (a(map_block i := e)) b3 \<and>
      in_use (a(map_block i := e)) = (\<lambda>j. \<not> twin i j \<and> in_use a j)) b"
    by (rule osf.wp_MarkAsFree [OF assms(1) m]) blast
  ultimately show ?thesis by (fastforce simp: wp_iff)
qed

text \<open>C18: \<open>FirstFree\<close> returns the least data block below 8192 that is not in use, and 0, which is the
  number of the control block, when all of them are; \<open>AllInUse\<close> tells the two cases apart. Neither
  changes a block.\<close>

theorem FirstFree_least:
  assumes "store os_inv os_block os_writable R a b" "{1, 2} \<subseteq> R"
  shows "\<exists>r b1 b2.
    FirstFree osDataFile b = Ok (r, b1) \<and> store os_inv os_block os_writable R a b1 \<and>
    AllInUse osDataFile b = Ok (\<forall>j. mapped j \<longrightarrow> in_use a j, b2) \<and>
    store os_inv os_block os_writable R a b2 \<and>
    (if \<forall>j. mapped j \<longrightarrow> in_use a j then r = 0
     else mapped r \<and> \<not> in_use a r \<and> (\<forall>j. unat j < unat r \<longrightarrow> in_use a j))"
proof -
  let ?r = "case first_free a of Some i \<Rightarrow> i | None \<Rightarrow> 0"
  have "wp (FirstFree osDataFile) (\<lambda>r b1. r = ?r \<and> store os_inv os_block os_writable R a b1) b"
    by (rule osf.wp_FirstFree [OF assms]) simp
  moreover have "wp (AllInUse osDataFile) (\<lambda>r b2. r = (first_free a = None) \<and>
      store os_inv os_block os_writable R a b2) b"
    by (rule osf.wp_AllInUse [OF assms]) simp
  moreover have "if first_free a = None then ?r = 0
      else mapped ?r \<and> \<not> in_use a ?r \<and> (\<forall>j. unat j < unat ?r \<longrightarrow> in_use a j)"
    using first_free_Some by (cases "first_free a") auto
  ultimately show ?thesis unfolding first_free_iff [symmetric] wp_iff by blast
qed

lemma zero_store:
  assumes "0 < n" "n \<le> m" "m < 65536"
  shows "\<exists>b. NewDataBuffer (zero_file m) (int n) = Ok b \<and>
    store os_inv os_block os_writable {i. unat i < n} (os_block (zero_file m)) b"
proof -
  obtain b where b: "NewDataBuffer (zero_file m) (int n) = Ok b"
    using osf.NewDataBuffer_Ok [of "zero_file m" "int n"] by auto
  have "{i :: u16. unat i < n} \<subseteq> of_nat ` {..<n}" 
    by (auto intro!: image_eqI [where x = "unat _"] simp del: of_nat_unat)
  then have "card {i :: u16. unat i < n} \<le> n"
    by (metis card_image_le card_lessThan card_mono finite_imageI finite_lessThan order_trans)
  with osf.st_new(1) [OF b, of "{i. unat i < n}"] assms b show ?thesis by auto
qed

lemma zero_in_use: "\<not> in_use (os_block (zero_file m)) j"
proof -
  have "os_block (zero_file m) i = replicate DATABLOCK_SIZE 0" for i
    by (simp add: os_block_def zero_file_def map_replicate_const)
  then show ?thesis by (auto simp: in_use_def slots_def)
qed

lemma blocks_map_refines_set_witness:
  "\<exists>b b2. NewDataBuffer (zero_file 4) 3 = Ok b \<and> MarkAsUsed osDataFile 16 b = Ok ((), b2) \<and>
     in_use (buf_view os_block b2) 17 \<and> \<not> in_use (buf_view os_block b2) 18"
proof -
  from zero_store [of 3 4] obtain b where b: "NewDataBuffer (zero_file 4) 3 = Ok b"
    "store os_inv os_block os_writable {i. unat i < 3} (os_block (zero_file 4)) b" by auto
  have "mapped 16" by (simp add: mapped_def block_size_word)
  from blocks_map_refines_set [OF b(2) _ this] obtain b2 d where
    "MarkAsUsed osDataFile 16 b = Ok ((), b2)"
    "buf_view os_block b2 = (os_block (zero_file 4))(map_block 16 := d)"
    "in_use ((os_block (zero_file 4))(map_block 16 := d)) =
       (\<lambda>j. twin 16 j \<or> in_use (os_block (zero_file 4)) j)" by (auto simp: store_def)
  then show ?thesis using b(1) by (auto simp: twin_def zero_in_use)
qed

lemma FirstFree_least_witness:
  "\<exists>b b1. NewDataBuffer (zero_file 4) 3 = Ok b \<and> FirstFree osDataFile b = Ok (0, b1)"
proof -
  from zero_store [of 3 4] obtain b where b: "NewDataBuffer (zero_file 4) 3 = Ok b"
    "store os_inv os_block os_writable {i. unat i < 3} (os_block (zero_file 4)) b" by auto
  from FirstFree_least [OF b(2)] obtain r b1 where r: "FirstFree osDataFile b = Ok (r, b1)"
    "\<forall>j. unat j < unat r \<longrightarrow> in_use (os_block (zero_file 4)) j"
    by (auto split: if_splits)
  from r(2) have "\<not> 0 < unat r" by (metis unat_0 zero_in_use)
  then have "r = 0" by (simp add: unat_eq_zero)
  with b(1) r(1) show ?thesis by blast
qed

text \<open>C20: The map has no flags for the data blocks from 8192 on, though a file has 65536: marking such
  a block as used writes into a block from 3 on, where records and index nodes live.\<close>

theorem MarkAsUsed_unmapped:
  assumes "store os_inv os_block os_writable R a b" "\<not> mapped i" "map_block i \<in> R"
  shows "3 \<le> unat (map_block i) \<and>
    (\<exists>b' d. MarkAsUsed osDataFile i b = Ok ((), b') \<and>
       store os_inv os_block os_writable R (a(map_block i := d)) b' \<and>
       slots d = insert (slot (flag i)) (slots (a (map_block i))))"
proof -
  have d: "unat (i div 4096) < 16" "2 \<le> unat (i div 4096)"
    using u16_bound [of i] assms(2)
    by (auto simp: unat_div_distrib mapped_def block_size_word less_mult_imp_div_less)
  then have "unat (1 + i div 4096) = 1 + unat (i div 4096)"
    by (subst unat_plus_no_wrap) simp_all
  with d have "3 \<le> unat (map_block i)"
    by (simp add: map_block_def DATA_BLOCK_MAP_FIRST_BLOCK_def block_size_word)
  moreover from blockSet_Ok [OF osf.st_length [OF assms(1,3)], of i] obtain d where
    d: "or_panic (blockSet (flag i)) (a (map_block i)) = Ok ((), d)" "length d = DATABLOCK_SIZE"
      "slots d = insert (slot (flag i)) (slots (a (map_block i)))" by blast
  moreover have "wp (MarkAsUsed osDataFile i)
      (\<lambda>_. store os_inv os_block os_writable R (a(map_block i := d))) b"
    unfolding MarkAsUsed_def
    by (rule osf.wp_updateBitMap [where p = False, OF assms(1) kept_False assms(3), where d = d]) (simp_all add: d(1,2))
  ultimately show ?thesis by (auto simp: wp_iff)
qed

lemma MarkAsUsed_unmapped_witness:
  "\<exists>b b'. NewDataBuffer (zero_file 4) 4 = Ok b \<and> map_block 8192 = 3 \<and>
     MarkAsUsed osDataFile 8192 b = Ok ((), b')"
proof -
  from zero_store [of 4 4] obtain b where b: "NewDataBuffer (zero_file 4) 4 = Ok b"
    "store os_inv os_block os_writable {i. unat i < 4} (os_block (zero_file 4)) b" by auto
  have m: "\<not> mapped 8192" "map_block 8192 = 3"
    by (simp_all add: mapped_def block_size_word map_block_def DATA_BLOCK_MAP_FIRST_BLOCK_def)
  from MarkAsUsed_unmapped [OF b(2) m(1)] m(2) b(1) show ?thesis by auto
qed

end
