(* ===== verification/Defragment.thy ===== *)
theory Defragment
  imports RecordBlock "HOL-Library.Multiset"
begin

text \<open>
  The compaction of a record block: \<open>defragment\<close> closes the gaps that removed records left, keeps the
  bytes of every live record, and leaves the live data contiguous from byte 0. The argument follows
  the two loops; a list of headers is always the list of the headers that the bytes hold at some
  local IDs, so that the copies in memory and the bytes never drift apart.
\<close>

abbreviation st :: "recordBlockHeader \<Rightarrow> nat" where "st h \<equiv> unat (startsAt h)"
abbreviation sz :: "recordBlockHeader \<Rightarrow> nat" where "sz h \<equiv> unat (hsize h)"
abbreviation total :: "recordBlockHeader list \<Rightarrow> nat" where "total hs \<equiv> sum_list (map sz hs)"

definition content :: "bytes \<Rightarrow> recordBlockHeader \<Rightarrow> bytes" where
  "content d h = bytes_at (int16 (startsAt h)) (sz h) d"

text \<open>Where the header table of \<open>n\<close> headers begins.\<close>

definition table_at :: "nat \<Rightarrow> nat" where
  "table_at n = 4088 - 12 * n"

definition agree :: "nat \<Rightarrow> nat \<Rightarrow> bytes \<Rightarrow> bytes \<Rightarrow> bool" where
  "agree lo hi d e \<longleftrightarrow> length e = length d \<and> (\<forall>i. lo \<le> i \<longrightarrow> i < hi \<longrightarrow> i < length d \<longrightarrow> e ! i = d ! i)"

lemma agree_refl [simp]: "agree lo hi d d"
  by (simp add: agree_def)

lemma agree_trans: "agree lo hi d e \<Longrightarrow> agree lo hi e f \<Longrightarrow> agree lo hi d f"
  by (simp add: agree_def)

lemma agree_sub: "agree lo hi d e \<Longrightarrow> lo \<le> lo' \<Longrightarrow> hi' \<le> hi \<Longrightarrow> agree lo' hi' d e"
  by (simp add: agree_def)

lemma agree_put_at:
  assumes "0 \<le> p" "p + int (length xs) \<le> int (length d)" "hi \<le> nat p \<or> nat p + length xs \<le> lo"
  shows "agree lo hi d (put_at p xs d)"
proof -
  have "nat p + length xs \<le> length d" using assms(1,2) by linarith
  with assms(3) show ?thesis by (auto simp: agree_def put_at_def nth_splice)
qed

lemma agree_bytes_at:
  assumes "agree lo hi d e" "lo \<le> nat p" "nat p + n \<le> hi" "nat p + n \<le> length d"
  shows "bytes_at p n e = bytes_at p n d"
  using assms unfolding bytes_at_def agree_def by (intro slice_cong) auto

lemma agree_u16_at:
  assumes "agree lo hi d e" "lo \<le> nat p" "nat p + 2 \<le> hi" "nat p + 2 \<le> length d"
  shows "u16_at p e = u16_at p d"
  using agree_bytes_at [OF assms] by (simp add: u16_at_def)

lemma header_pos_table: "unat l < n \<Longrightarrow> n \<le> 340 \<Longrightarrow> int (table_at n) \<le> header_pos l"
  by (simp add: table_at_def header_pos_eq)

lemma table_at_le: "table_at n \<le> 4088"
  by (simp add: table_at_def)

section \<open>Copying down\<close>

lemma copy_bytes_Ok:
  assumes "unat dst \<le> unat src" "unat src + unat n \<le> length d" "length d \<le> 65535"
  shows "copy_bytes dst src n d = Ok ((), put_at (int16 dst) (bytes_at (int16 src) (unat n) d) d)"
proof -
  let ?body = "\<lambda>p. bind (readByte (int16 (src + of_nat p))) (\<lambda>b. writeByte (int16 (dst + of_nat p)) b)"
  let ?s = "\<lambda>j. splice (unat dst) (slice (unat src) j d) d"
  have step: "?body j (?s j) = Ok ((), ?s (Suc j))" if j: "j < unat n" for j
  proof -
    have u: "unat (src + of_nat j) = unat src + j" "unat (dst + of_nat j) = unat dst + j"
      using j assms by (auto intro!: trans [OF unat_plus_no_wrap])
    have b: "unat dst + j < length d" "unat src + j < length d" using j assms by auto
    have len: "length (?s j) = length d" using b by simp
    have rd: "?s j ! (unat src + j) = d ! (unat src + j)"
      using b assms(1) by (subst nth_splice) auto
    have "splice (unat dst + j) [d ! (unat src + j)] (?s j) =
        splice (unat dst) (slice (unat src) j d @ [d ! (unat src + j)]) d"
      using splice_append [of "unat dst" "slice (unat src) j d" "[d ! (unat src + j)]" d] b by simp
    moreover have "slice (unat src) j d @ [d ! (unat src + j)] = slice (unat src) (Suc j) d"
      using b(2) by (simp add: slice_def take_Suc_conv_app_nth)
    ultimately have "(?s j)[unat dst + j := d ! (unat src + j)] = ?s (Suc j)"
      using b len by (simp add: list_update_splice)
    then show ?thesis
      using b len rd u by (simp add: bind_def readByte_def writeByte_def int16_def nat_add_distrib)
  qed
  have "for_upto [j ..< unat n] ?body (?s j) = Ok ((), ?s (unat n))" if "j \<le> unat n" for j
    using that
  proof (induction "unat n - j" arbitrary: j)
    case 0
    then show ?case by simp
  next
    case (Suc k)
    then have "j < unat n" by simp
    with Suc.hyps(1) [of "Suc j"] Suc.hyps(2) step [of j] show ?case
      by (simp add: upt_conv_Cons seq_Ok [where s' = "?s (Suc j)"])
  qed
  from this [of 0] show ?thesis
    by (simp add: copy_bytes_def put_at_def bytes_at_def int16_def)
qed

section \<open>Lists of headers\<close>

text \<open>
  \<open>packed p\<close>: the nonempty records follow each other from byte \<open>p\<close> without gaps. \<open>seated p\<close>: all
  headers do. \<open>chain q\<close>: the nonempty ones follow each other from \<open>q\<close> on, gaps allowed. \<open>ready p\<close>:
  without gaps up to the first header that marks a hole, and a chain after it.
\<close>

fun packed :: "nat \<Rightarrow> recordBlockHeader list \<Rightarrow> bool" where
  "packed p [] = True"
| "packed p (h # hs) = (if hsize h = 0 then packed p hs else st h = p \<and> packed (p + sz h) hs)"

fun seated :: "nat \<Rightarrow> recordBlockHeader list \<Rightarrow> bool" where
  "seated p [] = True"
| "seated p (h # hs) = (st h = p \<and> seated (p + sz h) hs)"

fun chain :: "nat \<Rightarrow> recordBlockHeader list \<Rightarrow> bool" where
  "chain q [] = True"
| "chain q (h # hs) = (if hsize h = 0 then chain q hs else q \<le> st h \<and> chain (st h + sz h) hs)"

fun ready :: "nat \<Rightarrow> recordBlockHeader list \<Rightarrow> bool" where
  "ready p [] = True"
| "ready p (h # hs) =
     (if recordID h \<noteq> 0 \<and> hsize h \<noteq> 0 then st h = p \<and> ready (p + sz h) hs
      else if recordID h = 0 \<and> hsize h = 0 then ready p hs
      else st h = p \<and> chain p hs)"

lemma chain_mono: "chain q hs \<Longrightarrow> p \<le> q \<Longrightarrow> chain p hs"
  by (induction hs arbitrary: p q) (auto split: if_splits)

lemma chain_ge: "chain q hs \<Longrightarrow> h \<in> set hs \<Longrightarrow> hsize h \<noteq> 0 \<Longrightarrow> q \<le> st h"
  by (induction hs arbitrary: q) (auto split: if_splits, fastforce)

lemma packed_chain: "packed p hs \<Longrightarrow> chain p hs"
  by (induction hs arbitrary: p) (auto split: if_splits)

lemma seated_packed: "seated p hs \<Longrightarrow> packed p hs"
  by (induction hs arbitrary: p) auto

lemma seated_ready: "seated p hs \<Longrightarrow> ready p hs"
  by (induction hs arbitrary: p)
     (auto dest: seated_packed [THEN packed_chain] intro: chain_mono)

lemma packed_ready:
  "packed p hs \<Longrightarrow> (\<And>h. h \<in> set hs \<Longrightarrow> recordID h \<noteq> 0 \<Longrightarrow> hsize h \<noteq> 0) \<Longrightarrow> ready p hs"
  by (induction hs arbitrary: p) (auto intro: chain_mono [OF packed_chain])

lemma packed_bound: "packed p hs \<Longrightarrow> h \<in> set hs \<Longrightarrow> hsize h \<noteq> 0 \<Longrightarrow> p \<le> st h \<and> st h + sz h \<le> p + total hs"
proof (induction hs arbitrary: p)
  case (Cons g hs)
  show ?case
  proof (cases "h = g")
    case True
    with Cons.prems show ?thesis by simp
  next
    case False
    with Cons.prems have "h \<in> set hs" by simp
    then show ?thesis
      using Cons.IH [of p] Cons.IH [of "p + sz g"] Cons.prems by (cases "hsize g = 0") auto
  qed
qed simp

section \<open>The loops\<close>

definition same_but :: "(recordBlockHeader \<Rightarrow> recordBlockHeader \<Rightarrow> bool) \<Rightarrow> u16 list \<Rightarrow> nat \<Rightarrow> bytes \<Rightarrow> bytes \<Rightarrow> bool" where
  "same_but R ls n d e \<longleftrightarrow> (\<forall>l. unat l < n \<longrightarrow> (if l \<in> set ls then R (hdr d l) (hdr e l) else hdr e l = hdr d l))"

lemma same_but_D:
  assumes "same_but R ls n d e" "unat l < n"
  shows "l \<in> set ls \<Longrightarrow> R (hdr d l) (hdr e l)" "l \<notin> set ls \<Longrightarrow> hdr e l = hdr d l"
  using assms by (auto simp: same_but_def)

text \<open>A header that was moved, and one that was moved and zeroed out if it stands for no record.\<close>

definition moved :: "recordBlockHeader \<Rightarrow> recordBlockHeader \<Rightarrow> bool" where
  "moved h g \<longleftrightarrow> g = h\<lparr>startsAt := startsAt g\<rparr>"

definition compacted :: "recordBlockHeader \<Rightarrow> recordBlockHeader \<Rightarrow> bool" where
  "compacted h g \<longleftrightarrow>
     g = h\<lparr>startsAt := startsAt g, hsize := if recordID h = 0 then 0 else hsize h\<rparr>"

lemma movedD:
  assumes "moved h g"
  shows "localID g = localID h" "recordID g = recordID h" "hsize g = hsize h"
    "chainedBlockID g = chainedBlockID h" "chainedLocalID g = chainedLocalID h"
  using assms by (cases h; cases g; simp add: moved_def)+

lemma compactedD:
  assumes "compacted h g"
  shows "localID g = localID h" "recordID g = recordID h" "hsize g = (if recordID h = 0 then 0 else hsize h)"
    "chainedBlockID g = chainedBlockID h" "chainedLocalID g = chainedLocalID h"
  using assms by (cases h; cases g; simp add: compacted_def)+

lemma moved_compacted: "moved h g \<Longrightarrow> compacted g k \<Longrightarrow> compacted h k"
  by (cases h; cases g; cases k) (auto simp: moved_def compacted_def)

lemma content_agree:
  assumes "agree lo hi d e" "lo \<le> st h" "st h + sz h \<le> hi" "st h + sz h \<le> length d"
  shows "content e h = content d h"
  unfolding content_def using assms by (intro agree_bytes_at) (auto simp: int16_def)

lemma content_empty: "hsize h = 0 \<Longrightarrow> content d h = []"
  by (simp add: content_def bytes_at_def)

lemma map_hdr_cong: "(\<And>l. l \<in> set ls \<Longrightarrow> hdr e l = hdr d l) \<Longrightarrow> map (hdr e) ls = map (hdr d) ls"
  by simp

lemma shift_loop_Ok:
  assumes "length d = 4096" "n \<le> 340" "distinct rs" "\<forall>l \<in> set rs. unat l < n"
    "chain q (map (hdr d) rs)" "unat p \<le> q"
    "\<forall>l \<in> set rs. hsize (hdr d l) \<noteq> 0 \<longrightarrow> st (hdr d l) + sz (hdr d l) \<le> table_at n"
    "unat p + total (map (hdr d) rs) \<le> table_at n"
  shows "\<exists>r e. shift_loop (map (hdr d) rs) p d = Ok ((r, map (hdr e) rs), e) \<and>
    unat r = unat p + total (map (hdr d) rs) \<and> length e = 4096 \<and>
    seated (unat p) (map (hdr e) rs) \<and> same_but moved rs n d e \<and>
    (\<forall>l \<in> set rs. content e (hdr e l) = content d (hdr d l)) \<and>
    agree 0 (unat p) d e \<and> agree 4088 4096 d e"
  using assms
proof (induction rs arbitrary: d p q)
  case Nil
  then show ?case by (simp add: same_but_def)
next
  case (Cons l rs)
  define h where "h = hdr d l"
  have l: "unat l < n" "l \<notin> set rs" "unat l < 340" using Cons.prems by auto
  have tab: "table_at n \<le> 4088" by (rule table_at_le)
  have hp: "int (table_at n) \<le> header_pos m" "header_pos m \<le> 4076" if "unat m < n" for m
    using header_pos_table [OF that Cons.prems(2)] header_pos_bounds(1) by auto
  have tail: "unat p + sz h + total (map (hdr d) rs) \<le> table_at n"
    using Cons.prems(8) by (simp add: h_def add.assoc)
  define d1 where "d1 = put_at (int16 p) (content d h) d"
  define d2 where "d2 = put_at (header_pos l + 4) (be16_put p) d1"
  have lenc: "length (content d h) = sz h"
  proof (cases "hsize h = 0")
    case True then show ?thesis by (simp add: content_empty)
  next
    case False
    then have "st h + sz h \<le> table_at n" using Cons.prems(7) by (simp add: h_def)
    then show ?thesis using tab Cons.prems(1) by (simp add: content_def int16_def)
  qed
  have run1: "copy_bytes p (startsAt h) (hsize h) d = Ok ((), d1)"
  proof (cases "hsize h = 0")
    case True
    then show ?thesis by (simp add: copy_bytes_def d1_def content_empty put_at_def)
  next
    case False
    then have "unat p \<le> st h" "st h + sz h \<le> table_at n"
      using Cons.prems(5-7) by (auto simp: h_def)
    then show ?thesis
      using copy_bytes_Ok [of p "startsAt h" "hsize h" d] tab Cons.prems(1)
      by (simp add: d1_def content_def)
  qed
  have len1: "length d1 = 4096"
    using lenc tail tab Cons.prems(1) by (simp add: d1_def int16_def)
  have run2: "Write (header_pos l + 4) (VUint16 p) d1 = Ok ((), d2)" and len2: "length d2 = 4096"
    using len1 hp [OF l(1)] by (simp_all add: d2_def Write_VUint16_Ok)
  have h1: "hdr d1 m = hdr d m" if "unat m < n" for m
    unfolding d1_def using hp [OF that] lenc tail tab Cons.prems(1,2) that
    by (intro hdr_put_outside) (auto simp: int16_def)
  have h2: "hdr d2 m = (if m = l then h\<lparr>startsAt := p\<rparr> else hdr d m)" if "unat m < n" for m
    unfolding d2_def using hdr_put(2) [OF len1 l(3), of m p] h1 [OF that] h1 [OF l(1)] that Cons.prems(2)
    by (simp add: h_def)
  have map2: "map (hdr d2) rs = map (hdr d) rs"
    using h2 l(2) Cons.prems(4) by (intro map_hdr_cong) auto
  have keep: "agree 0 (unat p) d d2" "agree 4088 4096 d d2" "agree (unat p + sz h) (table_at n) d d2"
  proof -
    have a1: "agree 0 (unat p) d d1" "agree 4088 4096 d d1" "agree (unat p + sz h) (table_at n) d d1"
      unfolding d1_def using lenc tail tab Cons.prems(1) by (auto intro!: agree_put_at simp: int16_def)
    have a2: "agree 0 (unat p) d1 d2" "agree 4088 4096 d1 d2" "agree (unat p + sz h) (table_at n) d1 d2"
      unfolding d2_def using hp [OF l(1)] len1 tail tab by (auto intro!: agree_put_at)
    show "agree 0 (unat p) d d2" "agree 4088 4096 d d2" "agree (unat p + sz h) (table_at n) d d2"
      using agree_trans a1 a2 by blast+
  qed
  have pu: "unat (p + hsize h) = unat p + sz h"
    using tail tab by (intro unat_plus_no_wrap) simp
  define q' where "q' = (if hsize h = 0 then q else st h + sz h)"
  have ch: "chain q' (map (hdr d2) rs)" "unat (p + hsize h) \<le> q'"
    using Cons.prems(5,6) pu by (auto simp: q'_def map2 h_def)
  have c2: "content d2 (hdr d m) = content d (hdr d m)" if m: "m \<in> set rs" for m
  proof (cases "hsize (hdr d m) = 0")
    case True then show ?thesis by (simp add: content_empty)
  next
    case False
    then have "q' \<le> st (hdr d m)" "st (hdr d m) + sz (hdr d m) \<le> table_at n"
      using chain_ge [OF ch(1) [unfolded map2]] m Cons.prems(7) by auto
    then show ?thesis using ch(2) pu tab Cons.prems(1) by (intro content_agree [OF keep(3)]) auto
  qed
  have "\<exists>r e. shift_loop (map (hdr d2) rs) (p + hsize h) d2 = Ok ((r, map (hdr e) rs), e) \<and>
    unat r = unat (p + hsize h) + total (map (hdr d2) rs) \<and> length e = 4096 \<and>
    seated (unat (p + hsize h)) (map (hdr e) rs) \<and> same_but moved rs n d2 e \<and>
    (\<forall>l \<in> set rs. content e (hdr e l) = content d2 (hdr d2 l)) \<and>
    agree 0 (unat (p + hsize h)) d2 e \<and> agree 4088 4096 d2 e"
  proof (rule Cons.IH [OF len2 Cons.prems(2) _ _ ch])
    show "\<forall>l \<in> set rs. hsize (hdr d2 l) \<noteq> 0 \<longrightarrow> st (hdr d2 l) + sz (hdr d2 l) \<le> table_at n"
      using h2 l(2) Cons.prems(4,7) by auto
    show "unat (p + hsize h) + total (map (hdr d2) rs) \<le> table_at n"
      using tail unfolding map2 pu by simp
  qed (use Cons.prems in auto)
  then obtain r e where
    e: "shift_loop (map (hdr d) rs) (p + hsize h) d2 = Ok ((r, map (hdr e) rs), e)"
      "unat r = unat p + sz h + total (map (hdr d) rs)" "length e = 4096"
      "seated (unat p + sz h) (map (hdr e) rs)" "same_but moved rs n d2 e"
      "\<forall>l \<in> set rs. content e (hdr e l) = content d2 (hdr d2 l)"
      "agree 0 (unat p + sz h) d2 e" "agree 4088 4096 d2 e"
    unfolding map2 pu by blast
  have el: "hdr e l = h\<lparr>startsAt := p\<rparr>"
    using e(5) l h2 [OF l(1)] by (auto simp: same_but_def)
  have "shift_loop (map (hdr d) (l # rs)) p d = Ok ((r, map (hdr e) (l # rs)), e)"
    using run1 run2 e(1) by (simp add: seq_def bind_def h_def [symmetric] el rb_consts) (simp add: h_def bind_def)
  moreover have "unat r = unat p + total (map (hdr d) (l # rs))" using e(2) by (simp add: h_def)
  moreover have "seated (unat p) (map (hdr e) (l # rs))" using e(4) el by simp
  moreover have "same_but moved (l # rs) n d e"
    unfolding same_but_def
  proof (intro allI impI)
    fix m :: u16 assume m: "unat m < n"
    show "if m \<in> set (l # rs) then moved (hdr d m) (hdr e m) else hdr e m = hdr d m"
    proof (cases "m = l")
      case True
      then show ?thesis by (simp add: el moved_def h_def)
    next
      case False
      then show ?thesis using same_but_D [OF e(5) m] h2 [OF m] by auto
    qed
  qed
  moreover have "content e (hdr e m) = content d (hdr d m)" if "m \<in> set (l # rs)" for m
  proof (cases "m = l")
    case False
    then show ?thesis using that e(6) c2 h2 Cons.prems(4) by auto
  next
    case True
    have "content e (hdr e l) = bytes_at (int16 p) (sz h) e" by (simp add: content_def el)
    also have "\<dots> = bytes_at (int16 p) (sz h) d2"
      using e(7) tail tab len2 by (intro agree_bytes_at) (auto simp: int16_def)
    also have "\<dots> = bytes_at (int16 p) (sz h) d1"
      unfolding d2_def using hp [OF l(1)] len1 tail by (intro bytes_at_put_other) (auto simp: int16_def)
    also have "\<dots> = content d h"
      unfolding d1_def using lenc tail tab Cons.prems(1) by (intro bytes_at_put_same) (auto simp: int16_def)
    finally show ?thesis using True by (simp add: h_def)
  qed
  moreover have "agree 0 (unat p) d e" "agree 4088 4096 d e"
    using agree_trans [OF keep(1) agree_sub [OF e(7)]] agree_trans [OF keep(2) e(8)] by auto
  ultimately show ?case using e(3) by blast
qed

lemma total_same_sizes:
  "(\<And>l. l \<in> set ls \<Longrightarrow> hsize (hdr e l) = hsize (hdr d l)) \<Longrightarrow> total (map (hdr e) ls) = total (map (hdr d) ls)"
  by (induction ls) auto

lemma defrag_loop_Ok:
  assumes "length d = 4096" "n \<le> 340" "distinct ls" "\<forall>l \<in> set ls. unat l < n"
    "ready p (map (hdr d) ls)"
    "\<forall>l \<in> set ls. hsize (hdr d l) \<noteq> 0 \<longrightarrow> st (hdr d l) + sz (hdr d l) \<le> table_at n"
    "p + total (map (hdr d) ls) \<le> table_at n"
  shows "\<exists>e. defrag_loop (length ls) (map (hdr d) ls) d = Ok ((), e) \<and> length e = 4096 \<and>
    packed p (map (hdr e) ls) \<and> same_but compacted ls n d e \<and>
    (\<forall>l \<in> set ls. recordID (hdr d l) \<noteq> 0 \<longrightarrow> content e (hdr e l) = content d (hdr d l)) \<and>
    agree 0 p d e \<and> agree 4088 4096 d e"
  using assms
proof (induction ls arbitrary: d p)
  case Nil
  then show ?case by (simp add: same_but_def)
next
  case (Cons l ls)
  define h where "h = hdr d l"
  have l: "unat l < n" "l \<notin> set ls" "unat l < 340" using Cons.prems by auto
  have tab: "table_at n \<le> 4088" by (rule table_at_le)
  have hp: "int (table_at n) \<le> header_pos l" "header_pos l \<le> 4076"
    using header_pos_table [OF l(1) Cons.prems(2)] header_pos_bounds(1) by auto
  have prems: "distinct ls" "\<forall>l \<in> set ls. unat l < n"
    "\<forall>l \<in> set ls. hsize (hdr d l) \<noteq> 0 \<longrightarrow> st (hdr d l) + sz (hdr d l) \<le> table_at n"
    using Cons.prems by auto
  consider (live) "recordID h \<noteq> 0" "hsize h \<noteq> 0" | (gone) "recordID h = 0" "hsize h = 0"
    | (hole) "\<not> (recordID h \<noteq> 0 \<and> hsize h \<noteq> 0)" "\<not> (recordID h = 0 \<and> hsize h = 0)" by blast
  then show ?case
  proof cases
    case live
    have s: "st h = p" "ready (p + sz h) (map (hdr d) ls)" "p + sz h + total (map (hdr d) ls) \<le> table_at n"
      using Cons.prems(5,7) live by (simp_all add: h_def add.assoc)
    from Cons.IH [OF Cons.prems(1,2) prems(1,2) s(2) prems(3) s(3)] obtain e where
      e: "defrag_loop (length ls) (map (hdr d) ls) d = Ok ((), e)" "length e = 4096"
        "packed (p + sz h) (map (hdr e) ls)" "same_but compacted ls n d e"
        "\<forall>l \<in> set ls. recordID (hdr d l) \<noteq> 0 \<longrightarrow> content e (hdr e l) = content d (hdr d l)"
        "agree 0 (p + sz h) d e" "agree 4088 4096 d e" by blast
    have el: "hdr e l = h" using same_but_D(2) [OF e(4) l(1,2)] by (simp add: h_def)
    have "content e h = content d h"
      using s tab Cons.prems(1) by (intro content_agree [OF e(6)]) auto
    moreover have "same_but compacted (l # ls) n d e"
      using e(4) live el unfolding same_but_def by (auto simp: compacted_def h_def)
    ultimately show ?thesis
      using e live el s agree_sub [OF e(6), of 0 p] by (intro exI [of _ e]) (auto simp: h_def [symmetric])
  next
    case gone
    have s: "ready p (map (hdr d) ls)" "p + total (map (hdr d) ls) \<le> table_at n"
      using Cons.prems(5,7) gone by (simp_all add: h_def)
    from Cons.IH [OF Cons.prems(1,2) prems(1,2) s(1) prems(3) s(2)] obtain e where
      e: "defrag_loop (length ls) (map (hdr d) ls) d = Ok ((), e)" "length e = 4096"
        "packed p (map (hdr e) ls)" "same_but compacted ls n d e"
        "\<forall>l \<in> set ls. recordID (hdr d l) \<noteq> 0 \<longrightarrow> content e (hdr e l) = content d (hdr d l)"
        "agree 0 p d e" "agree 4088 4096 d e" by blast
    have el: "hdr e l = h" using same_but_D(2) [OF e(4) l(1,2)] by (simp add: h_def)
    moreover have "same_but compacted (l # ls) n d e"
      using e(4) gone el unfolding same_but_def by (auto simp: compacted_def h_def)
    ultimately show ?thesis
      using e gone by (intro exI [of _ e]) (auto simp: h_def [symmetric])
  next
    case hole
    have s: "st h = p" "chain p (map (hdr d) ls)" "p + total (map (hdr d) ls) \<le> table_at n"
      using Cons.prems(5,7) hole by (auto simp: h_def split: if_splits)
    from shift_loop_Ok [OF Cons.prems(1,2) prems(1,2) s(2) _ prems(3), of "startsAt h"] s obtain r d1 where
      d1: "shift_loop (map (hdr d) ls) (startsAt h) d = Ok ((r, map (hdr d1) ls), d1)" "length d1 = 4096"
        "seated p (map (hdr d1) ls)" "same_but moved ls n d d1"
        "\<forall>l \<in> set ls. content d1 (hdr d1 l) = content d (hdr d l)"
        "agree 0 p d d1" "agree 4088 4096 d d1" by auto
    define d2 where "d2 = put_at (header_pos l + 6) (be16_put 0) d1"
    define d3 where "d3 = put_at (header_pos l + 4) (be16_put r) d2"
    have len: "length d2 = 4096" "length d3 = 4096" using d1(2) hp by (simp_all add: d2_def d3_def)
    have run: "Write (header_pos l + 6) (VUint16 0) d1 = Ok ((), d2)"
      "Write (header_pos l + 4) (VUint16 r) d2 = Ok ((), d3)"
      using d1(2) len hp by (simp_all add: d2_def d3_def Write_VUint16_Ok)
    have h3: "hdr d3 m = (if m = l then (hdr d1 l)\<lparr>hsize := 0, startsAt := r\<rparr> else hdr d1 m)" if "unat m < n" for m
      using hdr_put(3) [OF d1(2) l(3), of m 0] hdr_put(3) [OF d1(2) l(3) l(3), of 0]
        hdr_put(2) [OF len(1) l(3), of m r] that Cons.prems(2)
      by (simp add: d2_def d3_def)
    have h1: "hdr d1 l = h" using same_but_D(2) [OF d1(4) l(1,2)] by (simp add: h_def)
    have m3: "map (hdr d3) ls = map (hdr d1) ls"
      using h3 l(2) prems(2) by (intro map_hdr_cong) auto
    have mv: "moved (hdr d m) (hdr d1 m)" if "m \<in> set ls" for m
      using same_but_D(1) [OF d1(4)] that prems(2) by auto
    have sizes: "hsize (hdr d1 m) = hsize (hdr d m)" "recordID (hdr d1 m) = recordID (hdr d m)" if "m \<in> set ls" for m
      using movedD [OF mv [OF that]] by simp_all
    have keep: "agree 0 p d1 d3" "agree 4088 4096 d1 d3" "agree 0 (table_at n) d1 d3"
    proof -
      have ag: "agree lo hi d1 d3" if "hi \<le> nat (header_pos l + 4) \<or> nat (header_pos l + 8) \<le> lo" for lo hi
      proof (rule agree_trans)
        show "agree lo hi d1 d2" unfolding d2_def using that hp d1(2) by (intro agree_put_at) auto
        show "agree lo hi d2 d3" unfolding d3_def using that hp len(1) by (intro agree_put_at) auto
      qed
      then show "agree 0 p d1 d3" "agree 4088 4096 d1 d3" "agree 0 (table_at n) d1 d3"
        using hp tab s by (intro ag; simp; linarith)+
    qed
    have tot: "total (map (hdr d1) ls) = total (map (hdr d) ls)"
      using sizes(1) by (intro total_same_sizes)
    have bound: "st (hdr d1 m) + sz (hdr d1 m) \<le> table_at n" if "m \<in> set ls" "hsize (hdr d1 m) \<noteq> 0" for m
      using packed_bound [OF seated_packed [OF d1(3)], of "hdr d1 m"] that tot s(3) by auto
    have c3: "content d3 (hdr d3 m) = content d (hdr d m)" if m: "m \<in> set ls" for m
    proof -
      have "hdr d3 m = hdr d1 m" using h3 m l(2) prems(2) by auto
      moreover have "content d3 (hdr d1 m) = content d1 (hdr d1 m)"
      proof (cases "hsize (hdr d1 m) = 0")
        case False
        then show ?thesis using bound [OF m] tab d1(2) by (intro content_agree [OF keep(3)]) auto
      qed (simp add: content_empty)
      ultimately show ?thesis using d1(5) m by simp
    qed
    have "\<exists>e. defrag_loop (length ls) (map (hdr d3) ls) d3 = Ok ((), e) \<and> length e = 4096 \<and>
      packed p (map (hdr e) ls) \<and> same_but compacted ls n d3 e \<and>
      (\<forall>l \<in> set ls. recordID (hdr d3 l) \<noteq> 0 \<longrightarrow> content e (hdr e l) = content d3 (hdr d3 l)) \<and>
      agree 0 p d3 e \<and> agree 4088 4096 d3 e"
    proof (rule Cons.IH [OF len(2) Cons.prems(2) prems(1,2)])
      show "ready p (map (hdr d3) ls)" unfolding m3 by (rule seated_ready [OF d1(3)])
      show "\<forall>m \<in> set ls. hsize (hdr d3 m) \<noteq> 0 \<longrightarrow> st (hdr d3 m) + sz (hdr d3 m) \<le> table_at n"
        using bound h3 l(2) prems(2) by auto
      show "p + total (map (hdr d3) ls) \<le> table_at n" unfolding m3 tot by (rule s(3))
    qed
    then obtain e where
      e: "defrag_loop (length ls) (map (hdr d1) ls) d3 = Ok ((), e)" "length e = 4096"
        "packed p (map (hdr e) ls)" "same_but compacted ls n d3 e"
        "\<forall>l \<in> set ls. recordID (hdr d3 l) \<noteq> 0 \<longrightarrow> content e (hdr e l) = content d3 (hdr d3 l)"
        "agree 0 p d3 e" "agree 4088 4096 d3 e"
      unfolding m3 by blast
    have el: "hdr e l = h\<lparr>hsize := 0, startsAt := r\<rparr>"
      using same_but_D(2) [OF e(4) l(1,2)] h3 [OF l(1)] h1 by simp
    have "defrag_loop (length (l # ls)) (map (hdr d) (l # ls)) d = Ok ((), e)"
      using hole d1(1) run e(1) h1 by (simp add: h_def [symmetric] bind_def seq_def rb_consts) (auto simp: h_def bind_def)
    moreover have "packed p (map (hdr e) (l # ls))" using e(3) el by simp
    moreover have "same_but compacted (l # ls) n d e"
      unfolding same_but_def
    proof (intro allI impI)
      fix m :: u16 assume m: "unat m < n"
      show "if m \<in> set (l # ls) then compacted (hdr d m) (hdr e m) else hdr e m = hdr d m"
      proof (cases "m \<in> set ls")
        case True
        have "hdr d3 m = hdr d1 m" using h3 [OF m] True l(2) by auto
        then show ?thesis
          using moved_compacted [OF mv [OF True]] same_but_D(1) [OF e(4) m True] True by simp
      next
        case False
        then show ?thesis
          using same_but_D(2) [OF e(4) m False] same_but_D(2) [OF d1(4) m False] h3 [OF m] el hole
          by (auto simp: compacted_def h_def)
      qed
    qed
    moreover have "content e (hdr e m) = content d (hdr d m)"
      if "m \<in> set (l # ls)" "recordID (hdr d m) \<noteq> 0" for m
    proof (cases "m = l")
      case True
      then show ?thesis using hole that el by (simp add: content_empty h_def)
    next
      case False
      then show ?thesis using that e(5) c3 h3 sizes prems(2) by auto
    qed
    moreover have "agree 0 p d e" "agree 4088 4096 d e"
      using agree_trans [OF d1(6) agree_trans [OF keep(1) e(6)]]
        agree_trans [OF d1(7) agree_trans [OF keep(2) e(7)]] by auto
    ultimately show ?thesis using e(2) by blast
  qed
qed

end
