(* ===== verification/RecordStore.thy ===== *)
theory RecordStore
  imports Defragment
begin

text \<open>
  What a record block promises: a map from local IDs to records. The invariant \<open>rb_wf\<close> says how the
  headers, the utilization and the data fit together; \<open>records\<close> is the abstract map. \<open>Add\<close>,
  \<open>Remove\<close>, \<open>SoftRemove\<close> and the accessors are shown to act on the map as their names say, with the
  exceptions that the code has.
\<close>

section \<open>The Go sort\<close>

text \<open>
  \<open>sort.Sort\<close> with \<open>Less\<close> on \<open>startsAt\<close>: some permutation of the headers, ordered by \<open>startsAt\<close>. Nothing
  is said of the order of headers that start at the same byte.
\<close>

locale go_sorter =
  fixes srt :: sorter
  assumes srt_mset [simp]: "mset (srt hs) = mset hs"
    and srt_sorted: "sorted (map startsAt (srt hs))"
begin

lemma srt_set [simp]: "set (srt hs) = set hs"
  by (metis srt_mset set_mset_mset)

lemma srt_length [simp]: "length (srt hs) = length hs"
  by (metis srt_mset size_mset)

text \<open>Sorting the headers of a block permutes the local IDs.\<close>

lemma srt_hdrs:
  assumes "mset hs = mset (map (hdr d) ls)"
  shows "\<exists>ks. srt hs = map (hdr d) ks \<and> mset ks = mset ls"
proof -
  have m: "mset (srt hs) = mset (map (hdr d) ls)" using assms by simp
  then have "set (srt hs) = hdr d ` set ls" by (metis list.set_map set_mset_mset)
  then have "hdr d (localID h) = h" if "h \<in> set (srt hs)" for h using that by auto
  then have "map (hdr d) (map localID (srt hs)) = srt hs"
    unfolding map_map by (intro map_idI) simp
  moreover have "mset (map localID (srt hs)) = mset ls"
  proof -
    have "mset (map localID (srt hs)) = image_mset localID (mset (srt hs))" by simp
    also have "\<dots> = image_mset localID (image_mset (hdr d) (mset ls))" using m by simp
    also have "\<dots> = mset ls" by (simp add: multiset.map_comp comp_def)
    finally show ?thesis .
  qed
  ultimately show ?thesis by metis
qed

end

interpretation stable: go_sorter "sort_key startsAt"
  by unfold_locales simp_all

section \<open>The invariant\<close>

definition live_headers :: "bytes \<Rightarrow> recordBlockHeader list" where
  "live_headers d = filter (\<lambda>h. recordID h \<noteq> 0) (hdrs d)"

definition rb_wf :: "bytes \<Rightarrow> bool" where
  "rb_wf d \<longleftrightarrow> length d = 4096 \<and>
     8 + 12 * nheaders d + total (hdrs d) \<le> 4096 \<and>
     unat (util_of d) = 8 + 12 * nheaders d + total (live_headers d) \<and>
     (\<exists>ls. mset ls = mset (local_ids (nheaders d)) \<and> packed 0 (map (hdr d) ls)) \<and>
     (\<forall>h \<in> set (hdrs d). recordID h \<noteq> 0 \<longrightarrow> hsize h \<noteq> 0)"

definition records :: "bytes \<Rightarrow> u16 \<rightharpoonup> u32 \<times> bytes \<times> RowID" where
  "records d l =
     (if unat l < nheaders d \<and> recordID (hdr d l) \<noteq> 0
      then Some (recordID (hdr d l), content d (hdr d l),
                 \<lparr>DataBlockID = chainedBlockID (hdr d l), LocalID = chainedLocalID (hdr d l)\<rparr>)
      else None)"

lemma rb_wfD:
  assumes "rb_wf d"
  shows "length d = 4096" "nheaders d \<le> 340" "8 + 12 * nheaders d + total (hdrs d) \<le> 4096"
    "unat (util_of d) = 8 + 12 * nheaders d + total (live_headers d)"
    "\<exists>ls. mset ls = mset (local_ids (nheaders d)) \<and> packed 0 (map (hdr d) ls)"
    "unat l < nheaders d \<Longrightarrow> recordID (hdr d l) \<noteq> 0 \<Longrightarrow> hsize (hdr d l) \<noteq> 0"
proof -
  show *: "length d = 4096" "8 + 12 * nheaders d + total (hdrs d) \<le> 4096"
    "unat (util_of d) = 8 + 12 * nheaders d + total (live_headers d)"
    "\<exists>ls. mset ls = mset (local_ids (nheaders d)) \<and> packed 0 (map (hdr d) ls)"
    using assms by (simp_all add: rb_wf_def)
  from *(2) show n: "nheaders d \<le> 340" by linarith
  show "unat l < nheaders d \<Longrightarrow> recordID (hdr d l) \<noteq> 0 \<Longrightarrow> hsize (hdr d l) \<noteq> 0"
    using assms n by (auto simp: rb_wf_def hdrs_def set_local_ids)
qed

lemma rb_wfI:
  assumes "length d = 4096" "8 + 12 * nheaders d + total (hdrs d) \<le> 4096"
    "unat (util_of d) = 8 + 12 * nheaders d + total (live_headers d)"
    "mset ls = mset (local_ids (nheaders d))" "packed 0 (map (hdr d) ls)"
    "\<And>l. unat l < nheaders d \<Longrightarrow> recordID (hdr d l) \<noteq> 0 \<Longrightarrow> hsize (hdr d l) \<noteq> 0"
  shows "rb_wf d"
proof -
  have "nheaders d \<le> 340" using assms(2) by linarith
  then show ?thesis using assms by (auto simp: rb_wf_def hdrs_def set_local_ids)
qed

lemma mset_local_ids:
  assumes "mset ls = mset (local_ids n)" "n \<le> 340"
  shows "distinct ls" "\<And>l. l \<in> set ls \<longleftrightarrow> unat l < n" "length ls = n"
proof -
  have "n \<le> 65536" using assms(2) by simp
  then show "distinct ls" using mset_eq_imp_distinct_iff [OF assms(1)] distinct_local_ids by simp
  show "l \<in> set ls \<longleftrightarrow> unat l < n" for l
    using mset_eq_setD [OF assms(1)] set_local_ids [of n l] assms(2) by simp
  show "length ls = n" using assms(1) by (metis length_local_ids size_mset)
qed

lemma length_hdrs [simp]: "length (hdrs d) = nheaders d"
  by (simp add: hdrs_def)

lemma mset_total: "mset gs = mset hs \<Longrightarrow> total gs = total hs"
  by (metis mset_map sum_mset_sum_list)

text \<open>The order of a packed list is the sorted one, up to empty records.\<close>

lemma packed_filter: "packed p hs = packed p (filter (\<lambda>h. hsize h \<noteq> 0) hs)"
  by (induction hs arbitrary: p) auto

lemma packed_increasing:
  "packed p hs \<Longrightarrow> \<forall>h \<in> set hs. hsize h \<noteq> 0 \<Longrightarrow>
    sorted (map startsAt hs) \<and> distinct (map startsAt hs) \<and> (\<forall>h \<in> set hs. p \<le> st h)"
proof (induction hs arbitrary: p)
  case (Cons h hs)
  then have h: "hsize h \<noteq> 0" "st h = p" "packed (p + sz h) hs" by auto
  with Cons have *: "sorted (map startsAt hs)" "distinct (map startsAt hs)" "\<forall>g \<in> set hs. p + sz h \<le> st g" by auto
  have "0 < sz h" using h(1) by (metis gr0I unat_eq_zero)
  with * h(2) have "st h < st g" if "g \<in> set hs" for g using that by fastforce
  then have "startsAt h < startsAt g" if "g \<in> set hs" for g using that by (simp add: word_less_nat_alt)
  with * h(2) show ?case by (auto simp: less_imp_le) fastforce+
qed simp

lemma packed_sorted:
  assumes "packed 0 hs" "mset gs = mset hs" "sorted (map startsAt gs)"
  shows "packed 0 gs"
proof -
  let ?f = "filter (\<lambda>h. hsize h \<noteq> 0)"
  have "packed 0 (?f hs)" using assms(1) packed_filter by blast
  from packed_increasing [OF this] have h: "sorted (map startsAt (?f hs))" "distinct (map startsAt (?f hs))" by auto
  have m: "mset (?f gs) = mset (?f hs)" using assms(2) by (metis mset_filter)
  have "sorted (map startsAt (?f gs))" using assms(3) by (rule sorted_filter)
  moreover have "distinct (map startsAt (?f gs))"
    using h(2) m by (metis mset_eq_imp_distinct_iff mset_map)
  moreover have "set (?f gs) = set (?f hs)" using m by (rule mset_eq_setD)
  moreover have "inj_on startsAt (set (?f gs) \<union> set (?f hs))"
    using h(2) calculation(3) by (simp only: Un_absorb distinct_map)
  ultimately have "?f gs = ?f hs" using h by (intro map_sorted_distinct_set_unique)
  then show ?thesis using \<open>packed 0 (?f hs)\<close> packed_filter by metis
qed

section \<open>Writing a record\<close>

text \<open>
  The end of \<open>Add\<close>, in a block whose data ends at \<open>q\<close> and has \<open>len\<close> headers, counting the new one:
  only header \<open>lid\<close>, the data from \<open>q\<close> on, the utilization and the number of headers change.
\<close>

lemma hdr_update_all:
  "(hdr e l)\<lparr>recordID := r, startsAt := s, hsize := z, chainedBlockID := c, chainedLocalID := k\<rparr> =
    \<lparr>localID = l, recordID = r, startsAt = s, hsize = z, chainedBlockID = c, chainedLocalID = k\<rparr>"
  by (simp add: hdr_def)

lemma writeRecord_Ok:
  assumes "length e = 4096" "unat lid < len" "unat u = 8 + 12 * len + q"
    "8 + 12 * len + q + length data \<le> 4096"
  shows "\<exists>f. writeRecord rid data lid len u e = Ok (lid, f) \<and> length f = 4096 \<and> nheaders f = len \<and>
    unat (util_of f) = 8 + 12 * len + q + length data \<and>
    hdr f lid = \<lparr>localID = lid, recordID = rid, startsAt = of_nat q, hsize = of_nat (length data),
      chainedBlockID = 0, chainedLocalID = 0\<rparr> \<and>
    (\<forall>m. unat m < len \<longrightarrow> m \<noteq> lid \<longrightarrow> hdr f m = hdr e m) \<and>
    content f (hdr f lid) = data \<and> agree 0 q e f \<and> agree 4088 4092 e f"
proof -
  have len: "len \<le> 340" using assms(4) by linarith
  have lid: "unat lid < 340" using assms(2) len by simp
  define hp where "hp = header_pos lid"
  have hp: "int (table_at len) \<le> hp" "hp \<le> 4076" "8 \<le> hp"
    using header_pos_table [OF assms(2) len] header_pos_bounds lid by (auto simp: hp_def)
  have tab: "q + length data \<le> table_at len" "table_at len \<le> 4088"
    using assms(4) by (auto simp: table_at_def)
  have start: "u - MIN_UTILIZATION - of_nat len * RECORD_HEADER_SIZE = of_nat q"
  proof -
    have "u = of_nat (8 + 12 * len + q)" using assms(3) by (metis word_of_nat_unat)
    then show ?thesis by (simp add: MIN_UTILIZATION_def RECORD_HEADER_SIZE_def)
  qed
  have q: "int16 (of_nat q) = int q" using tab by (simp add: int16_def)
  define d1 where "d1 = put_at hp (be32_put rid) e"
  define d2 where "d2 = put_at (hp + 4) (be16_put (of_nat q)) d1"
  define d3 where "d3 = put_at (hp + 6) (be16_put (of_nat (length data))) d2"
  define d4 where "d4 = put_at (hp + 8) (be16_put 0) d3"
  define d5 where "d5 = put_at (hp + 10) (be16_put 0) d4"
  define d6 where "d6 = put_at (int q) data d5"
  define d7 where "d7 = put_at 4094 (be16_put (u + of_nat (length data))) d6"
  define f where "f = put_at 4092 (be16_put (of_nat len)) d7"
  note defs = d1_def d2_def d3_def d4_def d5_def d6_def d7_def f_def
  have lens: "length d1 = 4096" "length d2 = 4096" "length d3 = 4096" "length d4 = 4096" "length d5 = 4096"
    "length d6 = 4096" "length d7 = 4096" "length f = 4096"
    using hp tab assms(1) by (simp_all add: defs)
  have w: "Write (hp + 0) (VUint32 rid) e = Ok ((), d1)" "Write (hp + 4) (VUint16 (of_nat q)) d1 = Ok ((), d2)"
    "Write (hp + (4 + 2)) (VUint16 (of_nat (length data))) d2 = Ok ((), d3)"
    "Write (hp + (4 + 2 + 2)) (VUint16 0) d3 = Ok ((), d4)" "Write (hp + (4 + 2 + 2 + 2)) (VUint16 0) d4 = Ok ((), d5)"
    "Write (int q) (VBytes data) d5 = Ok ((), d6)"
    "Write 4094 (VUint16 (u + of_nat (length data))) d6 = Ok ((), d7)"
    "Write 4092 (VUint16 (of_nat len)) d7 = Ok ((), f)"
    using hp tab assms(1) lens by (simp_all add: prog_simps defs [symmetric])
  have run: "writeRecord rid data lid len u e = Ok (lid, f)"
    unfolding writeRecord_def Let_def start header_pos_word(1) [OF lid] hp_def [symmetric] q
    unfolding rb_positions rb_consts
    by (simp only: seq_def bind_def w outcome.case prod.case ret_run)
  note put = hdr_put [OF _ lid, folded hp_def]
  have h5: "hdr d5 m = (if m = lid then \<lparr>localID = lid, recordID = rid, startsAt = of_nat q,
      hsize = of_nat (length data), chainedBlockID = 0, chainedLocalID = 0\<rparr> else hdr e m)" if "unat m < len" for m
  proof -
    have m: "unat m < 340" using that len by simp
    note a1 = put(1) [OF assms(1), where r = rid, folded d1_def]
    note a2 = put(2) [OF lens(1), where v = "of_nat q", folded d2_def]
    note a3 = put(3) [OF lens(2), where v = "of_nat (length data)", folded d3_def]
    note a4 = put(4) [OF lens(3), where v = 0, folded d4_def]
    note a5 = put(5) [OF lens(4), where v = 0, folded d5_def]
    show ?thesis
      using a1 [OF m] a1 [OF lid] a2 [OF m] a2 [OF lid] a3 [OF m] a3 [OF lid] a4 [OF m] a4 [OF lid]
        a5 [OF m] a5 [OF lid] by (simp add: hdr_update_all)
  qed
  have hf: "hdr f m = hdr d5 m" if "unat m < len" for m
  proof -
    have m: "unat m < 340" "int q + int (length data) \<le> header_pos m" "header_pos m \<le> 4076"
      using that len tab header_pos_table [OF that len] header_pos_bounds(1) [of m] by auto
    have "hdr f m = hdr d7 m" "hdr d7 m = hdr d6 m" "hdr d6 m = hdr d5 m"
      unfolding f_def d7_def d6_def using m lens tab by (intro hdr_put_outside; simp)+
    then show ?thesis by simp
  qed
  have "nheaders f = len" using lens len by (simp add: nheaders_def f_def)
  moreover have "unat (util_of f) = 8 + 12 * len + q + length data"
  proof -
    have "u16_at 4094 f = u + of_nat (length data)" using lens by (simp add: f_def d7_def)
    moreover have "unat (u + of_nat (length data)) = 8 + 12 * len + q + length data"
      using assms(3,4) by (subst unat_plus_no_wrap) simp_all
    ultimately show ?thesis by (simp add: util_of_def) (metis add_is_0 unat_0 zero_neq_numeral)
  qed
  moreover have "content f (hdr f lid) = data"
  proof -
    have "bytes_at (int q) (length data) f = bytes_at (int q) (length data) d6"
      using lens tab by (simp add: f_def d7_def)
    also have "\<dots> = data" using lens tab by (simp add: d6_def)
    finally show ?thesis using hf [OF assms(2)] h5 [OF assms(2)] q tab by (simp add: content_def)
  qed
  moreover have "agree 0 q e f" "agree 4088 4092 e f"
  proof -
    have a: "agree lo hi e f" if "hi \<le> q \<or> q + length data \<le> lo" "nat hp + 12 \<le> lo \<or> hi \<le> nat hp" "hi \<le> 4092" for lo hi
    proof -
      have "agree lo hi e d1" unfolding d1_def using that hp assms(1) by (intro agree_put_at) auto
      moreover have "agree lo hi d1 d2" unfolding d2_def using that hp lens(1) by (intro agree_put_at) auto
      moreover have "agree lo hi d2 d3" unfolding d3_def using that hp lens(2) by (intro agree_put_at) auto
      moreover have "agree lo hi d3 d4" unfolding d4_def using that hp lens(3) by (intro agree_put_at) auto
      moreover have "agree lo hi d4 d5" unfolding d5_def using that hp lens(4) by (intro agree_put_at) auto
      moreover have "agree lo hi d5 d6" unfolding d6_def using that tab lens(5) by (intro agree_put_at) auto
      moreover have "agree lo hi d6 d7" unfolding d7_def using that lens(6) by (intro agree_put_at) auto
      moreover have "agree lo hi d7 f" unfolding f_def using that lens(7) by (intro agree_put_at) auto
      ultimately show ?thesis by (meson agree_trans)
    qed
    show "agree 0 q e f" "agree 4088 4092 e f" using hp tab by (intro a; simp; linarith)+
  qed
  ultimately show ?thesis
    using run lens h5 [OF assms(2)] hf h5 assms(2) by (intro exI [of _ f]) auto
qed

section \<open>Compacting a block\<close>

text \<open>
  A block to compact: \<open>ls\<close> lists the local IDs as \<open>sort.Sort\<close> orders the headers.
\<close>

lemma compact_core:
  assumes "length d = 4096" "nheaders d \<le> 340" "mset ls = mset (local_ids (nheaders d))"
    "ready 0 (map (hdr d) ls)"
    "\<forall>l \<in> set ls. hsize (hdr d l) \<noteq> 0 \<longrightarrow> st (hdr d l) + sz (hdr d l) \<le> table_at (nheaders d)"
    "total (map (hdr d) ls) \<le> table_at (nheaders d)"
  shows "\<exists>e. defrag_loop (length ls) (map (hdr d) ls) d = Ok ((), e) \<and> length e = 4096 \<and>
    nheaders e = nheaders d \<and> util_of e = util_of d \<and> agree 4088 4096 d e \<and> packed 0 (map (hdr e) ls) \<and>
    (\<forall>l. unat l < nheaders d \<longrightarrow> compacted (hdr d l) (hdr e l) \<and>
      (recordID (hdr d l) \<noteq> 0 \<longrightarrow> content e (hdr e l) = content d (hdr d l)))"
proof -
  note ls = mset_local_ids [OF assms(3,2)]
  from defrag_loop_Ok [OF assms(1,2) ls(1) _ assms(4,5)] assms(6) ls(2) obtain e where
    e: "defrag_loop (length ls) (map (hdr d) ls) d = Ok ((), e)" "length e = 4096"
      "packed 0 (map (hdr e) ls)" "same_but compacted ls (nheaders d) d e"
      "\<forall>l \<in> set ls. recordID (hdr d l) \<noteq> 0 \<longrightarrow> content e (hdr e l) = content d (hdr d l)"
      "agree 4088 4096 d e" by auto
  have "u16_at 4092 e = u16_at 4092 d" "u16_at 4094 e = u16_at 4094 d"
    using e(6) assms(1) by (auto intro: agree_u16_at)
  then have "nheaders e = nheaders d" "util_of e = util_of d" by (simp_all add: nheaders_def util_of_def)
  with e ls(2) same_but_D(1) [OF e(4)] show ?thesis by (intro exI [of _ e]) auto
qed

lemma total_remove: "l \<in> set ls \<Longrightarrow> total (map (hdr e) ls) = sz (hdr e l) + total (map (hdr e) (remove1 l ls))"
  by (simp add: sum_list_map_remove1 comp_def)

lemma packed_remove: "packed p (map (hdr e) ls) \<Longrightarrow> hsize (hdr e l) = 0 \<Longrightarrow> packed p (map (hdr e) (remove1 l ls))"
  by (induction ls arbitrary: p) auto

lemma packed_append:
  "packed p (map (hdr e) (ls @ [l])) \<longleftrightarrow> packed p (map (hdr e) ls) \<and>
    (hsize (hdr e l) \<noteq> 0 \<longrightarrow> st (hdr e l) = p + total (map (hdr e) ls))"
  by (induction ls arbitrary: p) (auto simp: add.assoc)

text \<open>
  Writing record \<open>rid\<close> with header \<open>lid\<close> into a block that is packed without it gives a well-formed
  block, with the other records where they were.
\<close>

lemma total_live: "total (filter (\<lambda>h. recordID h \<noteq> 0) hs) = total hs"
  if "\<forall>h \<in> set hs. recordID h = 0 \<longrightarrow> hsize h = 0" for hs
  using that by (induction hs) auto

lemma hdrs_mset: "mset ls = mset (local_ids (nheaders d)) \<Longrightarrow> mset (hdrs d) = mset (map (hdr d) ls)"
  by (simp add: hdrs_def)

lemma place_record:
  assumes "length e = 4096" "mset (ls @ [lid]) = mset (local_ids len)" "packed 0 (map (hdr e) ls)"
    "\<And>l. l \<in> set ls \<Longrightarrow> recordID (hdr e l) = 0 \<longleftrightarrow> hsize (hdr e l) = 0"
    "unat u = 8 + 12 * len + total (map (hdr e) ls)"
    "8 + 12 * len + total (map (hdr e) ls) + length data \<le> 4096" "data \<noteq> []" "rid \<noteq> 0"
  shows "\<exists>f. writeRecord rid data lid len u e = Ok (lid, f) \<and> rb_wf f \<and> nheaders f = len \<and>
    agree 4088 4092 e f \<and> records f lid = Some (rid, data, \<lparr>DataBlockID = 0, LocalID = 0\<rparr>) \<and>
    (\<forall>l. l \<in> set ls \<longrightarrow> hdr f l = hdr e l \<and> content f (hdr f l) = content e (hdr e l))"
proof -
  let ?q = "total (map (hdr e) ls)"
  have len: "len \<le> 340" using assms(6) by linarith
  note m = mset_local_ids [OF assms(2) len]
  have lid: "unat lid < len" "lid \<notin> set ls" using m by auto
  from writeRecord_Ok [OF assms(1) lid(1) assms(5,6)] obtain f where
    f: "writeRecord rid data lid len u e = Ok (lid, f)" "length f = 4096" "nheaders f = len"
      "unat (util_of f) = 8 + 12 * len + ?q + length data"
      "hdr f lid = \<lparr>localID = lid, recordID = rid, startsAt = of_nat ?q, hsize = of_nat (length data),
         chainedBlockID = 0, chainedLocalID = 0\<rparr>"
      "\<forall>m. unat m < len \<longrightarrow> m \<noteq> lid \<longrightarrow> hdr f m = hdr e m"
      "content f (hdr f lid) = data" "agree 0 ?q e f" "agree 4088 4092 e f" by blast
  have small: "length data < 65536" "?q < 65536" using assms(6) by auto
  have same: "hdr f l = hdr e l" if "l \<in> set ls" for l using f(6) m(2) lid(2) that by (metis Un_iff set_append)
  have maps: "map (hdr f) ls = map (hdr e) ls" using same by simp
  have size: "sz (hdr f lid) = length data" "st (hdr f lid) = ?q" using f(5) small by simp_all
  have "total (map (hdr f) ls) = ?q" unfolding maps ..
  then have tot: "total (map (hdr f) (ls @ [lid])) = ?q + length data" using size by simp
  have h: "mset (hdrs f) = mset (map (hdr f) (ls @ [lid]))"
    using assms(2) f(3) by (intro hdrs_mset) simp
  have nz: "recordID g = 0 \<longleftrightarrow> hsize g = 0" if g: "g \<in> set (hdrs f)" for g
  proof -
    have "g \<in> set (map (hdr f) (ls @ [lid]))" using g h by (metis set_mset_mset)
    then consider l where "l \<in> set ls" "g = hdr e l" | "g = hdr f lid" using same by auto
    then show ?thesis
    proof cases
      case 1 then show ?thesis using assms(4) by simp
    next
      case 2
      have "hsize (hdr f lid) \<noteq> 0" using size assms(7) by (metis length_0_conv unat_0)
      with 2 show ?thesis using f(5) assms(8) by simp
    qed
  qed
  have hs: "total (hdrs f) = ?q + length data" using mset_total [OF h] tot by simp
  have "rb_wf f"
  proof (rule rb_wfI [of f "ls @ [lid]"])
    show "8 + 12 * nheaders f + total (hdrs f) \<le> 4096" using f(3) hs assms(6) by simp
    have "total (live_headers f) = total (hdrs f)"
      unfolding live_headers_def using nz by (intro total_live) blast
    then show "unat (util_of f) = 8 + 12 * nheaders f + total (live_headers f)"
      using f(3,4) hs by simp
    show "packed 0 (map (hdr f) (ls @ [lid]))"
      using packed_append [of 0 f ls lid] assms(3) size unfolding maps by simp
    show "hsize (hdr f l) \<noteq> 0" if "unat l < nheaders f" "recordID (hdr f l) \<noteq> 0" for l
      using that nz [of "hdr f l"] f(3) len by (auto simp: hdrs_def set_local_ids)
  qed (use f(2,3) assms(2) in simp_all)
  moreover have "records f lid = Some (rid, data, \<lparr>DataBlockID = 0, LocalID = 0\<rparr>)"
    using f(3,5,7) lid assms(8) by (simp add: records_def)
  moreover have "content f (hdr f l) = content e (hdr e l)" if l: "l \<in> set ls" for l
  proof (cases "hsize (hdr e l) = 0")
    case False
    then have "st (hdr e l) + sz (hdr e l) \<le> ?q" using packed_bound [OF assms(3), of "hdr e l"] l by auto
    then show ?thesis using same [OF l] assms(1,6) by (simp add: content_agree [OF f(8)])
  qed (use same [OF l] in \<open>simp add: content_empty\<close>)
  ultimately show ?thesis using f same by blast
qed

section \<open>Free space\<close>

lemma FreeSpaceForInsert_run:
  assumes "length d = 4096" "nheaders d \<le> 340" "unat (util_of d) \<le> 4096"
  shows "\<exists>fs. FreeSpaceForInsert d = Ok (fs, d) \<and>
    unat fs = (if \<exists>h \<in> set (hdrs d). recordID h = 0 then 4096 - unat (util_of d)
               else 4096 - unat (util_of d) - 12)"
proof -
  have u: "unat (4096 - util_of d) = 4096 - unat (util_of d)"
    using unat_minus_no_wrap [of "util_of d" "4096 :: u16"] assms(3) by simp
  have m: "unat (4096 - util_of d - 12) = 4096 - unat (util_of d) - 12" if "12 < 4096 - util_of d"
    using unat_minus_no_wrap [of "12 :: u16" "4096 - util_of d"] that u by (simp add: word_less_nat_alt)
  have s: "\<not> 12 < 4096 - util_of d \<Longrightarrow> 4096 - unat (util_of d) \<le> 12"
    using u by (simp add: word_less_nat_alt)
  show ?thesis
    using u m s by (auto simp: FreeSpaceForInsert_def bind_def Utilization_Ok parseHeaders_Ok assms
        DATABLOCK_SIZE_def RECORD_HEADER_SIZE_def Let_def)
qed

lemma rb_wf_util: "rb_wf d \<Longrightarrow> unat (util_of d) \<le> 4096"
proof -
  assume d: "rb_wf d"
  have "total (filter P hs) \<le> total hs" for P and hs :: "recordBlockHeader list" by (induction hs) auto
  then have "total (live_headers d) \<le> total (hdrs d)" by (simp add: live_headers_def)
  with rb_wfD(3,4) [OF d] show ?thesis by linarith
qed

lemma FreeSpaceForInsert_Ok:
  assumes "rb_wf d"
  shows "\<exists>fs. FreeSpaceForInsert d = Ok (fs, d) \<and>
    unat fs = (if \<exists>h \<in> set (hdrs d). recordID h = 0 then 4096 - unat (util_of d)
               else 4096 - unat (util_of d) - 12)"
  using assms by (intro FreeSpaceForInsert_run rb_wfD(1,2) rb_wf_util)

section \<open>Add\<close>

lemma total_compacted:
  assumes "\<forall>l \<in> set ls. compacted (hdr d l) (hdr e l)"
  shows "total (map (hdr e) ls) = total (filter (\<lambda>h. recordID h \<noteq> 0) (map (hdr d) ls))"
  using assms by (induction ls) (auto dest: compactedD(3))

lemma records_cong:
  assumes "recordID g = recordID (hdr d l)" "chainedBlockID g = chainedBlockID (hdr d l)"
    "chainedLocalID g = chainedLocalID (hdr d l)" "hdr f l = g" "unat l < nheaders d" "unat l < nheaders f"
    "recordID (hdr d l) \<noteq> 0 \<Longrightarrow> content f g = content d (hdr d l)"
  shows "records f l = records d l"
  using assms by (simp add: records_def)

lemma records_beyond: "nheaders d \<le> unat l \<Longrightarrow> records d l = None"
  by (simp add: records_def)

lemma records_SomeD: "records d l = Some r \<Longrightarrow> unat l < nheaders d \<and> recordID (hdr d l) = fst r \<and> fst r \<noteq> 0"
  by (auto simp: records_def split: if_splits)

lemma local_idI: "l \<in> set ls \<Longrightarrow> mset ls = mset (local_ids n) \<Longrightarrow> n \<le> 340 \<Longrightarrow> unat l < n"
  using mset_local_ids(2) by blast

context go_sorter begin

text \<open>The headers of a well-formed block, as the sort returns them.\<close>

lemma srt_wf:
  assumes "rb_wf d" "mset hs = mset (hdrs d)"
  obtains ks where "srt hs = map (hdr d) ks" "mset ks = mset (local_ids (nheaders d))" "packed 0 (map (hdr d) ks)"
proof -
  obtain ls where ls: "mset ls = mset (local_ids (nheaders d))" "packed 0 (map (hdr d) ls)"
    using rb_wfD(5) [OF assms(1)] by blast
  from srt_hdrs [of hs d ls] assms(2) hdrs_mset [OF ls(1)] obtain ks where
    ks: "srt hs = map (hdr d) ks" "mset ks = mset ls" by auto
  have "packed 0 (map (hdr d) ks)"
    using packed_sorted [OF ls(2), of "map (hdr d) ks"] ks srt_sorted [of hs] by simp
  with that ks ls show thesis by simp
qed

text \<open>\<open>Add\<close> when no header can be reused: the record is appended.\<close>

lemma Add_append:
  assumes "rb_wf d" "rid \<noteq> 0" "data \<noteq> []" "n = nheaders d"
    "\<And>l. unat l < n \<Longrightarrow> recordID (hdr d l) \<noteq> rid \<and> recordID (hdr d l) \<noteq> 0"
    "8 + 12 * (n + 1) + total (live_headers d) + length data \<le> 4096"
  shows "\<exists>f. Add srt rid data d = Ok (of_nat n, f) \<and> rb_wf f \<and>
    records f = (records d)(of_nat n \<mapsto> (rid, data, \<lparr>DataBlockID = 0, LocalID = 0\<rparr>)) \<and> agree 4088 4092 d f \<and>
    nheaders f = n + 1"
proof -
  note W = rb_wfD [OF assms(1), folded assms(4)]
  obtain ks where ks: "srt (hdrs d) = map (hdr d) ks" "mset ks = mset (local_ids n)" "packed 0 (map (hdr d) ks)"
    using srt_wf [OF assms(1) refl] unfolding assms(4) .
  note K = mset_local_ids [OF ks(2) W(2)]
  have hs: "mset (hdrs d) = mset (map (hdr d) ks)" using ks(2) by (intro hdrs_mset) (simp add: assms(4))
  have setk: "set (hdrs d) = hdr d ` set ks" using mset_eq_setD [OF hs] by simp
  have find: "find (\<lambda>h. recordID h = rid) (map (hdr d) ks) = None"
    "find (\<lambda>h. recordID h = 0) (map (hdr d) ks) = None" using assms(5) K(2) by (auto simp: find_None_iff)
  have run: "Add srt rid data d = writeRecord rid data (of_nat n) (n + 1) (util_of d + 12) d"
    using parseHeaders_Ok [OF W(1)] W(2) Utilization_Ok [OF W(1)] ks(1) find K(3)
    by (simp add: Add_def bind_def Let_def assms(4) RECORD_HEADER_SIZE_def)
  have "live_headers d = hdrs d" using setk assms(5) K(2) by (auto simp: live_headers_def intro: filter_True)
  then have u: "unat (util_of d) = 8 + 12 * n + total (map (hdr d) ks)"
    and room: "8 + 12 * (n + 1) + total (map (hdr d) ks) + length data \<le> 4096"
    using W(4) assms(6) mset_total [OF hs] by simp_all
  have "unat (util_of d + 12) = 8 + 12 * (n + 1) + total (map (hdr d) ks)"
    using u room by (subst unat_plus_no_wrap) simp_all
  from place_record [OF W(1) _ ks(3) _ this room assms(3,2), of "of_nat n"] obtain f where
    f: "writeRecord rid data (of_nat n) (n + 1) (util_of d + 12) d = Ok (of_nat n, f)" "rb_wf f" "nheaders f = n + 1"
      "agree 4088 4092 d f" "records f (of_nat n) = Some (rid, data, \<lparr>DataBlockID = 0, LocalID = 0\<rparr>)"
      "\<forall>l. l \<in> set ks \<longrightarrow> hdr f l = hdr d l \<and> content f (hdr f l) = content d (hdr d l)"
    using assms(5) W(6) K(2) ks(2) by auto
  have un: "unat (of_nat n :: u16) = n" using W(2) by simp
  have "records f = (records d)(of_nat n \<mapsto> (rid, data, \<lparr>DataBlockID = 0, LocalID = 0\<rparr>))"
  proof (rule ext)
    fix l
    consider "l \<in> set ks" "l \<noteq> of_nat n" | "l = of_nat n" | "n + 1 \<le> unat l" "l \<noteq> of_nat n"
      using K(2) un by (metis Suc_eq_plus1 Suc_leI linorder_neqE_nat word_of_nat_unat)
    then show "records f l = ((records d)(of_nat n \<mapsto> (rid, data, \<lparr>DataBlockID = 0, LocalID = 0\<rparr>))) l"
    proof cases
      case 1
      then have "hdr f l = hdr d l" "content f (hdr f l) = content d (hdr d l)" "unat l < n" using f(6) K(2) by auto
      with 1 show ?thesis using f(3) by (simp add: records_def assms(4))
    qed (use f(3,5) in \<open>simp_all add: records_beyond assms(4)\<close>)
  qed
  with run f(1,2,3,4) show ?thesis by auto
qed

text \<open>
  \<open>Add\<close> when header \<open>lid\<close> is reused, because its record was removed or because it holds \<open>rid\<close> with its
  data taken away: whatever order the two sorts choose, the block is compacted and the record
  goes to the end of the data.
\<close>

lemma Add_reuse:
  assumes "length d = 4096" "n = nheaders d" "n \<le> 340" "rid \<noteq> 0" "data \<noteq> []"
    "\<And>js. mset js = mset (local_ids n) \<Longrightarrow> sorted (map (startsAt \<circ> hdr d) js) \<Longrightarrow>
      ready 0 (map (hdr d) js) \<and> (\<forall>l \<in> set js. hsize (hdr d l) \<noteq> 0 \<longrightarrow> st (hdr d l) + sz (hdr d l) \<le> table_at n) \<and>
      total (map (hdr d) js) \<le> table_at n"
    "unat lid < n" "hsize (hdr d lid) = 0 \<or> recordID (hdr d lid) = 0"
    "\<And>js. mset js = mset (local_ids n) \<Longrightarrow> sorted (map (startsAt \<circ> hdr d) js) \<Longrightarrow> srt (hdrs d) = map (hdr d) js \<Longrightarrow>
      (case find (\<lambda>h. recordID h = rid) (map (hdr d) js) of Some h \<Rightarrow> Some h
       | None \<Rightarrow> find (\<lambda>h. recordID h = 0) (map (hdr d) js)) = Some (hdr d lid)"
    "unat (util_of d) = 8 + 12 * n + total (live_headers d)"
    "\<And>l. unat l < n \<Longrightarrow> l \<noteq> lid \<Longrightarrow> recordID (hdr d l) \<noteq> 0 \<Longrightarrow> hsize (hdr d l) \<noteq> 0"
    "8 + 12 * n + total (live_headers d) + length data \<le> 4096"
  shows "\<exists>f. Add srt rid data d = Ok (lid, f) \<and> rb_wf f \<and> agree 4088 4092 d f \<and>
    records f = (records d)(lid \<mapsto> (rid, data, \<lparr>DataBlockID = 0, LocalID = 0\<rparr>)) \<and> nheaders f = n"
proof -
  have perm: "\<exists>js. srt hs = map (hdr d) js \<and> mset js = mset (local_ids n) \<and> sorted (map (startsAt \<circ> hdr d) js)"
    if "mset hs = mset (hdrs d)" for hs
    using srt_hdrs [of hs d "local_ids n"] that srt_sorted [of hs] by (auto simp: hdrs_def assms(2))
  obtain ks where ks: "srt (hdrs d) = map (hdr d) ks" "mset ks = mset (local_ids n)" "sorted (map (startsAt \<circ> hdr d) ks)"
    using perm [OF refl] by blast
  have "mset (map (hdr d) ks) = mset (hdrs d)" using ks(1) srt_mset by metis
  with perm obtain js where js: "srt (map (hdr d) ks) = map (hdr d) js" "mset js = mset (local_ids n)"
    "sorted (map (startsAt \<circ> hdr d) js)" by blast
  note K = mset_local_ids [OF ks(2) assms(3)] and J = mset_local_ids [OF js(2) assms(3)]
  obtain e where e: "defrag_loop (length js) (map (hdr d) js) d = Ok ((), e)" "length e = 4096"
      "nheaders e = n" "util_of e = util_of d" "agree 4088 4096 d e" "packed 0 (map (hdr e) js)"
      "\<forall>l. unat l < n \<longrightarrow> compacted (hdr d l) (hdr e l) \<and>
        (recordID (hdr d l) \<noteq> 0 \<longrightarrow> content e (hdr e l) = content d (hdr d l))"
    using compact_core [of d js] assms(1-3) assms(6) [OF js(2,3)] js(2) by metis
  have "length (map (hdr d) ks) = length js" using K(3) J(3) by simp
  then have "defragment srt (map (hdr d) ks) d = Ok ((), e)" using js(1) e(1) by (simp add: defragment_def)
  then have run: "Add srt rid data d = writeRecord rid data lid n (util_of d) e"
    using parseHeaders_Ok [OF assms(1)] Utilization_Ok [OF assms(1)] assms(2,3) ks(1) K(3) assms(9) [OF ks(2,3,1)]
    by (simp add: Add_def bind_def Let_def seq_def cong: option.case_cong)
  have C: "hsize (hdr e l) = (if recordID (hdr d l) = 0 then 0 else hsize (hdr d l))"
      "recordID (hdr e l) = recordID (hdr d l)" "chainedBlockID (hdr e l) = chainedBlockID (hdr d l)"
      "chainedLocalID (hdr e l) = chainedLocalID (hdr d l)" if "unat l < n" for l
    using e(7) that compactedD by blast+
  have lj: "lid \<in> set js" using assms(7) J(2) by simp
  let ?ls = "remove1 lid js"
  have z: "hsize (hdr e lid) = 0" using C(1) [OF assms(7)] assms(8) by auto
  have "mset (?ls @ [lid]) = mset js" using lj by simp
  then have mls: "mset (?ls @ [lid]) = mset (local_ids n)" using js(2) by simp
  have setls: "l \<in> set ?ls \<longleftrightarrow> unat l < n \<and> l \<noteq> lid" for l using J(1,2) by auto
  have "total (map (hdr e) ?ls) = total (map (hdr e) js)" using total_remove [OF lj] z by simp
  also have "\<dots> = total (filter (\<lambda>h. recordID h \<noteq> 0) (map (hdr d) js))"
    using e(7) J(2) by (intro total_compacted) auto
  also have "\<dots> = total (live_headers d)"
    unfolding live_headers_def using js(2) by (intro mset_total) (simp add: hdrs_def assms(2))
  finally have t: "total (map (hdr e) ?ls) = total (live_headers d)" .
  have "8 + 12 * n + total (map (hdr e) ?ls) + length data \<le> 4096" "unat (util_of d) = 8 + 12 * n + total (map (hdr e) ?ls)"
    using assms(10,12) t by simp_all
  moreover have "recordID (hdr e l) = 0 \<longleftrightarrow> hsize (hdr e l) = 0" if "l \<in> set ?ls" for l
    using C(1,2) [of l] that setls assms(11) [of l] by auto
  ultimately obtain f where
    f: "writeRecord rid data lid n (util_of d) e = Ok (lid, f)" "rb_wf f" "nheaders f = n"
      "agree 4088 4092 e f" "records f lid = Some (rid, data, \<lparr>DataBlockID = 0, LocalID = 0\<rparr>)"
      "\<forall>l. l \<in> set ?ls \<longrightarrow> hdr f l = hdr e l \<and> content f (hdr f l) = content e (hdr e l)"
    using place_record [OF e(2) mls packed_remove [OF e(6) z] _ _ _ assms(5,4)] by blast
  have "records f = (records d)(lid \<mapsto> (rid, data, \<lparr>DataBlockID = 0, LocalID = 0\<rparr>))"
  proof (rule ext)
    fix l
    consider "unat l < n" "l \<noteq> lid" | "l = lid" | "n \<le> unat l" "l \<noteq> lid" using assms(7) by fastforce
    then show "records f l = ((records d)(lid \<mapsto> (rid, data, \<lparr>DataBlockID = 0, LocalID = 0\<rparr>))) l"
    proof cases
      case 1
      then have "hdr f l = hdr e l" "content f (hdr f l) = content e (hdr e l)" using f(6) setls by auto
      with 1 show ?thesis using f(3) C [of l] e(7) assms(2) by (simp add: records_def)
    qed (use f(3,5) assms(2) in \<open>simp_all add: records_beyond\<close>)
  qed
  moreover have "agree 4088 4092 d f" using agree_trans [OF agree_sub [OF e(5)] f(4)] by simp
  ultimately show ?thesis using run f(1,2,3) by auto
qed

text \<open>In a well-formed block every order of the headers by \<open>startsAt\<close> can be compacted.\<close>

lemma wf_ready:
  assumes "rb_wf d" "mset js = mset (local_ids (nheaders d))" "sorted (map (startsAt \<circ> hdr d) js)"
  shows "packed 0 (map (hdr d) js)" "ready 0 (map (hdr d) js)"
    "\<forall>l \<in> set js. hsize (hdr d l) \<noteq> 0 \<longrightarrow> st (hdr d l) + sz (hdr d l) \<le> table_at (nheaders d)"
    "total (map (hdr d) js) \<le> table_at (nheaders d)"
proof -
  note W = rb_wfD [OF assms(1)] and J = mset_local_ids [OF assms(2) rb_wfD(2) [OF assms(1)]]
  obtain ls where ls: "mset ls = mset (local_ids (nheaders d))" "packed 0 (map (hdr d) ls)" using W(5) by blast
  show p: "packed 0 (map (hdr d) js)"
    using packed_sorted [OF ls(2), of "map (hdr d) js"] ls(1) assms(2,3) by simp
  show "ready 0 (map (hdr d) js)" using J(2) W(6) by (intro packed_ready [OF p]) auto
  have "total (map (hdr d) js) = total (hdrs d)" using assms(2) by (intro mset_total) (simp add: hdrs_def)
  then show t: "total (map (hdr d) js) \<le> table_at (nheaders d)" using W(3) by (simp add: table_at_def)
  show "\<forall>l \<in> set js. hsize (hdr d l) \<noteq> 0 \<longrightarrow> st (hdr d l) + sz (hdr d l) \<le> table_at (nheaders d)"
    using packed_bound [OF p] t by fastforce
qed

lemma Add_Ok:
  assumes "rb_wf d" "rid \<noteq> 0" "data \<noteq> []" "\<forall>l r. records d l = Some r \<longrightarrow> fst r \<noteq> rid"
    "FreeSpaceForInsert d = Ok (fs, d)" "length data \<le> unat fs"
  shows "\<exists>l f. Add srt rid data d = Ok (l, f) \<and> rb_wf f \<and> records d l = None \<and>
    records f = (records d)(l \<mapsto> (rid, data, \<lparr>DataBlockID = 0, LocalID = 0\<rparr>)) \<and> agree 4088 4092 d f \<and>
    nheaders f = (if \<exists>h \<in> set (hdrs d). recordID h = 0 then nheaders d else nheaders d + 1)"
proof -
  define n where "n = nheaders d"
  note W = rb_wfD [OF assms(1), folded n_def]
  have fs: "unat fs = (if \<exists>h \<in> set (hdrs d). recordID h = 0 then 4096 - unat (util_of d)
      else 4096 - unat (util_of d) - 12)" "0 < length data"
    using FreeSpaceForInsert_Ok [OF assms(1)] assms(3,5) by auto
  have norid: "recordID (hdr d l) \<noteq> rid" if "unat l < n" for l
    using assms(2,4) that by (auto simp: records_def n_def split: if_splits)
  show ?thesis
  proof (cases "\<exists>h \<in> set (hdrs d). recordID h = 0")
    case False
    then have "recordID (hdr d l) \<noteq> rid \<and> recordID (hdr d l) \<noteq> 0" if "unat l < n" for l
      using norid that W(2) by (auto simp: hdrs_def n_def set_local_ids)
    moreover have "8 + 12 * (n + 1) + total (live_headers d) + length data \<le> 4096"
    proof -
      have "unat fs = 4096 - unat (util_of d) - 12" using fs False by simp
      with fs(2) assms(6) W(4) show ?thesis by arith
    qed
    moreover have "records d (of_nat n) = None" using W(2) by (intro records_beyond) (simp add: n_def)
    ultimately show ?thesis using Add_append [OF assms(1-3) n_def] False n_def by auto
  next
    case True
    obtain js where js: "srt (hdrs d) = map (hdr d) js" "mset js = mset (local_ids n)"
      using srt_wf [OF assms(1) refl] unfolding n_def by blast
    note J = mset_local_ids [OF js(2) W(2)]
    have rid: "find (\<lambda>h. recordID h = rid) (map (hdr d) js) = None"
      using norid J(2) by (auto simp: find_None_iff)
    have "set (hdrs d) = hdr d ` set js" using js(1) srt_set [of "hdrs d"] by (metis list.set_map)
    with True have "find (\<lambda>h. recordID h = 0) (map (hdr d) js) \<noteq> None" by (auto simp: find_None_iff)
    then obtain lid where lid: "find (\<lambda>h. recordID h = 0) (map (hdr d) js) = Some (hdr d lid)"
      "unat lid < n" "recordID (hdr d lid) = 0"
      using J(2) by (fastforce simp: find_Some_iff)
    have "\<exists>f. Add srt rid data d = Ok (lid, f) \<and> rb_wf f \<and> agree 4088 4092 d f \<and>
      records f = (records d)(lid \<mapsto> (rid, data, \<lparr>DataBlockID = 0, LocalID = 0\<rparr>)) \<and> nheaders f = n"
    proof (rule Add_reuse [OF W(1) n_def W(2) assms(2,3) _ lid(2)])
      fix gs :: "u16 list"
      assume i: "mset gs = mset (local_ids n)" "sorted (map (startsAt \<circ> hdr d) gs)"
      show "ready 0 (map (hdr d) gs) \<and>
        (\<forall>l \<in> set gs. hsize (hdr d l) \<noteq> 0 \<longrightarrow> st (hdr d l) + sz (hdr d l) \<le> table_at n) \<and>
        total (map (hdr d) gs) \<le> table_at n"
        using wf_ready [OF assms(1)] i by (simp add: n_def)
      assume "srt (hdrs d) = map (hdr d) gs"
      with js(1) have "map (hdr d) gs = map (hdr d) js" by simp
      then show "(case find (\<lambda>h. recordID h = rid) (map (hdr d) gs) of Some h \<Rightarrow> Some h
        | None \<Rightarrow> find (\<lambda>h. recordID h = 0) (map (hdr d) gs)) = Some (hdr d lid)"
        using rid lid(1) by simp
    next
      show "8 + 12 * n + total (live_headers d) + length data \<le> 4096"
        using fs True assms(6) W(4) rb_wf_util [OF assms(1)] by simp
    qed (use W(4,6) lid(3) in auto)
    moreover have "records d lid = None" using lid(3) by (simp add: records_def)
    ultimately show ?thesis using True n_def by auto
  qed
qed

end

end
