(* ===== verification/RecordOps.thy ===== *)
theory RecordOps
  imports RecordStore
begin

text \<open>
  The remaining methods of a record block on the map of its records: removing, chaining, clearing,
  reading, and the update of a record in place, which is \<open>SoftRemove\<close> followed by \<open>Add\<close>.
\<close>

section \<open>Changing a header\<close>

lemma header_pos_in:
  assumes "unat l < n" "n \<le> 340"
  shows "int (table_at n) \<le> header_pos l" "header_pos l \<le> 4076" "8 \<le> header_pos l" "unat l < 340"
  using header_pos_table [OF assms] header_pos_bounds [of l] assms by auto

lemma content_table:
  assumes "rb_wf d" "unat l < nheaders d" "hsize (hdr d l) \<noteq> 0"
  shows "st (hdr d l) + sz (hdr d l) \<le> table_at (nheaders d)"
proof -
  note W = rb_wfD [OF assms(1)]
  obtain ls where ls: "mset ls = mset (local_ids (nheaders d))" "packed 0 (map (hdr d) ls)" using W(5) by blast
  have "total (map (hdr d) ls) = total (hdrs d)" using ls by (intro mset_total) (simp add: hdrs_def)
  then have "total (map (hdr d) ls) \<le> table_at (nheaders d)" using W(3) by (simp add: table_at_def)
  moreover have "l \<in> set ls" using mset_local_ids(2) [OF ls(1) W(2)] assms(2) by simp
  ultimately show ?thesis using packed_bound [OF ls(2), of "hdr d l"] assms(3) by auto
qed

text \<open>The data of a record is out of reach of a change of the header table or of the trailer.\<close>

lemma content_keep:
  assumes "rb_wf d" "unat l < nheaders d" "agree 0 (table_at (nheaders d)) d f"
  shows "content f (hdr d l) = content d (hdr d l)"
proof (cases "hsize (hdr d l) = 0")
  case False
  then show ?thesis
    using content_table [OF assms(1,2)] rb_wfD(1) [OF assms(1)] table_at_le [of "nheaders d"]
    by (intro content_agree [OF assms(3)]) auto
qed (simp add: content_empty)

lemma content_same_extent:
  "startsAt g = startsAt h \<Longrightarrow> hsize g = hsize h \<Longrightarrow> content d g = content d h"
  by (simp add: content_def)

lemma packed_cong:
  "(\<And>l. l \<in> set ls \<Longrightarrow> startsAt (hdr f l) = startsAt (hdr d l) \<and> hsize (hdr f l) = hsize (hdr d l)) \<Longrightarrow>
    packed p (map (hdr f) ls) = packed p (map (hdr d) ls)"
  by (induction ls arbitrary: p) auto

lemma live_total_change:
  assumes "distinct ls" "l \<in> set ls" "\<And>m. m \<in> set ls \<Longrightarrow> m \<noteq> l \<Longrightarrow> hdr f m = hdr d m"
  shows "total (filter (\<lambda>h. recordID h \<noteq> 0) (map (hdr d) ls)) + (if recordID (hdr f l) = 0 then 0 else sz (hdr f l)) =
    total (filter (\<lambda>h. recordID h \<noteq> 0) (map (hdr f) ls)) + (if recordID (hdr d l) = 0 then 0 else sz (hdr d l))"
  using assms
proof (induction ls)
  case (Cons k ls)
  show ?case
  proof (cases "k = l")
    case True
    then have "map (hdr f) ls = map (hdr d) ls" using Cons.prems by (intro map_hdr_cong) auto
    with True show ?thesis by (simp only: list.map filter.simps) simp
  next
    case False
    then have "hdr f k = hdr d k" using Cons.prems by simp
    with False Cons show ?thesis by (auto split: if_splits)
  qed
qed simp

text \<open>
  One header changes its record ID, its chain or both, and the utilization follows: the block stays
  well formed.
\<close>

lemma change_header:
  assumes "rb_wf d" "unat l < nheaders d" "length f = 4096" "nheaders f = nheaders d"
    "agree 0 (table_at (nheaders d)) d f"
    "\<And>m. unat m < nheaders d \<Longrightarrow> m \<noteq> l \<Longrightarrow> hdr f m = hdr d m"
    "startsAt (hdr f l) = startsAt (hdr d l)" "hsize (hdr f l) = hsize (hdr d l)"
    "recordID (hdr f l) = recordID (hdr d l) \<or> recordID (hdr f l) = 0"
    "unat (util_of f) + (if recordID (hdr d l) = 0 then 0 else sz (hdr d l)) =
      unat (util_of d) + (if recordID (hdr f l) = 0 then 0 else sz (hdr d l))"
  shows "rb_wf f" "\<And>m. m \<noteq> l \<Longrightarrow> records f m = records d m"
    "recordID (hdr f l) \<noteq> 0 \<Longrightarrow> records f l = Some (recordID (hdr d l), content d (hdr d l),
      \<lparr>DataBlockID = chainedBlockID (hdr f l), LocalID = chainedLocalID (hdr f l)\<rparr>)"
    "recordID (hdr f l) = 0 \<Longrightarrow> records f l = None"
proof -
  note W = rb_wfD [OF assms(1)]
  obtain ls where ls: "mset ls = mset (local_ids (nheaders d))" "packed 0 (map (hdr d) ls)" using W(5) by blast
  note L = mset_local_ids [OF ls(1) W(2)]
  have ext: "startsAt (hdr f m) = startsAt (hdr d m) \<and> hsize (hdr f m) = hsize (hdr d m)" if "unat m < nheaders d" for m
    using assms(6-8) that by (cases "m = l") auto
  have ms: "mset (hdrs f) = mset (map (hdr f) ls)" "mset (hdrs d) = mset (map (hdr d) ls)"
    using hdrs_mset [of ls f] hdrs_mset [of ls d] ls(1) assms(4) by simp_all
  have tf: "total (hdrs f) = total (map (hdr f) ls)" "total (hdrs d) = total (map (hdr d) ls)"
    "total (live_headers f) = total (filter (\<lambda>h. recordID h \<noteq> 0) (map (hdr f) ls))"
    "total (live_headers d) = total (filter (\<lambda>h. recordID h \<noteq> 0) (map (hdr d) ls))"
    unfolding live_headers_def by (rule mset_total, use ms in simp)+
  have "total (map (hdr f) ls) = total (map (hdr d) ls)" using ext L(2) by (intro total_same_sizes) auto
  then have t: "total (hdrs f) = total (hdrs d)" using tf by simp
  have "total (live_headers d) + (if recordID (hdr f l) = 0 then 0 else sz (hdr d l)) =
      total (live_headers f) + (if recordID (hdr d l) = 0 then 0 else sz (hdr d l))"
    using live_total_change [OF L(1), of l f d] assms(2,6,8) L(2) unfolding tf by (auto split: if_splits)
  then have u: "unat (util_of f) = 8 + 12 * nheaders f + total (live_headers f)"
    using W(4) assms(4,10) by linarith
  show "rb_wf f"
  proof (rule rb_wfI [OF assms(3) _ u])
    show "8 + 12 * nheaders f + total (hdrs f) \<le> 4096" using W(3) t assms(4) by simp
    show "mset ls = mset (local_ids (nheaders f))" using ls(1) assms(4) by simp
    show "packed 0 (map (hdr f) ls)" using packed_cong [of ls f d] ext L(2) ls(2) by blast
    show "hsize (hdr f m) \<noteq> 0" if "unat m < nheaders f" "recordID (hdr f m) \<noteq> 0" for m
      using that W(6) [of m] assms(4,6,8,9) ext [of m] by (cases "m = l") auto
  qed
  have c: "content f (hdr f m) = content d (hdr d m)" if "unat m < nheaders d" for m
    using content_keep [OF assms(1) that assms(5)] content_same_extent [of "hdr f m" "hdr d m" f] ext [OF that] by simp
  show "records f m = records d m" if "m \<noteq> l" for m
    using that c [of m] assms(4,6) by (auto simp: records_def)
  show "records f l = Some (recordID (hdr d l), content d (hdr d l),
      \<lparr>DataBlockID = chainedBlockID (hdr f l), LocalID = chainedLocalID (hdr f l)\<rparr>)" if "recordID (hdr f l) \<noteq> 0"
    using that c [OF assms(2)] assms(2,4,9) by (simp add: records_def)
  show "records f l = None" if "recordID (hdr f l) = 0"
    using that by (simp add: records_def)
qed

lemma trailer_put:
  assumes "length d = 4096" "0 \<le> q" "q + int (length xs) \<le> 4092"
  shows "nheaders (put_at q xs d) = nheaders d" "util_of (put_at q xs d) = util_of d"
  using assms by (simp_all add: nheaders_def util_of_def)

lemma util_put:
  assumes "length d = 4096" "u \<noteq> 0"
  shows "util_of (put_at 4094 (be16_put u) d) = u" "nheaders (put_at 4094 (be16_put u) d) = nheaders d"
    "unat m < 340 \<Longrightarrow> hdr (put_at 4094 (be16_put u) d) m = hdr d m"
  using assms header_pos_bounds [of m] by (auto simp: util_of_def nheaders_def intro!: hdr_put_outside)

section \<open>Remove\<close>

text \<open>
  The block after \<open>Remove\<close> of any header: its record ID is zeroed and the utilization goes down by its
  size, whether or not the header held a record.
\<close>

definition removed :: "u16 \<Rightarrow> bytes \<Rightarrow> bytes" where
  "removed l d = put_at 4094 (be16_put (util_of d - hsize (hdr d l))) (put_at (header_pos l) (be32_put 0) d)"

lemma removed_table:
  assumes "rb_wf d" "unat l < nheaders d"
  shows "length (removed l d) = 4096" "nheaders (removed l d) = nheaders d"
    "u16_at 4094 (removed l d) = util_of d - hsize (hdr d l)"
    "unat m < 340 \<Longrightarrow> hdr (removed l d) m = (if m = l then (hdr d l)\<lparr>recordID := 0\<rparr> else hdr d m)"
    "agree 0 (table_at (nheaders d)) d (removed l d)" "agree 4088 4094 d (removed l d)"
proof -
  note W = rb_wfD [OF assms(1)]
  note hp = header_pos_in [OF assms(2) W(2)]
  let ?d1 = "put_at (header_pos l) (be32_put 0) d"
  have len: "length ?d1 = 4096" using W(1) hp by simp
  then show "length (removed l d) = 4096" by (simp add: removed_def)
  show "nheaders (removed l d) = nheaders d" "u16_at 4094 (removed l d) = util_of d - hsize (hdr d l)"
    using len W(1) hp by (simp_all add: removed_def nheaders_def)
  show "hdr (removed l d) m = (if m = l then (hdr d l)\<lparr>recordID := 0\<rparr> else hdr d m)" if m: "unat m < 340"
    using hdr_put_outside [OF len m, of 4094] header_pos_bounds [of m] m hdr_put(1) [OF W(1) hp(4) m]
    by (simp add: removed_def)
  have a: "agree lo hi d (removed l d)" if "hi \<le> nat (header_pos l) \<or> nat (header_pos l) + 4 \<le> lo" "hi \<le> 4094" for lo hi
    unfolding removed_def using that hp W(1) len
    by (intro agree_trans [OF agree_put_at agree_put_at]) auto
  show "agree 0 (table_at (nheaders d)) d (removed l d)" "agree 4088 4094 d (removed l d)"
    using hp table_at_le [of "nheaders d"] by (auto intro!: a)
qed

lemma Remove_run:
  assumes "rb_wf d" "unat l < nheaders d"
  shows "Remove l d = Ok (None, removed l d)" "u16_at 4094 (removed l d) = util_of d - hsize (hdr d l)"
    "u16_at 4092 (removed l d) = u16_at 4092 d" "u16_at 4090 (removed l d) = u16_at 4090 d"
    "u16_at 4088 (removed l d) = u16_at 4088 d"
proof -
  note W = rb_wfD [OF assms(1)]
  note hp = header_pos_in [OF assms(2) W(2)]
  let ?d1 = "put_at (header_pos l) (be32_put 0) d"
  have len: "length ?d1 = 4096" using W(1) hp by simp
  have "u16_at (header_pos l + 6) ?d1 = hsize (hdr d l)"
    using arg_cong [OF hdr_put(1) [OF W(1) hp(4) hp(4), of 0], of hsize] by (simp add: hdr_def)
  moreover have "util_of ?d1 = util_of d" using W(1) hp by (auto intro: trailer_put)
  ultimately show "Remove l d = Ok (None, removed l d)"
    using W(1) assms(2) hp len header_pos_word(1) [OF hp(4)]
    by (simp add: Remove_def bind_def seq_def Let_def ReadUint16_Ok ReadUint32_Ok Write_VUint32_Ok Write_VUint16_Ok
        Utilization_Ok nheaders_def word_le_nat_alt rb_consts removed_def)
  show "u16_at 4094 (removed l d) = util_of d - hsize (hdr d l)"
    "u16_at 4092 (removed l d) = u16_at 4092 d" "u16_at 4090 (removed l d) = u16_at 4090 d"
    "u16_at 4088 (removed l d) = u16_at 4088 d"
    using removed_table(3) [OF assms] W(1) by (auto intro: agree_u16_at [OF removed_table(6) [OF assms]])
qed

lemma Remove_Ok:
  assumes "rb_wf d" "records d l = Some r"
  shows "\<exists>f. Remove l d = Ok (None, f) \<and> rb_wf f \<and> records f = (records d)(l := None) \<and> agree 4088 4092 d f"
proof -
  note W = rb_wfD [OF assms(1)]
  have l: "unat l < nheaders d" "recordID (hdr d l) \<noteq> 0" using records_SomeD [OF assms(2)] by auto
  note hp = header_pos_in [OF l(1) W(2)]
  note R = removed_table [OF assms(1) l(1)]
  have live: "sz (hdr d l) \<le> total (live_headers d)"
  proof -
    have "hdr d l \<in> set (live_headers d)" using l W(2) by (auto simp: live_headers_def hdrs_def set_local_ids)
    then show ?thesis by (simp add: member_le_sum_list)
  qed
  have uu: "unat (u16_at 4094 (removed l d)) = unat (util_of d) - sz (hdr d l)"
    unfolding R(3) using W(4) live by (intro unat_minus_no_wrap) simp
  then have "unat (u16_at 4094 (removed l d)) \<noteq> 0" using W(4) live by simp
  then have "u16_at 4094 (removed l d) \<noteq> 0" by auto
  then have "unat (util_of (removed l d)) + sz (hdr d l) = unat (util_of d)"
    using uu W(4) live by (simp add: util_of_def)
  moreover have "agree 4088 4092 d (removed l d)" using R(6) by (auto simp: agree_def)
  ultimately show ?thesis
    using Remove_run(1) [OF assms(1) l(1)] change_header [OF assms(1) l(1) R(1,2,5)] R(4) hp(4) W(2) l(2)
    by (intro exI [of _ "removed l d"]) (auto simp: fun_eq_iff)
qed

text \<open>Removing a removed record: the records stay, the utilization does not.\<close>

lemma removed_again:
  assumes "rb_wf d" "unat l < nheaders d" "records d l = None"
  shows "records (removed l d) = records d" "rb_wf (removed l d) \<longleftrightarrow> hsize (hdr d l) = 0"
proof -
  note W = rb_wfD [OF assms(1)]
  note R = removed_table [OF assms(1,2)]
  have l: "recordID (hdr d l) = 0" using assms(2,3) by (simp add: records_def split: if_splits)
  then have h: "hdr (removed l d) m = hdr d m" if "unat m < 340" for m using R(4) [OF that] by simp
  have "content (removed l d) (hdr d m) = content d (hdr d m)" if "unat m < nheaders d" for m
    by (rule content_keep [OF assms(1) that R(5)])
  then show r: "records (removed l d) = records d"
    using h R(2) W(2) by (auto simp: records_def fun_eq_iff)
  have "hdrs (removed l d) = hdrs d" using h R(2) W(2) by (auto simp: hdrs_def set_local_ids)
  then have lv: "live_headers (removed l d) = live_headers d" by (simp add: live_headers_def)
  show "rb_wf (removed l d) \<longleftrightarrow> hsize (hdr d l) = 0"
  proof
    assume "rb_wf (removed l d)"
    from rb_wfD(4) [OF this] W(4) have u: "unat (util_of (removed l d)) = unat (util_of d)" using R(2) lv by simp
    moreover have "unat (util_of d) > 8" using W(4) assms(2) by simp
    ultimately have "util_of d - hsize (hdr d l) = util_of d" using R(3) by (auto simp: util_of_def split: if_splits)
    then show "hsize (hdr d l) = 0" by simp
  next
    assume z: "hsize (hdr d l) = 0"
    have "unat (util_of d) > 8" using W(4) assms(2) by simp
    then have "util_of (removed l d) = util_of d" using R(3) z by (auto simp: util_of_def)
    then show "rb_wf (removed l d)"
      using h W(2) assms(2) l by (intro change_header(1) [OF assms(1,2) R(1,2,5)]) auto
  qed
qed

section \<open>Chaining\<close>

lemma SetChainedRowID_Ok:
  assumes "rb_wf d" "records d l = Some (rid, data, c)"
  shows "\<exists>f. SetChainedRowID l row d = Ok (Inr (), f) \<and> rb_wf f \<and>
    records f = (records d)(l \<mapsto> (rid, data, row)) \<and> agree 4088 4096 d f"
proof -
  note W = rb_wfD [OF assms(1)]
  have l: "unat l < nheaders d" "recordID (hdr d l) \<noteq> 0" using records_SomeD [OF assms(2)] by auto
  note hp = header_pos_in [OF l(1) W(2)]
  define d1 where "d1 = put_at (header_pos l + 8) (be16_put (DataBlockID row)) d"
  define f where "f = put_at (header_pos l + 10) (be16_put (LocalID row)) d1"
  have len: "length d1 = 4096" "length f = 4096" using W(1) hp by (simp_all add: d1_def f_def)
  have hf: "hdr f m = (if m = l then (hdr d l)\<lparr>chainedBlockID := DataBlockID row, chainedLocalID := LocalID row\<rparr> else hdr d m)"
    if "unat m < 340" for m
    using hdr_put(5) [OF len(1) hp(4) that, where v = "LocalID row", folded f_def]
      hdr_put(4) [OF W(1) hp(4) that, where v = "DataBlockID row", folded d1_def]
      hdr_put(4) [OF W(1) hp(4) hp(4), where v = "DataBlockID row", folded d1_def] by simp
  have run: "SetChainedRowID l row d = Ok (Inr (), f)"
    using W(1,2) l hp len
    by (simp add: SetChainedRowID_def checkLocalID_Ok bind_def seq_def Write_VUint16_Ok rb_consts d1_def [symmetric] f_def)
  have nu: "nheaders f = nheaders d" "util_of f = util_of d"
    using trailer_put [OF len(1), of "header_pos l + 10"] trailer_put [OF W(1), of "header_pos l + 8"] hp
    by (simp_all add: f_def d1_def)
  have a: "agree lo hi d f" if "hi \<le> nat (header_pos l + 8) \<or> nat (header_pos l + 12) \<le> lo" for lo hi
  proof (rule agree_trans)
    show "agree lo hi d d1" unfolding d1_def using that hp W(1) by (intro agree_put_at) auto
    show "agree lo hi d1 f" unfolding f_def using that hp len by (intro agree_put_at) auto
  qed
  have ag: "agree 0 (table_at (nheaders d)) d f" "agree 4088 4096 d f"
    using hp table_at_le [of "nheaders d"] by (auto intro!: a)
  note C = change_header [OF assms(1) l(1) len(2) nu(1) ag(1)]
  have "rb_wf f" "\<And>m. m \<noteq> l \<Longrightarrow> records f m = records d m"
    "records f l = Some (recordID (hdr d l), content d (hdr d l), row)"
    using C hf hp(4) W(2) l(2) nu by (auto simp: records_def)
  moreover have "rid = recordID (hdr d l)" "data = content d (hdr d l)" using assms(2) l by (auto simp: records_def)
  ultimately show ?thesis using run ag by (auto simp: fun_eq_iff)
qed

section \<open>SoftRemove\<close>

lemma be32_put_0: "be32_put 0 = replicate 4 0"
  by (simp add: be32_put_def numeral_eq_Suc)

lemma put_zeros:
  assumes "0 \<le> p" "0 \<le> j" "nat j \<le> m" "p + j + int k \<le> int (length d)" "m \<le> nat j + k"
  shows "put_at (p + j) (replicate k 0) (put_at p (replicate m 0) d) = put_at p (replicate (nat j + k) 0) d"
proof (rule nth_equalityI)
  have l: "nat p + m \<le> length d" "nat p + nat j + k \<le> length d" "nat (p + j) = nat p + nat j"
    using assms by auto
  then show "length (put_at (p + j) (replicate k 0) (put_at p (replicate m 0) d)) =
    length (put_at p (replicate (nat j + k) 0) d)" by (simp add: put_at_def)
  fix i assume "i < length (put_at (p + j) (replicate k 0) (put_at p (replicate m 0) d))"
  then have "i < length d" using l by (simp add: put_at_def)
  then show "put_at (p + j) (replicate k 0) (put_at p (replicate m 0) d) ! i =
      put_at p (replicate (nat j + k) 0) d ! i"
    using l assms(3,5) by (auto simp: put_at_def nth_splice less_diff_conv2)
qed

lemma u16_at_inside_zeros:
  assumes "0 \<le> p" "p + int k \<le> int (length d)" "p \<le> q" "q + 2 \<le> p + int k"
  shows "u16_at q (put_at p (replicate k 0) d) = 0"
proof -
  have "bytes_at q 2 (put_at p (replicate k 0) d) = slice (nat q - nat p) 2 (replicate k 0)"
    unfolding bytes_at_def put_at_def using assms by (intro slice_splice_inside) auto
  also have "\<dots> = replicate 2 0" using assms by (intro slice_replicate) auto
  finally show ?thesis by (simp only: u16_at_def be16_get_zeros)
qed

text \<open>The two bytes that \<open>SoftRemove\<close> writes past the header are the high half of a record ID.\<close>

lemma u32_at_high_zeros:
  assumes "0 \<le> p" "p + 10 \<le> int (length d)"
  shows "u32_at (p + 6) (put_at p (replicate 8 0) d) = take_bit 16 (u32_at (p + 6) d)"
proof -
  let ?f = "put_at p (replicate 8 0) d"
  have l: "nat p + 10 \<le> length d" "nat (p + 6) = nat p + 6" using assms by auto
  have b: "bytes_at (p + 6) 4 ?f ! i = (if i < 2 then 0 else bytes_at (p + 6) 4 d ! i)" if "i < 4" for i
    using l that unfolding bytes_at_def put_at_def by (subst nth_slice; simp add: nth_slice nth_splice)
  have "be32_get x = take_bit 16 (be32_get y)"
    if "x ! 0 = 0" "x ! 1 = 0" "x ! 2 = y ! 2" "x ! 3 = y ! 3" for x y
    using that unfolding be32_get_def by (intro bit_word_eqI) (auto simp: bit_simps byte_bit_high)
  then show ?thesis unfolding u32_at_def using b [of 0] b [of 1] b [of 2] b [of 3] by simp
qed

text \<open>
  \<open>SoftRemove\<close> takes the data of a record away and keeps its ID. It writes four bytes where the
  fields have two: the record ID of the header above loses its high half, and the header with
  local ID 0 has no header above, there the pointer to the previous block is cleared.
\<close>

definition softened :: "u16 \<Rightarrow> bytes \<Rightarrow> bytes \<Rightarrow> bool" where
  "softened l d f \<longleftrightarrow> length f = 4096 \<and> nheaders f = nheaders d \<and>
     unat (util_of f) = unat (util_of d) - sz (hdr d l) \<and>
     hdr f l = (hdr d l)\<lparr>hsize := 0, chainedBlockID := 0, chainedLocalID := 0\<rparr> \<and>
     (\<forall>m. unat m < nheaders d \<longrightarrow> m \<noteq> l \<longrightarrow> hdr f m =
       (if unat m + 1 = unat l then (hdr d m)\<lparr>recordID := take_bit 16 (recordID (hdr d m))\<rparr> else hdr d m)) \<and>
     agree 0 (table_at (nheaders d)) d f \<and> u16_at 4090 f = u16_at 4090 d \<and>
     u16_at 4088 f = (if l = 0 then 0 else u16_at 4088 d)"

lemma soft_bytes:
  assumes "length d = 4096" "unat l < 340"
  defines "f \<equiv> put_at (header_pos l + 6) (replicate 8 0) d"
  shows "hdr f l = (hdr d l)\<lparr>hsize := 0, chainedBlockID := 0, chainedLocalID := 0\<rparr>"
    "\<And>m. unat m < 340 \<Longrightarrow> m \<noteq> l \<Longrightarrow> hdr f m =
       (if unat m + 1 = unat l then (hdr d m)\<lparr>recordID := take_bit 16 (recordID (hdr d m))\<rparr> else hdr d m)"
    "u16_at 4088 f = (if l = 0 then 0 else u16_at 4088 d)"
proof -
  have hp: "8 \<le> header_pos l" "header_pos l \<le> 4076" using header_pos_bounds assms(2) by auto
  show "hdr f l = (hdr d l)\<lparr>hsize := 0, chainedBlockID := 0, chainedLocalID := 0\<rparr>"
    using hp assms(1) by (simp add: hdr_def f_def u16_at_inside_zeros)
  show "hdr f m = (if unat m + 1 = unat l then (hdr d m)\<lparr>recordID := take_bit 16 (recordID (hdr d m))\<rparr> else hdr d m)"
    if m: "unat m < 340" "m \<noteq> l" for m
  proof (cases "unat m + 1 = unat l")
    case True
    then have "header_pos m = header_pos l + 6 + 6" by (simp add: header_pos_eq)
    moreover have "u32_at (header_pos l + 6 + 6) f = take_bit 16 (u32_at (header_pos l + 6 + 6) d)"
      unfolding f_def using hp assms(1) by (intro u32_at_high_zeros) auto
    moreover have "header_pos m \<le> 4076" by (rule header_pos_bounds)
    ultimately show ?thesis using True hp assms(1) by (simp add: hdr_def f_def)
  next
    case False
    have "unat m \<noteq> unat l" using m(2) by simp
    with False have "unat m + 2 \<le> unat l \<or> unat l < unat m" by linarith
    then have "header_pos l + 24 \<le> header_pos m \<or> header_pos m + 12 \<le> header_pos l" by (auto simp: header_pos_eq)
    then have "hdr f m = hdr d m" unfolding f_def using hp assms(1) m by (intro hdr_put_outside) auto
    with False show ?thesis by simp
  qed
  show "u16_at 4088 f = (if l = 0 then 0 else u16_at 4088 d)"
  proof (cases "l = 0")
    case True
    then show ?thesis using assms(1) by (simp add: f_def header_pos_eq u16_at_inside_zeros)
  next
    case False
    then have "1 \<le> unat l" by (metis One_nat_def Suc_leI gr0I unat_0 unat_u16_eq_iff)
    then have "header_pos l \<le> 4064" by (simp add: header_pos_eq)
    with False show ?thesis using hp assms(1) by (simp add: f_def)
  qed
qed

lemma SoftRemove_Ok:
  assumes "rb_wf d" "unat l < nheaders d" "recordID (hdr d l) \<noteq> 0"
  shows "\<exists>f. SoftRemove l d = Ok (None, f) \<and> softened l d f"
proof -
  note W = rb_wfD [OF assms(1)] and hp = header_pos_in [OF assms(2) rb_wfD(2) [OF assms(1)]]
  have "hdr d l \<in> set (live_headers d)" using assms W(2) by (auto simp: live_headers_def hdrs_def set_local_ids)
  then have live: "sz (hdr d l) \<le> total (live_headers d)" by (simp add: member_le_sum_list)
  let ?p = "header_pos l + 6"
  define u where "u = util_of d - hsize (hdr d l)"
  define d1 where "d1 = put_at ?p (replicate 8 0) d"
  define f where "f = put_at 4094 (be16_put u) d1"
  have uu: "unat u = unat (util_of d) - sz (hdr d l)" "u \<noteq> 0"
  proof -
    show *: "unat u = unat (util_of d) - sz (hdr d l)"
      unfolding u_def using W(4) live by (intro unat_minus_no_wrap) simp
    then have "unat u \<noteq> 0" using W(4) live by simp
    then show "u \<noteq> 0" by auto
  qed
  have len: "length d1 = 4096" "length f = 4096" using W(1) hp by (simp_all add: d1_def f_def)
  have z: "put_at (?p + 2) (replicate 4 0) (put_at ?p (replicate 4 0) d) = put_at ?p (replicate 6 0) d"
    "put_at (?p + 4) (replicate 4 0) (put_at ?p (replicate 6 0) d) = d1"
    using put_zeros [of ?p 2 4 4 d] put_zeros [of ?p 4 6 4 d] W(1) hp by (simp_all add: d1_def)
  have w: "Write (header_pos l + 6) (VUint32 0) d = Ok ((), put_at ?p (replicate 4 0) d)"
    "Write (header_pos l + 8) (VUint32 0) (put_at ?p (replicate 4 0) d) = Ok ((), put_at ?p (replicate 6 0) d)"
    "Write (header_pos l + 10) (VUint32 0) (put_at ?p (replicate 6 0) d) = Ok ((), d1)"
    using z W(1) hp by (simp_all add: Write_VUint32_Ok be32_put_0 add.commute)
  have nu: "nheaders d1 = nheaders d" "util_of d1 = util_of d"
    unfolding d1_def using W(1) hp by (auto intro: trailer_put)
  have "u16_at (header_pos l + 6) d = hsize (hdr d l)" by (simp add: hdr_def)
  then have run: "SoftRemove l d = Ok (None, f)"
    using W(1) assms(2) hp len w nu
    by (simp add: SoftRemove_def bind_def seq_def Let_def ReadUint16_Ok ReadUint32_Ok Write_VUint16_Ok
        Utilization_Ok nheaders_def word_le_nat_alt rb_consts u_def [symmetric] f_def)
  have up: "util_of f = u" "nheaders f = nheaders d" "\<And>m. unat m < 340 \<Longrightarrow> hdr f m = hdr d1 m"
    using util_put [OF len(1) uu(2)] nu by (simp_all add: f_def)
  have "u16_at 4088 f = u16_at 4088 d1" "u16_at 4090 f = u16_at 4090 d"
    using len(1) hp W(1) by (simp_all add: f_def d1_def)
  moreover have "agree 0 (table_at (nheaders d)) d f"
  proof (rule agree_trans)
    show "agree 0 (table_at (nheaders d)) d d1" unfolding d1_def using hp W(1) by (intro agree_put_at) auto
    show "agree 0 (table_at (nheaders d)) d1 f"
      unfolding f_def using len table_at_le [of "nheaders d"] by (intro agree_put_at) auto
  qed
  ultimately have "softened l d f"
    using soft_bytes [OF W(1) hp(4)] up uu(1) len(2) hp(4) W(2) unfolding softened_def d1_def [symmetric] by auto
  with run show ?thesis by blast
qed

section \<open>The update of a record in place\<close>

lemma find_unique:
  assumes "x \<in> set xs" "P x" "\<forall>y \<in> set xs. P y \<longrightarrow> y = x"
  shows "find P xs = Some x"
  using assms by (induction xs) (simp, fastforce)

lemma soft_chain:
  "chain p (map (hdr d) js) \<Longrightarrow> (\<And>m. m \<in> set js \<Longrightarrow> hdr s m = hdr d m \<or> hsize (hdr s m) = 0) \<Longrightarrow>
    chain p (map (hdr s) js)"
proof (induction js arbitrary: p)
  case (Cons k js)
  then have k: "hdr s k = hdr d k \<or> hsize (hdr s k) = 0" by simp
  have rest: "chain q (map (hdr d) js) \<Longrightarrow> chain q (map (hdr s) js)" for q
    using Cons.IH Cons.prems(2) by simp
  from k show ?case
  proof
    assume "hdr s k = hdr d k"
    with rest Cons.prems(1) show ?thesis by (auto split: if_splits)
  next
    assume "hsize (hdr s k) = 0"
    moreover have "chain p (map (hdr d) js)" using Cons.prems(1) by (auto intro: chain_mono split: if_splits)
    ultimately show ?thesis using rest by simp
  qed
qed simp

lemma soft_ready:
  assumes "packed p (map (hdr d) js)" "distinct js"
    "\<And>m. m \<in> set js \<Longrightarrow> m \<noteq> l \<Longrightarrow> hdr s m = hdr d m"
    "\<And>m. m \<in> set js \<Longrightarrow> recordID (hdr d m) \<noteq> 0 \<Longrightarrow> hsize (hdr d m) \<noteq> 0"
    "startsAt (hdr s l) = startsAt (hdr d l)" "hsize (hdr s l) = 0" "recordID (hdr s l) = recordID (hdr d l)"
    "recordID (hdr d l) \<noteq> 0"
  shows "ready p (map (hdr s) js)"
  using assms(1-4)
proof (induction js arbitrary: p)
  case (Cons k js)
  show ?case
  proof (cases "k = l")
    case True
    have "map (hdr s) js = map (hdr d) js" using Cons.prems True by (intro map_hdr_cong) auto
    moreover have "hsize (hdr d k) \<noteq> 0" using Cons.prems True assms(8) by auto
    ultimately show ?thesis
      using Cons.prems True assms(5-8) by (simp del: map_eq_conv) (metis chain_mono le_add1 packed_chain)
  next
    case False
    then have "hdr s k = hdr d k" using Cons.prems by simp
    moreover have "hdr s m = hdr d m \<or> hsize (hdr s m) = 0" if "m \<in> set js" for m
      using Cons.prems(3) [of m] that assms(6) by (cases "m = l") auto
    then have "chain (p + sz (hdr d k)) (map (hdr s) js)" if "packed (p + sz (hdr d k)) (map (hdr d) js)"
      using soft_chain [OF packed_chain [OF that]] by blast
    ultimately show ?thesis
      using Cons.IH [of p] Cons.IH [of "p + sz (hdr d k)"] Cons.prems False
      by (auto intro: chain_mono split: if_splits)
  qed
qed simp

lemma total_soft:
  assumes "\<And>m. m \<in> set js \<Longrightarrow> sz (hdr s m) \<le> sz (hdr d m)"
  shows "total (map (hdr s) js) \<le> total (map (hdr d) js)"
  using assms by (induction js) (auto intro: add_mono)

context go_sorter begin

text \<open>
  \<open>SoftRemove\<close> and \<open>Add\<close> with the same record ID give the record new data under its local ID and
  leave every other record alone, as long as the header above holds an ID below \<open>2^16\<close>.
\<close>

lemma update_Ok:
  assumes "rb_wf d" "records d l = Some (rid, old, c)" "data \<noteq> []"
    "\<And>m r. m \<noteq> l \<Longrightarrow> records d m = Some r \<Longrightarrow> fst r \<noteq> rid"
    "\<And>m. unat m < nheaders d \<Longrightarrow> unat m + 1 = unat l \<Longrightarrow> recordID (hdr d m) < 65536"
    "SoftRemove l d = Ok (None, s)" "FreeSpaceForInsert s = Ok (fs, s)" "length data \<le> unat fs"
  shows "\<exists>f. Add srt rid data s = Ok (l, f) \<and> rb_wf f \<and>
    records f = (records d)(l \<mapsto> (rid, data, \<lparr>DataBlockID = 0, LocalID = 0\<rparr>)) \<and>
    u16_at 4090 f = u16_at 4090 d \<and> u16_at 4088 f = (if l = 0 then 0 else u16_at 4088 d)"
proof -
  define n where "n = nheaders d"
  note W = rb_wfD [OF assms(1), folded n_def]
  have l: "unat l < n" "recordID (hdr d l) = rid" "rid \<noteq> 0"
    using records_SomeD [OF assms(2)] by (auto simp: n_def)
  from SoftRemove_Ok [OF assms(1), of l] l assms(6) have "softened l d s" by (simp add: n_def)
  then have s: "length s = 4096" "nheaders s = n" "unat (util_of s) = unat (util_of d) - sz (hdr d l)"
      "hdr s l = (hdr d l)\<lparr>hsize := 0, chainedBlockID := 0, chainedLocalID := 0\<rparr>"
      "agree 0 (table_at n) d s" "u16_at 4090 s = u16_at 4090 d"
      "u16_at 4088 s = (if l = 0 then 0 else u16_at 4088 d)"
    and nb: "\<And>m. unat m < n \<Longrightarrow> m \<noteq> l \<Longrightarrow> hdr s m =
       (if unat m + 1 = unat l then (hdr d m)\<lparr>recordID := take_bit 16 (recordID (hdr d m))\<rparr> else hdr d m)"
    by (auto simp: softened_def n_def)
  have same: "hdr s m = hdr d m" if m: "unat m < n" "m \<noteq> l" for m
  proof (cases "unat m + 1 = unat l")
    case True
    then have "recordID (hdr d m) < 65536" using assms(5) m(1) by (simp add: n_def)
    then have "unat (take_bit 16 (recordID (hdr d m))) = unat (recordID (hdr d m))"
      by (simp add: unsigned_take_bit_eq take_bit_nat_eq_self word_less_nat_alt)
    then have "take_bit 16 (recordID (hdr d m)) = recordID (hdr d m)" by (rule unsigned_word_eqI)
    then have "(hdr d m)\<lparr>recordID := take_bit 16 (recordID (hdr d m))\<rparr> = hdr d m" by (simp add: hdr_def)
    then show ?thesis using nb [OF m] True by simp
  qed (use nb [OF m] in simp)
  note ids = mset_local_ids [OF refl W(2)]
  have lsz: "hsize (hdr d l) \<noteq> 0" using W(6) l by simp
  have live: "total (live_headers s) + sz (hdr d l) = total (live_headers d)"
    unfolding live_headers_def hdrs_def s(2) n_def [symmetric]
    using live_total_change [OF ids(1), of l s d] ids(2) same l s(4) by simp
  have room: "8 + 12 * n + total (live_headers s) + length data \<le> 4096"
    and util: "unat (util_of s) = 8 + 12 * n + total (live_headers s)"
  proof -
    show u: "unat (util_of s) = 8 + 12 * n + total (live_headers s)" using s(3) live W(4) by linarith
    have "unat (util_of s) \<le> 4096" using s(3) rb_wf_util [OF assms(1)] by simp
    with FreeSpaceForInsert_run [OF s(1)] s(2) W(2) assms(7) have "unat fs \<le> 4096 - unat (util_of s)"
      by (auto split: if_splits)
    moreover have "0 < length data" using assms(3) by simp
    ultimately show "8 + 12 * n + total (live_headers s) + length data \<le> 4096" using u assms(8) by arith
  qed
  have "\<exists>f. Add srt rid data s = Ok (l, f) \<and> rb_wf f \<and> agree 4088 4092 s f \<and>
    records f = (records s)(l \<mapsto> (rid, data, \<lparr>DataBlockID = 0, LocalID = 0\<rparr>)) \<and> nheaders f = n"
  proof (rule Add_reuse [OF s(1) s(2) [symmetric] W(2) l(3) assms(3) _ l(1) _ _ util _ room])
    fix js :: "u16 list"
    assume j: "mset js = mset (local_ids n)" "sorted (map (startsAt \<circ> hdr s) js)"
    note J = mset_local_ids [OF j(1) W(2)]
    have st: "startsAt (hdr s m) = startsAt (hdr d m)" "sz (hdr s m) \<le> sz (hdr d m)"
      "recordID (hdr s m) = recordID (hdr d m)" if "m \<in> set js" for m
      using same [of m] s(4) that J(2) by (cases "m = l"; simp)+
    have eq: "map (startsAt \<circ> hdr s) js = map (startsAt \<circ> hdr d) js" using st(1) by simp
    have "sorted (map (startsAt \<circ> hdr d) js)" using j(2) unfolding eq .
    note R = wf_ready [OF assms(1), folded n_def, OF j(1) this]
    have "ready 0 (map (hdr s) js)"
      using J same W(6) s(4) l by (intro soft_ready [OF R(1) J(1), of l s]) auto
    moreover have "st (hdr s m) + sz (hdr s m) \<le> table_at n" if m: "m \<in> set js" "hsize (hdr s m) \<noteq> 0" for m
    proof -
      have "m \<noteq> l" using m s(4) by auto
      then show ?thesis using R(3) m same [of m] J(2) by auto
    qed
    moreover have "total (map (hdr s) js) \<le> table_at n" using total_soft [of js s d] st(2) R(4) by fastforce
    ultimately show "ready 0 (map (hdr s) js) \<and>
      (\<forall>l \<in> set js. hsize (hdr s l) \<noteq> 0 \<longrightarrow> st (hdr s l) + sz (hdr s l) \<le> table_at n) \<and>
      total (map (hdr s) js) \<le> table_at n" by blast
    have uniq: "m = l" if "m \<in> set js" "recordID (hdr s m) = rid" for m
    proof (rule ccontr)
      assume "m \<noteq> l"
      have "unat m < n" using J(2) that(1) by blast
      then have "unat m < nheaders d" by (simp add: n_def)
      moreover have "recordID (hdr d m) = rid" using st(3) [OF that(1)] that(2) by simp
      ultimately have "\<exists>r. records d m = Some r \<and> fst r = rid" using l(3) by (simp add: records_def)
      with assms(4) [OF \<open>m \<noteq> l\<close>] show False by blast
    qed
    have "find (\<lambda>h. recordID h = rid) (map (hdr s) js) = Some (hdr s l)"
    proof (rule find_unique)
      show "hdr s l \<in> set (map (hdr s) js)" using l(1) J(2) by simp
      show "recordID (hdr s l) = rid" using s(4) l(2) by simp
      show "\<forall>y \<in> set (map (hdr s) js). recordID y = rid \<longrightarrow> y = hdr s l" using uniq by auto
    qed
    then show "(case find (\<lambda>h. recordID h = rid) (map (hdr s) js) of Some h \<Rightarrow> Some h
      | None \<Rightarrow> find (\<lambda>h. recordID h = 0) (map (hdr s) js)) = Some (hdr s l)" by simp
  next
    show "hsize (hdr s l) = 0 \<or> recordID (hdr s l) = 0" using s(4) by simp
    show "hsize (hdr s m) \<noteq> 0" if "unat m < n" "m \<noteq> l" "recordID (hdr s m) \<noteq> 0" for m
      using that same W(6) by simp
  qed
  then obtain f where f: "Add srt rid data s = Ok (l, f)" "rb_wf f" "agree 4088 4092 s f"
    "records f = (records s)(l \<mapsto> (rid, data, \<lparr>DataBlockID = 0, LocalID = 0\<rparr>))" by blast
  have "records s m = records d m" if "m \<noteq> l" for m
  proof (cases "unat m < n")
    case True
    then show ?thesis
      using same [OF True that] content_keep [OF assms(1), of m s] s(2,5) by (simp add: records_def n_def)
  qed (use s(2) in \<open>simp add: records_beyond n_def\<close>)
  then have "records f = (records d)(l \<mapsto> (rid, data, \<lparr>DataBlockID = 0, LocalID = 0\<rparr>))"
    using f(4) by (auto simp: fun_eq_iff)
  moreover have "u16_at 4090 f = u16_at 4090 s" "u16_at 4088 f = u16_at 4088 s"
    using f(3) s(1) by (auto intro: agree_u16_at)
  ultimately show ?thesis using f s(6,7) by auto
qed

end

section \<open>Reading\<close>

lemma records_extent:
  assumes "rb_wf d" "unat l < nheaders d" "recordID (hdr d l) \<noteq> 0"
  shows "st (hdr d l) + sz (hdr d l) \<le> 4096"
  using content_table [OF assms(1,2)] rb_wfD(6) [OF assms] table_at_le [of "nheaders d"] by fastforce

lemma reads_Ok:
  assumes "rb_wf d"
  shows "ReadRecordData l d = Ok (case records d l of None \<Rightarrow> Inl (ErrInvalidLocalID l) | Some (_, data, _) \<Rightarrow> Inr data, d)"
    "ChainedRowID l d = Ok (case records d l of None \<Rightarrow> Inl (ErrInvalidLocalID l) | Some (_, _, c) \<Rightarrow> Inr c, d)"
proof -
  note W = rb_wfD [OF assms]
  show "ChainedRowID l d = Ok (case records d l of None \<Rightarrow> Inl (ErrInvalidLocalID l) | Some (_, _, c) \<Rightarrow> Inr c, d)"
    using ChainedRowID_Ok [OF W(1,2)] by (auto simp: records_def)
  show "ReadRecordData l d = Ok (case records d l of None \<Rightarrow> Inl (ErrInvalidLocalID l) | Some (_, data, _) \<Rightarrow> Inr data, d)"
  proof (cases "nheaders d \<le> unat l \<or> recordID (hdr d l) = 0")
    case True
    then have "ReadRecordData l d = Ok (Inl (ErrInvalidLocalID l), d)"
      by (simp add: ReadRecordData_def checkLocalID_Ok [OF W(1,2)])
    with True show ?thesis by (auto simp: records_def)
  next
    case False
    then have "st (hdr d l) + sz (hdr d l) \<le> 4096" using records_extent [OF assms] by simp
    then show ?thesis using False ReadRecordData_Ok [OF W(1,2)] by (auto simp: records_def content_def)
  qed
qed

lemma ids_loop_Ok:
  assumes "length d = 4096" "\<forall>i \<in> set is. i < 340"
  shows "ids_loop is d = Ok (map (\<lambda>i. recordID (hdr d (of_nat i))) is, d)"
  using assms(2)
proof (induction "is")
  case (Cons i "is")
  then show ?case
    using header_pos_bounds [of "of_nat i"] assms(1) by (simp add: bind_def ReadUint32_Ok rb_consts hdr_def)
qed simp

lemma count_foldl:
  "foldl (\<lambda>n h. if P h then n + 1 else n) (k :: int) hs = k + int (length (filter P hs))"
  by (induction hs arbitrary: k) auto

section \<open>An empty block\<close>

lemma empty_wf:
  assumes "length d = 4096" "nheaders d = 0" "util_of d = 8"
  shows "rb_wf d" "records d = (\<lambda>_. None)"
proof -
  show "rb_wf d" using assms by (intro rb_wfI [of d "[]"]) (simp_all add: hdrs_def live_headers_def local_ids_def)
  show "records d = (\<lambda>_. None)" using assms(2) by (simp add: records_def fun_eq_iff)
qed

lemma zeros_wf:
  "rb_wf (replicate 4096 0)" "records (replicate 4096 0) = (\<lambda>_. None)"
  using empty_wf [of "replicate 4096 0"] by (simp_all add: nheaders_def util_of_def)

lemma zeros_free: "FreeSpaceForInsert (replicate 4096 0) = Ok (4076, replicate 4096 0)"
proof -
  have "hdrs (replicate 4096 0) = []" by (simp add: hdrs_def local_ids_def nheaders_def)
  then obtain fs where "FreeSpaceForInsert (replicate 4096 0) = Ok (fs, replicate 4096 0)" "unat fs = 4076"
    using FreeSpaceForInsert_Ok [OF zeros_wf(1)] by (auto simp: util_of_def)
  from this(2) have "unat fs = unat (4076 :: u16)" by simp
  then have "fs = 4076" by (simp only: unat_u16_eq_iff)
  with \<open>FreeSpaceForInsert (replicate 4096 0) = Ok (fs, replicate 4096 0)\<close> show ?thesis by simp
qed

lemma TotalRecords_Ok:
  assumes "rb_wf d"
  shows "TotalRecords d = Ok (int (card (dom (records d))), d)" "finite (dom (records d))"
proof -
  note W = rb_wfD [OF assms]
  let ?F = "filter (\<lambda>l. recordID (hdr d l) \<noteq> 0) (local_ids (nheaders d))"
  have F: "filter (\<lambda>h. recordID h \<noteq> 0) (hdrs d) = map (hdr d) ?F" by (simp add: hdrs_def filter_map comp_def)
  have D: "dom (records d) = set ?F" using W(2) by (auto simp: records_def set_local_ids split: if_splits)
  have "distinct ?F" using W(2) by (intro distinct_filter distinct_local_ids) simp
  from distinct_card [OF this] have "length (filter (\<lambda>h. recordID h \<noteq> 0) (hdrs d)) = card (dom (records d))"
    unfolding F D length_map by simp
  then show "TotalRecords d = Ok (int (card (dom (records d))), d)"
    using parseHeaders_Ok [OF W(1,2)] by (simp add: TotalRecords_def bind_def count_foldl)
  show "finite (dom (records d))" unfolding D by simp
qed

section \<open>Properties\<close>

text \<open>C2: \<open>Add\<close> refines the insertion into a map: into a well-formed block with enough free space, under
  an ID that the block does not hold, it puts the new record under a local ID that was unused and
  leaves every other record, and the pointers to the neighbour blocks, as they were. This covers the
  reuse of removed headers with the compaction of the data, for every order in which the
  unstable sort of the Go library may leave headers that start at the same byte.\<close>

theorem Add_refines_insert:
  assumes "go_sorter srt" "rb_wf d" "rid \<noteq> 0" "data \<noteq> []"
    "\<forall>l r. records d l = Some r \<longrightarrow> fst r \<noteq> rid"
    "FreeSpaceForInsert d = Ok (fs, d)" "length data \<le> unat fs"
  shows "\<exists>l f. Add srt rid data d = Ok (l, f) \<and> rb_wf f \<and> records d l = None \<and>
    records f = (records d)(l \<mapsto> (rid, data, \<lparr>DataBlockID = 0, LocalID = 0\<rparr>)) \<and>
    NextBlockID f = Ok (u16_at 4090 d, f) \<and> PrevBlockID f = Ok (u16_at 4088 d, f)"
proof -
  obtain l f where f: "Add srt rid data d = Ok (l, f)" "rb_wf f" "records d l = None"
    "records f = (records d)(l \<mapsto> (rid, data, \<lparr>DataBlockID = 0, LocalID = 0\<rparr>))" "agree 4088 4092 d f"
    using go_sorter.Add_Ok [OF assms] by blast
  have "u16_at 4090 f = u16_at 4090 d" "u16_at 4088 f = u16_at 4088 d" "length f = 4096"
    using f(5) rb_wfD(1) [OF assms(2)] rb_wfD(1) [OF f(2)] by (auto intro: agree_u16_at)
  then show ?thesis using f by (simp add: NextBlockID_def PrevBlockID_def ReadUint16_Ok)
qed

lemma Add_refines_insert_witness:
  "\<exists>l f. Add (sort_key startsAt) 7 [1, 2, 3] (replicate 4096 0) = Ok (l, f) \<and>
    records f = [l \<mapsto> (7, [1, 2, 3], \<lparr>DataBlockID = 0, LocalID = 0\<rparr>)]"
  using Add_refines_insert [OF stable.go_sorter_axioms zeros_wf(1), of 7 "[1, 2, 3]" 4076] zeros_free
  by (auto simp: zeros_wf(2))

text \<open>C10: Round trip: what \<open>Add\<close> wrote, \<open>ReadRecordData\<close> gives back under the local ID that \<open>Add\<close>
  returned, with no chain, and every record that could be read before reads the same.\<close>

theorem Add_Read_roundtrip:
  assumes "go_sorter srt" "rb_wf d" "rid \<noteq> 0" "data \<noteq> []"
    "\<forall>l r. records d l = Some r \<longrightarrow> fst r \<noteq> rid"
    "FreeSpaceForInsert d = Ok (fs, d)" "length data \<le> unat fs"
  shows "\<exists>l f. Add srt rid data d = Ok (l, f) \<and> ReadRecordData l f = Ok (Inr data, f) \<and>
    ChainedRowID l f = Ok (Inr \<lparr>DataBlockID = 0, LocalID = 0\<rparr>, f) \<and>
    (\<forall>m x. ReadRecordData m d = Ok (Inr x, d) \<longrightarrow> ReadRecordData m f = Ok (Inr x, f))"
proof -
  obtain l f where f: "Add srt rid data d = Ok (l, f)" "rb_wf f" "records d l = None"
    "records f = (records d)(l \<mapsto> (rid, data, \<lparr>DataBlockID = 0, LocalID = 0\<rparr>))"
    using go_sorter.Add_Ok [OF assms] by blast
  then show ?thesis
    using reads_Ok [OF assms(2)] reads_Ok [OF f(2)] by (auto split: option.splits)
qed

lemma Add_Read_roundtrip_witness:
  "\<exists>l f. Add (sort_key startsAt) 7 [1, 2, 3] (replicate 4096 0) = Ok (l, f) \<and>
    ReadRecordData l f = Ok (Inr [1, 2, 3], f)"
  using Add_Read_roundtrip [OF stable.go_sorter_axioms zeros_wf(1), of 7 "[1, 2, 3]" 4076] zeros_free
  by (auto simp: zeros_wf(2))

definition one_record :: bytes where
  "one_record = snd (case Add (sort_key startsAt) 7 [1, 2, 3] (replicate 4096 0) of Ok r \<Rightarrow> r | _ \<Rightarrow> (0, []))"

lemma one_record:
  "rb_wf one_record" "\<exists>l. records one_record = [l \<mapsto> (7, [1, 2, 3], \<lparr>DataBlockID = 0, LocalID = 0\<rparr>)]"
  "nheaders one_record = 1"
proof -
  have "nheaders (replicate 4096 0) = 0" by (simp add: nheaders_def)
  then have "hdrs (replicate 4096 0) = []" by (simp add: hdrs_def local_ids_def)
  then obtain l f where "Add (sort_key startsAt) 7 [1, 2, 3] (replicate 4096 0) = Ok (l, f)" "rb_wf f"
    "records f = [l \<mapsto> (7, [1, 2, 3], \<lparr>DataBlockID = 0, LocalID = 0\<rparr>)]" "nheaders f = 1"
    using stable.Add_Ok [OF zeros_wf(1), of 7 "[1, 2, 3]" 4076] zeros_free zeros_wf(2)
    by (auto simp: nheaders_def)
  then show "rb_wf one_record" "\<exists>l. records one_record = [l \<mapsto> (7, [1, 2, 3], \<lparr>DataBlockID = 0, LocalID = 0\<rparr>)]"
    "nheaders one_record = 1"
    by (auto simp: one_record_def)
qed

text \<open>C13: The reading methods of a well-formed block, on every branch: a local ID without a live record
  is an error, any other gives the bytes and the chain of its record; \<open>TotalRecords\<close> counts the
  records. None of them changes the block.\<close>

theorem reads_refine_lookup:
  assumes "rb_wf d"
  shows "ReadRecordData l d = Ok (case records d l of None \<Rightarrow> Inl (ErrInvalidLocalID l) | Some (_, data, _) \<Rightarrow> Inr data, d) \<and>
    ChainedRowID l d = Ok (case records d l of None \<Rightarrow> Inl (ErrInvalidLocalID l) | Some (_, _, c) \<Rightarrow> Inr c, d) \<and>
    TotalRecords d = Ok (int (card (dom (records d))), d) \<and>
    IDs d = Ok (map (\<lambda>h. recordID h) (hdrs d), d)"
proof -
  note W = rb_wfD [OF assms]
  have "IDs d = Ok (map (\<lambda>h. recordID h) (hdrs d), d)"
    using W(1,2) by (simp add: IDs_def bind_def ReadUint16_Ok ids_loop_Ok nheaders_def hdrs_def local_ids_def)
  with reads_Ok [OF assms] TotalRecords_Ok [OF assms] show ?thesis by simp
qed

lemma reads_refine_lookup_witness:
  "\<exists>l. ReadRecordData l one_record = Ok (Inr [1, 2, 3], one_record) \<and> TotalRecords one_record = Ok (1, one_record)"
proof -
  obtain l where l: "records one_record = [l \<mapsto> (7, [1, 2, 3], \<lparr>DataBlockID = 0, LocalID = 0\<rparr>)]"
    using one_record(2) by blast
  show ?thesis using reads_refine_lookup [OF one_record(1), of l] l by auto
qed

text \<open>C12: \<open>Remove\<close> under every local ID of a well-formed block. Of a live record it is the deletion from
  the map: no error, the block stays well formed, the utilization goes down by the size of the
  record, the neighbours are kept. Of a local ID beyond the headers it is the error with the local
  ID and the number of headers, and the block does not change. Of a header whose record was
  already removed it reports no error either: the records stay as they are, but the utilization
  goes down by the size of the removed record once more, so that the block is well formed
  afterwards only if that size is 0.\<close>

theorem Remove_refines_delete:
  assumes "rb_wf d"
  shows "(records d l \<noteq> None \<longrightarrow> (\<exists>f. Remove l d = Ok (None, f) \<and> rb_wf f \<and> records f = (records d)(l := None) \<and>
      u16_at 4094 f = util_of d - hsize (hdr d l) \<and> u16_at 4092 f = u16_at 4092 d \<and>
      u16_at 4090 f = u16_at 4090 d \<and> u16_at 4088 f = u16_at 4088 d)) \<and>
    (nheaders d \<le> unat l \<longrightarrow> Remove l d = Ok (Some (ErrInvalidLocalIDOf l (u16_at 4092 d)), d)) \<and>
    (records d l = None \<and> unat l < nheaders d \<longrightarrow> (\<exists>f. Remove l d = Ok (None, f) \<and> records f = records d \<and>
      u16_at 4094 f = util_of d - hsize (hdr d l) \<and> (rb_wf f \<longleftrightarrow> hsize (hdr d l) = 0) \<and>
      u16_at 4092 f = u16_at 4092 d \<and> u16_at 4090 f = u16_at 4090 d \<and> u16_at 4088 f = u16_at 4088 d))"
proof (intro conjI impI)
  assume "records d l \<noteq> None"
  then obtain r where r: "records d l = Some r" by blast
  from Remove_Ok [OF assms r] show "\<exists>f. Remove l d = Ok (None, f) \<and> rb_wf f \<and> records f = (records d)(l := None) \<and>
      u16_at 4094 f = util_of d - hsize (hdr d l) \<and> u16_at 4092 f = u16_at 4092 d \<and>
      u16_at 4090 f = u16_at 4090 d \<and> u16_at 4088 f = u16_at 4088 d"
    using Remove_run [OF assms, of l] records_SomeD [OF r] by auto
next
  assume "nheaders d \<le> unat l"
  then show "Remove l d = Ok (Some (ErrInvalidLocalIDOf l (u16_at 4092 d)), d)"
    using rb_wfD(1) [OF assms] by (simp add: Remove_def bind_def ReadUint16_Ok nheaders_def word_le_nat_alt)
next
  assume l: "records d l = None \<and> unat l < nheaders d"
  then show "\<exists>f. Remove l d = Ok (None, f) \<and> records f = records d \<and>
      u16_at 4094 f = util_of d - hsize (hdr d l) \<and> (rb_wf f \<longleftrightarrow> hsize (hdr d l) = 0) \<and>
      u16_at 4092 f = u16_at 4092 d \<and> u16_at 4090 f = u16_at 4090 d \<and> u16_at 4088 f = u16_at 4088 d"
    using Remove_run [OF assms, of l] removed_again [OF assms, of l] by auto
qed

lemma Remove_refines_delete_witness:
  "\<exists>l f g. Remove l one_record = Ok (None, f) \<and> records f = (\<lambda>_. None) \<and>
    Remove l f = Ok (None, g) \<and> records g = (\<lambda>_. None) \<and>
    u16_at 4094 g = util_of f - hsize (hdr f l) \<and>
    Remove 9 one_record = Ok (Some (ErrInvalidLocalIDOf 9 1), one_record)"
proof -
  obtain l where l: "records one_record = [l \<mapsto> (7, [1, 2, 3], \<lparr>DataBlockID = 0, LocalID = 0\<rparr>)]"
    using one_record(2) by blast
  from Remove_refines_delete [OF one_record(1), of l] l obtain f where
    f: "Remove l one_record = Ok (None, f)" "rb_wf f" "records f = (\<lambda>_. None)" "u16_at 4092 f = u16_at 4092 one_record"
    by (auto simp: fun_eq_iff)
  have n: "u16_at 4092 one_record = 1"
    using one_record(3) unfolding nheaders_def by (metis unat_1 word_eq_iff_unsigned)
  then have "unat l < nheaders f" using records_SomeD [of one_record l] l f(4) by (simp add: nheaders_def)
  with Remove_refines_delete [OF f(2), of l] f obtain g where
    "Remove l f = Ok (None, g)" "records g = (\<lambda>_. None)" "u16_at 4094 g = util_of f - hsize (hdr f l)" by auto
  moreover have "Remove 9 one_record = Ok (Some (ErrInvalidLocalIDOf 9 1), one_record)"
    using Remove_refines_delete [OF one_record(1), of 9] n by (simp add: nheaders_def)
  ultimately show ?thesis using f by blast
qed

text \<open>C14: \<open>SetChainedRowID\<close> changes the chain of one record and nothing else; without a live record under
  the local ID it is an error and writes nothing.\<close>

theorem SetChainedRowID_refines:
  assumes "rb_wf d"
  shows "\<exists>r f. SetChainedRowID l row d = Ok (r, f) \<and> rb_wf f \<and>
    (case records d l of
       None \<Rightarrow> r = Inl (ErrInvalidLocalID l) \<and> f = d
     | Some (rid, data, _) \<Rightarrow> r = Inr () \<and> records f = (records d)(l \<mapsto> (rid, data, row)))"
proof (cases "records d l")
  case None
  then have "nheaders d \<le> unat l \<or> recordID (hdr d l) = 0" by (auto simp: records_def split: if_splits)
  then have "SetChainedRowID l row d = Ok (Inl (ErrInvalidLocalID l), d)"
    unfolding SetChainedRowID_def checkLocalID_Ok [OF rb_wfD(1,2) [OF assms]] by simp
  with None assms show ?thesis by simp
next
  case (Some a)
  obtain rid data c where "a = (rid, data, c)" by (cases a)
  with Some SetChainedRowID_Ok [OF assms, of l rid data c row] show ?thesis by auto
qed

lemma SetChainedRowID_refines_witness:
  "\<exists>r f. SetChainedRowID 5 \<lparr>DataBlockID = 3, LocalID = 1\<rparr> (replicate 4096 0) = Ok (r, f) \<and> f = replicate 4096 0"
  using SetChainedRowID_refines [OF zeros_wf(1), of 5 "\<lparr>DataBlockID = 3, LocalID = 1\<rparr>"] by (auto simp: zeros_wf(2))

text \<open>C15: \<open>SoftRemove\<close> writes past the header: it empties the record and clears its chain as meant, but
  it also clears the high half of the record ID in the header above, or, for local ID 0, the pointer
  to the previous block. All other headers, the data and the next pointer keep their values.\<close>

theorem SoftRemove_clobbers:
  assumes "rb_wf d" "records d l \<noteq> None"
  shows "\<exists>f. SoftRemove l d = Ok (None, f) \<and>
    hdr f l = (hdr d l)\<lparr>hsize := 0, chainedBlockID := 0, chainedLocalID := 0\<rparr> \<and>
    (\<forall>m. unat m < nheaders d \<longrightarrow> m \<noteq> l \<longrightarrow> hdr f m =
       (if unat m + 1 = unat l then (hdr d m)\<lparr>recordID := take_bit 16 (recordID (hdr d m))\<rparr> else hdr d m)) \<and>
    agree 0 (table_at (nheaders d)) d f \<and> NextBlockID f = Ok (u16_at 4090 d, f) \<and>
    PrevBlockID f = Ok (if l = 0 then 0 else u16_at 4088 d, f)"
proof -
  have "unat l < nheaders d" "recordID (hdr d l) \<noteq> 0" using assms(2) records_SomeD by auto
  from SoftRemove_Ok [OF assms(1) this] show ?thesis
    by (auto simp: softened_def NextBlockID_def PrevBlockID_def ReadUint16_Ok)
qed

lemma SoftRemove_clobbers_witness: "\<exists>l f. SoftRemove l one_record = Ok (None, f)"
proof -
  obtain l where "records one_record l \<noteq> None" using one_record(2) by auto
  from SoftRemove_clobbers [OF one_record(1) this] show ?thesis by blast
qed

text \<open>C11: Updating in place: \<open>SoftRemove\<close> followed by \<open>Add\<close> under the same record ID returns the same
  local ID, gives the record its new data and leaves every other record alone, provided that no other
  live record has the ID and the header above holds an ID below \<open>2^16\<close>.\<close>

theorem update_refines:
  assumes "go_sorter srt" "rb_wf d" "records d l = Some (rid, old, c)" "data \<noteq> []"
    "\<forall>m r. m \<noteq> l \<longrightarrow> records d m = Some r \<longrightarrow> fst r \<noteq> rid"
    "\<forall>m. unat m < nheaders d \<longrightarrow> unat m + 1 = unat l \<longrightarrow> recordID (hdr d m) < 65536"
    "SoftRemove l d = Ok (None, s)" "FreeSpaceForInsert s = Ok (fs, s)" "length data \<le> unat fs"
  shows "\<exists>f. Add srt rid data s = Ok (l, f) \<and> rb_wf f \<and>
    records f = (records d)(l \<mapsto> (rid, data, \<lparr>DataBlockID = 0, LocalID = 0\<rparr>))"
  using go_sorter.update_Ok [OF assms(1-4) _ _ assms(7-9)] assms(5,6) by blast

lemma nheaders_one_record: "nheaders one_record = 1"
proof -
  have "\<exists>f. Add (sort_key startsAt) 7 [1, 2, 3] (replicate 4096 0) = Ok (of_nat 0, f) \<and> nheaders f = 1"
  proof -
    have "\<exists>f. writeRecord 7 [1, 2, 3] 0 1 20 (replicate 4096 0) = Ok (0, f) \<and> nheaders f = 1"
      using writeRecord_Ok [of "replicate 4096 0" 0 1 20 0 "[1, 2, 3]" 7] by auto
    moreover have "Add (sort_key startsAt) 7 [1, 2, 3] (replicate 4096 0) =
        writeRecord 7 [1, 2, 3] 0 1 20 (replicate 4096 0)"
      by (simp add: Add_def bind_def parseHeaders_Ok Utilization_Ok nheaders_def hdrs_def local_ids_def Let_def
          util_of_def RECORD_HEADER_SIZE_def)
    ultimately show ?thesis by simp
  qed
  then show ?thesis by (auto simp: one_record_def)
qed

lemma update_refines_witness:
  "\<exists>l s f. SoftRemove l one_record = Ok (None, s) \<and> Add (sort_key startsAt) 7 [9] s = Ok (l, f) \<and>
    records f = [l \<mapsto> (7, [9], \<lparr>DataBlockID = 0, LocalID = 0\<rparr>)]"
proof -
  obtain l where l: "records one_record = [l \<mapsto> (7, [1, 2, 3], \<lparr>DataBlockID = 0, LocalID = 0\<rparr>)]"
    using one_record(2) by blast
  then have r: "records one_record l = Some (7, [1, 2, 3], \<lparr>DataBlockID = 0, LocalID = 0\<rparr>)" by simp
  then have h: "unat l < nheaders one_record" "recordID (hdr one_record l) \<noteq> 0" using records_SomeD by auto
  from SoftRemove_Ok [OF one_record(1) h] obtain s where
    s: "SoftRemove l one_record = Ok (None, s)" "softened l one_record s" by blast
  have W: "unat (util_of one_record) = 8 + 12 * 1 + total (live_headers one_record)"
    using rb_wfD(4) [OF one_record(1)] nheaders_one_record by simp
  have "hdr one_record l \<in> set (live_headers one_record)"
    using h rb_wfD(2) [OF one_record(1)] by (auto simp: live_headers_def hdrs_def set_local_ids)
  have L: "live_headers one_record = [hdr one_record l]"
    using h nheaders_one_record by (auto simp: live_headers_def hdrs_def local_ids_def unat_eq_zero)
  then have u: "unat (util_of s) = 20" using s(2) W by (simp add: softened_def)
  have "length s = 4096" "nheaders s \<le> 340" using s(2) nheaders_one_record by (auto simp: softened_def)
  with FreeSpaceForInsert_run [of s] u obtain fs where "FreeSpaceForInsert s = Ok (fs, s)" "4064 \<le> unat fs"
    by (auto split: if_splits)
  moreover have "\<forall>m r. m \<noteq> l \<longrightarrow> records one_record m = Some r \<longrightarrow> fst r \<noteq> 7" using l by simp
  moreover have "\<forall>m. unat m < nheaders one_record \<longrightarrow> unat m + 1 = unat l \<longrightarrow> recordID (hdr one_record m) < 65536"
    using h nheaders_one_record by simp
  ultimately obtain f where "Add (sort_key startsAt) 7 [9] s = Ok (l, f)"
    "records f = (records one_record)(l \<mapsto> (7, [9], \<lparr>DataBlockID = 0, LocalID = 0\<rparr>))"
    using update_refines [OF stable.go_sorter_axioms one_record(1) r, of "[9]" s fs] s(1) by auto
  with s(1) l show ?thesis by auto
qed

end
