(* ===== verification/RecordAllocator.thy ===== *)
theory RecordAllocator
  imports BlocksMap RecordOps
begin

text \<open>
  Allocating, updating, removing and loading records over the linked list of record blocks:
  \<open>src/src/simplejsondb/core/record_allocator.go\<close> and \<open>record_loader.go\<close>. A record that does not
  fit its block is a chain of rows. The loops of the code follow pointers stored in the blocks, so
  each takes fuel, and \<open>NoFuel\<close> is the outcome of a walk that is longer; \<open>srt\<close> is the unstable sort
  that \<open>recordBlock.Add\<close> uses. Logging is left out.
\<close>

section \<open>Adding records\<close>

definition allocateNewBlock :: "'f DataFile \<Rightarrow> u16 \<Rightarrow> ('f dataBuffer, goerror + u16) prog" where
  "allocateNewBlock D startingBlockID =
     bind (FirstFree D) (\<lambda>newBlockID.
     seq (MarkAsUsed D newBlockID)
    (bind (repoRecordBlock D newBlockID) (\<lambda>newBlock.
     seq (onBlock newBlock (SetPrevBlockID startingBlockID))
    (seq (MarkAsDirty newBlockID)
    (bind (repoRecordBlock D startingBlockID) (\<lambda>startingBlock.
     seq (onBlock startingBlock (SetNextBlockID newBlockID))
    (seq (MarkAsDirty startingBlockID)
    (bind (repoControlBlock D) (\<lambda>controlBlock.
     seq (onBlock controlBlock (SetNextAvailableRecordsDataBlockID newBlockID))
    (seq (MarkAsDirty (ID controlBlock))
         (ret (Inr newBlockID))))))))))))"

text \<open>The inner loop of \<open>allocateRecord\<close>: on to the next block, or a new one, until there is space.\<close>

fun seekFree :: "'f DataFile \<Rightarrow> nat \<Rightarrow> DataBlock \<Rightarrow> ('f dataBuffer, goerror + DataBlock) prog" where
  "seekFree D 0 recordBlock = nofuel"
| "seekFree D (Suc n) recordBlock =
     bind (onBlock recordBlock FreeSpaceForInsert) (\<lambda>free.
     if free \<noteq> 0 then ret (Inr recordBlock)
     else
       bind (onBlock recordBlock NextBlockID) (\<lambda>nextBlockID.
       bind (if nextBlockID = 0 then allocateNewBlock D (ID recordBlock) else ret (Inr nextBlockID)) (\<lambda>r.
       case r of
         Inl err \<Rightarrow> ret (Inl err)
       | Inr nextBlockID \<Rightarrow> bind (repoRecordBlock D nextBlockID) (seekFree D n))))"

text \<open>
  The outer loop: every round finds space (within fuel \<open>m\<close>), writes a chunk there and chains it to
  the previous row. The error of \<open>SetChainedRowID\<close> is dropped.
\<close>

fun chainLoop :: "'f DataFile \<Rightarrow> sorter \<Rightarrow> nat \<Rightarrow> nat \<Rightarrow> u32 \<Rightarrow> bytes \<Rightarrow> DataBlock \<Rightarrow> DataBlock \<Rightarrow> u16
    \<Rightarrow> ('f dataBuffer, goerror option) prog" where
  "chainLoop D srt m 0 rid data recordBlock prevBlock prevLocalID =
     (if length data > 0 then nofuel else ret None)"
| "chainLoop D srt m (Suc n) rid data recordBlock prevBlock prevLocalID =
     (if length data > 0 then
        bind (seekFree D m recordBlock) (\<lambda>r. case r of
          Inl err \<Rightarrow> ret (Some err)
        | Inr recordBlock \<Rightarrow>
            bind (onBlock recordBlock FreeSpaceForInsert) (\<lambda>freeSpaceForInsert.
            let bytesToWrite = (if length data > unat freeSpaceForInsert then unat freeSpaceForInsert
                                else length data) in
            bind (onBlock recordBlock (Add srt rid (take bytesToWrite data))) (\<lambda>nextLocalID.
            seq (MarkAsDirty (ID recordBlock))
           (seq (onBlock prevBlock (SetChainedRowID prevLocalID
                   \<lparr>DataBlockID = ID recordBlock, LocalID = nextLocalID\<rparr>))
           (seq (MarkAsDirty (ID prevBlock))
                (chainLoop D srt m n rid (drop bytesToWrite data) recordBlock recordBlock nextLocalID))))))
      else ret None)"

definition allocateRecord :: "'f DataFile \<Rightarrow> sorter \<Rightarrow> nat \<Rightarrow> nat \<Rightarrow> DataBlock \<Rightarrow> u32 \<Rightarrow> bytes
    \<Rightarrow> ('f dataBuffer, goerror + u16) prog" where
  "allocateRecord D srt fuel freeSpaceForInsert initialBlock rid data =
     (let bytesToWrite = (if length data > freeSpaceForInsert then freeSpaceForInsert else length data) in
      bind (onBlock initialBlock (Add srt rid (take bytesToWrite data))) (\<lambda>lid.
      seq (MarkAsDirty (ID initialBlock))
      (if bytesToWrite = length data then ret (Inr lid)
       else
         bind (chainLoop D srt fuel fuel rid (drop bytesToWrite data) initialBlock initialBlock lid)
           (\<lambda>r. case r of Some err \<Rightarrow> ret (Inl err) | None \<Rightarrow> ret (Inr lid)))))"

text \<open>The loop of \<open>Add\<close>: it returns the block that took the first row, and the local ID there.\<close>

fun insertLoop :: "'f DataFile \<Rightarrow> sorter \<Rightarrow> nat \<Rightarrow> nat \<Rightarrow> u16 \<Rightarrow> u32 \<Rightarrow> bytes
    \<Rightarrow> ('f dataBuffer, goerror + u16 \<times> u16) prog" where
  "insertLoop D srt fuel 0 insertBlockID rid data = nofuel"
| "insertLoop D srt fuel (Suc n) insertBlockID rid data =
     bind (repoRecordBlock D insertBlockID) (\<lambda>recordBlock.
     bind (onBlock recordBlock FreeSpaceForInsert) (\<lambda>freeSpaceForInsert.
     if freeSpaceForInsert > 0 then
       bind (allocateRecord D srt fuel (unat freeSpaceForInsert) recordBlock rid data) (\<lambda>r. case r of
         Inl err \<Rightarrow> ret (Inl err)
       | Inr lid \<Rightarrow> ret (Inr (insertBlockID, lid)))
     else
       bind (onBlock recordBlock NextBlockID) (\<lambda>nextID.
       if nextID \<noteq> 0 then insertLoop D srt fuel n nextID rid data
       else
         bind (allocateNewBlock D insertBlockID) (\<lambda>r. case r of
           Inl err \<Rightarrow> ret (Inl err)
         | Inr newBlockID \<Rightarrow>
             seq (onBlock recordBlock (SetNextBlockID newBlockID))
            (seq (MarkAsDirty insertBlockID)
                 (insertLoop D srt fuel n newBlockID rid data))))))"

definition addRecord :: "'f DataFile \<Rightarrow> sorter \<Rightarrow> nat \<Rightarrow> u32 \<Rightarrow> bytes \<Rightarrow> ('f dataBuffer, goerror + RowID) prog" where
  "addRecord D srt fuel rid data =
     bind (repoControlBlock D) (\<lambda>controlBlock.
     bind (onBlock controlBlock NextAvailableRecordsDataBlockID) (\<lambda>insertBlockID.
     bind (insertLoop D srt fuel fuel insertBlockID rid data) (\<lambda>r. case r of
       Inl err \<Rightarrow> ret (Inl err)
     | Inr (insertBlockID, lid) \<Rightarrow>
         seq (MarkAsDirty insertBlockID)
             (ret (Inr \<lparr>DataBlockID = insertBlockID, LocalID = lid\<rparr>)))))"

section \<open>Removing records\<close>

text \<open>The part of \<open>removeFromList\<close> after the case of the first block.\<close>

definition unlinkBlock :: "'f DataFile \<Rightarrow> DataBlock \<Rightarrow> u16 \<Rightarrow> u16 \<Rightarrow> ('f dataBuffer, goerror option) prog" where
  "unlinkBlock D emptyBlock prevBlockID nextBlockID =
     (if nextBlockID = 0 then ret None
      else
        bind (repoRecordBlock D prevBlockID) (\<lambda>prevBlock.
        seq (onBlock prevBlock (SetNextBlockID nextBlockID))
       (seq (MarkAsDirty prevBlockID)
       (bind (repoRecordBlock D nextBlockID) (\<lambda>nextBlock.
        seq (onBlock nextBlock (SetPrevBlockID prevBlockID))
       (seq (MarkAsDirty nextBlockID)
       (seq (onBlock emptyBlock Clear)
       (seq (MarkAsFree D (ID emptyBlock))
            (ret None)))))))))"

definition removeFromList :: "'f DataFile \<Rightarrow> DataBlock \<Rightarrow> ('f dataBuffer, goerror option) prog" where
  "removeFromList D emptyBlock =
     bind (onBlock emptyBlock PrevBlockID) (\<lambda>prevBlockID.
     bind (onBlock emptyBlock NextBlockID) (\<lambda>nextBlockID.
     if prevBlockID = 0 then
       (if nextBlockID = 0 then ret None
        else
          bind (FetchBlock D 0) (\<lambda>r. case r of
            Inl err \<Rightarrow> ret (Some err)
          | Inr controlDataBlock \<Rightarrow>
              bind (repoControlBlock D) (\<lambda>controlBlock.
              seq (onBlock controlBlock (SetFirstRecordDataBlock nextBlockID))
             (seq (MarkAsDirty (ID controlDataBlock))
                  (unlinkBlock D emptyBlock prevBlockID nextBlockID)))))
     else unlinkBlock D emptyBlock prevBlockID nextBlockID))"

fun removeRecord :: "'f DataFile \<Rightarrow> nat \<Rightarrow> RowID \<Rightarrow> ('f dataBuffer, goerror option) prog" where
  "removeRecord D 0 rowID = nofuel"
| "removeRecord D (Suc n) rowID =
     bind (repoRecordBlock D (DataBlockID rowID)) (\<lambda>firstBlock.
     bind (onBlock firstBlock (ChainedRowID (LocalID rowID))) (\<lambda>r. case r of
       Inl err \<Rightarrow> ret (Some err)
     | Inr chainedRowID \<Rightarrow>
         bind (if DataBlockID chainedRowID \<noteq> 0 then removeRecord D n chainedRowID else ret None) (\<lambda>r. case r of
           Some err \<Rightarrow> ret (Some err)
         | None \<Rightarrow>
             bind (onBlock firstBlock (Remove (LocalID rowID))) (\<lambda>r. case r of
               Some err \<Rightarrow> ret (Some err)
             | None \<Rightarrow>
                 bind (onBlock firstBlock TotalRecords) (\<lambda>total.
                 if total = 0 then removeFromList D firstBlock else ret None)))))"

section \<open>Updating records\<close>

text \<open>The result of removing the old chain is dropped.\<close>

definition updateRecord :: "'f DataFile \<Rightarrow> sorter \<Rightarrow> nat \<Rightarrow> RowID \<Rightarrow> u32 \<Rightarrow> bytes
    \<Rightarrow> ('f dataBuffer, goerror option) prog" where
  "updateRecord D srt fuel rowID rid data =
     bind (repoRecordBlock D (DataBlockID rowID)) (\<lambda>rb.
     bind (onBlock rb (ChainedRowID (LocalID rowID))) (\<lambda>r. case r of
       Inl err \<Rightarrow> ret (Some err)
     | Inr chainedID \<Rightarrow>
         seq (if DataBlockID chainedID \<noteq> 0 then removeRecord D fuel chainedID else ret None)
        (bind (onBlock rb (SoftRemove (LocalID rowID))) (\<lambda>r. case r of
           Some err \<Rightarrow> ret (Some err)
         | None \<Rightarrow>
             bind (onBlock rb FreeSpaceForInsert) (\<lambda>freeSpaceForInsert.
             bind (allocateRecord D srt fuel (unat freeSpaceForInsert) rb rid data) (\<lambda>r.
             let lid = (case r of Inl err \<Rightarrow> 0 | Inr l \<Rightarrow> l) in
             if LocalID rowID \<noteq> lid
             then panic (PanicMsg ''Something weird happened while updating the record'')
             else ret (case r of Inl err \<Rightarrow> Some err | Inr l \<Rightarrow> None)))))))"

section \<open>Loading records\<close>

fun loadChain :: "'f DataFile \<Rightarrow> nat \<Rightarrow> RowID \<Rightarrow> ('f dataBuffer, goerror + bytes) prog" where
  "loadChain D 0 chainedRowID = (if DataBlockID chainedRowID \<noteq> 0 then nofuel else ret (Inr []))"
| "loadChain D (Suc n) chainedRowID =
     (if DataBlockID chainedRowID \<noteq> 0 then
        bind (repoRecordBlock D (DataBlockID chainedRowID)) (\<lambda>rb.
        bind (onBlock rb (ReadRecordData (LocalID chainedRowID))) (\<lambda>r. case r of
          Inl err \<Rightarrow> ret (Inl err)
        | Inr chainedData \<Rightarrow>
            bind (onBlock rb (ChainedRowID (LocalID chainedRowID))) (\<lambda>r. case r of
              Inl err \<Rightarrow> ret (Inl err)
            | Inr nextRowID \<Rightarrow>
                bind (loadChain D n nextRowID) (\<lambda>r. case r of
                  Inl err \<Rightarrow> ret (Inl err)
                | Inr rest \<Rightarrow> ret (Inr (chainedData @ rest))))))
      else ret (Inr []))"

record Record =
  RecID :: u32
  Data :: bytes

definition loadRecord :: "'f DataFile \<Rightarrow> nat \<Rightarrow> u32 \<Rightarrow> RowID \<Rightarrow> ('f dataBuffer, goerror + Record) prog" where
  "loadRecord D fuel rid rowID =
     bind (repoRecordBlock D (DataBlockID rowID)) (\<lambda>rb.
     bind (onBlock rb (ReadRecordData (LocalID rowID))) (\<lambda>r. case r of
       Inl err \<Rightarrow> ret (Inl err)
     | Inr data \<Rightarrow>
         bind (onBlock rb (ChainedRowID (LocalID rowID))) (\<lambda>r. case r of
           Inl err \<Rightarrow> ret (Inl err)
         | Inr chainedRowID \<Rightarrow>
             bind (loadChain D fuel chainedRowID) (\<lambda>r. case r of
               Inl err \<Rightarrow> ret (Inl err)
             | Inr rest \<Rightarrow> ret (Inr \<lparr>RecID = rid, Data = data @ rest\<rparr>)))))"

end
