(* ===== verification/SampleFiles.thy ===== *)
theory SampleFiles
  imports BlocksMap
begin

text \<open>
  Files made of given blocks, for the concrete inputs of the theories above the buffer.
\<close>

definition file_of :: "nat \<Rightarrow> (u16 \<Rightarrow> bytes) \<Rightarrow> osFile" where
  "file_of n a = (zero_file n)\<lparr>fbytes := (\<lambda>p. a (of_nat (p div DATABLOCK_SIZE)) ! (p mod DATABLOCK_SIZE))\<rparr>"

lemma file_of:
  "os_inv (file_of n a)" "os_readable (file_of n a) i \<longleftrightarrow> unat i < n" "os_writable (file_of n a) i \<longleftrightarrow> unat i < n"
  "length (a i) = DATABLOCK_SIZE \<Longrightarrow> os_block (file_of n a) i = a i"
proof -
  have "os_inv (file_of n a) = os_inv (zero_file n)" "os_readable (file_of n a) i = os_readable (zero_file n) i"
    "os_writable (file_of n a) i = os_writable (zero_file n) i"
    by (simp_all add: os_inv_def os_readable_def os_writable_def file_of_def file_fault_def)
  then show "os_inv (file_of n a)" "os_readable (file_of n a) i \<longleftrightarrow> unat i < n"
    "os_writable (file_of n a) i \<longleftrightarrow> unat i < n" by simp_all
  assume l: "length (a i) = DATABLOCK_SIZE"
  have "fbytes (file_of n a) (unat i * DATABLOCK_SIZE + j) = a i ! j" if "j < DATABLOCK_SIZE" for j
    using that by (simp add: file_of_def)
  then show "os_block (file_of n a) i = a i"
    using l by (intro nth_equalityI) (simp_all add: os_block_def)
qed

lemma card_below: "card {i :: u16. unat i < n} \<le> n"
proof -
  have "{i :: u16. unat i < n} \<subseteq> of_nat ` {..<n}"
    by (auto intro!: image_eqI [where x = "unat _"] simp del: of_nat_unat)
  then show ?thesis
    by (metis card_image_le card_lessThan card_mono finite_imageI finite_lessThan order_trans)
qed

text \<open>A buffer that shows the blocks, large enough for all of them.\<close>

lemma file_of_store:
  assumes "0 < n" "\<And>i. length (a i) = DATABLOCK_SIZE"
  shows "\<exists>b. NewDataBuffer (file_of n a) (int n) = Ok b \<and>
    store os_inv os_block os_writable {i. unat i < n} a b \<and> pool {i. unat i < n} b"
proof -
  obtain b where b: "NewDataBuffer (file_of n a) (int n) = Ok b"
    using osf.NewDataBuffer_Ok [of "file_of n a" "int n"] file_of(1) by auto
  have "os_block (file_of n a) = a" using file_of(4) assms(2) by blast
  with osf.st_new(1) [OF b file_of(1), of "{i. unat i < n}"] assms(1) card_below [of n] b show ?thesis
    by (auto simp: file_of)
qed

end
