(* ===== verification/RecordRows.thy ===== *)
theory RecordRows
  imports RecordAllocator SampleFiles
begin

text \<open>
  The rows of all record blocks as one table, the chains of rows that hold a record, and loading:
  \<open>src/src/simplejsondb/core/record_loader.go\<close> returns the data of a chain joined, with any size of
  the buffer.
\<close>

section \<open>Free space of a block\<close>

definition free_of :: "bytes \<Rightarrow> nat" where
  "free_of d = 4096 - unat (util_of d) - (if \<exists>h \<in> set (hdrs d). recordID h = 0 then 0 else 12)"

lemma FreeSpaceForInsert_free:
  assumes "rb_wf d"
  shows "\<exists>fs. FreeSpaceForInsert d = Ok (fs, d) \<and> unat fs = free_of d"
  using FreeSpaceForInsert_Ok [OF assms] by (auto simp: free_of_def)

text \<open>The utilization counts the bytes of the records.\<close>

lemma live_total:
  assumes "rb_wf d"
  shows "total (live_headers d) = (\<Sum>l \<in> dom (records d). length (fst (snd (the (records d l)))))"
proof -
  note W = rb_wfD [OF assms]
  let ?F = "filter (\<lambda>l. recordID (hdr d l) \<noteq> 0) (local_ids (nheaders d))"
  have F: "live_headers d = map (hdr d) ?F" by (simp add: live_headers_def hdrs_def filter_map comp_def)
  have D: "dom (records d) = set ?F" using W(2) by (auto simp: records_def set_local_ids split: if_splits)
  have d: "distinct ?F" using W(2) by (intro distinct_filter distinct_local_ids) simp
  have "length (fst (snd (the (records d l)))) = sz (hdr d l)" if "l \<in> set ?F" for l
  proof -
    have l: "unat l < nheaders d" "recordID (hdr d l) \<noteq> 0" using that W(2) by (auto simp: set_local_ids)
    then have "st (hdr d l) + sz (hdr d l) \<le> 4096" by (rule records_extent [OF assms])
    with W(1) l show ?thesis by (simp add: records_def content_def int16_def)
  qed
  then have "(\<Sum>l \<in> set ?F. length (fst (snd (the (records d l))))) = (\<Sum>l \<in> set ?F. sz (hdr d l))" by (rule sum.cong [OF refl])
  also have "\<dots> = total (live_headers d)" unfolding F
    by (subst sum_list_distinct_conv_sum_set [OF d, symmetric]) (simp add: comp_def)
  finally show ?thesis unfolding D by simp
qed

lemma total_insert:
  assumes "rb_wf d" "rb_wf f" "records d l = None" "records f = (records d)(l \<mapsto> (rid, data, c))"
  shows "total (live_headers f) = total (live_headers d) + length data"
proof -
  let ?w = "\<lambda>e l. length (fst (snd (the (records e l))))"
  have "dom (records f) = insert l (dom (records d))" "l \<notin> dom (records d)" using assms(3,4) by auto
  moreover have "finite (dom (records d))" by simp
  ultimately have "(\<Sum>m \<in> dom (records f). ?w f m) = ?w f l + (\<Sum>m \<in> dom (records d). ?w f m)" by simp
  also have "(\<Sum>m \<in> dom (records d). ?w f m) = (\<Sum>m \<in> dom (records d). ?w d m)"
    using assms(3,4) by (intro sum.cong) auto
  also have "?w f l = length data" using assms(4) by simp
  finally show ?thesis unfolding live_total [OF assms(1)] live_total [OF assms(2)] by simp
qed

text \<open>A record that fills its block leaves no free space.\<close>

lemma free_of_full:
  assumes "rb_wf d" "rb_wf f" "records d l = None" "records f = (records d)(l \<mapsto> (rid, data, c))"
    "nheaders f = (if \<exists>h \<in> set (hdrs d). recordID h = 0 then nheaders d else nheaders d + 1)"
    "length data = free_of d" "data \<noteq> []"
  shows "free_of f = 0"
proof -
  have "0 < free_of d" using assms(6,7) by (metis length_greater_0_conv)
  then have "unat (util_of f) = 4096"
    using rb_wfD(4) [OF assms(1)] rb_wfD(4) [OF assms(2)] total_insert [OF assms(1-4)] assms(5,6)
    by (auto simp: free_of_def split: if_splits)
  then show ?thesis by (simp add: free_of_def)
qed

section \<open>The neighbour pointers\<close>

definition next_of :: "bytes \<Rightarrow> u16" where
  "next_of d = u16_at 4090 d"

text \<open>Writing a neighbour pointer keeps the records.\<close>

lemma neighbour_put:
  assumes "rb_wf d" "q = 4088 \<or> q = 4090"
  shows "rb_wf (put_at q (be16_put v) d)" "records (put_at q (be16_put v) d) = records d"
    "free_of (put_at q (be16_put v) d) = free_of d" "hdrs (put_at q (be16_put v) d) = hdrs d"
    "nheaders (put_at q (be16_put v) d) = nheaders d" "util_of (put_at q (be16_put v) d) = util_of d"
    "next_of (put_at q (be16_put v) d) = (if q = 4090 then v else next_of d)"
proof -
  note W = rb_wfD [OF assms(1)]
  let ?f = "put_at q (be16_put v) d"
  have q: "4088 \<le> q" "q \<le> 4090" using assms(2) by auto
  show n: "nheaders ?f = nheaders d" and u: "util_of ?f = util_of d"
    using trailer_put [OF W(1), of q "be16_put v"] q by simp_all
  have h: "hdr ?f m = hdr d m" if "unat m < 340" for m
    using header_pos_bounds [of m] that q W(1) by (intro hdr_put_outside) auto
  then show hs: "hdrs ?f = hdrs d" using W(2) by (auto simp: hdrs_def n set_local_ids)
  have c: "content ?f (hdr ?f m) = content d (hdr d m)" if "unat m < nheaders d" for m
  proof -
    have "agree 0 (table_at (nheaders d)) d ?f"
      using q table_at_le [of "nheaders d"] W(1) by (auto simp: agree_def put_at_def nth_splice)
    from content_keep [OF assms(1) that this] h [of m] that W(2) show ?thesis by simp
  qed
  show "records ?f = records d"
    using h c W(2) by (auto simp: records_def n fun_eq_iff)
  obtain ls where ls: "mset ls = mset (local_ids (nheaders d))" "packed 0 (map (hdr d) ls)" using W(5) by blast
  have "map (hdr ?f) ls = map (hdr d) ls"
    using h mset_local_ids(2) [OF ls(1) W(2)] W(2) by simp
  then have p: "packed 0 (map (hdr ?f) ls)" using ls(2) by (simp only:)
  show "rb_wf ?f"
    using W ls(1) p h q by (intro rb_wfI [of ?f ls]) (simp_all add: n u hs live_headers_def)
  show "free_of ?f = free_of d" by (simp add: free_of_def u hs)
  show "next_of ?f = (if q = 4090 then v else next_of d)"
    using assms(2) W(1) by (auto simp: next_of_def)
qed

section \<open>Rows\<close>

lemma dead_iff:
  assumes "nheaders d \<le> 340"
  shows "(\<exists>h \<in> set (hdrs d). recordID h = 0) \<longleftrightarrow> (\<exists>l. unat l < nheaders d \<and> records d l = None)"
proof -
  have "nheaders d \<le> 65536" using assms by simp
  from set_local_ids [OF this] have "set (local_ids (nheaders d)) = {l. unat l < nheaders d}" by blast
  then have "set (hdrs d) = hdr d ` {l. unat l < nheaders d}" by (simp add: hdrs_def)
  moreover have "records d l = None \<longleftrightarrow> \<not> (unat l < nheaders d \<and> recordID (hdr d l) \<noteq> 0)" for l by (simp add: records_def)
  ultimately show ?thesis by auto
qed

lemma free_of_cong:
  assumes "rb_wf d" "nheaders f = nheaders d" "util_of f = util_of d" "dom (records f) = dom (records d)"
  shows "free_of f = free_of d"
proof -
  note W = rb_wfD [OF assms(1)]
  have "records f l = None \<longleftrightarrow> records d l = None" for l using assms(4) by (metis domIff)
  with dead_iff [of d] dead_iff [of f] W(2) assms(2,3) show ?thesis by (simp add: free_of_def)
qed

lemma set_chained:
  assumes "rb_wf d" "records d l = Some (rid, data, c)"
  shows "\<exists>f. SetChainedRowID l row d = Ok (Inr (), f) \<and> rb_wf f \<and> records f = (records d)(l \<mapsto> (rid, data, row)) \<and>
    free_of f = free_of d \<and> next_of f = next_of d"
proof -
  from SetChainedRowID_Ok [OF assms, of row] obtain f where
    f: "SetChainedRowID l row d = Ok (Inr (), f)" "rb_wf f" "records f = (records d)(l \<mapsto> (rid, data, row))"
      "agree 4088 4096 d f" by blast
  have l: "length d = 4096" "length f = 4096" using rb_wfD(1) assms(1) f(2) by auto
  have u: "u16_at p f = u16_at p d" if "4088 \<le> p" "p \<le> 4094" for p
    using f(4) l that by (auto intro: agree_u16_at)
  have "nheaders f = nheaders d" "util_of f = util_of d" "next_of f = next_of d"
    using u [of 4090] u [of 4092] u [of 4094] by (simp_all add: nheaders_def util_of_def next_of_def)
  moreover from this have "free_of f = free_of d" using assms f(3) by (intro free_of_cong) auto
  ultimately show ?thesis using f(1-3) by blast
qed

context go_sorter begin

lemma add_row:
  assumes "rb_wf d" "rid \<noteq> 0" "data \<noteq> []" "\<forall>l r. records d l = Some r \<longrightarrow> fst r \<noteq> rid" "length data \<le> free_of d"
  shows "\<exists>l f. Add srt rid data d = Ok (l, f) \<and> rb_wf f \<and> records d l = None \<and>
    records f = (records d)(l \<mapsto> (rid, data, \<lparr>DataBlockID = 0, LocalID = 0\<rparr>)) \<and> next_of f = next_of d \<and>
    (length data = free_of d \<longrightarrow> free_of f = 0)"
proof -
  from FreeSpaceForInsert_free [OF assms(1)] obtain fs where fs: "FreeSpaceForInsert d = Ok (fs, d)" "unat fs = free_of d"
    by blast
  from Add_Ok [OF assms(1-4) fs(1)] fs(2) assms(5) obtain l f where
    f: "Add srt rid data d = Ok (l, f)" "rb_wf f" "records d l = None"
      "records f = (records d)(l \<mapsto> (rid, data, \<lparr>DataBlockID = 0, LocalID = 0\<rparr>))" "agree 4088 4092 d f"
      "nheaders f = (if \<exists>h \<in> set (hdrs d). recordID h = 0 then nheaders d else nheaders d + 1)" by auto
  have "next_of f = next_of d" using f(5) rb_wfD(1) [OF assms(1)] rb_wfD(1) [OF f(2)]
    unfolding next_of_def by (auto intro: agree_u16_at)
  with f free_of_full [OF assms(1) f(2,3,4,6) _ assms(3)] show ?thesis by blast
qed

end

text \<open>The table of the rows in the blocks of \<open>B\<close>, and a chain of rows with the data that it holds.\<close>

type_synonym rowTable = "RowID \<rightharpoonup> u32 \<times> bytes \<times> RowID"

definition rows :: "(u16 \<Rightarrow> bytes) \<Rightarrow> u16 set \<Rightarrow> rowTable" where
  "rows a B r = (if DataBlockID r \<in> B then records (a (DataBlockID r)) (LocalID r) else None)"

fun linked :: "rowTable \<Rightarrow> u32 \<Rightarrow> RowID \<Rightarrow> RowID list \<Rightarrow> bytes \<Rightarrow> bool" where
  "linked tab rid c [] data \<longleftrightarrow> DataBlockID c = 0 \<and> data = []"
| "linked tab rid c (r # rs) data \<longleftrightarrow> c = r \<and> DataBlockID r \<noteq> 0 \<and>
     (\<exists>x c' rest. tab r = Some (rid, x, c') \<and> data = x @ rest \<and> linked tab rid c' rs rest)"

lemma rows_update:
  assumes "i \<in> B" "records f = (records (a i))(l \<mapsto> x)"
  shows "rows (a(i := f)) B = (rows a B)(\<lparr>DataBlockID = i, LocalID = l\<rparr> \<mapsto> x)"
proof
  fix r :: RowID
  show "rows (a(i := f)) B r = ((rows a B)(\<lparr>DataBlockID = i, LocalID = l\<rparr> \<mapsto> x)) r"
    using assms by (cases r) (auto simp: rows_def)
qed

lemma rows_same: "(\<And>i. i \<in> B \<Longrightarrow> records (a' i) = records (a i)) \<Longrightarrow> rows a' B = rows a B"
  by (auto simp: rows_def fun_eq_iff)

lemma linked_cong:
  "linked tab rid c rs data \<Longrightarrow> (\<And>r. r \<in> set rs \<Longrightarrow> tab' r = tab r) \<Longrightarrow> linked tab' rid c rs data"
  by (induction rs arbitrary: c data) auto

section \<open>Loading\<close>

context block_file begin

text \<open>The blocks of \<open>B\<close> are record blocks that can be read.\<close>

lemma wp_row:
  assumes "st R a b" "kept p R g b" "B \<subseteq> R" "\<forall>i \<in> B. rb_wf (a i)" "rows a B r = Some (rid, x, c)"
    "\<And>h b'. st R a b' \<Longrightarrow> kept p R g b' \<Longrightarrow> onBlock h (ReadRecordData (LocalID r)) b' = Ok (Inr x, b') \<Longrightarrow>
      onBlock h (ChainedRowID (LocalID r)) b' = Ok (Inr c, b') \<Longrightarrow> Q h b'"
  shows "wp (repoRecordBlock D (DataBlockID r)) Q b"
  unfolding repoRecordBlock_def
proof -
  have r: "DataBlockID r \<in> B" "records (a (DataBlockID r)) (LocalID r) = Some (rid, x, c)"
    using assms(5) by (auto simp: rows_def split: if_splits)
  note M = reads_Ok [of "a (DataBlockID r)" "LocalID r"]
  show "wp (fetchBlock D (DataBlockID r)) Q b"
  proof (rule wp_fetchBlock_kept [OF assms(1,2)])
    show "DataBlockID r \<in> R" using r(1) assms(3) by blast
    fix h b' assume h: "ID h = DataBlockID r" "live b' h" "st R a b'" "kept p R (insert h g) b'"
    have "kept p R g b'" by (rule kept_mono [OF h(4)]) auto
    then show "Q h b'"
      using M r assms(4) h by (intro assms(6) onBlock_st_read [OF h(3,2)]) simp_all
  qed
qed

lemma row_run:
  assumes "st R a b" "kept p R g b" "B \<subseteq> R" "\<forall>i \<in> B. rb_wf (a i)" "rows a B r = Some (rid, x, c)"
  obtains h b1 where "repoRecordBlock D (DataBlockID r) b = Ok (h, b1)" "st R a b1" "kept p R g b1"
    "onBlock h (ReadRecordData (LocalID r)) b1 = Ok (Inr x, b1)" "onBlock h (ChainedRowID (LocalID r)) b1 = Ok (Inr c, b1)"
proof -
  have "wp (repoRecordBlock D (DataBlockID r)) (\<lambda>h b'. st R a b' \<and> kept p R g b' \<and>
      onBlock h (ReadRecordData (LocalID r)) b' = Ok (Inr x, b') \<and> onBlock h (ChainedRowID (LocalID r)) b' = Ok (Inr c, b')) b"
    by (rule wp_row [OF assms]) simp
  then show thesis by (auto simp: wp_iff intro: that)
qed

lemma loadChain_kept:
  "st R a b \<Longrightarrow> kept p R g b \<Longrightarrow> B \<subseteq> R \<Longrightarrow> \<forall>i \<in> B. rb_wf (a i) \<Longrightarrow> linked (rows a B) rid c rs data \<Longrightarrow>
    length rs \<le> n \<Longrightarrow> \<exists>b'. loadChain D n c b = Ok (Inr data, b') \<and> st R a b' \<and> kept p R g b'"
proof (induction rs arbitrary: c data n b)
  case Nil
  then show ?case by (cases n) auto
next
  case (Cons r rs)
  from Cons.prems(5) obtain x c' rest where
    r: "c = r" "DataBlockID r \<noteq> 0" "rows a B r = Some (rid, x, c')" "data = x @ rest" "linked (rows a B) rid c' rs rest" by auto
  from Cons.prems(6) obtain m where m: "n = Suc m" "length rs \<le> m" by (cases n) auto
  obtain h b1 where h: "repoRecordBlock D (DataBlockID r) b = Ok (h, b1)" "st R a b1" "kept p R g b1"
    "onBlock h (ReadRecordData (LocalID r)) b1 = Ok (Inr x, b1)" "onBlock h (ChainedRowID (LocalID r)) b1 = Ok (Inr c', b1)"
    by (rule row_run [OF Cons.prems(1-4) r(3)])
  from Cons.IH [OF h(2,3) Cons.prems(3,4) r(5) m(2)] obtain b2 where
    "loadChain D m c' b1 = Ok (Inr rest, b2)" "st R a b2" "kept p R g b2" by blast
  with h r(1,2,4) m(1) show ?case by (auto simp: bind_def)
qed

lemma loadRecord_kept:
  assumes "st R a b" "kept p R g b" "B \<subseteq> R" "\<forall>i \<in> B. rb_wf (a i)" "linked (rows a B) rid r (r # rs) data" "length rs \<le> n"
  shows "\<exists>b'. loadRecord D n k r b = Ok (Inr \<lparr>RecID = k, Data = data\<rparr>, b') \<and> st R a b' \<and> kept p R g b'"
proof -
  from assms(5) obtain x c' rest where
    r: "rows a B r = Some (rid, x, c')" "data = x @ rest" "linked (rows a B) rid c' rs rest" by auto
  obtain h b1 where h: "repoRecordBlock D (DataBlockID r) b = Ok (h, b1)" "st R a b1" "kept p R g b1"
    "onBlock h (ReadRecordData (LocalID r)) b1 = Ok (Inr x, b1)" "onBlock h (ChainedRowID (LocalID r)) b1 = Ok (Inr c', b1)"
    by (rule row_run [OF assms(1-4) r(1)])
  from loadChain_kept [OF h(2,3) assms(3,4) r(3) assms(6)] obtain b2 where
    "loadChain D n c' b1 = Ok (Inr rest, b2)" "st R a b2" "kept p R g b2" by blast
  with h r(2) show ?thesis by (auto simp: loadRecord_def bind_def)
qed

lemmas loadRecord_Ok = loadRecord_kept [where p = False, simplified kept_False True_implies_equals simp_thms]

end

section \<open>Properties\<close>

text \<open>C24: loading a row returns the bytes of the whole chain that starts there, joined in order, with any
  size of the buffer, and changes no block; the fuel is the number of rows after the first. A row
  that does not exist is reported as an invalid local ID.\<close>

theorem load_joins_chain:
  assumes "store os_inv os_block os_writable R a b" "B \<subseteq> R" "\<forall>i \<in> B. rb_wf (a i)" "DataBlockID r \<in> B"
  shows "(\<forall>rs data rid. linked (rows a B) rid r (r # rs) data \<longrightarrow> length rs \<le> n \<longrightarrow>
      (\<exists>b'. loadRecord osDataFile n k r b = Ok (Inr \<lparr>RecID = k, Data = data\<rparr>, b') \<and>
        store os_inv os_block os_writable R a b')) \<and>
    (rows a B r = None \<longrightarrow>
      (\<exists>b'. loadRecord osDataFile n k r b = Ok (Inl (ErrInvalidLocalID (LocalID r)), b') \<and>
        store os_inv os_block os_writable R a b'))"
proof (intro conjI allI impI)
  fix rs data rid assume "linked (rows a B) rid r (r # rs) data" "length rs \<le> n"
  from osf.loadRecord_Ok [OF assms(1-3) this]
  show "\<exists>b'. loadRecord osDataFile n k r b = Ok (Inr \<lparr>RecID = k, Data = data\<rparr>, b') \<and>
    store os_inv os_block os_writable R a b'" .
next
  assume "rows a B r = None"
  with assms(4) have n: "records (a (DataBlockID r)) (LocalID r) = None" by (simp add: rows_def)
  have "DataBlockID r \<in> R" using assms(2,4) by blast
  have "wp (fetchBlock osDataFile (DataBlockID r)) (\<lambda>h b'. ID h = DataBlockID r \<and> live b' h \<and>
      store os_inv os_block os_writable R a b') b"
    by (rule osf.wp_fetchBlock [OF assms(1) \<open>DataBlockID r \<in> R\<close>]) simp
  then obtain h b' where h: "fetchBlock osDataFile (DataBlockID r) b = Ok (h, b')" "ID h = DataBlockID r" "live b' h"
    "store os_inv os_block os_writable R a b'" by (auto simp: wp_iff)
  have "onBlock h (ReadRecordData (LocalID r)) b' = Ok (Inl (ErrInvalidLocalID (LocalID r)), b')"
    using reads_Ok(1) [of "a (DataBlockID r)" "LocalID r"] assms(3,4) n h(2)
    by (intro osf.onBlock_st_read [OF h(4,3)]) simp
  with h(1,4) show "\<exists>b'. loadRecord osDataFile n k r b = Ok (Inl (ErrInvalidLocalID (LocalID r)), b') \<and>
    store os_inv os_block os_writable R a b'" by (simp add: loadRecord_def repoRecordBlock_def bind_def)
qed

lemma load_joins_chain_witness:
  "\<exists>a l b b'. NewDataBuffer (file_of 5 a) 5 = Ok b \<and>
     loadRecord osDataFile 1 7 \<lparr>DataBlockID = 3, LocalID = l\<rparr> b = Ok (Inr \<lparr>RecID = 7, Data = [1, 2, 3, 1, 2, 3]\<rparr>, b')"
proof -
  from one_record(2) obtain l where l: "records one_record = [l \<mapsto> (7, [1, 2, 3], \<lparr>DataBlockID = 0, LocalID = 0\<rparr>)]" by blast
  have "records one_record l = Some (7, [1, 2, 3], \<lparr>DataBlockID = 0, LocalID = 0\<rparr>)" using l by simp
  from set_chained [OF one_record(1) this, of "\<lparr>DataBlockID = 4, LocalID = l\<rparr>"] l obtain f where
    f: "rb_wf f" "records f = [l \<mapsto> (7, [1, 2, 3], \<lparr>DataBlockID = 4, LocalID = l\<rparr>)]" by auto
  let ?a = "\<lambda>i :: u16. if i = 3 then f else if i = 4 then one_record else replicate 4096 0"
  have "length (?a i) = DATABLOCK_SIZE" for i
    using rb_wfD(1) [OF f(1)] rb_wfD(1) [OF one_record(1)] by (simp add: block_size_word)
  from file_of_store [of 5 ?a, OF _ this] obtain b where
    b: "NewDataBuffer (file_of 5 ?a) 5 = Ok b" "store os_inv os_block os_writable {i. unat i < 5} ?a b" by auto
  let ?r = "\<lparr>DataBlockID = 3, LocalID = l\<rparr>" and ?c = "\<lparr>DataBlockID = 4, LocalID = l\<rparr>"
  have lk: "linked (rows ?a {3, 4}) 7 ?r [?r, ?c] [1, 2, 3, 1, 2, 3]" using l f(2) by (auto simp: rows_def)
  have "{3, 4} \<subseteq> {i :: u16. unat i < 5}" "\<forall>i \<in> {3, 4}. rb_wf (?a i)" "DataBlockID ?r \<in> {3, 4}"
    using f(1) one_record(1) by simp_all
  note L = conjunct1 [OF load_joins_chain [OF b(2) this, of 1 7], rule_format, OF lk]
  have "\<exists>b'. loadRecord osDataFile 1 7 ?r b = Ok (Inr \<lparr>RecID = 7, Data = [1, 2, 3, 1, 2, 3]\<rparr>, b') \<and>
      store os_inv os_block os_writable {i. unat i < 5} ?a b'" by (rule L) simp
  with b(1) show ?thesis by blast
qed

end
