(* ===== verification/FreeBlocks.thy ===== *)
theory FreeBlocks
  imports BlocksMap
begin

text \<open>
  The used blocks that the map knows of, and what is left: the clients of the map, the index and the
  record allocator, take the least free block. A block that is taken takes its pair with it.
\<close>

definition used :: "(u16 \<Rightarrow> bytes) \<Rightarrow> u16 set" where
  "used a = {j. mapped j \<and> in_use a j}"

text \<open>
  Two blocks of a pair share one flag, so that a new node takes a whole pair: what is left is the
  number of clear flags.
\<close>

definition flag_of :: "u16 \<Rightarrow> u16 \<times> nat \<times> nat" where
  "flag_of i = (map_block i, slot (flag i))"

definition clear_flags :: "u16 set \<Rightarrow> (u16 \<Rightarrow> bytes) \<Rightarrow> (u16 \<times> nat \<times> nat) set" where
  "clear_flags R a = flag_of ` {i \<in> R. mapped i \<and> i \<notin> used a}"

lemma twin_flag_of: "twin i j \<longleftrightarrow> flag_of i = flag_of j"
  using flag_twin twin_map_block by (auto simp: flag_of_def)

lemma clear_flags_used:
  assumes "used a' = {j. mapped j \<and> twin r j} \<union> used a" "r \<in> R" "mapped r" "r \<notin> used a"
  shows "card (clear_flags R a) = Suc (card (clear_flags R a'))"
proof -
  have "flag_of ` {i \<in> R. mapped i \<and> i \<notin> {j. mapped j \<and> flag_of r = flag_of j} \<union> U} =
      flag_of ` {i \<in> R. mapped i \<and> i \<notin> U} - {flag_of r}" for U by auto
  then have "clear_flags R a' = clear_flags R a - {flag_of r}"
    unfolding clear_flags_def assms(1) twin_flag_of .
  moreover have "flag_of r \<in> clear_flags R a" using assms(2-4) by (auto simp: clear_flags_def)
  moreover have "finite (clear_flags R a)" by (simp add: clear_flags_def)
  ultimately show ?thesis by (metis card_Suc_Diff1)
qed

lemma first_free_in:
  assumes "clear_flags R a \<noteq> {}" "\<forall>j \<in> R. \<forall>i. unat i \<le> unat j \<longrightarrow> i \<in> R"
  obtains r where "first_free a = Some r" "r \<in> R" "mapped r" "r \<notin> used a"
proof -
  from assms(1) obtain j where j: "j \<in> R" "mapped j" "\<not> in_use a j" by (auto simp: clear_flags_def used_def)
  with first_free_None [of a j] obtain r where r: "first_free a = Some r" by (cases "first_free a") auto
  note F = first_free_Some [OF r]
  have "unat r \<le> unat j" using F(3) [of j] j(3) by (meson not_le)
  with assms(2) j(1) have "r \<in> R" by blast
  with r F(1,2) that show thesis by (auto simp: used_def)
qed

text \<open>What writes to a node's block, the control block and a map block do to the set of used blocks.\<close>

lemma used_map_block: "mapped i \<Longrightarrow> map_block i \<in> {1, 2}"
  using map_block_mapped by auto

lemma used_update:
  assumes "i \<notin> {1, 2}"
  shows "used (a(i := d)) = used a"
  using used_map_block assms by (fastforce simp: used_def in_use_def)

lemma used_mark:
  assumes "in_use (a(map_block r := d)) = (\<lambda>j. twin r j \<or> in_use a j)"
  shows "used (a(map_block r := d)) = {j. mapped j \<and> twin r j} \<union> used a"
  using assms by (auto simp: used_def)

section \<open>Growing a set of blocks\<close>

text \<open>
  From one store of blocks to another, blocks are only added, and they were free; every other block
  is the same, apart from the map, and the control block keeps the pointers at the positions of \<open>P\<close>.
\<close>

definition grown :: "int set \<Rightarrow> (u16 \<Rightarrow> bytes) \<times> u16 set \<Rightarrow> (u16 \<Rightarrow> bytes) \<times> u16 set \<Rightarrow> bool" where
  "grown P x y \<longleftrightarrow> snd x \<subseteq> snd y \<and> (snd y - snd x) \<inter> used (fst x) = {} \<and> used (fst x) \<subseteq> used (fst y) \<and>
     (\<forall>j. j \<notin> snd y \<union> {0, 1, 2} \<longrightarrow> fst y j = fst x j) \<and>
     (\<forall>p \<in> P. u16_at p (fst y 0) = u16_at p (fst x 0))"

lemma grown_refl: "grown P x x"
  by (simp add: grown_def)

lemma grownD:
  assumes "grown P x y"
  shows "snd x \<subseteq> snd y" "(snd y - snd x) \<inter> used (fst x) = {}" "used (fst x) \<subseteq> used (fst y)"
    "j \<notin> snd y \<Longrightarrow> j \<notin> {0, 1, 2} \<Longrightarrow> fst y j = fst x j"
    "p \<in> P \<Longrightarrow> u16_at p (fst y 0) = u16_at p (fst x 0)"
  using assms by (simp_all add: grown_def)

lemma grown_trans:
  assumes "grown P x y" "grown P y z"
  shows "grown P x z"
  unfolding grown_def
proof (intro conjI ballI allI impI)
  note X = grownD [OF assms(1)] and Y = grownD [OF assms(2)]
  show "snd x \<subseteq> snd z" using X(1) Y(1) by (rule order_trans)
  show "(snd z - snd x) \<inter> used (fst x) = {}" using X(2,3) Y(2) by blast
  show "used (fst x) \<subseteq> used (fst z)" using X(3) Y(3) by (rule order_trans)
  show "fst z j = fst x j" if "j \<notin> snd z \<union> {0, 1, 2}" for j
    using that X(4) [of j] Y(4) [of j] Y(1) by auto
  show "u16_at p (fst z 0) = u16_at p (fst x 0)" if "p \<in> P" for p
    using X(5) [OF that] Y(5) [OF that] by simp
qed

context block_file begin

text \<open>Fetching a block, writing to it and marking it, in a pool.\<close>

lemma wp_fetch_write:
  assumes "st R a b" "kept p R g b" "i \<in> R" "m (a i) = Ok (x, d)" "length d = 4096" "\<And>h. ID h = i \<Longrightarrow> mk h = i"
    "\<And>h b'. ID h = i \<Longrightarrow> live b' h \<Longrightarrow> st R (a(i := d)) b' \<Longrightarrow> kept p R (insert h g) b' \<Longrightarrow> wp (k h) Q b'"
  shows "wp (bind (fetchBlock D i) (\<lambda>h. seq (onBlock h m) (seq (MarkAsDirty (mk h)) (k h)))) Q b"
  unfolding wp_bind
proof (rule wp_fetchBlock_kept [OF assms(1-3)])
  fix h b' assume h: "ID h = i" "live b' h" "st R a b'" "kept p R (insert h g) b'"
  have "wp (seq (onBlock h m) (seq (MarkAsDirty (ID h)) (k h))) Q b'"
  proof (rule wp_write_seq [OF h(3,2), where x = x and d = d])
    fix b'' assume "st R (a(ID h := d)) b''" "\<forall>g. live b'' g = live b' g" "pool R b'' = pool R b'"
    with h kept_same [OF h(4), of b''] show "wp (k h) Q b''" by (intro assms(7)) simp_all
  qed (use h assms(3-5) in \<open>simp_all add: block_size_word\<close>)
  then show "wp (seq (onBlock h m) (seq (MarkAsDirty (mk h)) (k h))) Q b'"
    using assms(6) [OF h(1)] h(1) by simp
qed

end

end
