(* ===== verification/RecordAdds.thy ===== *)
theory RecordAdds
  imports RecordRows FreeBlocks
begin

text \<open>
  Adding a record over the linked list of record blocks,
  \<open>src/src/simplejsondb/core/record_allocator.go\<close>: the record goes to the first block on from the next
  available one that has space, chunk by chunk, with new blocks at the end of the list. The buffer is
  a pool here, so that the handles of the rows that are chained stay live.
\<close>

section \<open>The record blocks of a store\<close>

text \<open>
  A free block has the trailer of an empty record block: the allocator takes it as it is.
\<close>

definition blank :: "bytes \<Rightarrow> bool" where
  "blank d \<longleftrightarrow> length d = 4096 \<and> nheaders d = 0 \<and> util_of d = 8 \<and> next_of d = 0"

definition rec_own :: "('f \<Rightarrow> bool) \<Rightarrow> ('f \<Rightarrow> u16 \<Rightarrow> bytes) \<Rightarrow> ('f \<Rightarrow> u16 \<Rightarrow> bool) \<Rightarrow> u16 set
    \<Rightarrow> 'f dataBuffer \<Rightarrow> (u16 \<Rightarrow> bytes) \<times> u16 set \<Rightarrow> bool" where
  "rec_own fi fb wr R b x \<longleftrightarrow> (case x of (a, B) \<Rightarrow>
     store fi fb wr R a b \<and> pool R b \<and> {0, 1, 2} \<subseteq> R \<and> {0, 1, 2} \<inter> B = {} \<and> {0, 1, 2} \<union> B \<subseteq> used a \<and>
     B \<subseteq> R \<and> (\<forall>j \<in> R. \<forall>i. unat i \<le> unat j \<longrightarrow> i \<in> R) \<and> (\<forall>i \<in> B. rb_wf (a i)) \<and>
     (\<forall>j \<in> R. mapped j \<longrightarrow> j \<notin> used a \<longrightarrow> blank (a j)))"

abbreviation rec_other :: "(u16 \<Rightarrow> bytes) \<times> u16 set \<Rightarrow> (u16 \<Rightarrow> bytes) \<times> u16 set \<Rightarrow> bool" where
  "rec_other \<equiv> grown {2, 4, 6}"

text \<open>A step of the allocator keeps the handles live and everything that is not a record block.\<close>

definition rec_step :: "('f \<Rightarrow> bool) \<Rightarrow> ('f \<Rightarrow> u16 \<Rightarrow> bytes) \<Rightarrow> ('f \<Rightarrow> u16 \<Rightarrow> bool) \<Rightarrow> u16 set
    \<Rightarrow> 'f dataBuffer \<Rightarrow> (u16 \<Rightarrow> bytes) \<times> u16 set \<Rightarrow> 'f dataBuffer \<Rightarrow> (u16 \<Rightarrow> bytes) \<times> u16 set \<Rightarrow> bool" where
  "rec_step fi fb wr R b x b' x' \<longleftrightarrow>
     rec_own fi fb wr R b' x' \<and> (\<forall>h. live b h \<longrightarrow> live b' h) \<and> rec_other x x'"

text \<open>The blocks from one on along the next pointers, to the end of the list.\<close>

fun onward :: "(u16 \<Rightarrow> bytes) \<Rightarrow> u16 list \<Rightarrow> bool" where
  "onward a [] = False"
| "onward a [p] = (next_of (a p) = 0)"
| "onward a (p # q # ps) = (next_of (a p) = q \<and> onward a (q # ps))"

definition path_in :: "(u16 \<Rightarrow> bytes) \<Rightarrow> u16 set \<Rightarrow> u16 list \<Rightarrow> bool" where
  "path_in a B ps \<longleftrightarrow> onward a ps \<and> distinct ps \<and> set ps \<subseteq> B"

text \<open>The control block points to a block of the list that has space, or after which space is sought.\<close>

definition available :: "(u16 \<Rightarrow> bytes) \<Rightarrow> u16 set \<Rightarrow> bool" where
  "available a B \<longleftrightarrow> (\<exists>ps. path_in a B (u16_at 0 (a 0) # ps))"

lemma blank_block:
  assumes "blank d"
  shows "rb_wf d" "records d = (\<lambda>_. None)" "free_of d = 4076" "next_of d = 0"
proof -
  show "rb_wf d" "records d = (\<lambda>_. None)" using assms empty_wf [of d] by (simp_all add: blank_def)
  show "next_of d = 0" using assms by (simp add: blank_def)
  have "hdrs d = []" using assms by (simp add: hdrs_def local_ids_def blank_def)
  then show "free_of d = 4076" using assms by (simp add: free_of_def blank_def)
qed

lemma onward_cong: "(\<And>i. i \<in> set ps \<Longrightarrow> next_of (a' i) = next_of (a i)) \<Longrightarrow> onward a' ps = onward a ps"
  by (induction a ps rule: onward.induct) auto

lemma path_in_step:
  assumes "path_in a B ps" "\<And>i. i \<in> B \<Longrightarrow> next_of (a' i) = next_of (a i)" "B \<subseteq> B'"
  shows "path_in a' B' ps"
proof -
  have "onward a' ps = onward a ps" using assms(1,2) by (intro onward_cong) (auto simp: path_in_def)
  with assms show ?thesis by (auto simp: path_in_def)
qed

lemma path_in_Cons:
  "path_in a B [p] \<longleftrightarrow> next_of (a p) = 0 \<and> p \<in> B"
  "path_in a B (p # q # ps) \<longleftrightarrow> next_of (a p) = q \<and> p \<in> B \<and> p \<notin> set (q # ps) \<and> path_in a B (q # ps)"
  by (auto simp: path_in_def)

lemma path_in_hd: "path_in a B (p # ps) \<Longrightarrow> p \<in> B"
  by (simp add: path_in_def)

lemma path_length:
  assumes "path_in a B ps"
  shows "length ps \<le> 65536"
proof -
  have "length ps = card (set ps)" using assms by (simp add: path_in_def distinct_card)
  also have "\<dots> = card (unat ` set ps)" by (intro card_image [symmetric] inj_onI) simp
  also have "\<dots> \<le> card {..< 65536 :: nat}" using u16_bound by (intro card_mono) auto
  finally show ?thesis by simp
qed

text \<open>The number of new blocks that \<open>n\<close> bytes can need.\<close>

definition blocks_for :: "nat \<Rightarrow> nat" where
  "blocks_for n = (n + 4075) div 4076"

lemma blocks_for_mono: "m \<le> n \<Longrightarrow> blocks_for m \<le> blocks_for n"
  unfolding blocks_for_def by (intro div_le_mono) simp

lemma blocks_for_less: "0 < n \<Longrightarrow> Suc (blocks_for (n - 4076)) \<le> blocks_for n"
  unfolding blocks_for_def by (cases "n \<le> 4076") (auto simp: not_le div_add_self1)

lemma blocks_for_pos: "0 < n \<Longrightarrow> 0 < blocks_for n"
  unfolding blocks_for_def by simp

lemma rec_update_other:
  assumes "i \<in> B" "{0, 1, 2} \<inter> B = {}"
  shows "rec_other (a, B) (a(i := d), B)"
proof -
  have i: "i \<notin> {0, 1, 2}" using assms by blast
  then have "used (a(i := d)) = used a" by (intro used_update) auto
  with i assms(1) show ?thesis by (auto simp: grown_def)
qed

context block_file begin

abbreviation rown where "rown \<equiv> rec_own finv fblk writable"

lemma rownD:
  assumes "rown R b (a, B)"
  shows "st R a b" "pool R b" "{0, 1, 2} \<subseteq> R" "{0, 1, 2} \<inter> B = {}" "{0, 1, 2} \<subseteq> used a" "B \<subseteq> used a" "B \<subseteq> R"
    "\<forall>j \<in> R. \<forall>i. unat i \<le> unat j \<longrightarrow> i \<in> R" "i \<in> B \<Longrightarrow> rb_wf (a i)"
    "j \<in> R \<Longrightarrow> mapped j \<Longrightarrow> j \<notin> used a \<Longrightarrow> blank (a j)" "length (a 0) = 4096"
proof -
  have A: "st R a b" "pool R b" "{0, 1, 2} \<subseteq> R" "{0, 1, 2} \<inter> B = {}" "{0, 1, 2} \<union> B \<subseteq> used a" "B \<subseteq> R"
    "\<forall>j \<in> R. \<forall>i. unat i \<le> unat j \<longrightarrow> i \<in> R" "\<forall>i \<in> B. rb_wf (a i)"
    "\<forall>j \<in> R. mapped j \<longrightarrow> j \<notin> used a \<longrightarrow> blank (a j)"
    using assms unfolding rec_own_def case_prod_conv by blast+
  show "st R a b" "pool R b" "{0, 1, 2} \<subseteq> R" "{0, 1, 2} \<inter> B = {}" "B \<subseteq> R"
    "\<forall>j \<in> R. \<forall>i. unat i \<le> unat j \<longrightarrow> i \<in> R" by (fact A)+
  show "{0, 1, 2} \<subseteq> used a" "B \<subseteq> used a" using A(5) by simp_all
  show "i \<in> B \<Longrightarrow> rb_wf (a i)" "j \<in> R \<Longrightarrow> mapped j \<Longrightarrow> j \<notin> used a \<Longrightarrow> blank (a j)" using A(8,9) by blast+
  have "0 \<in> R" using A(3) by simp
  from st_length [OF A(1) this] show "length (a 0) = 4096" by (simp add: block_size_word)
qed

lemma rownI:
  assumes "st R a b" "pool R b" "{0, 1, 2} \<subseteq> R" "{0, 1, 2} \<inter> B = {}" "{0, 1, 2} \<subseteq> used a" "B \<subseteq> used a" "B \<subseteq> R"
    "\<forall>j \<in> R. \<forall>i. unat i \<le> unat j \<longrightarrow> i \<in> R" "\<forall>i \<in> B. rb_wf (a i)"
    "\<And>j. j \<in> R \<Longrightarrow> mapped j \<Longrightarrow> j \<notin> used a \<Longrightarrow> blank (a j)"
  shows "rown R b (a, B)"
proof -
  have "{0, 1, 2} \<union> B \<subseteq> used a" using assms(5,6) by (rule Un_least)
  moreover have "\<forall>j \<in> R. mapped j \<longrightarrow> j \<notin> used a \<longrightarrow> blank (a j)" using assms(10) by simp
  ultimately show ?thesis unfolding rec_own_def case_prod_conv using assms(1-4,7-9) by (intro conjI)
qed

lemma rown_update:
  assumes "rown R b (a, B)" "st R (a(i := d)) b'" "pool R b'" "i \<in> B" "rb_wf d"
  shows "rown R b' (a(i := d), B)"
proof -
  note O = rownD [OF assms(1)]
  have i: "i \<notin> {0, 1, 2}" using O(4) assms(4) by blast
  then have u: "used (a(i := d)) = used a" by (intro used_update) auto
  have n: "\<forall>j \<in> B. rb_wf ((a(i := d)) j)" using O(9) assms(5) by simp
  have k: "blank ((a(i := d)) j)" if "j \<in> R" "mapped j" "j \<notin> used (a(i := d))" for j
    using O(10) [of j] that u O(6) assms(4) by auto
  show ?thesis by (rule rownI [OF assms(2,3) O(3,4) _ _ O(7,8) n k]) (simp_all only: u O(5,6) not_False_eq_True)
qed

abbreviation rstep where "rstep \<equiv> rec_step finv fblk writable"

lemma rstepD:
  assumes "rstep R b x b' x'"
  shows "rown R b' x'" "live b h \<Longrightarrow> live b' h" "rec_other x x'"
  using assms by (simp_all add: rec_step_def)

lemma rstep_refl: "rown R b x \<Longrightarrow> rstep R b x b x"
  by (simp add: rec_step_def grown_refl)

lemma rstep_trans: "rstep R b x b' x' \<Longrightarrow> rstep R b' x' b'' x'' \<Longrightarrow> rstep R b x b'' x''"
  unfolding rec_step_def using grown_trans by blast

subsection \<open>Reading and writing\<close>

lemma rec_fetch:
  assumes "rown R b (a, B)" "i \<in> R"
  shows "\<exists>h b'. fetchBlock D i b = Ok (h, b') \<and> ID h = i \<and> live b' h \<and> rstep R b (a, B) b' (a, B)"
proof -
  note O = rownD [OF assms(1)]
  have k: "kept True R {g. live b g} b" using O(2) by (simp add: kept_def)
  have "wp (fetchBlock D i) (\<lambda>h b'. ID h = i \<and> live b' h \<and> st R a b' \<and> kept True R (insert h {g. live b g}) b') b"
    by (rule wp_fetchBlock_kept [OF O(1) k assms(2)]) simp
  then obtain h b' where h: "fetchBlock D i b = Ok (h, b')" "ID h = i" "live b' h" "st R a b'" "pool R b'"
    "\<forall>g. live b g \<longrightarrow> live b' g" by (auto simp: wp_iff kept_def)
  have "rown R b' (a, B)" by (rule rownI [OF h(4,5) O(3-8) _ O(10)]) (use O(9) in blast)
  with h show ?thesis by (auto simp: rec_step_def grown_refl)
qed

lemma rec_read:
  assumes "rown R b (a, B)" "live b h" "m (a (ID h)) = Ok (x, a (ID h))"
  shows "onBlock h m b = Ok (x, b)"
  using onBlock_st_read [where m = m, OF rownD(1) [OF assms(1)] assms(2,3)] .

lemma rec_write:
  assumes "rown R b (a, B)" "live b h" "ID h \<in> B" "m (a (ID h)) = Ok (y, d)" "rb_wf d"
  shows "\<exists>b1 b'. onBlock h m b = Ok (y, b1) \<and> MarkAsDirty (ID h) b1 = Ok (None, b') \<and>
    rstep R b (a, B) b' (a(ID h := d), B)"
proof -
  note O = rownD [OF assms(1)]
  have R: "ID h \<in> R" using assms(3) O(7) by blast
  have l: "length d = DATABLOCK_SIZE" using rb_wfD(1) [OF assms(5)] by (simp add: block_size_word)
  note S = stD [OF O(1)]
  have "m (view b (ID h)) = Ok (y, d)" using assms(4) S(3) by simp
  from write_mark [where m = m, OF S(1) assms(2) S(4) [OF R] this l] obtain b1 b' where
    w: "onBlock h m b = Ok (y, b1)" "MarkAsDirty (ID h) b1 = Ok (None, b')" "inv b'"
      "view b' = (view b)(ID h := d)" "idToFrame b' = idToFrame b" "df b' = df b" "bufsize b' = bufsize b" by blast
  have s: "st R (a(ID h := d)) b'" and p: "pool R b'" and lv: "\<forall>g. live b' g = live b g"
    using w O(1,2) by (simp_all add: store_def pool_def live_def)
  have "rown R b' (a(ID h := d), B)" by (rule rown_update [OF assms(1) s p assms(3,5)])
  moreover have "rec_other (a, B) (a(ID h := d), B)" by (rule rec_update_other [OF assms(3) O(4)])
  ultimately show ?thesis using w(1,2) lv by (auto simp: rec_step_def)
qed

end

section \<open>New blocks\<close>

text \<open>What the new block \<open>r\<close> after block \<open>i\<close> does to the list and to the rows.\<close>

definition extended :: "(u16 \<Rightarrow> bytes) \<Rightarrow> u16 set \<Rightarrow> u16 \<Rightarrow> u16 \<Rightarrow> (u16 \<Rightarrow> bytes) \<Rightarrow> bool" where
  "extended a B i r a' \<longleftrightarrow> r \<notin> B \<and> r \<noteq> 0 \<and> u16_at 0 (a' 0) = r \<and>
     next_of (a' r) = 0 \<and> free_of (a' r) = 4076 \<and> records (a' r) = Map.empty \<and> next_of (a' i) = r \<and>
     (\<forall>j \<in> B. records (a' j) = records (a j) \<and> free_of (a' j) = free_of (a j)) \<and>
     (\<forall>j \<in> B. j \<noteq> i \<longrightarrow> next_of (a' j) = next_of (a j))"

lemma extendedD:
  assumes "extended a B i r a'"
  shows "r \<notin> B" "r \<noteq> 0" "u16_at 0 (a' 0) = r" "next_of (a' r) = 0" "free_of (a' r) = 4076" "records (a' r) = Map.empty"
    "next_of (a' i) = r" "j \<in> B \<Longrightarrow> records (a' j) = records (a j)" "j \<in> B \<Longrightarrow> free_of (a' j) = free_of (a j)"
    "j \<in> B \<Longrightarrow> j \<noteq> i \<Longrightarrow> next_of (a' j) = next_of (a j)" "rows a' (insert r B) = rows a B"
  using assms by (auto simp: extended_def rows_def fun_eq_iff)

text \<open>A free block is taken, linked after block \<open>i\<close>, the last of the list, and becomes the next available one.\<close>

definition linkedAfter :: "(u16 \<Rightarrow> bytes) \<Rightarrow> u16 \<Rightarrow> u16 \<Rightarrow> u16 \<Rightarrow> bytes" where
  "linkedAfter a i r = a(r := put_at 4088 (be16_put i) (a r), i := put_at 4090 (be16_put r) (a i),
     0 := put_at 0 (be16_put r) (a 0))"

context block_file begin

lemma allocateNewBlock_run:
  assumes "rown R b (a, B)" "i \<in> B" "first_free a = Some r" "r \<in> R" "mapped r" "r \<notin> used a"
  shows "\<exists>b' d. allocateNewBlock D i b = Ok (Inr r, b') \<and> pool R b' \<and> (\<forall>g. live b g \<longrightarrow> live b' g) \<and>
    st R (linkedAfter (a(map_block r := d)) i r) b' \<and> in_use (a(map_block r := d)) = (\<lambda>j. twin r j \<or> in_use a j)"
proof -
  note O = rownD [OF assms(1)]
  have mb: "map_block r \<in> {1, 2}" by (rule used_map_block [OF assms(5)])
  then have mR: "map_block r \<in> R" "{1, 2} \<subseteq> R" "0 \<in> R" using O(3) by auto
  have n: "i \<noteq> r" "r \<notin> {0, 1, 2}" "i \<notin> {0, 1, 2}" "i \<in> R" using assms(2,6) O(4,5,6,7) by blast+
  have mi: "map_block r \<noteq> r" "map_block r \<noteq> i" "map_block r \<noteq> 0" using mb n by auto
  let ?g = "{g. live b g}"
  let ?Q = "\<lambda>x b'. x = Inr r \<and> (\<exists>d. kept True R ?g b' \<and> st R (linkedAfter (a(map_block r := d)) i r) b' \<and>
    in_use (a(map_block r := d)) = (\<lambda>j. twin r j \<or> in_use a j))"
  have k: "kept True R ?g b" using O(2) by (simp add: kept_def)
  have len: "length (a j) = 4096" if "j \<in> R" for j using st_length [OF O(1) that] by (simp add: block_size_word)
  have "wp (allocateNewBlock D i) ?Q b"
    unfolding allocateNewBlock_def repoRecordBlock_def repoControlBlock_def
    unfolding wp_bind [of "FirstFree D"]
  proof (rule wp_FirstFree_kept [OF O(1) k mR(2)], unfold assms(3) option.case wp_seq [of "MarkAsUsed D r"],
      rule wp_MarkAsUsed_kept [OF _ _ mR(1)], assumption, assumption)
    fix b1 d assume b1: "st R (a(map_block r := d)) b1" "kept True R ?g b1"
      "in_use (a(map_block r := d)) = (\<lambda>j. twin r j \<or> in_use a j)"
    let ?a = "a(map_block r := d)"
    let ?p = "put_at 4088 (be16_put i) (a r)" and ?n = "put_at 4090 (be16_put r) (a i)" and ?c = "put_at 0 (be16_put r) (a 0)"
    show "wp (bind (fetchBlock D r) (\<lambda>newBlock. seq (onBlock newBlock (SetPrevBlockID i)) (seq (MarkAsDirty r)
        (bind (fetchBlock D i) (\<lambda>startingBlock. seq (onBlock startingBlock (SetNextBlockID r)) (seq (MarkAsDirty i)
        (bind (fetchBlock D 0) (\<lambda>controlBlock. seq (onBlock controlBlock (SetNextAvailableRecordsDataBlockID r))
          (seq (MarkAsDirty (ID controlBlock)) (ret (Inr r))))))))))) ?Q b1"
    proof (rule wp_fetch_write [OF b1(1,2) assms(4), where x = "()" and d = ?p and mk = "\<lambda>_. r"])
      show "SetPrevBlockID i (?a r) = Ok ((), ?p)" using len [OF assms(4)] mi(1)
        by (simp add: SetPrevBlockID_def Write_VUint16_Ok)
      fix h2 b2 assume b2: "st R (?a(r := ?p)) b2" "kept True R (insert h2 ?g) b2"
      show "wp (bind (fetchBlock D i) (\<lambda>startingBlock. seq (onBlock startingBlock (SetNextBlockID r)) (seq (MarkAsDirty i)
        (bind (fetchBlock D 0) (\<lambda>controlBlock. seq (onBlock controlBlock (SetNextAvailableRecordsDataBlockID r))
          (seq (MarkAsDirty (ID controlBlock)) (ret (Inr r)))))))) ?Q b2"
      proof (rule wp_fetch_write [OF b2 n(4), where x = "()" and d = ?n and mk = "\<lambda>_. i"])
        show "SetNextBlockID r ((?a(r := ?p)) i) = Ok ((), ?n)" using len [OF n(4)] mi(2) n(1)
          by (simp add: SetNextBlockID_def Write_VUint16_Ok)
        fix h3 b3 assume b3: "st R (?a(r := ?p, i := ?n)) b3" "kept True R (insert h3 (insert h2 ?g)) b3"
        show "wp (bind (fetchBlock D 0) (\<lambda>controlBlock. seq (onBlock controlBlock (SetNextAvailableRecordsDataBlockID r))
          (seq (MarkAsDirty (ID controlBlock)) (ret (Inr r))))) ?Q b3"
        proof (rule wp_fetch_write [OF b3 mR(3), where x = "()" and d = ?c and mk = ID])
          show "SetNextAvailableRecordsDataBlockID r ((?a(r := ?p, i := ?n)) 0) = Ok ((), ?c)"
            using len [OF mR(3)] mi(3) n(2,3) by (simp add: SetNextAvailableRecordsDataBlockID_def control_pos Write_VUint16_Ok)
          fix h4 b4 assume b4: "st R (?a(r := ?p, i := ?n, 0 := ?c)) b4" "kept True R (insert h4 (insert h3 (insert h2 ?g))) b4"
          have "linkedAfter ?a i r = ?a(r := ?p, i := ?n, 0 := ?c)" using mi n by (simp add: linkedAfter_def)
          moreover have "kept True R ?g b4" by (rule kept_mono [OF b4(2)]) auto
          ultimately show "wp (ret (Inr r)) ?Q b4" using b4(1) b1(3) unfolding wp_ret by (intro conjI exI [of _ d]) simp_all
        qed (use len [OF mR(3)] in simp_all)
      qed (use len [OF n(4)] in simp_all)
    qed (use len [OF assms(4)] in simp_all)
  qed
  then show ?thesis by (auto simp: wp_iff kept_def)
qed

lemma allocateNewBlock_Ok:
  assumes "rown R b (a, B)" "i \<in> B" "clear_flags R a \<noteq> {}"
  shows "\<exists>r b' a'. allocateNewBlock D i b = Ok (Inr r, b') \<and> rstep R b (a, B) b' (a', insert r B) \<and>
    card (clear_flags R a) = Suc (card (clear_flags R a')) \<and> extended a B i r a'"
proof -
  note O = rownD [OF assms(1)]
  from first_free_in [OF assms(3) O(8)] obtain r where r: "first_free a = Some r" "r \<in> R" "mapped r" "r \<notin> used a" .
  from allocateNewBlock_run [OF assms(1,2) r] obtain b' d where
    A: "allocateNewBlock D i b = Ok (Inr r, b')" "pool R b'" "\<forall>g. live b g \<longrightarrow> live b' g"
      "st R (linkedAfter (a(map_block r := d)) i r) b'" "in_use (a(map_block r := d)) = (\<lambda>j. twin r j \<or> in_use a j)" by blast
  have mb: "map_block r \<in> {1, 2}" by (rule used_map_block [OF r(3)])
  have n: "i \<noteq> r" "r \<notin> {0, 1, 2}" "i \<notin> {0, 1, 2}" "i \<in> R" "r \<notin> B" using assms(2) r(4) O(4,5,6,7) by blast+
  have mi: "map_block r \<noteq> r" "map_block r \<noteq> i" "map_block r \<noteq> 0" "map_block r \<notin> B" using mb n O(4) by auto
  let ?a = "linkedAfter (a(map_block r := d)) i r"
  have v: "?a r = put_at 4088 (be16_put i) (a r)" "?a i = put_at 4090 (be16_put r) (a i)" "?a 0 = put_at 0 (be16_put r) (a 0)"
    using mi n by (simp_all add: linkedAfter_def)
  have same: "?a j = a j" if "j \<notin> {0, r, i, map_block r}" for j using that by (simp add: linkedAfter_def)
  have u: "used ?a = {j. mapped j \<and> twin r j} \<union> used a"
    unfolding linkedAfter_def using n by (simp add: used_update used_mark [OF A(5)])
  have ua: "used a \<subseteq> used ?a" unfolding u by simp
  have ru: "r \<in> used ?a" unfolding u using r(3) by (simp add: twin_def)
  note K = blank_block [OF O(10) [OF r(2,3,4)]]
  note P = neighbour_put [OF K(1), of 4088 i] and N = neighbour_put [OF O(9) [OF assms(2)], of 4090 r]
  have l0: "length (a 0) = 4096" by (rule O(11))
  have wf: "\<forall>j \<in> insert r B. rb_wf (?a j)"
  proof
    fix j assume j: "j \<in> insert r B"
    consider "j = r" | "j = i" | "j \<in> B" "j \<noteq> r" "j \<noteq> i" using j by blast
    then show "rb_wf (?a j)"
    proof cases
      case 3
      then have "j \<notin> {0, r, i, map_block r}" using O(4) mi(4) by auto
      with same O(9) 3 show ?thesis by simp
    qed (use P(1) N(1) v in simp_all)
  qed
  have bl: "blank (?a j)" if "j \<in> R" "mapped j" "j \<notin> used ?a" for j
  proof -
    have "j \<notin> {0, 1, 2}" "j \<noteq> r" "j \<noteq> i" using that(3) O(5,6) ua ru assms(2) by blast+
    then have "?a j = a j" using same mb by auto
    with O(10) [OF that(1,2)] that(3) ua show ?thesis by auto
  qed
  have own: "rown R b' (?a, insert r B)"
  proof (rule rownI [OF A(4,2) O(3) _ _ _ _ O(8) wf bl])
    show "{0, 1, 2} \<inter> insert r B = {}" using O(4) n(2) by blast
    show "{0, 1, 2} \<subseteq> used ?a" "insert r B \<subseteq> used ?a" using ua ru O(5,6) by blast+
    show "insert r B \<subseteq> R" using O(7) r(2) by simp
  qed
  have "rec_other (a, B) (?a, insert r B)"
    unfolding grown_def fst_conv snd_conv
  proof (intro conjI allI impI ballI)
    show "B \<subseteq> insert r B" "(insert r B - B) \<inter> used a = {}" "used a \<subseteq> used ?a" using ua r(4) by auto
    fix j assume "j \<notin> insert r B \<union> {0, 1, 2}"
    then have "j \<notin> {0, r, i, map_block r}" using assms(2) mb by auto
    then show "?a j = a j" by (rule same)
  next
    fix p :: int assume "p \<in> {2, 4, 6}"
    then show "u16_at p (?a 0) = u16_at p (a 0)" using l0 v(3) by auto
  qed
  with own A(3) have "rstep R b (a, B) b' (?a, insert r B)" by (simp add: rec_step_def)
  moreover have "extended a B i r ?a"
    unfolding extended_def
  proof (intro conjI ballI impI)
    show "r \<notin> B" "r \<noteq> 0" using n by auto
    show "u16_at 0 (?a 0) = r" using l0 v(3) by simp
    show "next_of (?a r) = 0" "free_of (?a r) = 4076" "records (?a r) = Map.empty" "next_of (?a i) = r"
      using P N K v by simp_all
    fix j assume j: "j \<in> B"
    have "?a j = a j" if "j \<noteq> i"
      using j that n(5) mi(4) O(4) by (intro same) auto
    then show "records (?a j) = records (a j)" "free_of (?a j) = free_of (a j)"
      "j \<noteq> i \<Longrightarrow> next_of (?a j) = next_of (a j)" using N v(2) by (cases "j = i"; simp)+
  qed
  moreover have "card (clear_flags R a) = Suc (card (clear_flags R ?a))" by (rule clear_flags_used [OF u r(2,3,4)])
  ultimately show ?thesis using A(1) by blast
qed

end

section \<open>Finding space\<close>

text \<open>
  A block \<open>i\<close> with space is found, of the list or new; the rows are the same. A record spends a block
  when it fills it, so that a block with space has no row of it.
\<close>

definition spaced :: "u16 set \<Rightarrow> (u16 \<Rightarrow> bytes) \<Rightarrow> u16 set \<Rightarrow> u16 \<Rightarrow> (u16 \<Rightarrow> bytes) \<Rightarrow> u16 set \<Rightarrow> bool" where
  "spaced R a B i a' B' \<longleftrightarrow> i \<in> B' \<and> free_of (a' i) \<noteq> 0 \<and> available a' B' \<and> (\<exists>ps. path_in a' B' (i # ps)) \<and>
     rows a' B' = rows a B \<and> (\<forall>j \<in> B. records (a' j) = records (a j) \<and> free_of (a' j) = free_of (a j)) \<and>
     ((a', B') = (a, B) \<or>
      card (clear_flags R a) = Suc (card (clear_flags R a')) \<and> free_of (a' i) = 4076 \<and> records (a' i) = Map.empty \<and>
      B' = insert i B)"

definition spent :: "(u16 \<Rightarrow> bytes) \<Rightarrow> u16 set \<Rightarrow> u32 \<Rightarrow> bool" where
  "spent a B rid \<longleftrightarrow> (\<forall>j \<in> B. free_of (a j) \<noteq> 0 \<longrightarrow> (\<forall>l x. records (a j) l = Some x \<longrightarrow> fst x \<noteq> rid))"

lemma spacedD:
  assumes "spaced R a B i a' B'"
  shows "i \<in> B'" "free_of (a' i) \<noteq> 0" "available a' B'" "\<exists>ps. path_in a' B' (i # ps)" "rows a' B' = rows a B"
  using assms by (auto simp: spaced_def)

lemma spaced_spent:
  assumes "spaced R a B i a' B'" "spent a B rid"
  shows "spent a' B' rid" "records (a' i) l = Some x \<Longrightarrow> fst x \<noteq> rid"
proof -
  have S: "records (a j) l = Some x \<Longrightarrow> free_of (a j) \<noteq> 0 \<Longrightarrow> j \<in> B \<Longrightarrow> fst x \<noteq> rid" for j l x
    using assms(2) unfolding spent_def by blast
  have "records (a' j) l = Some x \<Longrightarrow> free_of (a' j) \<noteq> 0 \<Longrightarrow> fst x \<noteq> rid" if j: "j \<in> B'" for j l x
  proof (cases "j \<in> B")
    case True
    then have "records (a' j) = records (a j)" "free_of (a' j) = free_of (a j)" using assms(1) by (simp_all add: spaced_def)
    with S [of j l x] True show "records (a' j) l = Some x \<Longrightarrow> free_of (a' j) \<noteq> 0 \<Longrightarrow> fst x \<noteq> rid" by simp
  next
    case False
    then have "records (a' j) = Map.empty" using assms(1) j by (auto simp: spaced_def)
    then show "records (a' j) l = Some x \<Longrightarrow> free_of (a' j) \<noteq> 0 \<Longrightarrow> fst x \<noteq> rid" by simp
  qed
  then show "spent a' B' rid" unfolding spent_def by blast
  then show "records (a' i) l = Some x \<Longrightarrow> fst x \<noteq> rid" using spacedD(1,2) [OF assms(1)] unfolding spent_def by blast
qed

lemma spaced_room:
  assumes "spaced R a B i a' B'" "0 < n"
  shows "card (clear_flags R a) + blocks_for (n - free_of (a' i)) \<le> card (clear_flags R a') + blocks_for n"
proof (cases "(a', B') = (a, B)")
  case True
  have "blocks_for (n - free_of (a' i)) \<le> blocks_for n" by (rule blocks_for_mono) simp
  with True show ?thesis by simp
next
  case False
  with assms(1) have "card (clear_flags R a) = Suc (card (clear_flags R a'))" "free_of (a' i) = 4076" by (auto simp: spaced_def)
  with blocks_for_less [OF assms(2)] show ?thesis by simp
qed

lemma spaced_here:
  assumes "path_in a B (i # ps)" "free_of (a i) \<noteq> 0" "available a B"
  shows "spaced R a B i a B"
  using assms path_in_hd by (auto simp: spaced_def)

lemma spaced_new:
  assumes "extended a B i r a'" "card (clear_flags R a) = Suc (card (clear_flags R a'))"
  shows "spaced R a B r a' (insert r B)"
proof -
  note E = extendedD [OF assms(1)]
  have "path_in a' (insert r B) [r]" by (simp add: path_in_Cons E(4))
  then have "available a' (insert r B)" "\<exists>ps. path_in a' (insert r B) (r # ps)" unfolding available_def E(3) by blast+
  with E assms(2) show ?thesis by (auto simp: spaced_def)
qed

context block_file begin

lemma rec_free:
  assumes "rown R b (a, B)" "live b h" "ID h \<in> B"
  shows "\<exists>fs. onBlock h FreeSpaceForInsert b = Ok (fs, b) \<and> unat fs = free_of (a (ID h))"
    "onBlock h NextBlockID b = Ok (next_of (a (ID h)), b)"
proof -
  note W = rownD(9) [OF assms(1,3)]
  from FreeSpaceForInsert_free [OF W] obtain fs where "FreeSpaceForInsert (a (ID h)) = Ok (fs, a (ID h))" "unat fs = free_of (a (ID h))"
    by blast
  with rec_read [where m = FreeSpaceForInsert, OF assms(1,2)]
  show "\<exists>fs. onBlock h FreeSpaceForInsert b = Ok (fs, b) \<and> unat fs = free_of (a (ID h))" by blast
  have "NextBlockID (a (ID h)) = Ok (next_of (a (ID h)), a (ID h))"
    using rb_wfD(1) [OF W] by (simp add: NextBlockID_def next_of_def ReadUint16_Ok)
  then show "onBlock h NextBlockID b = Ok (next_of (a (ID h)), b)"
    by (rule rec_read [where m = NextBlockID, OF assms(1,2)])
qed

lemma seekFree_here:
  assumes "rown R b (a, B)" "live b h" "ID h \<in> B" "free_of (a (ID h)) \<noteq> 0"
  shows "seekFree D (Suc m) h b = Ok (Inr h, b)"
  using rec_free(1) [OF assms(1-3)] assms(4) by (auto simp: bind_def)

lemma seekFree_Ok:
  "rown R b (a, B) \<Longrightarrow> live b h \<Longrightarrow> path_in a B (ID h # ps) \<Longrightarrow> available a B \<Longrightarrow> clear_flags R a \<noteq> {} \<Longrightarrow>
    length ps + 2 \<le> m \<Longrightarrow>
    \<exists>h' b' a' B'. seekFree D m h b = Ok (Inr h', b') \<and> rstep R b (a, B) b' (a', B') \<and> live b' h' \<and>
      spaced R a B (ID h') a' B'"
proof (induction ps arbitrary: b h m)
  case Nil
  then obtain m' where m: "m = Suc (Suc m')" by (metis Suc_le_D Suc_le_mono add_2_eq_Suc' list.size(3) plus_nat.add_0)
  from Nil.prems(3) have p: "next_of (a (ID h)) = 0" "ID h \<in> B" by (simp_all add: path_in_Cons)
  note F = rec_free [OF Nil.prems(1,2) p(2)]
  show ?case
  proof (cases "free_of (a (ID h)) = 0")
    case False
    with seekFree_here [OF Nil.prems(1,2) p(2)] spaced_here [OF Nil.prems(3) _ Nil.prems(4)] rstep_refl [OF Nil.prems(1)]
      Nil.prems(2) m show ?thesis by blast
  next
    case True
    with F(1) have F0: "onBlock h FreeSpaceForInsert b = Ok (0, b)" by (auto simp: unsigned_eq_0_iff)
    from allocateNewBlock_Ok [OF Nil.prems(1) p(2) Nil.prems(5)] obtain r b1 a1 where
      A: "allocateNewBlock D (ID h) b = Ok (Inr r, b1)" "rstep R b (a, B) b1 (a1, insert r B)"
        "card (clear_flags R a) = Suc (card (clear_flags R a1))" "extended a B (ID h) r a1" by blast
    note o1 = rstepD(1) [OF A(2)]
    have "r \<in> R" using rownD(7) [OF o1] by simp
    from rec_fetch [OF o1 this] obtain h2 b2 where
      h2: "fetchBlock D r b1 = Ok (h2, b2)" "ID h2 = r" "live b2 h2" "rstep R b1 (a1, insert r B) b2 (a1, insert r B)" by blast
    note S = spaced_new [OF A(4,3)]
    have "seekFree D (Suc m') h2 b2 = Ok (Inr h2, b2)"
      using h2(2) spacedD(1,2) [OF S] by (intro seekFree_here [OF rstepD(1) [OF h2(4)] h2(3)]) simp_all
    then have "seekFree D m h b = Ok (Inr h2, b2)"
      using F(2) F0 p(1) A(1) h2(1) by (simp add: m bind_def repoRecordBlock_def)
    with rstep_trans [OF A(2) h2(4)] h2(2,3) S show ?thesis by blast
  qed
next
  case (Cons q qs)
  then obtain m' where m: "m = Suc m'" "length qs + 2 \<le> m'" by (cases m) auto
  from Cons.prems(3) have p: "next_of (a (ID h)) = q" "ID h \<in> B" "path_in a B (q # qs)" by (simp_all add: path_in_Cons)
  note F = rec_free [OF Cons.prems(1,2) p(2)]
  show ?case
  proof (cases "free_of (a (ID h)) = 0")
    case False
    with seekFree_here [OF Cons.prems(1,2) p(2)] spaced_here [OF Cons.prems(3) _ Cons.prems(4)] rstep_refl [OF Cons.prems(1)]
      Cons.prems(2) m(1) show ?thesis by blast
  next
    case True
    with F(1) have F0: "onBlock h FreeSpaceForInsert b = Ok (0, b)" by (auto simp: unsigned_eq_0_iff)
    have q: "q \<in> R" "q \<noteq> 0" using path_in_hd [OF p(3)] rownD(4,7) [OF Cons.prems(1)] by auto
    from rec_fetch [OF Cons.prems(1) q(1)] obtain h2 b2 where
      h2: "fetchBlock D q b = Ok (h2, b2)" "ID h2 = q" "live b2 h2" "rstep R b (a, B) b2 (a, B)" by blast
    from Cons.IH [OF rstepD(1) [OF h2(4)] h2(3) _ Cons.prems(4,5) m(2)] p(3) h2(2) obtain h' b' a' B' where
      I: "seekFree D m' h2 b2 = Ok (Inr h', b')" "rstep R b2 (a, B) b' (a', B')" "live b' h'" "spaced R a B (ID h') a' B'"
      by blast
    have "seekFree D m h b = Ok (Inr h', b')"
      using F(2) F0 p(1) q(2) h2(1) I(1) by (simp add: m(1) bind_def repoRecordBlock_def)
    with rstep_trans [OF h2(4) I(2)] I(3,4) show ?thesis by blast
  qed
qed

end

section \<open>Writing the rows of a record\<close>

definition same_outside :: "rowTable \<Rightarrow> RowID set \<Rightarrow> rowTable \<Rightarrow> bool" where
  "same_outside t S t' \<longleftrightarrow> (\<forall>r. r \<notin> S \<longrightarrow> t' r = t r)"

text \<open>The record so far ends in row \<open>p\<close>; row \<open>r\<close> is chained to it, and the rows \<open>ids\<close> after \<open>r\<close>.\<close>

lemma chain_tables:
  assumes "t p = Some (rid, x, c0)" "t r = None" "DataBlockID r \<noteq> 0" "t3 = t(r \<mapsto> (rid, chunk, z), p \<mapsto> (rid, x, r))"
    "t' r = Some (rid, chunk, c')" "linked t' rid c' ids rest" "\<forall>i \<in> set ids. t3 i = None"
    "same_outside t3 (insert r (set ids)) t'"
  shows "t' p = Some (rid, x, r)" "linked t' rid r (r # ids) (chunk @ rest)" "\<forall>i \<in> set (r # ids). t i = None"
    "same_outside t (insert p (set (r # ids))) t'"
proof -
  have pr: "p \<noteq> r" using assms(1,2) by auto
  have t3: "t3 p = Some (rid, x, r)" "t3 r \<noteq> None" using pr assms(4) by simp_all
  have i: "i \<noteq> p \<and> i \<noteq> r \<and> t i = None" if "i \<in> set ids" for i
  proof -
    from assms(7) that have n: "t3 i = None" by blast
    then have "i \<noteq> p" "i \<noteq> r" using t3 by auto
    with n assms(4) show ?thesis by simp
  qed
  then have "p \<notin> insert r (set ids)" using pr by blast
  with assms(8) t3(1) show "t' p = Some (rid, x, r)" by (simp add: same_outside_def)
  show "linked t' rid r (r # ids) (chunk @ rest)" using assms(3,5,6) by auto
  show "\<forall>i \<in> set (r # ids). t i = None" using i assms(2) by auto
  show "same_outside t (insert p (set (r # ids))) t'" using assms(4,8) by (simp add: same_outside_def)
qed

lemma path_update:
  assumes "path_in a B ps" "next_of d = next_of (a i)"
  shows "path_in (a(i := d)) B ps"
  using assms(2) by (intro path_in_step [OF assms(1)]) auto

lemma available_update:
  assumes "available a B" "next_of d = next_of (a i)" "i \<noteq> 0"
  shows "available (a(i := d)) B"
proof -
  from assms(1) obtain ps where "path_in a B (u16_at 0 (a 0) # ps)" by (auto simp: available_def)
  from path_update [OF this assms(2)] assms(3) show ?thesis by (auto simp: available_def)
qed

lemma clear_flags_update: "i \<notin> {1, 2} \<Longrightarrow> clear_flags R (a(i := d)) = clear_flags R a"
  by (simp add: clear_flags_def used_update)

lemma spent_update:
  assumes "spent a B rid" "free_of d \<noteq> 0 \<longrightarrow> (\<forall>l x. records d l = Some x \<longrightarrow> fst x \<noteq> rid)"
  shows "spent (a(i := d)) B rid"
  unfolding spent_def
proof
  fix j assume "j \<in> B"
  with assms show "free_of ((a(i := d)) j) \<noteq> 0 \<longrightarrow> (\<forall>l x. records ((a(i := d)) j) l = Some x \<longrightarrow> fst x \<noteq> rid)"
    unfolding spent_def by (cases "j = i") simp_all
qed

context block_file begin

text \<open>A chunk of the record is added to a block with space: a new row.\<close>

lemma write_chunk:
  assumes "go_sorter srt" "rown R b (a, B)" "live b h" "ID h \<in> B" "free_of (a (ID h)) \<noteq> 0"
    "\<forall>l x. records (a (ID h)) l = Some x \<longrightarrow> fst x \<noteq> rid" "rid \<noteq> 0" "data \<noteq> []"
  shows "\<exists>l b1 b2 d. onBlock h (Add srt rid (take (free_of (a (ID h))) data)) b = Ok (l, b1) \<and>
    MarkAsDirty (ID h) b1 = Ok (None, b2) \<and> rstep R b (a, B) b2 (a(ID h := d), B) \<and> next_of d = next_of (a (ID h)) \<and>
    rows a B \<lparr>DataBlockID = ID h, LocalID = l\<rparr> = None \<and>
    rows (a(ID h := d)) B = (rows a B)(\<lparr>DataBlockID = ID h, LocalID = l\<rparr> \<mapsto>
      (rid, take (free_of (a (ID h))) data, \<lparr>DataBlockID = 0, LocalID = 0\<rparr>)) \<and>
    (free_of (a (ID h)) \<le> length data \<longrightarrow> free_of d = 0)"
proof -
  let ?f = "free_of (a (ID h))"
  note W = rownD(9) [OF assms(2,4)]
  have "take ?f data \<noteq> []" "length (take ?f data) \<le> ?f" using assms(5,8) by simp_all
  from go_sorter.add_row [OF assms(1) W assms(7) this(1) assms(6) this(2)] obtain l d where
    d: "Add srt rid (take ?f data) (a (ID h)) = Ok (l, d)" "rb_wf d" "records (a (ID h)) l = None"
      "records d = (records (a (ID h)))(l \<mapsto> (rid, take ?f data, \<lparr>DataBlockID = 0, LocalID = 0\<rparr>))"
      "next_of d = next_of (a (ID h))" "length (take ?f data) = ?f \<longrightarrow> free_of d = 0" by blast
  from rec_write [where m = "Add srt rid (take ?f data)", OF assms(2-4) d(1,2)] obtain b1 b2 where
    w: "onBlock h (Add srt rid (take ?f data)) b = Ok (l, b1)" "MarkAsDirty (ID h) b1 = Ok (None, b2)"
      "rstep R b (a, B) b2 (a(ID h := d), B)" by blast
  have "rows a B \<lparr>DataBlockID = ID h, LocalID = l\<rparr> = None" using d(3) by (simp add: rows_def)
  with w d(5,6) rows_update [where a = a and i = "ID h", OF assms(4) d(4)] show ?thesis by (intro exI [of _ l] exI [of _ b1] exI [of _ b2] exI [of _ d]) simp
qed

text \<open>A row is chained to another.\<close>

lemma chain_row:
  assumes "rown R b (a, B)" "live b p" "rows a B \<lparr>DataBlockID = ID p, LocalID = lid\<rparr> = Some (rid, x, c)"
  shows "\<exists>b1 b2 d. onBlock p (SetChainedRowID lid row) b = Ok (Inr (), b1) \<and> MarkAsDirty (ID p) b1 = Ok (None, b2) \<and>
    rstep R b (a, B) b2 (a(ID p := d), B) \<and> next_of d = next_of (a (ID p)) \<and> free_of d = free_of (a (ID p)) \<and>
    records d = (records (a (ID p)))(lid \<mapsto> (rid, x, row)) \<and>
    rows (a(ID p := d)) B = (rows a B)(\<lparr>DataBlockID = ID p, LocalID = lid\<rparr> \<mapsto> (rid, x, row))"
proof -
  have p: "ID p \<in> B" "records (a (ID p)) lid = Some (rid, x, c)" using assms(3) by (auto simp: rows_def split: if_splits)
  from set_chained [OF rownD(9) [OF assms(1) p(1)] p(2), of row] obtain d where
    d: "SetChainedRowID lid row (a (ID p)) = Ok (Inr (), d)" "rb_wf d" "records d = (records (a (ID p)))(lid \<mapsto> (rid, x, row))"
      "free_of d = free_of (a (ID p))" "next_of d = next_of (a (ID p))" by blast
  from rec_write [where m = "SetChainedRowID lid row", OF assms(1,2) p(1) d(1,2)] d(3-5) rows_update [where a = a and i = "ID p", OF p(1) d(3)]
  show ?thesis by blast
qed

lemma put_at_same: "0 \<le> p \<Longrightarrow> p + 2 \<le> int (length d) \<Longrightarrow> put_at p (be16_put (u16_at p d)) d = d"
  by (simp add: put_at_def u16_at_def bytes_at_def be16_put_get)

lemma bytes_to_write:
  "take (if f < length xs then f else length xs) xs = take f xs" "drop (if f < length xs then f else length xs) xs = drop f xs"
  by simp_all

text \<open>The loop over the rest of a record, from the row \<open>lid\<close> of block \<open>p\<close> on.\<close>

lemma chainLoop_Ok:
  assumes "go_sorter srt" "rid \<noteq> 0" "65537 \<le> m"
  shows "rown R b (a, B) \<Longrightarrow> live b h \<Longrightarrow> live b p \<Longrightarrow> path_in a B (ID h # ps) \<Longrightarrow>
    rows a B \<lparr>DataBlockID = ID p, LocalID = lid\<rparr> = Some (rid, x, \<lparr>DataBlockID = 0, LocalID = 0\<rparr>) \<Longrightarrow> available a B \<Longrightarrow>
    data \<noteq> [] \<longrightarrow> spent a B rid \<Longrightarrow> blocks_for (length data) \<le> card (clear_flags R a) \<Longrightarrow> length data \<le> n \<Longrightarrow>
    \<exists>b' a' B' ids c. chainLoop D srt m n rid data h p lid b = Ok (None, b') \<and> rstep R b (a, B) b' (a', B') \<and>
      available a' B' \<and> rows a' B' \<lparr>DataBlockID = ID p, LocalID = lid\<rparr> = Some (rid, x, c) \<and>
      linked (rows a' B') rid c ids data \<and> (\<forall>r \<in> set ids. rows a B r = None) \<and> length ids \<le> length data \<and>
      card (clear_flags R a) \<le> card (clear_flags R a') + blocks_for (length data) \<and>
      same_outside (rows a B) (insert \<lparr>DataBlockID = ID p, LocalID = lid\<rparr> (set ids)) (rows a' B')"
proof (induction n arbitrary: b a B h p ps lid x data)
  case 0
  then have "data = []" by simp
  with 0 rstep_refl [OF "0.prems"(1)] show ?case
    by (intro exI [of _ b] exI [of _ a] exI [of _ B] exI [of _ "[]"] exI [of _ "\<lparr>DataBlockID = 0, LocalID = 0\<rparr>"])
      (simp add: same_outside_def)
next
  case (Suc n)
  let ?P = "\<lparr>DataBlockID = ID p, LocalID = lid\<rparr>"
  show ?case
  proof (cases "data = []")
    case True
    with Suc.prems rstep_refl [OF Suc.prems(1)] show ?thesis
      by (intro exI [of _ b] exI [of _ a] exI [of _ B] exI [of _ "[]"] exI [of _ "\<lparr>DataBlockID = 0, LocalID = 0\<rparr>"])
        (simp add: same_outside_def)
  next
    case False
    then have pos: "0 < length data" by simp
    have "clear_flags R a \<noteq> {}" using blocks_for_pos [OF pos] Suc.prems(8) by auto
    moreover have "length ps + 2 \<le> m" using path_length [OF Suc.prems(4)] assms(3) by simp
    ultimately obtain h1 b1 a1 B1 where
      s1: "seekFree D m h b = Ok (Inr h1, b1)" "rstep R b (a, B) b1 (a1, B1)" "live b1 h1" "spaced R a B (ID h1) a1 B1"
      using seekFree_Ok [OF Suc.prems(1,2,4,6)] by blast
    note o1 = rstepD(1) [OF s1(2)] and S = spacedD [OF s1(4)]
    let ?f = "free_of (a1 (ID h1))"
    have sp: "spent a B rid" using Suc.prems(7) False by simp
    have fresh: "\<forall>l x. records (a1 (ID h1)) l = Some x \<longrightarrow> fst x \<noteq> rid" using spaced_spent(2) [OF s1(4) sp] by blast
    from write_chunk [OF assms(1) o1 s1(3) S(1,2) fresh assms(2) False] obtain l b2 b3 d where
      w: "onBlock h1 (Add srt rid (take ?f data)) b1 = Ok (l, b2)" "MarkAsDirty (ID h1) b2 = Ok (None, b3)"
        "rstep R b1 (a1, B1) b3 (a1(ID h1 := d), B1)" "next_of d = next_of (a1 (ID h1))"
        "rows a1 B1 \<lparr>DataBlockID = ID h1, LocalID = l\<rparr> = None"
        "rows (a1(ID h1 := d)) B1 = (rows a1 B1)(\<lparr>DataBlockID = ID h1, LocalID = l\<rparr> \<mapsto>
          (rid, take ?f data, \<lparr>DataBlockID = 0, LocalID = 0\<rparr>))"
        "?f \<le> length data \<longrightarrow> free_of d = 0" by blast
    let ?r = "\<lparr>DataBlockID = ID h1, LocalID = l\<rparr>" and ?a2 = "a1(ID h1 := d)" and ?row = "(rid, take ?f data, \<lparr>DataBlockID = 0, LocalID = 0\<rparr>)"
    note o2 = rstepD(1) [OF w(3)]
    have P1: "rows a1 B1 ?P = Some (rid, x, \<lparr>DataBlockID = 0, LocalID = 0\<rparr>)" using Suc.prems(5) S(5) by simp
    then have ne: "?P \<noteq> ?r" using w(5) by auto
    have P2: "rows ?a2 B1 ?P = Some (rid, x, \<lparr>DataBlockID = 0, LocalID = 0\<rparr>)" unfolding w(6) fun_upd_other [OF ne] by (rule P1)
    have lp: "live b3 p" "live b3 h1" using Suc.prems(3) s1(3) rstepD(2) [OF s1(2)] rstepD(2) [OF w(3)] by blast+
    from chain_row [OF o2 lp(1) P2, of ?r] obtain b4 b5 g where
      c: "onBlock p (SetChainedRowID lid ?r) b3 = Ok (Inr (), b4)" "MarkAsDirty (ID p) b4 = Ok (None, b5)"
        "rstep R b3 (?a2, B1) b5 (?a2(ID p := g), B1)" "next_of g = next_of (?a2 (ID p))" "free_of g = free_of (?a2 (ID p))"
        "records g = (records (?a2 (ID p)))(lid \<mapsto> (rid, x, ?r))"
        "rows (?a2(ID p := g)) B1 = (rows ?a2 B1)(?P \<mapsto> (rid, x, ?r))" by blast
    let ?a3 = "?a2(ID p := g)"
    have h0: "ID h1 \<notin> {0, 1, 2}" "ID p \<notin> {0, 1, 2}" using rownD(4) [OF o1] S(1) P1 by (auto simp: rows_def split: if_splits)
    have path: "path_in ?a3 B1 (ID h1 # qs)" if "path_in a1 B1 (ID h1 # qs)" for qs
      using that w(4) c(4) by (intro path_update) simp_all
    obtain qs where qs: "path_in ?a3 B1 (ID h1 # qs)" using S(4) path by blast
    have av: "available ?a3 B1" using S(3) w(4) c(4) h0 by (intro available_update) simp_all
    have cf: "clear_flags R ?a3 = clear_flags R a1" using h0 by (simp add: clear_flags_update)
    have r3: "rows ?a3 B1 ?r = Some ?row" unfolding c(7) fun_upd_other [OF ne [symmetric]] w(6) by simp
    have sp3: "drop ?f data \<noteq> [] \<longrightarrow> spent ?a3 B1 rid"
    proof
      assume "drop ?f data \<noteq> []"
      then have "free_of d = 0" using w(7) by simp
      then have s2: "spent ?a2 B1 rid" by (intro spent_update [OF spaced_spent(1) [OF s1(4) sp]]) simp
      have "ID p \<in> B1" "records (?a2 (ID p)) lid = Some (rid, x, \<lparr>DataBlockID = 0, LocalID = 0\<rparr>)"
        using P2 by (auto simp: rows_def split: if_splits)
      then have "free_of (?a2 (ID p)) = 0" using s2 unfolding spent_def by fastforce
      then show "spent ?a3 B1 rid" using c(5) by (intro spent_update [OF s2]) simp
    qed
    have room: "blocks_for (length (drop ?f data)) \<le> card (clear_flags R ?a3)"
      unfolding cf using spaced_room [OF s1(4) pos] Suc.prems(8) by simp
    have ln: "length (drop ?f data) \<le> n" using Suc.prems(9) S(2) by simp
    have lh: "live b5 h1" using rstepD(2) [OF c(3) lp(2)] .
    from Suc.IH [OF rstepD(1) [OF c(3)] lh lh qs r3 av sp3 room ln] obtain b' a' B' ids c' where
      I: "chainLoop D srt m n rid (drop ?f data) h1 h1 l b5 = Ok (None, b')" "rstep R b5 (?a3, B1) b' (a', B')"
        "available a' B'" "rows a' B' ?r = Some (rid, take ?f data, c')" "linked (rows a' B') rid c' ids (drop ?f data)"
        "\<forall>r \<in> set ids. rows ?a3 B1 r = None" "length ids \<le> length (drop ?f data)"
        "card (clear_flags R ?a3) \<le> card (clear_flags R a') + blocks_for (length (drop ?f data))"
        "same_outside (rows ?a3 B1) (insert ?r (set ids)) (rows a' B')" by blast
    have t3: "rows ?a3 B1 = (rows a B)(?r \<mapsto> ?row, ?P \<mapsto> (rid, x, ?r))" unfolding c(7) w(6) S(5) ..
    have rn: "rows a B ?r = None" "DataBlockID ?r \<noteq> 0" using w(5) S(5) h0 by simp_all
    note T = chain_tables [OF Suc.prems(5) rn t3 I(4,5,6,9)]
    from rec_free(1) [OF o1 s1(3) S(1)] obtain fs where fs: "onBlock h1 FreeSpaceForInsert b1 = Ok (fs, b1)" "unat fs = ?f" by blast
    have "chainLoop D srt m (Suc n) rid data h p lid b = Ok (None, b')"
      using False s1(1) fs(1) w(1,2) c(1,2) I(1) by (simp add: fs(2) bytes_to_write Let_def bind_def seq_def del: take_all_iff)
    moreover have "rstep R b (a, B) b' (a', B')" using rstep_trans s1(2) w(3) c(3) I(2) by blast
    moreover have "card (clear_flags R a) \<le> card (clear_flags R a') + blocks_for (length data)"
      using I(8) spaced_room [OF s1(4) pos] unfolding cf by simp
    moreover have "length (?r # ids) \<le> length data" using I(7) S(2) pos by (simp only: list.size length_drop)
    ultimately show ?thesis using I(3) T by (intro exI [of _ b'] exI [of _ a'] exI [of _ B'] exI [of _ "?r # ids"] exI [of _ ?r]) simp
  qed
qed

lemma allocateRecord_Ok:
  assumes "go_sorter srt" "rid \<noteq> 0" "65537 \<le> fuel" "rown R b (a, B)" "live b h" "path_in a B (ID h # ps)"
    "free_of (a (ID h)) \<noteq> 0" "available a B" "spent a B rid" "data \<noteq> []" "length data \<le> fuel"
    "blocks_for (length data - free_of (a (ID h))) \<le> card (clear_flags R a)"
  shows "\<exists>b' a' B' lid ids. allocateRecord D srt fuel (free_of (a (ID h))) h rid data b = Ok (Inr lid, b') \<and>
    rstep R b (a, B) b' (a', B') \<and> available a' B' \<and>
    linked (rows a' B') rid \<lparr>DataBlockID = ID h, LocalID = lid\<rparr> (\<lparr>DataBlockID = ID h, LocalID = lid\<rparr> # ids) data \<and>
    (\<forall>r \<in> set (\<lparr>DataBlockID = ID h, LocalID = lid\<rparr> # ids). rows a B r = None) \<and> length ids \<le> length data \<and>
    card (clear_flags R a) \<le> card (clear_flags R a') + blocks_for (length data - free_of (a (ID h))) \<and>
    same_outside (rows a B) (set (\<lparr>DataBlockID = ID h, LocalID = lid\<rparr> # ids)) (rows a' B')"
proof -
  let ?f = "free_of (a (ID h))"
  have hB: "ID h \<in> B" by (rule path_in_hd [OF assms(6)])
  then have h0: "ID h \<notin> {0, 1, 2}" using rownD(4) [OF assms(4)] by auto
  have fresh: "\<forall>l x. records (a (ID h)) l = Some x \<longrightarrow> fst x \<noteq> rid" using assms(7,9) hB unfolding spent_def by blast
  from write_chunk [OF assms(1,4,5) hB assms(7) fresh assms(2,10)] obtain l b1 b2 d where
    w: "onBlock h (Add srt rid (take ?f data)) b = Ok (l, b1)" "MarkAsDirty (ID h) b1 = Ok (None, b2)"
      "rstep R b (a, B) b2 (a(ID h := d), B)" "next_of d = next_of (a (ID h))"
      "rows a B \<lparr>DataBlockID = ID h, LocalID = l\<rparr> = None"
      "rows (a(ID h := d)) B = (rows a B)(\<lparr>DataBlockID = ID h, LocalID = l\<rparr> \<mapsto>
        (rid, take ?f data, \<lparr>DataBlockID = 0, LocalID = 0\<rparr>))"
      "?f \<le> length data \<longrightarrow> free_of d = 0" by blast
  let ?r = "\<lparr>DataBlockID = ID h, LocalID = l\<rparr>" and ?a = "a(ID h := d)"
  have av: "available ?a B" using w(4) h0 by (intro available_update [OF assms(8)]) simp_all
  have cf: "clear_flags R ?a = clear_flags R a" using h0 by (simp add: clear_flags_update)
  show ?thesis
  proof (cases "length data \<le> ?f")
    case True
    have "allocateRecord D srt fuel ?f h rid data b = Ok (Inr l, b2)"
      using True w(1,2) by (auto simp: allocateRecord_def Let_def bind_def seq_def)
    moreover have "linked (rows ?a B) rid ?r [?r] data" using True h0 by (simp add: w(6))
    moreover have "same_outside (rows a B) (set [?r]) (rows ?a B)" by (simp add: same_outside_def w(6))
    ultimately show ?thesis using w(3,5) av
      by (intro exI [of _ b2] exI [of _ ?a] exI [of _ B] exI [of _ l] exI [of _ "[]"]) (simp add: cf)
  next
    case False
    have path: "path_in ?a B (ID h # ps)" by (rule path_update [OF assms(6) w(4)])
    have row: "rows ?a B ?r = Some (rid, take ?f data, \<lparr>DataBlockID = 0, LocalID = 0\<rparr>)" by (simp add: w(6))
    have "free_of d = 0" using w(7) False by simp
    then have sp: "drop ?f data \<noteq> [] \<longrightarrow> spent ?a B rid" by (simp add: spent_update [OF assms(9)])
    have room: "blocks_for (length (drop ?f data)) \<le> card (clear_flags R ?a)" using assms(12) by (simp add: cf)
    have ln: "length (drop ?f data) \<le> fuel" using assms(11) by simp
    have lh: "live b2 h" by (rule rstepD(2) [OF w(3) assms(5)])
    from chainLoop_Ok [OF assms(1-3) rstepD(1) [OF w(3)] lh lh path row av sp room ln] obtain b' a' B' ids c where
      c: "chainLoop D srt fuel fuel rid (drop ?f data) h h l b2 = Ok (None, b')" "rstep R b2 (?a, B) b' (a', B')" "available a' B'"
        "rows a' B' ?r = Some (rid, take ?f data, c)" "linked (rows a' B') rid c ids (drop ?f data)"
        "\<forall>r \<in> set ids. rows ?a B r = None" "length ids \<le> length (drop ?f data)"
        "card (clear_flags R ?a) \<le> card (clear_flags R a') + blocks_for (length (drop ?f data))"
        "same_outside (rows ?a B) (insert ?r (set ids)) (rows a' B')" by blast
    have "allocateRecord D srt fuel ?f h rid data b = Ok (Inr l, b')"
      using False w(1,2) c(1) by (auto simp: allocateRecord_def Let_def bind_def seq_def bytes_to_write)
    moreover have "linked (rows a' B') rid ?r (?r # ids) data"
    proof -
      have "linked (rows a' B') rid ?r (?r # ids) (take ?f data @ drop ?f data)"
        unfolding linked.simps using c(4,5) h0
        by (intro conjI exI [of _ "take ?f data"] exI [of _ c] exI [of _ "drop ?f data"]) (simp_all del: append_take_drop_id)
      then show ?thesis by (simp only: append_take_drop_id)
    qed
    moreover have "\<forall>r \<in> set (?r # ids). rows a B r = None"
    proof -
      have "rows a B i = None" if "i \<in> set ids" for i
        using c(6) that unfolding w(6) by (cases "i = ?r") (auto simp: w(5))
      then show ?thesis using w(5) by simp
    qed
    moreover have "same_outside (rows a B) (set (?r # ids)) (rows a' B')" using c(9) by (simp add: same_outside_def w(6))
    moreover have "card (clear_flags R a) \<le> card (clear_flags R a') + blocks_for (length data - ?f)" using c(8) by (simp add: cf)
    moreover have "length ids \<le> length data" using c(7) by simp
    ultimately show ?thesis using rstep_trans [OF w(3) c(2)] c(3) by blast
  qed
qed

text \<open>The block that takes the first row.\<close>

lemma insertLoop_here:
  assumes "fetchBlock D p b = Ok (h, b1)" "ID h = p" "onBlock h FreeSpaceForInsert b1 = Ok (fs, b1)" "unat fs = f" "f \<noteq> 0"
  shows "insertLoop D srt fuel (Suc m) p rid data b =
      bind (allocateRecord D srt fuel f h rid data) (\<lambda>r. case r of
        Inl err \<Rightarrow> ret (Inl err) | Inr lid \<Rightarrow> ret (Inr (ID h, lid))) b1"
proof -
  have "fs > 0" using assms(4,5) by (simp add: word_less_nat_alt)
  then show ?thesis
    using assms(1,3,4) unfolding assms(2) [symmetric] by (simp add: bind_Ok repoRecordBlock_def)
qed

lemma insertLoop_Ok:
  "rown R b (a, B) \<Longrightarrow> path_in a B (p # ps) \<Longrightarrow> available a B \<Longrightarrow> clear_flags R a \<noteq> {} \<Longrightarrow> length ps + 2 \<le> m \<Longrightarrow>
    \<exists>h' b' a' B'. insertLoop D srt fuel m p rid data b =
        bind (allocateRecord D srt fuel (free_of (a' (ID h'))) h' rid data) (\<lambda>r. case r of
          Inl err \<Rightarrow> ret (Inl err) | Inr lid \<Rightarrow> ret (Inr (ID h', lid))) b' \<and>
      rstep R b (a, B) b' (a', B') \<and> live b' h' \<and> spaced R a B (ID h') a' B'"
proof (induction ps arbitrary: b p m)
  case Nil
  then obtain m' where m: "m = Suc (Suc m')" by (metis Suc_le_D Suc_le_mono add_2_eq_Suc' list.size(3) plus_nat.add_0)
  from Nil.prems(2) have p: "next_of (a p) = 0" "p \<in> B" by (simp_all add: path_in_Cons)
  then have "p \<in> R" using rownD(7) [OF Nil.prems(1)] by blast
  from rec_fetch [OF Nil.prems(1) this] obtain h b1 where
    h: "fetchBlock D p b = Ok (h, b1)" "ID h = p" "live b1 h" "rstep R b (a, B) b1 (a, B)" by blast
  note o1 = rstepD(1) [OF h(4)]
  from rec_free(1) [OF o1 h(3)] p(2) h(2) obtain fs where fs: "onBlock h FreeSpaceForInsert b1 = Ok (fs, b1)" "unat fs = free_of (a p)" by auto
  have nx: "onBlock h NextBlockID b1 = Ok (0, b1)" using rec_free(2) [OF o1 h(3)] p h(2) by simp
  show ?case
  proof (cases "free_of (a p) = 0")
    case False
    note L = insertLoop_here [OF h(1,2) fs False]
    have "insertLoop D srt fuel m p rid data b =
        bind (allocateRecord D srt fuel (free_of (a (ID h))) h rid data) (\<lambda>r. case r of
          Inl err \<Rightarrow> ret (Inl err) | Inr lid \<Rightarrow> ret (Inr (ID h, lid))) b1"
      unfolding m L h(2) ..
    moreover have "spaced R a B (ID h) a B" using spaced_here [OF Nil.prems(2) False Nil.prems(3)] h(2) by simp
    ultimately show ?thesis using h(3,4) by blast
  next
    case True
    then have fs0: "fs = 0" using fs(2) by (simp add: unsigned_eq_0_iff)
    from allocateNewBlock_Ok [OF o1 p(2) Nil.prems(4)] obtain r b2 a1 where
      A: "allocateNewBlock D p b1 = Ok (Inr r, b2)" "rstep R b1 (a, B) b2 (a1, insert r B)"
        "card (clear_flags R a) = Suc (card (clear_flags R a1))" "extended a B p r a1" by blast
    note o2 = rstepD(1) [OF A(2)] and E = extendedD [OF A(4)]
    have lh: "live b2 h" by (rule rstepD(2) [OF A(2) h(3)])
    have hB: "ID h \<in> insert r B" using p(2) h(2) by simp
    have wf: "rb_wf (a1 p)" using rownD(9) [OF o2, of p] p(2) by simp
    have "put_at 4090 (be16_put r) (a1 p) = a1 p"
      using put_at_same [of 4090 "a1 p"] E(7) rb_wfD(1) [OF wf] by (simp add: next_of_def)
    then have "SetNextBlockID r (a1 (ID h)) = Ok ((), a1 p)"
      using rb_wfD(1) [OF wf] h(2) by (simp add: SetNextBlockID_def Write_VUint16_Ok)
    from rec_write [where m = "SetNextBlockID r", OF o2 lh hB this wf] h(2) obtain b3 b4 where
      w: "onBlock h (SetNextBlockID r) b2 = Ok ((), b3)" "MarkAsDirty p b3 = Ok (None, b4)"
        "rstep R b2 (a1, insert r B) b4 (a1, insert r B)" by auto
    have "r \<in> R" using rownD(7) [OF o2] by simp
    from rec_fetch [OF rstepD(1) [OF w(3)] this] obtain h2 b5 where
      h2: "fetchBlock D r b4 = Ok (h2, b5)" "ID h2 = r" "live b5 h2" "rstep R b4 (a1, insert r B) b5 (a1, insert r B)" by blast
    have "\<exists>fs. onBlock h2 FreeSpaceForInsert b5 = Ok (fs, b5) \<and> unat fs = free_of (a1 r)"
      using rec_free(1) [OF rstepD(1) [OF h2(4)] h2(3)] h2(2) by simp
    then obtain fs2 where fs2: "onBlock h2 FreeSpaceForInsert b5 = Ok (fs2, b5)" "unat fs2 = free_of (a1 r)" by blast
    have "free_of (a1 r) \<noteq> 0" using E(5) by simp
    note L = insertLoop_here [OF h2(1,2) fs2 this]
    have "insertLoop D srt fuel (Suc m') r rid data b4 =
        bind (allocateRecord D srt fuel (free_of (a1 (ID h2))) h2 rid data) (\<lambda>r. case r of
          Inl err \<Rightarrow> ret (Inl err) | Inr lid \<Rightarrow> ret (Inr (ID h2, lid))) b5"
      unfolding L h2(2) ..
    moreover have "insertLoop D srt fuel m p rid data b = insertLoop D srt fuel (Suc m') r rid data b4"
      using h(1) fs(1) fs0 nx A(1) w(1,2) by (simp add: m bind_Ok seq_Ok repoRecordBlock_def)
    ultimately show ?thesis
      using rstep_trans [OF h(4) rstep_trans [OF A(2) rstep_trans [OF w(3) h2(4)]]] h2(2,3) spaced_new [OF A(4,3)] by metis
  qed
next
  case (Cons q qs)
  then obtain m' where m: "m = Suc m'" "length qs + 2 \<le> m'" by (cases m) auto
  from Cons.prems(2) have p: "next_of (a p) = q" "p \<in> B" "path_in a B (q # qs)" by (simp_all add: path_in_Cons)
  then have "p \<in> R" using rownD(7) [OF Cons.prems(1)] by blast
  from rec_fetch [OF Cons.prems(1) this] obtain h b1 where
    h: "fetchBlock D p b = Ok (h, b1)" "ID h = p" "live b1 h" "rstep R b (a, B) b1 (a, B)" by blast
  note o1 = rstepD(1) [OF h(4)]
  from rec_free(1) [OF o1 h(3)] p(2) h(2) obtain fs where fs: "onBlock h FreeSpaceForInsert b1 = Ok (fs, b1)" "unat fs = free_of (a p)" by auto
  have nx: "onBlock h NextBlockID b1 = Ok (q, b1)" using rec_free(2) [OF o1 h(3)] p h(2) by simp
  show ?case
  proof (cases "free_of (a p) = 0")
    case False
    note L = insertLoop_here [OF h(1,2) fs False]
    have "insertLoop D srt fuel m p rid data b =
        bind (allocateRecord D srt fuel (free_of (a (ID h))) h rid data) (\<lambda>r. case r of
          Inl err \<Rightarrow> ret (Inl err) | Inr lid \<Rightarrow> ret (Inr (ID h, lid))) b1"
      unfolding m(1) L h(2) ..
    moreover have "spaced R a B (ID h) a B" using spaced_here [OF Cons.prems(2) False Cons.prems(3)] h(2) by simp
    ultimately show ?thesis using h(3,4) by blast
  next
    case True
    then have fs0: "fs = 0" using fs(2) by (simp add: unsigned_eq_0_iff)
    have q: "q \<noteq> 0" using path_in_hd [OF p(3)] rownD(4) [OF o1] by auto
    have "insertLoop D srt fuel m p rid data b = insertLoop D srt fuel m' q rid data b1"
      using h(1) fs(1) fs0 nx q by (simp add: m(1) bind_Ok repoRecordBlock_def)
    with Cons.IH [OF o1 p(3) Cons.prems(3,4) m(2)] rstep_trans [OF h(4)] show ?thesis by metis
  qed
qed

text \<open>The whole of \<open>Add\<close>: its record is a chain of new rows, and every other row is the same.\<close>

lemma addRecord_Ok:
  assumes "go_sorter srt" "rid \<noteq> 0" "65537 \<le> fuel" "rown R b (a, B)" "available a B" "spent a B rid" "data \<noteq> []"
    "length data \<le> fuel" "blocks_for (length data) \<le> card (clear_flags R a)"
  shows "\<exists>b' a' B' r ids. addRecord D srt fuel rid data b = Ok (Inr r, b') \<and> rstep R b (a, B) b' (a', B') \<and>
    available a' B' \<and> linked (rows a' B') rid r (r # ids) data \<and> (\<forall>i \<in> set (r # ids). rows a B i = None) \<and>
    length ids \<le> length data \<and> card (clear_flags R a) \<le> card (clear_flags R a') + blocks_for (length data) \<and>
    same_outside (rows a B) (set (r # ids)) (rows a' B')"
proof -
  note O = rownD [OF assms(4)]
  have "0 \<in> R" using O(3) by simp
  from rec_fetch [OF assms(4) this] obtain cb b1 where
    c: "fetchBlock D 0 b = Ok (cb, b1)" "ID cb = 0" "live b1 cb" "rstep R b (a, B) b1 (a, B)" by blast
  note o1 = rstepD(1) [OF c(4)]
  let ?p = "u16_at 0 (a 0)"
  have "NextAvailableRecordsDataBlockID (a (ID cb)) = Ok (?p, a (ID cb))"
    using O(11) c(2) by (simp add: NextAvailableRecordsDataBlockID_def control_pos ReadUint16_Ok)
  note n = rec_read [where m = NextAvailableRecordsDataBlockID, OF o1 c(3) this]
  from assms(5) obtain ps where ps: "path_in a B (?p # ps)" by (auto simp: available_def)
  have pos: "0 < length data" using assms(7) by simp
  have "clear_flags R a \<noteq> {}" using blocks_for_pos [OF pos] assms(9) by auto
  moreover have "length ps + 2 \<le> fuel" using path_length [OF ps] assms(3) by simp
  ultimately obtain h b2 a2 B2 where
    i: "insertLoop D srt fuel fuel ?p rid data b1 =
        bind (allocateRecord D srt fuel (free_of (a2 (ID h))) h rid data) (\<lambda>r. case r of
          Inl err \<Rightarrow> ret (Inl err) | Inr lid \<Rightarrow> ret (Inr (ID h, lid))) b2"
      "rstep R b1 (a, B) b2 (a2, B2)" "live b2 h" "spaced R a B (ID h) a2 B2"
    using insertLoop_Ok [OF o1 ps assms(5)] by blast
  note S = spacedD [OF i(4)]
  from S(4) obtain qs where qs: "path_in a2 B2 (ID h # qs)" by blast
  have room: "blocks_for (length data - free_of (a2 (ID h))) \<le> card (clear_flags R a2)"
    using spaced_room [OF i(4) pos] assms(9) by simp
  from allocateRecord_Ok [OF assms(1-3) rstepD(1) [OF i(2)] i(3) qs S(2,3) spaced_spent(1) [OF i(4) assms(6)] assms(7,8)
      room] obtain b3 a3 B3 lid ids where
    A: "allocateRecord D srt fuel (free_of (a2 (ID h))) h rid data b2 = Ok (Inr lid, b3)"
      "rstep R b2 (a2, B2) b3 (a3, B3)" "available a3 B3"
      "linked (rows a3 B3) rid \<lparr>DataBlockID = ID h, LocalID = lid\<rparr> (\<lparr>DataBlockID = ID h, LocalID = lid\<rparr> # ids) data"
      "\<forall>r \<in> set (\<lparr>DataBlockID = ID h, LocalID = lid\<rparr> # ids). rows a2 B2 r = None" "length ids \<le> length data"
      "card (clear_flags R a2) \<le> card (clear_flags R a3) + blocks_for (length data - free_of (a2 (ID h)))"
      "same_outside (rows a2 B2) (set (\<lparr>DataBlockID = ID h, LocalID = lid\<rparr> # ids)) (rows a3 B3)" by blast
  note o3 = rstepD(1) [OF A(2)]
  have h3: "live b3 h" "ID h \<in> B3" using rstepD(2) [OF A(2) i(3)] S(1) grownD(1) [OF rstepD(3) [OF A(2)]] by auto
  have m: "ret () (a3 (ID h)) = Ok ((), a3 (ID h))" by simp
  from rec_write [where m = "ret ()", OF o3 h3 m rownD(9) [OF o3 h3(2)]] rec_read [where m = "ret ()", OF o3 h3(1) m]
  obtain b4 where d: "MarkAsDirty (ID h) b3 = Ok (None, b4)" "rstep R b3 (a3, B3) b4 (a3, B3)" by auto
  have "addRecord D srt fuel rid data b = Ok (Inr \<lparr>DataBlockID = ID h, LocalID = lid\<rparr>, b4)"
    using c(1) n i(1) A(1) d(1) by (simp add: addRecord_def repoControlBlock_def bind_def seq_def)
  moreover have "rstep R b (a, B) b4 (a3, B3)"
    by (rule rstep_trans [OF c(4) rstep_trans [OF i(2) rstep_trans [OF A(2) d(2)]]])
  moreover have "card (clear_flags R a) \<le> card (clear_flags R a3) + blocks_for (length data)"
    using A(7) spaced_room [OF i(4) pos] by simp
  ultimately show ?thesis using A(3-6,8) unfolding S(5) by blast
qed

end

lemma linked_rows: "linked tab rid c rs data \<Longrightarrow> r \<in> set rs \<Longrightarrow> tab r \<noteq> None"
  by (induction rs arbitrary: c data) auto

lemma new_spent:
  assumes "\<forall>r x. rows a B r = Some x \<longrightarrow> fst x \<noteq> rid"
  shows "spent a B rid"
  unfolding spent_def
proof (intro ballI impI allI)
  fix j l x assume "j \<in> B" "records (a j) l = Some x"
  then have "rows a B \<lparr>DataBlockID = j, LocalID = l\<rparr> = Some x" by (simp add: rows_def)
  with assms show "fst x \<noteq> rid" by blast
qed

section \<open>Properties\<close>

text \<open>C6: \<open>Add\<close> stores a new record, over as many rows in as many blocks, old and new, as it takes, and
  \<open>Load\<close> with the row ID that it returned gives its bytes back; the chain of every other record is
  the same, and no block changes but the record blocks, the map and the next available
  block in the control block. New blocks are free ones, no more than the size of the record asks for.
  The buffer holds every block of the file.\<close>

theorem record_add_load:
  assumes "rec_own os_inv os_block os_writable R b (a, B)" "available a B" "go_sorter srt" "rid \<noteq> 0" "data \<noteq> []"
    "\<forall>r x. rows a B r = Some x \<longrightarrow> fst x \<noteq> rid" "65537 \<le> fuel" "length data \<le> fuel"
    "blocks_for (length data) \<le> card (clear_flags R a)"
  shows "\<exists>b' a' B' r. addRecord osDataFile srt fuel rid data b = Ok (Inr r, b') \<and>
    rec_own os_inv os_block os_writable R b' (a', B') \<and> available a' B' \<and> rec_other (a, B) (a', B') \<and>
    card (clear_flags R a) \<le> card (clear_flags R a') + blocks_for (length data) \<and>
    (\<exists>b''. loadRecord osDataFile fuel rid r b' = Ok (Inr \<lparr>RecID = rid, Data = data\<rparr>, b'')) \<and>
    (\<forall>k r0 rs old. linked (rows a B) k r0 rs old \<longrightarrow> linked (rows a' B') k r0 rs old)"
proof -
  from osf.addRecord_Ok [OF assms(3,4,7,1,2) new_spent [OF assms(6)] assms(5,8,9)] obtain b' a' B' r ids where
    A: "addRecord osDataFile srt fuel rid data b = Ok (Inr r, b')"
      "rec_step os_inv os_block os_writable R b (a, B) b' (a', B')" "available a' B'" "linked (rows a' B') rid r (r # ids) data"
      "\<forall>i \<in> set (r # ids). rows a B i = None" "length ids \<le> length data" "same_outside (rows a B) (set (r # ids)) (rows a' B')"
      "card (clear_flags R a) \<le> card (clear_flags R a') + blocks_for (length data)" by blast
  note o = osf.rstepD [OF A(2)]
  note O = osf.rownD [OF o(1)]
  have "\<forall>i \<in> B'. rb_wf (a' i)" using O(9) by blast
  with osf.loadRecord_Ok [OF O(1,7) _ A(4), of fuel rid] A(6) assms(8)
  have "\<exists>b''. loadRecord osDataFile fuel rid r b' = Ok (Inr \<lparr>RecID = rid, Data = data\<rparr>, b'')" by auto
  moreover have "linked (rows a' B') k r0 rs old" if l: "linked (rows a B) k r0 rs old" for k r0 rs old
  proof (rule linked_cong [OF l])
    fix i assume "i \<in> set rs"
    with linked_rows [OF l] A(5) have "i \<notin> set (r # ids)" by blast
    with A(7) show "rows a' B' i = rows a B i" by (simp add: same_outside_def)
  qed
  ultimately show ?thesis using A(1,3,8) o(1,3) by blast
qed

end
