(* ===== verification/RecordRemoves.thy ===== *)
theory RecordRemoves
  imports RecordAdds
begin

text \<open>
  Removing records, \<open>src/src/simplejsondb/core/record_allocator.go\<close>: what a removal does to the blocks that
  the buffer shows and to the file, and the lists of blocks that no walk of \<open>Add\<close> gets out of.
\<close>

section \<open>A removal in a new buffer\<close>

definition all_clean :: "'f dataBuffer \<Rightarrow> bool" where
  "all_clean b \<longleftrightarrow> (\<forall>fr \<in> set (frames b). \<not> isDirty fr) \<and> (\<forall>i k. idToFrame b i = Some k \<longrightarrow> k < length (frames b))"

text \<open>Without a dirty frame \<open>Sync\<close> writes nothing.\<close>

lemma Sync_clean:
  assumes "all_clean b"
  shows "Sync D order b = Ok (None, b)"
proof (induction order)
  case (Cons i order)
  show ?case
  proof (cases "idToFrame b i")
    case (Some k)
    with assms have k: "k < length (frames b)" "\<not> isDirty (frames b ! k)" by (auto simp: all_clean_def)
    then show ?thesis using Cons Some by (simp add: bind_def frameAt_def)
  qed (use Cons in \<open>simp add: bind_def\<close>)
qed simp

context block_file begin

lemma fetch_new:
  assumes "NewDataBuffer f cap = Ok b" "finv f" "0 < cap" "readable f i"
  shows "\<exists>b'. fetchBlock D i b = Ok (\<lparr>ID = i, Frame = 0\<rparr>, b') \<and> all_clean b' \<and> idToFrame b' = [i \<mapsto> 0] \<and>
    fdata (frames b' ! 0) = fblk f i \<and> 0 < length (frames b') \<and>
    finv (df b') \<and> fblk (df b') = fblk f \<and> readable (df b') = readable f"
proof -
  obtain n where n: "nat cap = Suc n" using assms(3) by (cases "nat cap") auto
  let ?fr = "\<lambda>i. \<lparr>inUse = False, referenced = False, isDirty = False, position = i, fdata = replicate DATABLOCK_SIZE 0\<rparr>"
  have b: "b = \<lparr>df = f, frames = map ?fr [0 ..< Suc n], idToFrame = (\<lambda>_. None), nextVictims = [], bufsize = Suc n\<rparr>"
    using assms(1,3) n by (auto simp: NewDataBuffer_def)
  from read_ok [OF assms(2,4), of "replicate DATABLOCK_SIZE 0"] obtain f' where
    f': "ReadBlock D i (replicate DATABLOCK_SIZE 0) f = Ok ((None, fblk f i), f')" "finv f'" "fblk f' = fblk f"
      "readable f' = readable f" by auto
  have u: "[0 ..< Suc n] = 0 # [1 ..< Suc n]" by (simp add: upt_conv_Cons del: upt_Suc)
  have p: "pickFrame [0 ..< Suc n] None b = Ok (Some 0, b)"
    unfolding u by (simp add: bind_def frameAt_def b del: upt_Suc)
  then have a: "acquireFrame D False b = Ok (Inr 0, b)" by (simp add: acquireFrame_def bind_def b)
  let ?b = "b\<lparr>df := f', frames := (frames b)[0 := \<lparr>inUse = True, referenced = False, isDirty = False, position = 0,
    fdata = fblk f i\<rparr>], nextVictims := [i], idToFrame := [i \<mapsto> 0]\<rparr>"
  have l: "length (frames b) = Suc n" "frames b ! 0 = ?fr 0" unfolding b by (simp_all add: u del: upt_Suc)
  have r: "readInto D i 0 b = Ok (None, b\<lparr>df := f', frames := (frames b)[0 := (?fr 0)\<lparr>fdata := fblk f i\<rparr>]\<rparr>)"
    using f'(1) l by (simp add: readInto_def bind_def frameAt_def onFile_def seq_def updFrame_def b)
  have "FetchBlock D i b = Ok (Inr \<lparr>ID = i, Frame = 0\<rparr>, ?b)"
    using a r l by (simp add: FetchBlock_def bind_def seq_def updFrame_def modify_def b)
  then have "fetchBlock D i b = Ok (\<lparr>ID = i, Frame = 0\<rparr>, ?b)" by (simp add: fetchBlock_def bind_def)
  moreover have "all_clean ?b"
  proof -
    have "set (frames ?b) \<subseteq> insert \<lparr>inUse = True, referenced = False, isDirty = False, position = 0, fdata = fblk f i\<rparr> (set (frames b))"
      using set_update_subset_insert [of "frames b" 0] by simp
    moreover have "\<forall>fr \<in> set (frames b). \<not> isDirty fr" unfolding b by auto
    ultimately have "\<forall>fr \<in> set (frames ?b). \<not> isDirty fr" by fastforce
    then show ?thesis using l by (simp add: all_clean_def)
  qed
  ultimately show ?thesis using f' l by (intro exI [of _ ?b]) simp
qed

text \<open>A row that is not chained, in a block with other rows: the frame changes, and stays clean.\<close>

lemma remove_new:
  assumes "NewDataBuffer f cap = Ok b" "finv f" "0 < cap" "readable f i" "rb_wf (fblk f i)"
    "records (fblk f i) l = Some (rid, x, c)" "DataBlockID c = 0" "records (fblk f i) l' \<noteq> None" "l' \<noteq> l"
  shows "\<exists>b' d. removeRecord D (Suc n) \<lparr>DataBlockID = i, LocalID = l\<rparr> b = Ok (None, b') \<and>
    view b' = (fblk f)(i := d) \<and> rb_wf d \<and> records d = (records (fblk f i))(l := None) \<and> all_clean b' \<and>
    finv (df b') \<and> fblk (df b') = fblk f \<and> readable (df b') = readable f"
proof -
  from fetch_new [OF assms(1-4)] obtain b1 where
    b1: "fetchBlock D i b = Ok (\<lparr>ID = i, Frame = 0\<rparr>, b1)" "all_clean b1" "idToFrame b1 = [i \<mapsto> 0]"
      "fdata (frames b1 ! 0) = fblk f i" "0 < length (frames b1)" "finv (df b1)" "fblk (df b1) = fblk f"
      "readable (df b1) = readable f" by blast
  from Remove_Ok [OF assms(5,6)] obtain d where
    d: "Remove l (fblk f i) = Ok (None, d)" "rb_wf d" "records d = (records (fblk f i))(l := None)" by blast
  note T = TotalRecords_Ok [OF d(2)]
  have "l' \<in> dom (records d)" using assms(8,9) unfolding d(3) by auto
  with T have t: "TotalRecords d = Ok (int (card (dom (records d))), d)" "card (dom (records d)) \<noteq> 0" by auto
  let ?b = "b1\<lparr>frames := (frames b1)[0 := (frames b1 ! 0)\<lparr>fdata := d\<rparr>]\<rparr>"
  have c: "ChainedRowID l (fblk f i) = Ok (Inr c, fblk f i)" using reads_Ok(2) [OF assms(5), of l] assms(6) by simp
  have "onBlock \<lparr>ID = i, Frame = 0\<rparr> (ChainedRowID l) b1 = Ok (Inr c, b1)"
    using c b1(4,5) by (simp add: onBlock_def)
  moreover have "onBlock \<lparr>ID = i, Frame = 0\<rparr> (Remove l) b1 = Ok (None, ?b)"
    using d(1) b1(4,5) by (simp add: onBlock_def)
  moreover have "onBlock \<lparr>ID = i, Frame = 0\<rparr> TotalRecords ?b = Ok (int (card (dom (records d))), ?b)"
    using t(1) b1(5) by (simp add: onBlock_def)
  ultimately have "removeRecord D (Suc n) \<lparr>DataBlockID = i, LocalID = l\<rparr> b = Ok (None, ?b)"
    using b1(1) assms(7) t(2) by (simp add: repoRecordBlock_def bind_def)
  moreover have "view ?b = (fblk f)(i := d)" using b1(3,5,7) by (auto simp: buf_view_def fun_eq_iff)
  moreover have "all_clean ?b"
  proof -
    have "set (frames ?b) \<subseteq> insert ((frames b1 ! 0)\<lparr>fdata := d\<rparr>) (set (frames b1))"
      using set_update_subset_insert [of "frames b1" 0] by simp
    moreover have "\<not> isDirty (frames b1 ! 0)" using b1(2,5) by (simp add: all_clean_def)
    ultimately have "\<forall>fr \<in> set (frames ?b). \<not> isDirty fr" using b1(2) unfolding all_clean_def by fastforce
    then show ?thesis using b1(2) by (simp add: all_clean_def)
  qed
  ultimately show ?thesis using d(2,3) b1(6-8) by (intro exI [of _ ?b] exI [of _ d]) simp
qed

lemma load_new:
  assumes "NewDataBuffer f cap = Ok b" "finv f" "0 < cap" "readable f i" "rb_wf (fblk f i)"
    "records (fblk f i) l = Some (rid, x, c)" "DataBlockID c = 0"
  shows "\<exists>b'. loadRecord D n k \<lparr>DataBlockID = i, LocalID = l\<rparr> b = Ok (Inr \<lparr>RecID = k, Data = x\<rparr>, b')"
proof -
  from fetch_new [OF assms(1-4)] obtain b1 where
    b1: "fetchBlock D i b = Ok (\<lparr>ID = i, Frame = 0\<rparr>, b1)" "fdata (frames b1 ! 0) = fblk f i" "0 < length (frames b1)" by blast
  note M = reads_Ok [OF assms(5), of l]
  have "loadChain D n c b1 = Ok (Inr [], b1)" using assms(7) by (cases n) simp_all
  then show ?thesis using b1 M assms(6) by (simp add: loadRecord_def repoRecordBlock_def bind_def onBlock_def)
qed

end

section \<open>Properties\<close>

text \<open>C16: removing a record from a database that was just opened removes it from the block in the buffer
  and keeps the others of the block, but the block is not marked as dirty: \<open>Sync\<close> then writes nothing, and
  the next buffer on the file loads the record again.\<close>

theorem removal_not_saved:
  assumes "os_inv f" "0 < cap" "os_readable f i" "rb_wf (os_block f i)" "records (os_block f i) l = Some (rid, x, c)"
    "DataBlockID c = 0" "records (os_block f i) l' \<noteq> None" "l' \<noteq> l" "NewDataBuffer f cap = Ok b"
  shows "\<exists>b' d. removeRecord osDataFile (Suc n) \<lparr>DataBlockID = i, LocalID = l\<rparr> b = Ok (None, b') \<and>
    buf_view os_block b' = (os_block f)(i := d) \<and> records d = (records (os_block f i))(l := None) \<and>
    (\<forall>order. Sync osDataFile order b' = Ok (None, b')) \<and>
    (\<exists>b2 b3. NewDataBuffer (df b') cap = Ok b2 \<and>
       loadRecord osDataFile n k \<lparr>DataBlockID = i, LocalID = l\<rparr> b2 = Ok (Inr \<lparr>RecID = k, Data = x\<rparr>, b3))"
proof -
  from osf.remove_new [OF assms(9,1-8)] obtain b' d where
    r: "removeRecord osDataFile (Suc n) \<lparr>DataBlockID = i, LocalID = l\<rparr> b = Ok (None, b')"
      "buf_view os_block b' = (os_block f)(i := d)" "records d = (records (os_block f i))(l := None)" "all_clean b'"
      "os_inv (df b')" "os_block (df b') = os_block f" "os_readable (df b') = os_readable f" by blast
  obtain b2 where b2: "NewDataBuffer (df b') cap = Ok b2" using osf.NewDataBuffer_Ok [OF r(5), of cap] assms(2) by auto
  have "\<exists>b3. loadRecord osDataFile n k \<lparr>DataBlockID = i, LocalID = l\<rparr> b2 = Ok (Inr \<lparr>RecID = k, Data = x\<rparr>, b3)"
    by (rule osf.load_new [OF b2 r(5) assms(2)]) (use assms(3-6) r(6,7) in simp_all)
  with r(1-3) b2 Sync_clean [OF r(4)] show ?thesis by blast
qed

lemma two_records:
  obtains d l l' where "rb_wf d" "records d l = Some (7, [1, 2, 3], \<lparr>DataBlockID = 0, LocalID = 0\<rparr>)"
    "records d l' \<noteq> None" "l' \<noteq> l"
proof -
  from one_record(2) obtain l where l: "records one_record = [l \<mapsto> (7, [1, 2, 3], \<lparr>DataBlockID = 0, LocalID = 0\<rparr>)]" by blast
  then have r: "records one_record l = Some (7, [1, 2, 3], \<lparr>DataBlockID = 0, LocalID = 0\<rparr>)" by simp
  then have c: "content one_record (hdr one_record l) = [1, 2, 3]" "unat l = 0"
    using nheaders_one_record by (auto simp: records_def split: if_splits)
  have L: "hdrs one_record = [hdr one_record l]"
    using c(2) nheaders_one_record by (simp add: hdrs_def local_ids_def unsigned_eq_0_iff)
  note W = rb_wfD [OF one_record(1)]
  obtain ls where "mset ls = mset (local_ids 1)" "packed 0 (map (hdr one_record) ls)" using W(5) nheaders_one_record by auto
  then have p: "packed 0 [hdr one_record l]" using c(2) by (simp add: local_ids_def unsigned_eq_0_iff)
  have "hsize (hdr one_record l) \<noteq> 0" by (rule W(6)) (use records_SomeD [OF r] in simp_all)
  then have "int16 (startsAt (hdr one_record l)) = 0" using p by (simp add: unsigned_eq_0_iff int16_def)
  then have "unat (hsize (hdr one_record l)) = 3"
    using arg_cong [OF c(1), of length] W(1,3) L by (simp add: content_def)
  then have "unat (util_of one_record) = 23" using W(4) L nheaders_one_record records_SomeD [OF r] by (simp add: live_headers_def)
  then have "1 \<le> free_of one_record" using L by (simp add: free_of_def)
  then have "length [5 :: byte] \<le> free_of one_record" by simp
  moreover have "\<forall>m r. records one_record m = Some r \<longrightarrow> fst r \<noteq> 8" using l by simp
  ultimately obtain l' f where f:
    "rb_wf f" "records one_record l' = None" "records f = (records one_record)(l' \<mapsto> (8, [5], \<lparr>DataBlockID = 0, LocalID = 0\<rparr>))"
    using stable.add_row [OF one_record(1), of 8 "[5]"] by auto
  have "l' \<noteq> l" using f(2) r by auto
  with f r that [of f l l'] show thesis by simp
qed

lemma removal_not_saved_witness:
  "\<exists>a l l' b b'. rb_wf (a 3) \<and> NewDataBuffer (file_of 5 a) 5 = Ok b \<and>
     removeRecord osDataFile 1 \<lparr>DataBlockID = 3, LocalID = l\<rparr> b = Ok (None, b') \<and>
     (\<forall>order. Sync osDataFile order b' = Ok (None, b'))"
proof -
  obtain d l l' where d: "rb_wf d" "records d l = Some (7, [1, 2, 3], \<lparr>DataBlockID = 0, LocalID = 0\<rparr>)"
    "records d l' \<noteq> None" "l' \<noteq> l" by (rule two_records)
  let ?a = "\<lambda>i :: u16. if i = 3 then d else replicate 4096 0"
  have len: "length (?a i) = DATABLOCK_SIZE" for i using rb_wfD(1) [OF d(1)] by (simp add: block_size_word)
  from file_of_store [of 5 ?a, OF _ len] obtain b where b: "NewDataBuffer (file_of 5 ?a) 5 = Ok b" by auto
  have "os_block (file_of 5 ?a) 3 = d" using file_of(4) [of ?a 3 5] len [of 3] by simp
  with removal_not_saved [of "file_of 5 ?a" 5 3 l 7 "[1, 2, 3]" "\<lparr>DataBlockID = 0, LocalID = 0\<rparr>" l' b 0] d b
  have "\<exists>b'. removeRecord osDataFile 1 \<lparr>DataBlockID = 3, LocalID = l\<rparr> b = Ok (None, b') \<and>
    (\<forall>order. Sync osDataFile order b' = Ok (None, b'))" by (auto simp: file_of)
  with b d(1) show ?thesis by (intro exI [of _ ?a] exI [of _ l] exI [of _ l'] exI [of _ b]) auto
qed

end
