(* ===== verification/IndexAdapter.thy ===== *)
theory IndexAdapter
  imports IndexNode BlocksMap
begin

text \<open>
  The adapter of the index over the block buffer, in
  \<open>src/src/simplejsondb/core/uint32_index_node_adapter.go\<close>, and the index of \<open>uint32_index.go\<close>: a
  handle of a node is its data block, and most operations mark the block dirty. \<open>DeleteAt\<close>,
  \<open>ReplaceKeyAt\<close> and \<open>Shift\<close> of a branch do not.
\<close>

section \<open>The adapter\<close>

type_synonym handle = "(DataBlock, DataBlock) node"
type_synonym ('f, 'a) buf = "('f dataBuffer, 'a) prog"

fun blockOf :: "handle \<Rightarrow> DataBlock" where
  "blockOf (LeafNode h) = h"
| "blockOf (BranchNode h) = h"

text \<open>A write to the node's block, and the mark that follows it.\<close>

definition onNode :: "DataBlock \<Rightarrow> (bytes, 'a) prog \<Rightarrow> ('f, 'a) buf" where
  "onNode h m = bind (onBlock h m) (\<lambda>x. seq (MarkAsDirty (ID h)) (ret x))"

definition idx_NodeID :: "handle \<Rightarrow> ('f, u16) buf" where
  "idx_NodeID node = ret (ID (blockOf node))"

definition idx_TotalKeys :: "handle \<Rightarrow> ('f, int) buf" where
  "idx_TotalKeys node = onBlock (blockOf node) nodeTotalKeys"

definition idx_ParentID :: "handle \<Rightarrow> ('f, u16) buf" where
  "idx_ParentID node = onBlock (blockOf node) (ReadUint16 BTREE_POS_PARENT_ID)"

definition idx_SetParentID :: "handle \<Rightarrow> u16 \<Rightarrow> ('f, unit) buf" where
  "idx_SetParentID node nid = onNode (blockOf node) (Write BTREE_POS_PARENT_ID (VUint16 nid))"

definition idx_LeftSiblingID :: "handle \<Rightarrow> ('f, u16) buf" where
  "idx_LeftSiblingID node = onBlock (blockOf node) (ReadUint16 BTREE_POS_LEFT_SIBLING)"

definition idx_SetLeftSiblingID :: "handle \<Rightarrow> u16 \<Rightarrow> ('f, unit) buf" where
  "idx_SetLeftSiblingID node nid = onNode (blockOf node) (Write BTREE_POS_LEFT_SIBLING (VUint16 nid))"

definition idx_RightSiblingID :: "handle \<Rightarrow> ('f, u16) buf" where
  "idx_RightSiblingID node = onBlock (blockOf node) (ReadUint16 BTREE_POS_RIGHT_SIBLING)"

definition idx_SetRightSiblingID :: "handle \<Rightarrow> u16 \<Rightarrow> ('f, unit) buf" where
  "idx_SetRightSiblingID node nid = onNode (blockOf node) (Write BTREE_POS_RIGHT_SIBLING (VUint16 nid))"

fun idx_KeyAt :: "handle \<Rightarrow> int \<Rightarrow> ('f, u32) buf" where
  "idx_KeyAt (LeafNode h) pos = onBlock h (leafKeyAt pos)"
| "idx_KeyAt (BranchNode h) pos = onBlock h (branchKeyAt pos)"

definition idx_SetRoot :: "'f DataFile \<Rightarrow> handle \<Rightarrow> ('f, unit) buf" where
  "idx_SetRoot D node =
     bind (repoControlBlock D) (\<lambda>cb.
     bind (idx_NodeID node) (\<lambda>nodeID.
     seq (idx_SetParentID node 0)
    (seq (onBlock cb (SetIndexRootBlockID nodeID))
    (seq (MarkAsDirty (ID cb)) (ret ())))))"

definition idx_IsRoot :: "handle \<Rightarrow> ('f, bool) buf" where
  "idx_IsRoot node = bind (idx_ParentID node) (\<lambda>pid. ret (pid = 0))"

definition loadIndexNode :: "'f DataFile \<Rightarrow> u16 \<Rightarrow> ('f, DataBlock option) buf" where
  "loadIndexNode D nodeID =
     (if nodeID = 0 then ret None else bind (fetchBlock D nodeID) (\<lambda>block. ret (Some block)))"

definition idx_LoadNode :: "'f DataFile \<Rightarrow> u16 \<Rightarrow> ('f, handle option) buf" where
  "idx_LoadNode D nid =
     bind (loadIndexNode D nid) (\<lambda>node. case node of
       None \<Rightarrow> ret None
     | Some h \<Rightarrow> bind (onBlock h isLeaf) (\<lambda>leaf. ret (Some (if leaf then LeafNode h else BranchNode h))))"

definition idx_LoadRoot :: "'f DataFile \<Rightarrow> ('f, handle option) buf" where
  "idx_LoadRoot D =
     bind (repoControlBlock D) (\<lambda>cb.
     bind (onBlock cb IndexRootBlockID) (\<lambda>root. if root = 0 then ret None else idx_LoadNode D root))"

text \<open>Leaves and branches are loaded by ID alone, whatever the type of the block.\<close>

definition idx_LoadLeaf :: "'f DataFile \<Rightarrow> u16 \<Rightarrow> ('f, DataBlock option) buf" where
  "idx_LoadLeaf D nid = loadIndexNode D nid"

definition idx_LoadBranch :: "'f DataFile \<Rightarrow> u16 \<Rightarrow> ('f, DataBlock option) buf" where
  "idx_LoadBranch D nid = loadIndexNode D nid"

definition idx_LoadFirstLeaf :: "'f DataFile \<Rightarrow> ('f, DataBlock option) buf" where
  "idx_LoadFirstLeaf D =
     bind (repoControlBlock D) (\<lambda>cb. bind (onBlock cb FirstLeaf) (idx_LoadLeaf D))"

definition idx_Free :: "'f DataFile \<Rightarrow> handle \<Rightarrow> ('f, unit) buf" where
  "idx_Free D node = bind (idx_NodeID node) (MarkAsFree D)"

definition allocateBlock :: "'f DataFile \<Rightarrow> ('f, DataBlock) buf" where
  "allocateBlock D =
     bind (FirstFree D) (\<lambda>blockID.
     bind (fetchBlock D blockID) (\<lambda>block.
     seq (MarkAsUsed D blockID)
    (seq (onBlock block blankNode)
         (ret block))))"

definition idx_CreateLeaf :: "'f DataFile \<Rightarrow> ('f, DataBlock) buf" where
  "idx_CreateLeaf D =
     bind (allocateBlock D) (\<lambda>block.
     seq (onBlock block (Write BTREE_POS_TYPE (VUint8 BTREE_TYPE_LEAF)))
    (seq (MarkAsDirty (ID block))
         (ret block)))"

definition idx_CreateBranch :: "'f DataFile \<Rightarrow> BranchEntry \<Rightarrow> ('f, DataBlock) buf" where
  "idx_CreateBranch D entry =
     bind (allocateBlock D) (\<lambda>block.
     let writeOffset = BTREE_POS_ENTRIES_OFFSET in
     seq (onBlock block (seq (Write BTREE_POS_TYPE (VUint8 BTREE_TYPE_BRANCH))
       (seq (Write (writeOffset + BTREE_BRANCH_OFFSET_KEY) (VUint32 (beKey entry)))
       (seq (Write (writeOffset + BTREE_BRANCH_OFFSET_LEFT_BLOCK_ID) (VUint16 (LowerThanKeyNodeID entry)))
       (seq (Write (writeOffset + BTREE_BRANCH_OFFSET_RIGHT_BLOCK_ID) (VUint16 (GreaterThanOrEqualToKeyNodeID entry)))
            (Write BTREE_POS_TOTAL_KEYS (VUint16 1)))))))
    (seq (MarkAsDirty (ID block))
         (ret block)))"

definition idx_Init :: "'f DataFile \<Rightarrow> ('f, DataBlock) buf" where
  "idx_Init D =
     bind (idx_CreateLeaf D) (\<lambda>root.
     seq (idx_SetRoot D (LeafNode root))
    (bind (repoControlBlock D) (\<lambda>cb.
     seq (onBlock cb (SetFirstLeaf (ID root)))
    (seq (MarkAsDirty (ID cb))
         (ret root)))))"

definition idxAdapter :: "'f DataFile \<Rightarrow> ('f dataBuffer, DataBlock, DataBlock, RowID) NodeAdapter" where
  "idxAdapter D = \<lparr>
     LoadRoot = idx_LoadRoot D, IsRoot = idx_IsRoot, InitRoot = idx_Init D, SetRoot = idx_SetRoot D,
     LoadNode = idx_LoadNode D, Free = idx_Free D, CreateBranch = idx_CreateBranch D,
     LoadBranch = idx_LoadBranch D, LoadFirstLeaf = idx_LoadFirstLeaf D, CreateLeaf = idx_CreateLeaf D,
     LoadLeaf = idx_LoadLeaf D, NodeID = idx_NodeID, ParentID = idx_ParentID,
     SetParentID = idx_SetParentID, LeftSiblingID = idx_LeftSiblingID,
     SetLeftSiblingID = idx_SetLeftSiblingID, RightSiblingID = idx_RightSiblingID,
     SetRightSiblingID = idx_SetRightSiblingID, KeyAt = idx_KeyAt, TotalKeys = idx_TotalKeys,
     LeafInsertAt = (\<lambda>h pos entry. onNode h (leafInsertAt pos entry)),
     ItemAt = (\<lambda>h pos. onBlock h (leafItemAt pos)),
     LeafDeleteAt = (\<lambda>h pos. onNode h (leafDeleteAt pos)),
     LeafDeleteFrom = (\<lambda>h pos. onNode h (leafDeleteFrom pos)),
     LeafNth = (\<lambda>h i. onBlock h (readLeafEntry (leafOffset (int i)))),
     BranchInsertAt = (\<lambda>h pos key nid. onNode h (branchInsertAt pos key nid)),
     BranchUnshift = (\<lambda>h key nid. onNode h (branchUnshift key nid)),
     EntryAt = (\<lambda>h pos. onBlock h (branchEntryAt pos)),
     BranchDeleteAt = (\<lambda>h pos. onBlock h (branchDeleteAt pos)),
     BranchDeleteFrom = (\<lambda>h pos. onNode h (branchDeleteFrom pos)),
     BranchShift = (\<lambda>h. onBlock h branchShift),
     ReplaceKeyAt = (\<lambda>h pos key. onBlock h (branchReplaceKeyAt pos key)),
     BranchNth = (\<lambda>h i. onBlock h (readBranchEntry (branchOffset (int i))))\<rparr>"

section \<open>The index\<close>

type_synonym 'f index = "('f dataBuffer, DataBlock, DataBlock, RowID) bPlusTree"

definition NewUint32Index :: "'f DataFile \<Rightarrow> int \<Rightarrow> int \<Rightarrow> 'f index" where
  "NewUint32Index D brCapacity lfCapacity = newTree (idxAdapter D) lfCapacity brCapacity"

definition indexInit :: "'f index \<Rightarrow> ('f, unit) buf" where
  "indexInit t = treeInit t"

definition indexAll :: "'f index \<Rightarrow> nat \<Rightarrow> ('a \<Rightarrow> u32 \<Rightarrow> RowID \<Rightarrow> ('f, 'a) buf) \<Rightarrow> 'a \<Rightarrow> ('f, 'a) buf" where
  "indexAll t n iterator acc = treeAll t n (\<lambda>a entry. iterator a (leKey entry) (leItem entry)) acc"

definition indexDelete :: "'f index \<Rightarrow> nat \<Rightarrow> u32 \<Rightarrow> ('f, goerror option) buf" where
  "indexDelete t n key = treeDelete t n key"

text \<open>With an error, the row ID that \<open>Find\<close> returns is zero.\<close>

definition indexFind :: "'f index \<Rightarrow> nat \<Rightarrow> u32 \<Rightarrow> ('f, goerror option \<times> RowID) buf" where
  "indexFind t n key =
     bind (treeFind t n key) (\<lambda>r. case r of
       Inl err \<Rightarrow> ret (Some err, \<lparr>DataBlockID = 0, LocalID = 0\<rparr>)
     | Inr item \<Rightarrow> ret (None, item))"

definition indexInsert :: "'f index \<Rightarrow> nat \<Rightarrow> u32 \<Rightarrow> RowID \<Rightarrow> ('f, goerror option) buf" where
  "indexInsert t n key rowID = treeInsert t n key rowID"

end
