(* ===== verification/Database.thy ===== *)
theory Database
  imports RecordAllocator IndexAdapter
begin

text \<open>
  The database: the record of \<open>src/src/simplejsondb/core/record.go\<close>, the actions of
  \<open>src/src/simplejsondb/actions\<close> and the API of \<open>src/src/simplejsondb/simple_json_db.go\<close>. The
  functions of \<open>encoding/json\<close> are parameters: \<open>compact\<close> for \<open>json.Compact\<close>, which returns the
  compacted text or an error, and \<open>unmarshal\<close> for \<open>json.Unmarshal\<close> into a map.
\<close>

section \<open>Records and their JSON\<close>

text \<open>
  A decoded value that is a string compares equal to the same string; any other value does not.
\<close>

datatype jsonValue = JString bytes | JOther nat

type_synonym jsonMap = "bytes \<rightharpoonup> jsonValue"

record JRecord =
  jrID :: u32
  jrData :: bytes
  parsedJSON :: "jsonMap option"

text \<open>
  The decoder fills the map that the record caches even when it fails, so that a second call
  returns the partial map without an error.
\<close>

definition ParseJSON :: "(bytes \<Rightarrow> jsonMap \<times> goerror option) \<Rightarrow> JRecord \<Rightarrow> (goerror + jsonMap) \<times> JRecord" where
  "ParseJSON unmarshal r =
     (case parsedJSON r of
        Some m \<Rightarrow> (Inr m, r)
      | None \<Rightarrow>
          (case unmarshal (jrData r) of
             (m, Some err) \<Rightarrow> (Inl err, r\<lparr>parsedJSON := Some m\<rparr>)
           | (m, None) \<Rightarrow> (Inr m, r\<lparr>parsedJSON := Some m\<rparr>)))"

section \<open>Actions\<close>

text \<open>
  The parameters that every action shares: the file, the sort, the index and the fuel of the
  walks.
\<close>

record 'f env =
  envFile :: "'f DataFile"
  envSort :: sorter
  envIndex :: "'f index"
  envFuel :: nat

definition Delete :: "'f env \<Rightarrow> u32 \<Rightarrow> ('f, goerror option) buf" where
  "Delete E key =
     bind (indexFind (envIndex E) (envFuel E) key) (\<lambda>(err, rowID).
     case err of
       Some e \<Rightarrow> ret (Some e)
     | None \<Rightarrow>
         bind (removeRecord (envFile E) (envFuel E) rowID) (\<lambda>err. case err of
           Some e \<Rightarrow> ret (Some e)
         | None \<Rightarrow> indexDelete (envIndex E) (envFuel E) key))"

definition Find :: "'f env \<Rightarrow> u32 \<Rightarrow> ('f, goerror + Record) buf" where
  "Find E key =
     bind (indexFind (envIndex E) (envFuel E) key) (\<lambda>(err, rowID).
     case err of
       Some e \<Rightarrow> ret (Inl e)
     | None \<Rightarrow> loadRecord (envFile E) (envFuel E) key rowID)"

text \<open>The error of \<open>Find\<close> is dropped; a zero row ID means that the key is free.\<close>

definition Insert :: "'f env \<Rightarrow> Record \<Rightarrow> ('f, goerror option) buf" where
  "Insert E r =
     bind (repoControlBlock (envFile E)) (\<lambda>cb.
     seq (MarkAsDirty (ID cb))
    (bind (indexFind (envIndex E) (envFuel E) (RecID r)) (\<lambda>(_, rowID).
     if rowID \<noteq> \<lparr>DataBlockID = 0, LocalID = 0\<rparr> then ret (Some (ErrKeyExists (RecID r)))
     else
       bind (addRecord (envFile E) (envSort E) (envFuel E) (RecID r) (Data r)) (\<lambda>res. case res of
         Inl err \<Rightarrow> ret (Some err)
       | Inr rowID \<Rightarrow> indexInsert (envIndex E) (envFuel E) (RecID r) rowID))))"

definition Update :: "'f env \<Rightarrow> Record \<Rightarrow> ('f, goerror option) buf" where
  "Update E r =
     bind (indexFind (envIndex E) (envFuel E) (RecID r)) (\<lambda>(err, rowID).
     case err of
       Some e \<Rightarrow> ret (Some e)
     | None \<Rightarrow> updateRecord (envFile E) (envSort E) (envFuel E) rowID (RecID r) (Data r))"

text \<open>The iterator of \<open>Search\<close>: a record that cannot be loaded or decoded is a panic.\<close>

definition searchStep :: "'f env \<Rightarrow> (bytes \<Rightarrow> jsonMap \<times> goerror option) \<Rightarrow> bytes \<Rightarrow> bytes
    \<Rightarrow> JRecord list \<Rightarrow> u32 \<Rightarrow> RowID \<Rightarrow> ('f, JRecord list) buf" where
  "searchStep E unmarshal key val results rid rowID =
     bind (loadRecord (envFile E) (envFuel E) rid rowID) (\<lambda>res. case res of
       Inl err \<Rightarrow> panic (PanicError err)
     | Inr r \<Rightarrow>
         (case ParseJSON unmarshal \<lparr>jrID = RecID r, jrData = Data r, parsedJSON = None\<rparr> of
            (Inl err, _) \<Rightarrow> panic (PanicError err)
          | (Inr json, jr) \<Rightarrow>
              (case json key of
                 None \<Rightarrow> ret results
               | Some jsonValue \<Rightarrow> ret (if jsonValue = JString val then results @ [jr] else results))))"

definition Search :: "'f env \<Rightarrow> (bytes \<Rightarrow> jsonMap \<times> goerror option) \<Rightarrow> bytes \<Rightarrow> bytes \<Rightarrow> ('f, JRecord list) buf" where
  "Search E unmarshal key val = indexAll (envIndex E) (envFuel E) (searchStep E unmarshal key val) []"

section \<open>The database\<close>

definition BUFFER_SIZE :: int where "BUFFER_SIZE = 256"
definition BTREE_IDX_BRANCH_MAX_ENTRIES :: int where "BTREE_IDX_BRANCH_MAX_ENTRIES = 680"
definition BTREE_IDX_LEAF_MAX_ENTRIES :: int where "BTREE_IDX_LEAF_MAX_ENTRIES = 510"

text \<open>Opening: the buffer over the formatted file, and the environment of the actions.\<close>

definition NewWithDataFile :: "'f DataFile \<Rightarrow> ('f dataBuffer \<Rightarrow> u16 list) \<Rightarrow> sorter \<Rightarrow> nat \<Rightarrow> 'f
    \<Rightarrow> (goerror + 'f dataBuffer \<times> 'f env) outcome" where
  "NewWithDataFile D ord srt fuel dataFile =
     (case FormatDataFileIfNeeded D ord dataFile of
        Panic p \<Rightarrow> Panic p
      | NoFuel \<Rightarrow> NoFuel
      | Ok (Some err, _) \<Rightarrow> Ok (Inl err)
      | Ok (None, f) \<Rightarrow>
          (case NewDataBuffer f BUFFER_SIZE of
             Panic p \<Rightarrow> Panic p
           | NoFuel \<Rightarrow> NoFuel
           | Ok dataBuffer \<Rightarrow> Ok (Inr (dataBuffer,
               \<lparr>envFile = D, envSort = srt,
                envIndex = NewUint32Index D BTREE_IDX_BRANCH_MAX_ENTRIES BTREE_IDX_LEAF_MAX_ENTRIES,
                envFuel = fuel\<rparr>))))"

definition New :: "(osFile dataBuffer \<Rightarrow> u16 list) \<Rightarrow> sorter \<Rightarrow> nat \<Rightarrow> string
    \<Rightarrow> (directory, goerror + osFile dataBuffer \<times> osFile env) prog" where
  "New ord srt fuel datafilePath =
     bind (NewDatafile datafilePath) (\<lambda>df. case df of
       Inl err \<Rightarrow> ret (Inl err)
     | Inr dataFile \<Rightarrow>
         (\<lambda>dir. case NewWithDataFile osDataFile ord srt fuel dataFile of
            Panic p \<Rightarrow> Panic p
          | NoFuel \<Rightarrow> NoFuel
          | Ok res \<Rightarrow> Ok (res, dir)))"

definition closeDB :: "'f env \<Rightarrow> ('f dataBuffer \<Rightarrow> u16 list) \<Rightarrow> ('f, goerror option) buf" where
  "closeDB E ord =
     bind (bind (gets ord) (Sync (envFile E))) (\<lambda>err. case err of
       Some e \<Rightarrow> ret (Some e)
     | None \<Rightarrow> onFile (Close (envFile E)))"

definition InsertRecord :: "(bytes \<Rightarrow> goerror + bytes) \<Rightarrow> 'f env \<Rightarrow> u32 \<Rightarrow> bytes \<Rightarrow> ('f, goerror option) buf" where
  "InsertRecord compact E key text =
     (case compact text of
        Inl err \<Rightarrow> ret (Some err)
      | Inr json \<Rightarrow> Insert E \<lparr>RecID = key, Data = json\<rparr>)"

definition UpdateRecord :: "(bytes \<Rightarrow> goerror + bytes) \<Rightarrow> 'f env \<Rightarrow> u32 \<Rightarrow> bytes \<Rightarrow> ('f, goerror option) buf" where
  "UpdateRecord compact E key text =
     (case compact text of
        Inl err \<Rightarrow> ret (Some err)
      | Inr json \<Rightarrow> Update E \<lparr>RecID = key, Data = json\<rparr>)"

definition DeleteRecord :: "'f env \<Rightarrow> u32 \<Rightarrow> ('f, goerror option) buf" where
  "DeleteRecord E key = Delete E key"

definition FindRecord :: "'f env \<Rightarrow> u32 \<Rightarrow> ('f, goerror + Record) buf" where
  "FindRecord E key = Find E key"

definition SearchRecords :: "'f env \<Rightarrow> (bytes \<Rightarrow> jsonMap \<times> goerror option) \<Rightarrow> bytes \<Rightarrow> bytes
    \<Rightarrow> ('f, JRecord list) buf" where
  "SearchRecords E unmarshal key val = Search E unmarshal key val"

end
