(* ===== verification/TreeDump.thy ===== *)
theory TreeDump
  imports TreeAll
begin

text \<open>
  The dump of a tree as text, \<open>src/src/bplustree/debugger.go\<close>, and what it prints: the nodes from the
  root down, each branch before its children, with the keys around a child in front of it. Dumping
  changes no node.
\<close>

section \<open>Formatting\<close>

text \<open>The verbs \<open>%d\<close> and \<open>%2d\<close> of \<open>fmt\<close>, and \<open>%+v\<close> for a slice of keys.\<close>

fun decimal :: "nat \<Rightarrow> string" where
  "decimal n = (if n < 10 then [char_of (48 + n)] else decimal (n div 10) @ [char_of (48 + n mod 10)])"

declare decimal.simps [simp del]

definition decimal2 :: "nat \<Rightarrow> string" where
  "decimal2 n = (if n < 10 then '' '' @ decimal n else decimal n)"

fun spaced :: "string list \<Rightarrow> string" where
  "spaced [] = ''''"
| "spaced [w] = w"
| "spaced (w # ws) = w @ '' '' @ spaced ws"

definition listing :: "u32 list \<Rightarrow> string" where
  "listing ks = ''['' @ spaced (map (\<lambda>k. decimal (unat k)) ks) @ '']''"

definition nodeLine :: "string \<Rightarrow> string \<Rightarrow> u16 \<Rightarrow> u16 \<Rightarrow> u16 \<Rightarrow> u16 \<Rightarrow> string" where
  "nodeLine indent kind nid pid left right =
     indent @ kind @ '' (ID='' @ decimal (unat nid) @ '', parentID='' @ decimal (unat pid) @
     '', left='' @ decimal (unat left) @ '', right='' @ decimal (unat right) @ '')''"

definition newline :: string where
  "newline = [char_of (10 :: nat)]"

text \<open>The pattern \<open>(.)\<close> matches every character but a newline.\<close>

definition blanks :: "string \<Rightarrow> string" where
  "blanks indent = map (\<lambda>c. if c = char_of (10 :: nat) then c else CHR '' '') indent"

section \<open>Dumping a tree\<close>

definition dumpLeaf :: "('s, 'l, 'b, 'i) NodeAdapter \<Rightarrow> string \<Rightarrow> 'l \<Rightarrow> ('s, string) prog" where
  "dumpLeaf A indent leaf =
     bind (leafAll A leaf (\<lambda>ks entry. ret (ks @ [leKey entry])) []) (\<lambda>ks.
     bind (NodeID A (LeafNode leaf)) (\<lambda>nid.
     bind (ParentID A (LeafNode leaf)) (\<lambda>pid.
     bind (LeftSiblingID A (LeafNode leaf)) (\<lambda>left.
     bind (RightSiblingID A (LeafNode leaf)) (\<lambda>right.
     ret (nodeLine indent ''LEAF'' nid pid left right @ '' '' @ listing ks @ newline))))))"

text \<open>
  A branch dumps its children through \<open>dumpNode\<close>, one level down; \<open>child\<close> is that call. The iterator
  \<open>dumpEntry\<close> has the local variables \<open>i\<close> and \<open>output\<close> as its accumulator.
\<close>

fun dumpEntry :: "('s, 'l, 'b, 'i) NodeAdapter \<Rightarrow> (string \<Rightarrow> ('l, 'b) node option \<Rightarrow> ('s, string) prog)
    \<Rightarrow> string \<Rightarrow> int \<Rightarrow> int \<times> string \<Rightarrow> BranchEntry \<Rightarrow> ('s, int \<times> string) prog" where
  "dumpEntry A child indent totalKeys (i, output) entry =
     (let i = i + 1 in
      bind (LoadNode A (LowerThanKeyNodeID entry)) (\<lambda>ltNode.
      bind (child (indent @ '' [<  '' @ decimal2 (unat (beKey entry)) @ '']'') ltNode) (\<lambda>text.
      let output = output @ text in
      if i = totalKeys then
        bind (LoadNode A (GreaterThanOrEqualToKeyNodeID entry)) (\<lambda>gteNode.
        bind (child (indent @ '' [>= '' @ decimal2 (unat (beKey entry)) @ '']'') gteNode) (\<lambda>text.
        ret (i, output @ text)))
      else ret (i, output))))"

declare dumpEntry.simps [simp del]

definition dumpBranch :: "('s, 'l, 'b, 'i) NodeAdapter \<Rightarrow> (string \<Rightarrow> ('l, 'b) node option \<Rightarrow> ('s, string) prog)
    \<Rightarrow> string \<Rightarrow> 'b \<Rightarrow> ('s, string) prog" where
  "dumpBranch A child indent branch =
     bind (NodeID A (BranchNode branch)) (\<lambda>nid.
     bind (ParentID A (BranchNode branch)) (\<lambda>pid.
     bind (LeftSiblingID A (BranchNode branch)) (\<lambda>left.
     bind (RightSiblingID A (BranchNode branch)) (\<lambda>right.
     let output = nodeLine indent ''BRANCH'' nid pid left right @ newline; indent = blanks indent in
     bind (TotalKeys A (BranchNode branch)) (\<lambda>totalKeys.
     bind (branchAll A branch (dumpEntry A child indent totalKeys) (0, output)) (\<lambda>(i, output). ret output))))))"

text \<open>The fuel is the number of levels of the tree.\<close>

fun dumpNode :: "('s, 'l, 'b, 'i) NodeAdapter \<Rightarrow> nat \<Rightarrow> string \<Rightarrow> ('l, 'b) node option \<Rightarrow> ('s, string) prog" where
  "dumpNode A n indent None = ret ''EMPTY''"
| "dumpNode A n indent (Some (LeafNode leaf)) = dumpLeaf A indent leaf"
| "dumpNode A 0 indent (Some (BranchNode branch)) = nofuel"
| "dumpNode A (Suc n) indent (Some (BranchNode branch)) = dumpBranch A (dumpNode A n) indent branch"

definition DumpTree :: "('s, 'l, 'b, 'i) NodeAdapter \<Rightarrow> nat \<Rightarrow> ('s, string) prog" where
  "DumpTree A n = bind (LoadRoot A) (dumpNode A n '''')"

section \<open>What is printed\<close>

text \<open>The labels in front of the children of a branch, and the text of a tree whose nodes \<open>H\<close> shows.\<close>

definition labels :: "u32 list \<Rightarrow> string list" where
  "labels ks = map (\<lambda>k. '' [<  '' @ decimal2 (unat k) @ '']'') ks @ ['' [>= '' @ decimal2 (unat (last ks)) @ '']'']"

definition lineOf :: "'i heapView \<Rightarrow> string \<Rightarrow> string \<Rightarrow> u16 \<Rightarrow> string" where
  "lineOf H indent kind i =
     (case nodeOf H i of None \<Rightarrow> '''' | Some v \<Rightarrow> nodeLine indent kind i (up v) (lft v) (rgt v))"

function drawn :: "'i heapView \<Rightarrow> string \<Rightarrow> 'i bpt \<Rightarrow> string" where
  "drawn H indent (Leafy i es) = lineOf H indent ''LEAF'' i @ '' '' @ listing (map leKey es) @ newline"
| "drawn H indent (Branchy i ks ts) = lineOf H indent ''BRANCH'' i @ newline @
     concat (map (\<lambda>(l, t). drawn H (blanks indent @ l) t) (zip (labels ks) ts))"
  by pat_completeness auto
termination
  by (relation "measure (\<lambda>(H, indent, t). size t)")
     (auto dest!: set_zip_rightD simp: less_Suc_eq_le intro!: size_list_estimation')

lemma length_labels [simp]: "length (labels ks) = length ks + 1"
  by (simp add: labels_def)

context node_store begin

lemma dumpLeaf_Ok:
  assumes "holds x0 k s H hs" "(LeafNode l, i) \<in> hs" "nodeOf H i = Some v" "content v = Entries es"
  shows "dumpLeaf A indent l s = Ok (drawn H indent (Leafy i es), s)"
proof -
  have f: "foldl (\<lambda>ks e. ks @ [leKey e]) xs es = xs @ map leKey es" for xs
    by (induction es arbitrary: xs) simp_all
  have "leafAll A l (\<lambda>ks entry. ret (ks @ [leKey entry])) [] s = Ok (map leKey es, s)"
    using leafAll_Ok [OF assms, of "\<lambda>ks entry. ret (ks @ [leKey entry])" "\<lambda>ks e. ks @ [leKey e]" "[]"] by (simp add: f)
  then show ?thesis
    using NodeID_Ok [OF assms(1-3)] ParentID_Ok [OF assms(1-3)] LeftSiblingID_Ok [OF assms(1-3)] RightSiblingID_Ok [OF assms(1-3)]
      assms(3) by (simp add: dumpLeaf_def bind_def lineOf_def)
qed

text \<open>A branch, when its children are dumped as they are drawn.\<close>

lemma dumpBranch_Ok:
  assumes "holds x0 k s H hs" "(BranchNode b, i) \<in> hs" "nodeOf H i = Some v" "content v = Children ks (map tid ts)"
    "ks \<noteq> []" "length ts = length ks + 1"
    and child: "\<And>j ind s. j < length ts \<Longrightarrow> holds x0 k s H hs \<Longrightarrow>
      \<exists>h s1 s'. LoadNode A (tid (ts ! j)) s = Ok (h, s1) \<and> child ind h s1 = Ok (drawn H ind (ts ! j), s') \<and> holds x0 k s' H hs"
  shows "\<exists>s'. dumpBranch A child indent b s = Ok (drawn H indent (Branchy i ks ts), s') \<and> holds x0 k s' H hs"
proof -
  let ?n = "length ks" and ?I = "blanks indent"
  let ?d = "\<lambda>j. drawn H (?I @ labels ks ! j) (ts ! j)"
  let ?step = "dumpEntry A child ?I (int ?n)"
  have lab: "labels ks ! j = '' [<  '' @ decimal2 (unat (ks ! j)) @ '']''" if "j < ?n" for j
    using that by (simp add: labels_def nth_append)
  have lab': "labels ks ! ?n = '' [>= '' @ decimal2 (unat (ks ! (?n - 1))) @ '']''"
    using assms(5) by (simp add: labels_def nth_append last_conv_nth)
  have step: "\<exists>s'. ?step (int j, out) (entry_of ks (map tid ts) j) s =
      Ok ((int (Suc j), out @ ?d j @ (if Suc j = ?n then ?d ?n else '''')), s') \<and> holds x0 k s' H hs"
    if j: "j < ?n" and h: "holds x0 k s H hs" for j out s
  proof -
    from j assms(6) have l: "j < length ts" by simp
    from child [OF l h, of "?I @ labels ks ! j"] obtain h1 s1 s2 where
      c: "LoadNode A (tid (ts ! j)) s = Ok (h1, s1)" "child (?I @ labels ks ! j) h1 s1 = Ok (?d j, s2)" "holds x0 k s2 H hs"
      by blast
    show ?thesis
    proof (cases "Suc j = ?n")
      case False
      then have "int j + 1 \<noteq> int ?n" by linarith
      with c l False show ?thesis by (simp add: bind_def Let_def lab [OF j] dumpEntry.simps)
    next
      case True
      then have l': "?n < length ts" using assms(6) by simp
      from child [OF l' c(3), of "?I @ labels ks ! ?n"] obtain h2 s3 s4 where
        d: "LoadNode A (tid (ts ! ?n)) s2 = Ok (h2, s3)" "child (?I @ labels ks ! ?n) h2 s3 = Ok (?d ?n, s4)" "holds x0 k s4 H hs"
        by blast
      have "ks ! (?n - 1) = ks ! j" "int j + 1 = int ?n" using True by (auto simp flip: True)
      moreover have n: "?n = Suc j" using True by simp
      ultimately show ?thesis using c d l l' lab [OF j] lab' by (simp add: bind_def Let_def n add.commute dumpEntry.simps)
    qed
  qed
  have iter: "\<exists>s'. iterate (BranchNth A b) [j ..< ?n] ?step (int j, out) s =
      Ok ((int ?n, out @ concat (map ?d [j ..< ?n + 1])), s') \<and> holds x0 k s' H hs" if "j < ?n" "holds x0 k s H hs" for j out s
    using that
  proof (induction "?n - j" arbitrary: j out s)
    case (Suc d)
    from step [OF Suc.prems, of out] obtain s1 where s1: "?step (int j, out) (entry_of ks (map tid ts) j) s =
      Ok ((int (Suc j), out @ ?d j @ (if Suc j = ?n then ?d ?n else '''')), s1)" "holds x0 k s1 H hs" by blast
    have n: "BranchNth A b j s = Ok (entry_of ks (map tid ts) j, s)"
      by (rule BranchNth_Ok [OF Suc.prems(2) assms(2-4) Suc.prems(1)])
    have u: "[j ..< ?n] = j # [Suc j ..< ?n]" "[j ..< Suc ?n] = j # [Suc j ..< Suc ?n]" using Suc.prems(1) by (simp_all add: upt_conv_Cons del: upt_Suc)
    show ?case
    proof (cases "Suc j = ?n")
      case True
      have "[j ..< ?n] = [j]" "[j ..< ?n + 1] = [j, ?n]" using True by (simp_all flip: True)
      with n s1 True show ?thesis by (simp add: bind_def)
    next
      case False
      then have l: "Suc j < ?n" "d = ?n - Suc j" using Suc by simp_all
      from Suc.hyps(1) [OF l(2,1) s1(2), of "out @ ?d j"] l(1) n s1(1) u(1) False show ?thesis
        by (simp add: bind_def u(2) del: upt_Suc)
    qed
  qed simp
  have z: "map (\<lambda>(l, t). drawn H (?I @ l) t) (zip (labels ks) ts) = map ?d [0 ..< ?n + 1]"
    using assms(6) by (intro list_eq_iff_nth_eq [THEN iffD2]) (simp del: upt_Suc)
  have "0 < ?n" using assms(5) by simp
  from iter [OF this assms(1), of "nodeLine indent ''BRANCH'' i (up v) (lft v) (rgt v) @ newline"] obtain s' where
    s': "iterate (BranchNth A b) [0 ..< ?n] ?step (0, nodeLine indent ''BRANCH'' i (up v) (lft v) (rgt v) @ newline) s =
      Ok ((int ?n, (nodeLine indent ''BRANCH'' i (up v) (lft v) (rgt v) @ newline) @ concat (map ?d [0 ..< ?n + 1])), s')"
    "holds x0 k s' H hs" by auto
  show ?thesis
    using NodeID_Ok [OF assms(1-3)] ParentID_Ok [OF assms(1-3)] LeftSiblingID_Ok [OF assms(1-3)] RightSiblingID_Ok [OF assms(1-3)]
      TotalKeys_Ok [OF assms(1-3)] assms(3,4) s'
    by (intro exI [of _ s']) (simp add: dumpBranch_def branchAll_def bind_def Let_def lineOf_def z)
qed

lemma dumpNode_Ok:
  assumes "ordered lo hi T" "balanced n T" "n \<le> m" "stored H T" "holds x0 k s H hs" "(h, tid T) \<in> hs"
  shows "\<exists>s'. dumpNode A m indent (Some h) s = Ok (drawn H indent T, s') \<and> holds x0 k s' H hs"
  using assms
proof (induction T arbitrary: n m h s hs indent rule: ordered.induct)
  case (Leafy es lo hi i)
  from Leafy.prems(3) obtain v where v: "nodeOf H i = Some v" "content v = Entries es" by auto
  from kinds(1) [OF Leafy.prems(4) _ v] Leafy.prems(5) obtain l where l: "h = LeafNode l" by auto
  with dumpLeaf_Ok [OF Leafy.prems(4) _ v] Leafy.prems(4,5) show ?case by auto
next
  case (Branchy ks ts lo hi i)
  from Branchy.prems(3) obtain v where v: "nodeOf H i = Some v" "content v = Children ks (map tid ts)" by auto
  from kinds(2) [OF Branchy.prems(4) _ v] Branchy.prems(5) obtain b where b: "h = BranchNode b" by auto
  from Branchy.prems(1,2) obtain n' m' where nm: "n = Suc n'" "m = Suc m'" "n' \<le> m'" by (cases n; cases m) simp_all
  have at: "(BranchNode b, i) \<in> hs" using Branchy.prems(5) b by simp
  have "\<exists>s'. dumpBranch A (dumpNode A m') indent b s = Ok (drawn H indent (Branchy i ks ts), s') \<and> holds x0 k s' H hs"
  proof (rule dumpBranch_Ok [OF Branchy.prems(4) at v Branchy.hyps(1,2)])
    fix j ind s assume j: "j < length ts" and hl: "holds x0 k s H hs"
    then have st: "stored H (ts ! j)" "balanced n' (ts ! j)" using Branchy.prems(1,3) nm(1) by simp_all
    then obtain w where "nodeOf H (tid (ts ! j)) = Some w" by (cases "ts ! j") auto
    from LoadNode_Ok [OF hl this] obtain h1 s1 where
      l: "LoadNode A (tid (ts ! j)) s = Ok (Some h1, s1)" "holds x0 k s1 H (insert (h1, tid (ts ! j)) hs)" by blast
    from Branchy.IH [OF j st(2) nm(3) st(1) l(2) insertI1, of ind] obtain s2 where
      "dumpNode A m' ind (Some h1) s1 = Ok (drawn H ind (ts ! j), s2)" "holds x0 k s2 H (insert (h1, tid (ts ! j)) hs)" by blast
    with l(1) show "\<exists>h s1 s'. LoadNode A (tid (ts ! j)) s = Ok (h, s1) \<and> dumpNode A m' ind h s1 = Ok (drawn H ind (ts ! j), s') \<and>
        holds x0 k s' H hs" using holds_mono [of x0 k s2 H "insert (h1, tid (ts ! j)) hs" hs] by blast
  qed
  then show ?case by (simp add: b nm(2))
qed

lemma DumpTree_Ok:
  assumes "repr s x" "tree_ok lc bc (vw x) T n" "n \<le> m"
  shows "\<exists>s'. DumpTree A m s = Ok (drawn (vw x) '''' T, s') \<and> (\<exists>x'. repr s' x' \<and> vw x' = vw x \<and> other x x')"
proof -
  have S: "laid (vw x) 0 T" "tree_shape (vw x) T n" "rootOf (vw x) = Some (tid T)" using assms(2) by (simp_all add: tree_ok_def)
  note D = tree_shapeD [OF S(2)]
  note st = laid_stored [OF S(1)]
  then have "nodeOf (vw x) (tid T) \<noteq> None" by (cases T) auto
  with load_root [OF assms(1)] S(3) obtain h s1 where h: "LoadRoot A s = Ok (Some h, s1)" "repr s1 x" "at s1 h (tid T)" by auto
  have "holds x 0 s1 (vw x) {(h, tid T)}" using h(2,3) by (intro holds_start) auto
  from dumpNode_Ok [OF tree_ok_ordered [OF assms(2)] D(5) assms(3) st this, of h "[]"]
  obtain s' where s': "dumpNode A m '''' (Some h) s1 = Ok (drawn (vw x) '''' T, s')" "holds x 0 s' (vw x) {(h, tid T)}" by auto
  have "\<exists>x'. repr s' x' \<and> vw x' = vw x \<and> other x x'" using s'(2) by (auto elim: holdsE)
  with h(1) s'(1) show ?thesis by (simp add: DumpTree_def bind_def)
qed

end

end
