(* ===== verification/IdxStore.thy ===== *)
theory IdxStore
  imports TreeSearch NodeBytes IndexAdapter SampleFiles
begin

text \<open>
  The nodes that the adapter of the index stores in the data blocks, and its interpretation of the
  interface of the tree's searches, over any file with the contract of block files. A store is the
  array of blocks that the buffer shows, with the set of the blocks that are nodes.
\<close>

section \<open>What the adapter stores\<close>

definition node_ok :: "bytes \<Rightarrow> bool" where
  "node_ok d \<longleftrightarrow> (if d ! 0 = BTREE_TYPE_LEAF then leaf_ok d else branch_ok d)"

definition block_view :: "bytes \<Rightarrow> RowID nodeView" where
  "block_view d = \<lparr>content = (if d ! 0 = BTREE_TYPE_LEAF then Entries (leaf_entries d)
       else Children (branch_keys d) (branch_ptrs d)),
     up = u16_at 3 d, lft = u16_at 5 d, rgt = u16_at 7 d\<rparr>"

definition idx_view :: "(u16 \<Rightarrow> bytes) \<times> u16 set \<Rightarrow> RowID heapView" where
  "idx_view x = (case x of (a, N) \<Rightarrow>
     \<lparr>rootOf = (if u16_at 4 (a 0) = 0 then None else Some (u16_at 4 (a 0))),
      firstOf = u16_at 6 (a 0), nodeOf = (\<lambda>i. if i \<in> N then Some (block_view (a i)) else None)\<rparr>)"

text \<open>
  The nodes lie in blocks of \<open>R\<close>, the blocks the buffer can read and write; block 0 is the control
  block. A handle is live, and its constructor tells the type of the block.
\<close>

definition idx_repr :: "('f \<Rightarrow> bool) \<Rightarrow> ('f \<Rightarrow> u16 \<Rightarrow> bytes) \<Rightarrow> ('f \<Rightarrow> u16 \<Rightarrow> bool) \<Rightarrow> u16 set
    \<Rightarrow> 'f dataBuffer \<Rightarrow> (u16 \<Rightarrow> bytes) \<times> u16 set \<Rightarrow> bool" where
  "idx_repr fi fb wr R b x \<longleftrightarrow> (case x of (a, N) \<Rightarrow>
     store fi fb wr R a b \<and> 0 \<in> R \<and> 0 \<notin> N \<and> N \<subseteq> R \<and> (\<forall>i \<in> N. node_ok (a i)))"

definition idx_at :: "('f \<Rightarrow> u16 \<Rightarrow> bytes) \<Rightarrow> 'f dataBuffer \<Rightarrow> handle \<Rightarrow> u16 \<Rightarrow> bool" where
  "idx_at fb b h i \<longleftrightarrow> live b (blockOf h) \<and> ID (blockOf h) = i \<and>
     (buf_view fb b i ! 0 = BTREE_TYPE_LEAF \<longleftrightarrow> (\<exists>l. h = LeafNode l))"

lemma node_ok_length: "node_ok d \<Longrightarrow> length d = 4096"
  by (auto simp: node_ok_def leaf_ok_def branch_ok_def split: if_splits)

lemma length_keys_block: "length (keysOf (content (block_view d))) = nkeys d"
  by (simp add: block_view_def)

lemma idxAdapter_reads [simp]:
  "LoadRoot (idxAdapter D) = idx_LoadRoot D" "LoadNode (idxAdapter D) = idx_LoadNode D"
  "TotalKeys (idxAdapter D) = idx_TotalKeys" "KeyAt (idxAdapter D) = idx_KeyAt"
  "EntryAt (idxAdapter D) = (\<lambda>h pos. onBlock h (branchEntryAt pos))"
  "ItemAt (idxAdapter D) = (\<lambda>h pos. onBlock h (leafItemAt pos))"
  by (simp_all add: idxAdapter_def)

context block_file begin

abbreviation irepr where "irepr \<equiv> idx_repr finv fblk writable"
abbreviation iat where "iat \<equiv> idx_at fblk"

lemma irepr_st:
  assumes "irepr R b (a, N)"
  shows "st R a b" "0 \<in> R" "i \<in> N \<Longrightarrow> i \<in> R \<and> i \<noteq> 0 \<and> node_ok (a i)" "length (a 0) = 4096"
  using assms st_length [of R a b 0] by (auto simp: idx_repr_def block_size_word)

text \<open>Reading through a handle.\<close>

lemma iat_node:
  assumes "irepr R b x" "iat b h i" "nodeOf (idx_view x) i = Some v"
  shows "v = block_view (fst x i)" "node_ok (fst x i)" "length (fst x i) = 4096"
    "fst x i ! 0 = BTREE_TYPE_LEAF \<longleftrightarrow> (\<exists>l. h = LeafNode l)"
    "m (fst x i) = Ok (y, fst x i) \<Longrightarrow> onBlock (blockOf h) m b = Ok (y, b)"
proof -
  obtain a N where x: "x = (a, N)" by (cases x)
  with assms(3) have i: "i \<in> N" "v = block_view (a i)" by (auto simp: idx_view_def split: if_splits)
  note S = irepr_st [OF assms(1) [unfolded x]]
  show "v = block_view (fst x i)" "node_ok (fst x i)" "length (fst x i) = 4096"
    "fst x i ! 0 = BTREE_TYPE_LEAF \<longleftrightarrow> (\<exists>l. h = LeafNode l)"
    using i x S(3) [OF i(1)] node_ok_length stD(3) [OF S(1)] assms(2) by (auto simp: idx_at_def)
  show "onBlock (blockOf h) m b = Ok (y, b)" if "m (fst x i) = Ok (y, fst x i)"
    using onBlock_st_read [OF S(1), of "blockOf h" m y] assms(2) that x by (simp add: idx_at_def)
qed

lemma isLeaf_Ok: "length d = 4096 \<Longrightarrow> isLeaf d = Ok (d ! 0 = BTREE_TYPE_LEAF, d)"
  by (simp add: isLeaf_def node_layout ReadUint8_Ok bind_def)

lemma idx_LoadNode_Ok:
  assumes "irepr R b (a, N)" "i \<in> N"
  shows "\<exists>h b'. idx_LoadNode D i b = Ok (Some h, b') \<and> irepr R b' (a, N) \<and> iat b' h i"
proof -
  note S = irepr_st [OF assms(1)]
  note N = S(3) [OF assms(2)]
  have "wp (fetchBlock D i) (\<lambda>h b'. ID h = i \<and> live b' h \<and> st R a b') b"
    using N by (intro wp_fetchBlock [OF S(1)]) auto
  then obtain h b' where h: "fetchBlock D i b = Ok (h, b')" "ID h = i" "live b' h" "st R a b'"
    by (auto simp: wp_iff)
  have "onBlock h isLeaf b' = Ok (a i ! 0 = BTREE_TYPE_LEAF, b')"
    using N h by (intro onBlock_st_read [OF h(4,3)]) (auto simp: isLeaf_Ok node_ok_length)
  moreover have "irepr R b' (a, N)" using assms(1) h(4) by (simp add: idx_repr_def)
  ultimately show ?thesis
    using h N stD(3) [OF h(4)]
    by (auto simp: idx_LoadNode_def loadIndexNode_def bind_def idx_at_def)
qed

lemma repoControlBlock_Ok:
  assumes "irepr R b (a, N)"
  shows "\<exists>h b'. repoControlBlock D b = Ok (h, b') \<and> ID h = 0 \<and> live b' h \<and> st R a b' \<and> irepr R b' (a, N)"
proof -
  note S = irepr_st [OF assms]
  have "wp (fetchBlock D 0) (\<lambda>h b'. ID h = 0 \<and> live b' h \<and> st R a b') b"
    using S by (intro wp_fetchBlock [OF S(1)]) auto
  with assms show ?thesis by (auto simp: wp_iff repoControlBlock_def idx_repr_def)
qed

end

sublocale block_file \<subseteq> idx: node_reads "idxAdapter D" "idx_repr finv fblk writable R" idx_view "idx_at fblk" for R
proof (unfold_locales, goal_cases)
  case (1 b x)
  obtain a N where x: "x = (a, N)" by (cases x)
  let ?r = "u16_at 4 (a 0)"
  from repoControlBlock_Ok [OF 1(1) [unfolded x]] obtain h b' where
    h: "repoControlBlock D b = Ok (h, b')" "ID h = 0" "live b' h" "st R a b'" "irepr R b' (a, N)" by blast
  have "onBlock h IndexRootBlockID b' = Ok (?r, b')"
    using irepr_st(4) [OF h(5)] h
    by (intro onBlock_st_read [OF h(4,3)]) (simp add: IndexRootBlockID_def control_pos ReadUint16_Ok)
  moreover have "?r \<in> N" if "?r \<noteq> 0" using 1(2) [of ?r] that x by (simp add: idx_view_def split: if_splits)
  ultimately show ?case
    using h(1,5) idx_LoadNode_Ok [OF h(5), of ?r]
    by (cases "?r = 0") (auto simp: x idx_LoadRoot_def bind_def idx_view_def)
next
  case (2 b x i v)
  then show ?case using idx_LoadNode_Ok by (cases x) (auto simp: idx_view_def split: if_splits)
next
  case (3 b x h i v es)
  then show ?case using iat_node(1,4) [OF 3(1-3)] by (auto simp: block_view_def split: if_splits)
next
  case (4 b x h i v ks ps)
  then show ?case using iat_node(1,4) [OF 4(1-3)] by (cases h) (auto simp: block_view_def split: if_splits)
next
  case (5 b x h i v)
  from iat_node(5) [OF this, of nodeTotalKeys] nodeTotalKeys_Ok iat_node(1,3) [OF 5] show ?case
    by (simp add: idx_TotalKeys_def length_keys_block)
next
  case (6 b x h i v p)
  note a = iat_node(1-4) [OF 6(1-3)]
  have p: "p < nkeys (fst x i)" using 6(4) a(1) by (simp add: length_keys_block)
  show ?case
  proof (cases h)
    case (LeafNode l)
    then have "leaf_ok (fst x i)" "keysOf (content v) ! p = leKey (leaf_entry (fst x i) p)"
      using a(1,2,4) p by (auto simp: node_ok_def block_view_def)
    with LeafNode p show ?thesis
      using iat_node(5) [OF 6(1-3), of "leafKeyAt (int p)"] leafKeyAt_Ok [OF a(3), of p] by (simp add: leaf_ok_def)
  next
    case (BranchNode l)
    then have "branch_ok (fst x i)" "keysOf (content v) ! p = bkey (fst x i) p"
      using a(1,2,4) p by (auto simp: node_ok_def block_view_def)
    with BranchNode p show ?thesis
      using iat_node(5) [OF 6(1-3), of "branchKeyAt (int p)"] branchKeyAt_Ok [OF a(3), of p] by (simp add: branch_ok_def)
  qed
next
  case (7 b x h i v ks ps p)
  with iat_node(1,2,4) [OF 7(1-3)] have "branch_ok (fst x i)" "ks = branch_keys (fst x i)" "ps = branch_ptrs (fst x i)"
    by (simp_all add: node_ok_def block_view_def)
  with 7(5) show ?case
    using iat_node(5) [OF 7(1-3), of "branchEntryAt (int p)"] branchEntryAt_Ok [of "fst x i" p] by simp
next
  case (8 b x h i v es p)
  with iat_node(1,2,4) [OF 8(1-3)] have "leaf_ok (fst x i)" "p < nkeys (fst x i)" "es = leaf_entries (fst x i)"
    by (auto simp: node_ok_def block_view_def)
  then show ?case
    using iat_node(5) [OF 8(1-3), of "leafItemAt (int p)"] leafItemAt_Ok [OF iat_node(3) [OF 8(1-3)], of p]
    by (simp add: leaf_ok_def)
qed

section \<open>Properties\<close>

text \<open>C21: \<open>Find\<close> on the index is the lookup of the key in the entries of the leaves, and leaves the blocks
  as they were, with any size of the buffer: on a tree that blocks of the file hold, with ordered
  separators and equally deep leaves, it returns the row ID of the key, or the error that the key
  was not found with a zero row ID.\<close>

theorem index_find_refines_lookup:
  assumes "idx_repr os_inv os_block os_writable R b (a, N)" "rootOf (idx_view (a, N)) = Some (tid tr)"
    "stored (idx_view (a, N)) tr" "ordered 0 (2 ^ 32) tr" "balanced n tr"
  shows "\<exists>b'. indexFind (NewUint32Index osDataFile bc lc) n key b =
      Ok (case lookup key (inorder tr) of None \<Rightarrow> (Some (ErrKeyNotFound key), \<lparr>DataBlockID = 0, LocalID = 0\<rparr>)
        | Some rowID \<Rightarrow> (None, rowID), b') \<and>
    idx_repr os_inv os_block os_writable R b' (a, N)"
proof -
  from osf.idx.treeFind_Ok [of "NewUint32Index osDataFile bc lc", OF _ assms(4,5) order_refl assms(3,1,2), of key]
  obtain b' where "treeFind (NewUint32Index osDataFile bc lc) n key b =
      Ok (case lookup key (inorder tr) of None \<Rightarrow> Inl (ErrKeyNotFound key) | Some item \<Rightarrow> Inr item, b')"
    "idx_repr os_inv os_block os_writable R b' (a, N)"
    by (auto simp: NewUint32Index_def newTree_def)
  then show ?thesis by (auto simp: indexFind_def bind_def split: option.split)
qed

definition one_leaf :: "u16 \<Rightarrow> bytes" where
  "one_leaf i = (if i = 4 then put_at 0 [BTREE_TYPE_LEAF] small_leaf
     else if i = 0 then put_at 4 (be16_put 4) (replicate 4096 0) else replicate 4096 0)"

lemma leaf_entries_put_type:
  assumes "leaf_ok d"
  shows "leaf_ok (put_at 0 [ty] d)" "leaf_entries (put_at 0 [ty] d) = leaf_entries d" "put_at 0 [ty] d ! 0 = ty"
proof -
  have l: "length d = 4096" and n: "nkeys d \<le> 510" using assms by (simp_all add: leaf_ok_def)
  then have k: "nkeys (put_at 0 [ty] d) = nkeys d" by (simp add: nkeys_def)
  with l n show "leaf_ok (put_at 0 [ty] d)" by (simp add: leaf_ok_def)
  show "leaf_entries (put_at 0 [ty] d) = leaf_entries d"
    using l n k by (intro nth_equalityI) (simp_all add: leaf_entry_def)
  show "put_at 0 [ty] d ! 0 = ty" using l by (simp add: put_at_def splice_def)
qed

lemma one_leaf:
  "node_ok (one_leaf 4)" "block_view (one_leaf 4) = block_view (one_leaf 4)\<lparr>content :=
    Entries [\<lparr>leKey = 5, leItem = \<lparr>DataBlockID = 3, LocalID = 0\<rparr>\<rparr>]\<rparr>" "u16_at 4 (one_leaf 0) = 4"
  using leaf_entries_put_type [OF small_leaf(1), of BTREE_TYPE_LEAF] small_leaf(2)
  by (simp_all add: one_leaf_def node_ok_def block_view_def)

lemma index_find_refines_lookup_witness:
  "\<exists>b b' b''. NewDataBuffer (file_of 5 one_leaf) 5 = Ok b \<and>
     indexFind (NewUint32Index osDataFile 680 510) 0 5 b = Ok ((None, \<lparr>DataBlockID = 3, LocalID = 0\<rparr>), b') \<and>
     indexFind (NewUint32Index osDataFile 680 510) 0 6 b =
       Ok ((Some (ErrKeyNotFound 6), \<lparr>DataBlockID = 0, LocalID = 0\<rparr>), b'')"
proof -
  let ?es = "[\<lparr>leKey = 5, leItem = \<lparr>DataBlockID = 3, LocalID = 0\<rparr>\<rparr>]"
  have len: "length (one_leaf i) = DATABLOCK_SIZE" for i
    using node_ok_length [OF one_leaf(1)] by (cases "i = 4") (simp_all add: one_leaf_def block_size_word)
  from file_of_store [of 5 one_leaf, OF _ len] obtain b where
    b: "NewDataBuffer (file_of 5 one_leaf) 5 = Ok b" "store os_inv os_block os_writable {i. unat i < 5} one_leaf b"
    by auto
  have r: "idx_repr os_inv os_block os_writable {i. unat i < 5} b (one_leaf, {4})"
    using b(2) one_leaf(1) by (simp add: idx_repr_def)
  have "content (block_view (one_leaf 4)) = Entries ?es" by (subst one_leaf(2)) simp
  then have t: "rootOf (idx_view (one_leaf, {4})) = Some (tid (Leafy 4 ?es))"
    "stored (idx_view (one_leaf, {4})) (Leafy 4 ?es)" "ordered 0 (2 ^ 32) (Leafy 4 ?es)" "balanced 0 (Leafy 4 ?es)"
    using one_leaf(3) by (simp_all add: idx_view_def ordered_simps)
  from index_find_refines_lookup [OF r t, of 680 510 5] index_find_refines_lookup [OF r t, of 680 510 6] b(1)
  show ?thesis by (auto simp: lookup_def)
qed

end
