(* ===== verification/IdxBlocks.thy ===== *)
theory IdxBlocks
  imports TreeAll IdxStore FreeBlocks
begin

text \<open>
  What the writes of the index do to the blocks of a file: to the header of a node, to its entries,
  and to the map of used blocks, from which a new node takes the least free block. The buffer is a
  pool here, so that the handles of the caller stay live.
\<close>

section \<open>The bytes of a node\<close>

lemma content_put:
  assumes "node_ok d" "3 \<le> p" "p + int (length xs) \<le> 9"
  shows "node_ok (put_at p xs d)" "put_at p xs d ! 0 = d ! 0"
    "content (block_view (put_at p xs d)) = content (block_view d)"
proof -
  have d: "length d = 4096" by (rule node_ok_length [OF assms(1)])
  have k: "nkeys (put_at p xs d) = nkeys d" using assms d by simp
  show z: "put_at p xs d ! 0 = d ! 0" using assms d by (simp add: nth_put_other)
  show "node_ok (put_at p xs d)"
    using assms d z k by (simp add: node_ok_def leaf_ok_def branch_ok_def split: if_splits)
  show "content (block_view (put_at p xs d)) = content (block_view d)"
  proof (cases "d ! 0 = BTREE_TYPE_LEAF")
    case True
    with assms(1) have "nkeys d \<le> 510" by (simp add: node_ok_def leaf_ok_def)
    then have "leaf_entry (put_at p xs d) i = leaf_entry d i" if "i < nkeys d" for i
      using assms d that by (simp add: leaf_entry_def)
    then have "leaf_entries (put_at p xs d) = leaf_entries d" using k by (intro nth_equalityI) simp_all
    with True z show ?thesis by (simp add: block_view_def)
  next
    case False
    with assms(1) have n: "nkeys d \<le> 680" by (simp add: node_ok_def branch_ok_def)
    have "bkey (put_at p xs d) i = bkey d i" if "i < nkeys d" for i
      using assms d that n by (simp add: bkey_def)
    moreover have "bptr (put_at p xs d) i = bptr d i" if "i \<le> nkeys d" for i
      using assms d that n by (simp add: bptr_def)
    ultimately have "branch_keys (put_at p xs d) = branch_keys d" "branch_ptrs (put_at p xs d) = branch_ptrs d"
      using branch_eqI [of "put_at p xs d" "branch_keys d" "branch_ptrs d"] k by simp_all
    with False z show ?thesis by (simp add: block_view_def)
  qed
qed

lemma set_link:
  assumes "node_ok d"
  shows "block_view (put_at 3 (be16_put q) d) = (block_view d)\<lparr>up := q\<rparr>"
    "block_view (put_at 5 (be16_put q) d) = (block_view d)\<lparr>lft := q\<rparr>"
    "block_view (put_at 7 (be16_put q) d) = (block_view d)\<lparr>rgt := q\<rparr>"
proof -
  have d: "length d = 4096" by (rule node_ok_length [OF assms])
  have c: "content (block_view (put_at p (be16_put q) d)) = content (block_view d)" if "3 \<le> p" "p \<le> 7" for p
    using content_put(3) [OF assms that(1)] that(2) by simp
  show "block_view (put_at 3 (be16_put q) d) = (block_view d)\<lparr>up := q\<rparr>"
    "block_view (put_at 5 (be16_put q) d) = (block_view d)\<lparr>lft := q\<rparr>"
    "block_view (put_at 7 (be16_put q) d) = (block_view d)\<lparr>rgt := q\<rparr>"
    using d c [of 3] c [of 5] c [of 7] by (simp_all add: block_view_def)
qed

text \<open>An operation that keeps the header changes only the contents of the node.\<close>

lemma block_view_links:
  assumes "node_links f = node_links d"
  shows "block_view f = (block_view d)\<lparr>content := content (block_view f)\<rparr>" "f ! 0 = d ! 0"
  using assms by (simp_all add: block_view_def node_links_def)

lemma leaf_block:
  assumes "node_ok d" "d ! 0 = BTREE_TYPE_LEAF" "leaf_ok f" "node_links f = node_links d"
  shows "node_ok f" "block_view f = (block_view d)\<lparr>content := Entries (leaf_entries f)\<rparr>"
proof -
  note L = block_view_links [OF assms(4)]
  show "node_ok f" using L(2) assms(2,3) by (simp add: node_ok_def)
  show "block_view f = (block_view d)\<lparr>content := Entries (leaf_entries f)\<rparr>"
    using assms by (simp add: block_view_def node_links_def)
qed

lemma branch_block:
  assumes "node_ok d" "d ! 0 \<noteq> BTREE_TYPE_LEAF" "branch_ok f" "node_links f = node_links d"
  shows "node_ok f" "block_view f = (block_view d)\<lparr>content := Children (branch_keys f) (branch_ptrs f)\<rparr>"
proof -
  note L = block_view_links [OF assms(4)]
  show "node_ok f" using L(2) assms(2,3) by (simp add: node_ok_def)
  show "block_view f = (block_view d)\<lparr>content := Children (branch_keys f) (branch_ptrs f)\<rparr>"
    using assms by (simp add: block_view_def node_links_def)
qed

text \<open>What a new leaf and a new branch hold, whatever the block held before.\<close>

lemma new_leaf_Ok:
  assumes "length d = 4096"
  shows "\<exists>f. seq blankNode (Write BTREE_POS_TYPE (VUint8 BTREE_TYPE_LEAF)) d = Ok ((), f) \<and> node_ok f \<and>
    f ! 0 = BTREE_TYPE_LEAF \<and> block_view f = \<lparr>content = Entries [], up = 0, lft = 0, rgt = 0\<rparr>"
proof -
  define e where "e = put_at 5 (be16_put 0) (put_at 7 (be16_put 0) (put_at 3 (be16_put 0) (put_at 1 (be16_put 0) d)))"
  define f where "f = put_at 0 [BTREE_TYPE_LEAF] e"
  have l: "length e = 4096" using assms by (simp add: e_def)
  have u: "u16_at 1 e = 0" "u16_at 3 e = 0" "u16_at 5 e = 0" "u16_at 7 e = 0"
    using assms by (simp_all add: e_def)
  have "seq blankNode (Write BTREE_POS_TYPE (VUint8 BTREE_TYPE_LEAF)) d = Ok ((), f)"
    using assms by (simp add: blankNode_def seq_def bind_def node_layout Write_VUint16_Ok Write_VUint8_Ok e_def f_def)
  moreover have "nkeys f = 0" "u16_at 3 f = 0" "u16_at 5 f = 0" "u16_at 7 f = 0" "length f = 4096"
    using l u by (simp_all add: f_def nkeys_def)
  moreover from this have "leaf_entries f = []" by (simp flip: length_0_conv)
  moreover have "f ! 0 = BTREE_TYPE_LEAF" using l by (simp add: f_def put_at_def splice_def)
  ultimately show ?thesis by (intro exI [of _ f]) (simp add: node_ok_def leaf_ok_def block_view_def)
qed

lemma new_branch_Ok:
  assumes "length d = 4096"
  shows "\<exists>f. seq blankNode (seq (Write BTREE_POS_TYPE (VUint8 BTREE_TYPE_BRANCH))
       (seq (Write (BTREE_POS_ENTRIES_OFFSET + BTREE_BRANCH_OFFSET_KEY) (VUint32 k))
       (seq (Write (BTREE_POS_ENTRIES_OFFSET + BTREE_BRANCH_OFFSET_LEFT_BLOCK_ID) (VUint16 lt))
       (seq (Write (BTREE_POS_ENTRIES_OFFSET + BTREE_BRANCH_OFFSET_RIGHT_BLOCK_ID) (VUint16 gte))
            (Write BTREE_POS_TOTAL_KEYS (VUint16 1)))))) d = Ok ((), f) \<and> node_ok f \<and>
    f ! 0 \<noteq> BTREE_TYPE_LEAF \<and> block_view f = \<lparr>content = Children [k] [lt, gte], up = 0, lft = 0, rgt = 0\<rparr>"
proof -
  define e0 where "e0 = put_at 5 (be16_put 0) (put_at 7 (be16_put 0) (put_at 3 (be16_put 0) (put_at 1 (be16_put 0) d)))"
  define e where "e = put_at 0 [BTREE_TYPE_BRANCH] e0"
  define f where "f = put_at 1 (be16_put 1) (put_at 15 (be16_put gte) (put_at 9 (be16_put lt) (put_at 11 (be32_put k) e)))"
  have l: "length e0 = 4096" "length e = 4096" using assms by (simp_all add: e_def e0_def)
  have u: "u16_at 3 e0 = 0" "u16_at 5 e0 = 0" "u16_at 7 e0 = 0"
    using assms by (simp_all add: e0_def)
  have run: "seq blankNode (seq (Write BTREE_POS_TYPE (VUint8 BTREE_TYPE_BRANCH))
       (seq (Write (BTREE_POS_ENTRIES_OFFSET + BTREE_BRANCH_OFFSET_KEY) (VUint32 k))
       (seq (Write (BTREE_POS_ENTRIES_OFFSET + BTREE_BRANCH_OFFSET_LEFT_BLOCK_ID) (VUint16 lt))
       (seq (Write (BTREE_POS_ENTRIES_OFFSET + BTREE_BRANCH_OFFSET_RIGHT_BLOCK_ID) (VUint16 gte))
            (Write BTREE_POS_TOTAL_KEYS (VUint16 1)))))) d = Ok ((), f)"
    using assms by (simp add: blankNode_def seq_def bind_def node_layout Write_VUint16_Ok Write_VUint8_Ok Write_VUint32_Ok
        e0_def e_def f_def)
  have lf: "length f = 4096" using l by (simp add: f_def)
  have n: "nkeys f = 1" using l nkeys_write [of "put_at 15 (be16_put gte) (put_at 9 (be16_put lt) (put_at 11 (be32_put k) e))" 1]
    by (simp add: f_def)
  have "e ! 0 = BTREE_TYPE_BRANCH" using l by (simp add: e_def put_at_def splice_def)
  then have t: "f ! 0 = BTREE_TYPE_BRANCH" using l by (simp add: f_def nth_put_other)
  have h: "u16_at 3 f = 0" "u16_at 5 f = 0" "u16_at 7 f = 0" using l u by (simp_all add: f_def e_def)
  have "bkey f 0 = k" "bptr f 0 = lt" "bptr f 1 = gte"
    using l by (simp_all add: f_def bkey_def bptr_def)
  then have "branch_keys f = [k]" "branch_ptrs f = [lt, gte]" using n by (simp_all add: branch_keys_def branch_ptrs_def)
  moreover have "BTREE_TYPE_BRANCH \<noteq> BTREE_TYPE_LEAF" by (simp add: BTREE_TYPE_BRANCH_def BTREE_TYPE_LEAF_def)
  ultimately show ?thesis using run t h n lf
    by (intro exI [of _ f]) (simp add: node_ok_def branch_ok_def block_view_def)
qed

section \<open>Nodes in a pool\<close>

text \<open>
  The blocks of the nodes are in use, blocks 0 to 2 are in use and are not nodes, and the file holds
  every block below one that it holds. The handle of a node stays one while other blocks are
  taken, because its block is in use.
\<close>

definition idx_own :: "('f \<Rightarrow> bool) \<Rightarrow> ('f \<Rightarrow> u16 \<Rightarrow> bytes) \<Rightarrow> ('f \<Rightarrow> u16 \<Rightarrow> bool) \<Rightarrow> u16 set
    \<Rightarrow> 'f dataBuffer \<Rightarrow> (u16 \<Rightarrow> bytes) \<times> u16 set \<Rightarrow> bool" where
  "idx_own fi fb wr R b x \<longleftrightarrow> (case x of (a, N) \<Rightarrow>
     idx_repr fi fb wr R b (a, N) \<and> pool R b \<and> {0, 1, 2} \<subseteq> R \<and> {0, 1, 2} \<inter> N = {} \<and>
     {0, 1, 2} \<union> N \<subseteq> used a \<and> (\<forall>j \<in> R. \<forall>i. unat i \<le> unat j \<longrightarrow> i \<in> R))"

definition idx_held :: "('f \<Rightarrow> u16 \<Rightarrow> bytes) \<Rightarrow> 'f dataBuffer \<Rightarrow> handle \<Rightarrow> u16 \<Rightarrow> bool" where
  "idx_held fb b h i \<longleftrightarrow> idx_at fb b h i \<and> i \<in> used (buf_view fb b) \<and> i \<notin> {0, 1, 2}"

definition idx_room :: "u16 set \<Rightarrow> (u16 \<Rightarrow> bytes) \<times> u16 set \<Rightarrow> nat \<Rightarrow> bool" where
  "idx_room R x n \<longleftrightarrow> n \<le> card (clear_flags R (fst x))"

text \<open>Between two stores nodes are only added; the two record pointers of the control block are kept.\<close>

abbreviation idx_other :: "(u16 \<Rightarrow> bytes) \<times> u16 set \<Rightarrow> (u16 \<Rightarrow> bytes) \<times> u16 set \<Rightarrow> bool" where
  "idx_other \<equiv> grown {0, 2}"

lemma nodes_update:
  assumes "i \<in> N" "i \<noteq> 0"
  shows "idx_view (a(i := d), N) = set_node i (\<lambda>_. block_view d) (idx_view (a, N))"
  using assms by (auto simp: idx_view_def set_node_def fun_eq_iff)

lemma set_node_cong:
  assumes "nodeOf H i = Some v" "f v = g v"
  shows "set_node i f H = set_node i g H"
  using assms by (simp add: set_node_def)

end
