(* ===== verification/IdxWrites.thy ===== *)
theory IdxWrites
  imports IdxBlocks
begin

text \<open>
  The adapter of the index interprets the writing interface of the tree, over any file with the
  contract of block files and a buffer that holds all its blocks. Inserting into the index then
  keeps the tree that the blocks hold.
\<close>

section \<open>Steps of the adapter\<close>

lemma wrote_trans:
  assumes "wrote repr vw at room other k s x H s' x'" "wrote repr vw at room other j s' x' H' s'' x''"
    "other x x' \<Longrightarrow> other x' x'' \<Longrightarrow> other x x''"
  shows "wrote repr vw at room other (k + j) s x H' s'' x''"
  using assms by (auto simp: wrote_def) (metis add.assoc add.commute)

context block_file begin

abbreviation own where "own \<equiv> idx_own finv fblk writable"
abbreviation held where "held \<equiv> idx_held fblk"
abbreviation iwrote where "iwrote R \<equiv> wrote (own R) idx_view held (idx_room R) idx_other"

lemma ownD:
  assumes "own R b (a, N)"
  shows "irepr R b (a, N)" "st R a b" "pool R b" "{0, 1, 2} \<subseteq> R" "{0, 1, 2} \<inter> N = {}" "{0, 1, 2} \<subseteq> used a"
    "N \<subseteq> used a" "\<forall>j \<in> R. \<forall>i. unat i \<le> unat j \<longrightarrow> i \<in> R" "N \<subseteq> R" "i \<in> N \<Longrightarrow> node_ok (a i)" "length (a 0) = 4096"
proof -
  have A: "irepr R b (a, N)" "pool R b" "{0, 1, 2} \<subseteq> R" "{0, 1, 2} \<inter> N = {}" "{0, 1, 2} \<union> N \<subseteq> used a"
    "\<forall>j \<in> R. \<forall>i. unat i \<le> unat j \<longrightarrow> i \<in> R"
    using assms unfolding idx_own_def case_prod_conv by blast+
  show "irepr R b (a, N)" "pool R b" "{0, 1, 2} \<subseteq> R" "{0, 1, 2} \<inter> N = {}"
    "\<forall>j \<in> R. \<forall>i. unat i \<le> unat j \<longrightarrow> i \<in> R" by (fact A)+
  show "{0, 1, 2} \<subseteq> used a" "N \<subseteq> used a" using A(5) by simp_all
  show "st R a b" "N \<subseteq> R" "i \<in> N \<Longrightarrow> node_ok (a i)" "length (a 0) = 4096"
    using irepr_st [OF A(1)] by blast+
qed

lemma ownI:
  assumes "st R a b" "pool R b" "{0, 1, 2} \<subseteq> R" "{0, 1, 2} \<inter> N = {}" "{0, 1, 2} \<subseteq> used a" "N \<subseteq> used a"
    "\<forall>j \<in> R. \<forall>i. unat i \<le> unat j \<longrightarrow> i \<in> R" "N \<subseteq> R" "\<forall>i \<in> N. node_ok (a i)"
  shows "own R b (a, N)"
proof -
  have "{0, 1, 2} \<union> N \<subseteq> used a" using assms(5,6) by (rule Un_least)
  moreover have "irepr R b (a, N)" using assms(1,3,4,8,9) by (simp add: idx_repr_def)
  ultimately show ?thesis unfolding idx_own_def case_prod_conv using assms(2-4,7) by blast
qed

lemma held_step:
  assumes "st R a b" "st R a' b'" "\<forall>g. live b g \<longrightarrow> live b' g"
    "\<forall>j \<in> used a - {0, 1, 2}. j \<in> used a' \<and> a' j ! 0 = a j ! 0" "held b h i"
  shows "held b' h i"
  using assms stD(3) [OF assms(1)] stD(3) [OF assms(2)] by (auto simp: idx_held_def idx_at_def)

lemma own_fetch:
  assumes "own R b (a, N)" "i \<in> R"
  shows "\<exists>h b'. fetchBlock D i b = Ok (h, b') \<and> ID h = i \<and> live b' h \<and>
    (\<forall>g. live b g \<longrightarrow> live b' g) \<and> iwrote R 0 b (a, N) (idx_view (a, N)) b' (a, N)"
proof -
  note O = ownD [OF assms(1)]
  have k: "kept True R {g. live b g} b" using O(3) by (simp add: kept_def)
  have "wp (fetchBlock D i) (\<lambda>h b'. ID h = i \<and> live b' h \<and> st R a b' \<and> kept True R (insert h {g. live b g}) b') b"
    by (rule wp_fetchBlock_kept [OF O(2) k assms(2)]) simp
  then obtain h b' where h: "fetchBlock D i b = Ok (h, b')" "ID h = i" "live b' h" "st R a b'" "pool R b'"
    "\<forall>g. live b g \<longrightarrow> live b' g" by (auto simp: wp_iff kept_def)
  have "own R b' (a, N)" by (rule ownI [OF h(4,5) O(4-9)]) (use O(10) in blast)
  moreover have "held b' g j" if "held b g j" for g j
    using held_step [OF O(2) h(4,6) _ that] by simp
  ultimately have "iwrote R 0 b (a, N) (idx_view (a, N)) b' (a, N)"
    by (simp add: wrote_def grown_refl)
  with h show ?thesis by blast
qed

text \<open>Reading through a handle.\<close>

lemma own_reads:
  assumes "own R b x"
  shows "irepr R b x" "held b h i \<Longrightarrow> iat b h i"
  using assms by (auto simp: idx_own_def idx_held_def)

lemma own_wrote_refl: "own R b x \<Longrightarrow> iwrote R 0 b x (idx_view x) b x"
  by (simp add: wrote_def grown_refl)

text \<open>Writing to a node.\<close>

lemma own_write:
  assumes "own R b (a, N)" "held b h i" "i \<in> N" "m (a i) = Ok (y, d)" "node_ok d" "d ! 0 = a i ! 0"
  shows "\<exists>b'. onNode (blockOf h) m b = Ok (y, b') \<and> (\<forall>g. live b' g = live b g) \<and>
    iwrote R 0 b (a, N) (set_node i (\<lambda>_. block_view d) (idx_view (a, N))) b' (a(i := d), N)"
proof -
  note O = ownD [OF assms(1)]
  have h: "live b (blockOf h)" "ID (blockOf h) = i" and i: "i \<in> R" "i \<notin> {0, 1, 2}"
    using assms(2,3) O(9) by (auto simp: idx_held_def idx_at_def)
  have "wp (onNode (blockOf h) m) (\<lambda>z b'. z = y \<and> st R (a(i := d)) b' \<and> (\<forall>g. live b' g = live b g) \<and> pool R b' = pool R b) b"
    unfolding onNode_def seq_def
    using h i assms(4) node_ok_length [OF assms(5)]
    by (intro wp_write [OF O(2) h(1)]) (simp_all add: block_size_word wp_ret)
  then obtain b' where b': "onNode (blockOf h) m b = Ok (y, b')" "st R (a(i := d)) b'"
    "\<forall>g. live b' g = live b g" "pool R b'" using O(3) by (auto simp: wp_iff)
  have u: "used (a(i := d)) = used a" using i by (intro used_update) auto
  have n: "\<forall>j \<in> N. node_ok ((a(i := d)) j)" using O(10) assms(5) by simp
  have own: "own R b' (a(i := d), N)"
    by (rule ownI [OF b'(2,4) O(4,5) _ _ O(8,9) n]) (simp_all only: u O(6,7))
  moreover have "held b' g j" if "held b g j" for g j
    using held_step [OF O(2) b'(2) _ _ that] b'(3) u assms(6) by auto
  moreover have "idx_other (a, N) (a(i := d), N)"
    using i assms(3) u by (auto simp: grown_def)
  moreover have "idx_room R (a(i := d), N) n = idx_room R (a, N) n" for n
    using u by (simp add: idx_room_def clear_flags_def)
  moreover have "idx_view (a(i := d), N) = set_node i (\<lambda>_. block_view d) (idx_view (a, N))"
    using i assms(3) by (intro nodes_update) auto
  ultimately show ?thesis using b'(1,3) by (simp add: wrote_def)
qed

text \<open>The same with the change of the node's view.\<close>

lemma own_write_view:
  assumes "own R b (a, N)" "held b h i" "nodeOf (idx_view (a, N)) i = Some v"
    "m (a i) = Ok (y, d)" "node_ok d" "d ! 0 = a i ! 0" "block_view d = f v"
  shows "\<exists>b' x'. onNode (blockOf h) m b = Ok (y, b') \<and> (\<forall>g. live b' g = live b g) \<and>
    iwrote R 0 b (a, N) (set_node i f (idx_view (a, N))) b' x'"
proof -
  have "i \<in> N" using assms(3) by (simp add: idx_view_def split: if_splits)
  from own_write [of R b a N h i m y d, OF assms(1,2) this assms(4-6)] set_node_cong [of "idx_view (a, N)" i v f "\<lambda>_. block_view d"] assms(3,7)
  show ?thesis by auto
qed

text \<open>Writing to the control block.\<close>

lemma own_control:
  assumes "own R b (a, N)" "live b cb" "ID cb = 0" "m (a 0) = Ok ((), d)" "length d = 4096"
    "u16_at 0 d = u16_at 0 (a 0)" "u16_at 2 d = u16_at 2 (a 0)"
  shows "\<exists>b'. seq (onBlock cb m) (seq (MarkAsDirty (ID cb)) (ret r)) b = Ok (r, b') \<and>
    iwrote R 0 b (a, N) ((idx_view (a, N))\<lparr>rootOf := if u16_at 4 d = 0 then None else Some (u16_at 4 d),
      firstOf := u16_at 6 d\<rparr>) b' (a(0 := d), N)"
proof -
  note O = ownD [OF assms(1)]
  have "wp (seq (onBlock cb m) (seq (MarkAsDirty (ID cb)) (ret r))) (\<lambda>z b'. z = r \<and> st R (a(0 := d)) b' \<and>
      (\<forall>g. live b' g = live b g) \<and> pool R b' = pool R b) b"
    using O(4) assms by (intro wp_write_seq [OF O(2) assms(2)]) (simp_all add: block_size_word wp_ret)
  then obtain b' where b': "seq (onBlock cb m) (seq (MarkAsDirty (ID cb)) (ret r)) b = Ok (r, b')"
    "st R (a(0 := d)) b'" "\<forall>g. live b' g = live b g" "pool R b'" using O(3) by (auto simp: wp_iff)
  have u: "used (a(0 := d)) = used a" by (intro used_update) auto
  have z: "0 \<notin> N" using O(5) by simp
  then have n: "\<forall>j \<in> N. node_ok ((a(0 := d)) j)" using O(10) by auto
  have own: "own R b' (a(0 := d), N)"
    by (rule ownI [OF b'(2,4) O(4,5) _ _ O(8,9) n]) (simp_all only: u O(6,7))
  moreover have "held b' g j" if "held b g j" for g j
    using held_step [OF O(2) b'(2) _ _ that] b'(3) u by auto
  moreover have "idx_other (a, N) (a(0 := d), N)" using u assms(6,7) by (auto simp: grown_def)
  moreover have "idx_room R (a(0 := d), N) n = idx_room R (a, N) n" for n
    using u by (simp add: idx_room_def clear_flags_def)
  moreover have "idx_view (a(0 := d), N) = (idx_view (a, N))\<lparr>rootOf := if u16_at 4 d = 0 then None else Some (u16_at 4 d),
      firstOf := u16_at 6 d\<rparr>" using z by (auto simp: idx_view_def fun_eq_iff)
  ultimately show ?thesis using b'(1) by (simp add: wrote_def)
qed

text \<open>Taking a free block for a new node.\<close>

lemma own_create:
  assumes "own R b (a, N)" "idx_room R (a, N) (Suc 0)"
    "\<And>d. length d = 4096 \<Longrightarrow> \<exists>f. seq blankNode m d = Ok ((), f) \<and> node_ok f \<and>
      block_view f = \<lparr>content = c, up = 0, lft = 0, rgt = 0\<rparr> \<and> (f ! 0 = BTREE_TYPE_LEAF \<longleftrightarrow> leaf)"
  shows "\<exists>h r b' x'. bind (allocateBlock D) (\<lambda>block. seq (onBlock block m) (seq (MarkAsDirty (ID block)) (ret block))) b =
      Ok (h, b') \<and> iwrote R 1 b (a, N) (new_node r c (idx_view (a, N))) b' x' \<and>
    held b' (if leaf then LeafNode h else BranchNode h) r \<and> nodeOf (idx_view (a, N)) r = None \<and> r \<noteq> 0"
proof -
  note O = ownD [OF assms(1)]
  have "clear_flags R a \<noteq> {}" using assms(2) by (auto simp: idx_room_def)
  from first_free_in [OF this O(8)] obtain r where r: "first_free a = Some r" "r \<in> R" "mapped r" "r \<notin> used a" .
  have mb: "map_block r \<in> {1, 2}" by (rule used_map_block [OF r(3)])
  then have mR: "map_block r \<in> R" "{1, 2} \<subseteq> R" using O(4) by auto
  have n: "r \<notin> N" "r \<notin> {0, 1, 2}" using r(4) O(6,7) by blast+
  let ?g = "{g. live b g}"
  let ?Q = "\<lambda>h b'. \<exists>d f. st R (a(map_block r := d, r := f)) b' \<and> pool R b' \<and> (\<forall>g. live b g \<longrightarrow> live b' g) \<and>
    ID h = r \<and> live b' h \<and> node_ok f \<and> block_view f = \<lparr>content = c, up = 0, lft = 0, rgt = 0\<rparr> \<and>
    (f ! 0 = BTREE_TYPE_LEAF \<longleftrightarrow> leaf) \<and> in_use (a(map_block r := d)) = (\<lambda>j. twin r j \<or> in_use a j)"
  have k: "kept True R ?g b" using O(3) by (simp add: kept_def)
  have "wp (bind (allocateBlock D) (\<lambda>block. seq (onBlock block m) (seq (MarkAsDirty (ID block)) (ret block)))) ?Q b"
    unfolding allocateBlock_def bind_assoc seq_def wp_bind
  proof (rule wp_FirstFree_kept [OF O(2) k mR(2)], unfold r(1) option.case,
      rule wp_fetchBlock_kept [OF _ _ r(2)], assumption, assumption,
      rule wp_MarkAsUsed_kept [OF _ _ mR(1)], assumption, assumption)
    fix b0 h b1 b2 d
    assume h: "ID h = r" and b2: "st R (a(map_block r := d)) b2" "kept True R (insert h ?g) b2"
      "in_use (a(map_block r := d)) = (\<lambda>j. twin r j \<or> in_use a j)"
    have hl: "live b2 h" "pool R b2" "\<forall>g. live b g \<longrightarrow> live b2 g" using b2(2) by (auto simp: kept_def)
    have "length ((a(map_block r := d)) r) = 4096" using st_length [OF b2(1) r(2)] by (simp add: block_size_word)
    from assms(3) [OF this] obtain f where f: "seq blankNode m ((a(map_block r := d)) r) = Ok ((), f)" "node_ok f"
      "block_view f = \<lparr>content = c, up = 0, lft = 0, rgt = 0\<rparr>" "f ! 0 = BTREE_TYPE_LEAF \<longleftrightarrow> leaf" by blast
    have "wp (seq (onBlock h (seq blankNode m)) (seq (MarkAsDirty (ID h)) (ret h))) ?Q b2"
    proof (rule wp_write_seq [OF b2(1) hl(1), where x = "()" and d = f])
      fix b' assume "st R (a(map_block r := d, ID h := f)) b'" "\<forall>g. live b' g = live b2 g" "pool R b' = pool R b2"
      with hl h f b2(3) show "wp (ret h) ?Q b'"
        unfolding wp_ret by (intro exI [of _ d] exI [of _ f]) simp
    qed (use h f r(2) node_ok_length [OF f(2)] in \<open>simp_all add: block_size_word\<close>)
    then show "wp (onBlock h blankNode)
          (\<lambda>x. wp (ret h) (\<lambda>x. wp (onBlock x m) (\<lambda>xa. wp (MarkAsDirty (ID x)) (\<lambda>xa. wp (ret x) ?Q)))) b2"
      unfolding seq_def onBlock_bind wp_bind wp_ret .
  qed
  then obtain h b' d f where R: "bind (allocateBlock D) (\<lambda>block. seq (onBlock block m) (seq (MarkAsDirty (ID block)) (ret block))) b =
      Ok (h, b')" "st R (a(map_block r := d, r := f)) b'" "pool R b'" "\<forall>g. live b g \<longrightarrow> live b' g" "ID h = r" "live b' h"
    "node_ok f" "block_view f = \<lparr>content = c, up = 0, lft = 0, rgt = 0\<rparr>" "f ! 0 = BTREE_TYPE_LEAF \<longleftrightarrow> leaf"
    "in_use (a(map_block r := d)) = (\<lambda>j. twin r j \<or> in_use a j)" by (auto simp: wp_iff)
  let ?a = "a(map_block r := d, r := f)"
  have r12: "r \<notin> {1, 2}" using n(2) by simp
  have u: "used ?a = {j. mapped j \<and> twin r j} \<union> used a"
    unfolding used_update [OF r12] by (rule used_mark [OF R(10)])
  have mb0: "map_block r \<noteq> 0" and mbN: "map_block r \<notin> N" using mb O(5) by auto
  have same: "?a j = a j" if "j \<in> N \<or> j = 0" for j
    using that n mb0 mbN by auto
  have ua: "used a \<subseteq> used ?a" unfolding u by simp
  have ru: "r \<in> used ?a" unfolding u using r(3) by (simp add: twin_def)
  have "own R b' (?a, insert r N)"
  proof (rule ownI [OF R(2,3) O(4) _ _ _ O(8)])
    show "{0, 1, 2} \<inter> insert r N = {}" using O(5) n(2) by blast
    show "{0, 1, 2} \<subseteq> used ?a" "insert r N \<subseteq> used ?a" using ua ru O(6,7) by blast+
    show "insert r N \<subseteq> R" using O(9) r(2) by simp
    show "\<forall>i \<in> insert r N. node_ok (?a i)" using O(10) same R(7) by auto
  qed
  moreover have "held b' g j" if "held b g j" for g j
  proof (rule held_step [OF O(2) R(2,4) _ that])
    have "?a j ! 0 = a j ! 0" if "j \<in> used a" "j \<notin> {0, 1, 2}" for j
      using that r(4) mb by auto
    then show "\<forall>j \<in> used a - {0, 1, 2}. j \<in> used ?a \<and> ?a j ! 0 = a j ! 0" using ua by blast
  qed
  moreover have "idx_other (a, N) (?a, insert r N)"
    unfolding grown_def using ua r(4) mb mb0 n by auto
  moreover have "idx_room R (?a, insert r N) n" if "idx_room R (a, N) (n + 1)" for n
    using that clear_flags_used [OF u r(2,3,4)] by (simp add: idx_room_def)
  moreover have "idx_view (?a, insert r N) = new_node r c (idx_view (a, N))"
    using same R(8) n mb0 mbN by (auto simp: idx_view_def new_node_def fun_eq_iff)
  ultimately have "iwrote R 1 b (a, N) (new_node r c (idx_view (a, N))) b' (?a, insert r N)"
    by (simp add: wrote_def)
  moreover have "held b' (if leaf then LeafNode h else BranchNode h) r"
    using R(5,6,9) n(2) ru stD(3) [OF R(2)] by (auto simp: idx_held_def idx_at_def)
  moreover have "nodeOf (idx_view (a, N)) r = None" "r \<noteq> 0" using n by (simp_all add: idx_view_def)
  ultimately show ?thesis using R(1) by blast
qed

subsection \<open>The operations\<close>

lemma own_node:
  assumes "own R b (a, N)" "held b h i" "nodeOf (idx_view (a, N)) i = Some v"
  shows "v = block_view (a i)" "node_ok (a i)" "length (a i) = 4096" "i \<in> N"
    "a i ! 0 = BTREE_TYPE_LEAF \<longleftrightarrow> (\<exists>l. h = LeafNode l)" "ID (blockOf h) = i"
    "m (a i) = Ok (y, a i) \<Longrightarrow> onBlock (blockOf h) m b = Ok (y, b)"
  using iat_node [OF own_reads(1) [OF assms(1)] own_reads(2) [OF assms(1,2)] assms(3)] assms
  by (auto simp: idx_view_def idx_held_def idx_at_def split: if_splits)

lemma own_load:
  assumes "own R b (a, N)" "nodeOf (idx_view (a, N)) i = Some v"
  shows "\<exists>h b'. loadIndexNode D i b = Ok (Some h, b') \<and> iwrote R 0 b (a, N) (idx_view (a, N)) b' (a, N) \<and>
    held b' (if a i ! 0 = BTREE_TYPE_LEAF then LeafNode h else BranchNode h) i \<and>
    onBlock h isLeaf b' = Ok (a i ! 0 = BTREE_TYPE_LEAF, b')"
proof -
  note O = ownD [OF assms(1)]
  have i: "i \<in> N" using assms(2) by (simp add: idx_view_def split: if_splits)
  then have j: "i \<in> R" "i \<notin> {0, 1, 2}" "i \<in> used a" using O(5,7,9) by blast+
  from own_fetch [OF assms(1) j(1)] obtain h b' where h: "fetchBlock D i b = Ok (h, b')" "ID h = i" "live b' h"
    "iwrote R 0 b (a, N) (idx_view (a, N)) b' (a, N)" by blast
  have o: "own R b' (a, N)" using h(4) by (simp add: wrote_def)
  have "onBlock h isLeaf b' = Ok (a i ! 0 = BTREE_TYPE_LEAF, b')"
    using h O(10) [OF i] by (intro onBlock_st_read [OF ownD(2) [OF o] h(3)]) (simp add: isLeaf_Ok node_ok_length)
  moreover have "held b' (if a i ! 0 = BTREE_TYPE_LEAF then LeafNode h else BranchNode h) i"
    using h j stD(3) [OF ownD(2) [OF o]] by (simp add: idx_held_def idx_at_def)
  ultimately show ?thesis using h j(2) by (intro exI [of _ h] exI [of _ b']) (simp add: loadIndexNode_def bind_def)
qed

lemma own_set:
  assumes "own R b x" "held b h i" "nodeOf (idx_view x) i = Some v"
  shows "\<exists>b' x'. idx_SetParentID h q b = Ok ((), b') \<and> (\<forall>g. live b' g = live b g) \<and>
      iwrote R 0 b x (set_node i (\<lambda>v. v\<lparr>up := q\<rparr>) (idx_view x)) b' x'"
    "\<exists>b' x'. idx_SetLeftSiblingID h q b = Ok ((), b') \<and> (\<forall>g. live b' g = live b g) \<and>
      iwrote R 0 b x (set_node i (\<lambda>v. v\<lparr>lft := q\<rparr>) (idx_view x)) b' x'"
    "\<exists>b' x'. idx_SetRightSiblingID h q b = Ok ((), b') \<and> (\<forall>g. live b' g = live b g) \<and>
      iwrote R 0 b x (set_node i (\<lambda>v. v\<lparr>rgt := q\<rparr>) (idx_view x)) b' x'"
proof -
  obtain a N where x: "x = (a, N)" by (cases x)
  note n = own_node [OF assms [unfolded x]]
  note W = own_write_view [OF assms [unfolded x]]
  show "\<exists>b' x'. idx_SetParentID h q b = Ok ((), b') \<and> (\<forall>g. live b' g = live b g) \<and>
      iwrote R 0 b x (set_node i (\<lambda>v. v\<lparr>up := q\<rparr>) (idx_view x)) b' x'"
    unfolding idx_SetParentID_def x using n content_put [OF n(2), of 3 "be16_put q"] set_link [OF n(2), of q]
    by (intro W) (simp_all add: node_layout Write_VUint16_Ok)
  show "\<exists>b' x'. idx_SetLeftSiblingID h q b = Ok ((), b') \<and> (\<forall>g. live b' g = live b g) \<and>
      iwrote R 0 b x (set_node i (\<lambda>v. v\<lparr>lft := q\<rparr>) (idx_view x)) b' x'"
    unfolding idx_SetLeftSiblingID_def x using n content_put [OF n(2), of 5 "be16_put q"] set_link [OF n(2), of q]
    by (intro W) (simp_all add: node_layout Write_VUint16_Ok)
  show "\<exists>b' x'. idx_SetRightSiblingID h q b = Ok ((), b') \<and> (\<forall>g. live b' g = live b g) \<and>
      iwrote R 0 b x (set_node i (\<lambda>v. v\<lparr>rgt := q\<rparr>) (idx_view x)) b' x'"
    unfolding idx_SetRightSiblingID_def x using n content_put [OF n(2), of 7 "be16_put q"] set_link [OF n(2), of q]
    by (intro W) (simp_all add: node_layout Write_VUint16_Ok)
qed

lemma own_CreateLeaf:
  assumes "own R b x" "idx_room R x (Suc 0)"
  shows "\<exists>h r b' x'. idx_CreateLeaf D b = Ok (h, b') \<and> iwrote R 1 b x (new_node r (Entries []) (idx_view x)) b' x' \<and>
    held b' (LeafNode h) r \<and> nodeOf (idx_view x) r = None \<and> r \<noteq> 0"
proof -
  obtain a N where x: "x = (a, N)" by (cases x)
  have "\<exists>f. seq blankNode (Write BTREE_POS_TYPE (VUint8 BTREE_TYPE_LEAF)) d = Ok ((), f) \<and> node_ok f \<and>
      block_view f = \<lparr>content = Entries [], up = 0, lft = 0, rgt = 0\<rparr> \<and> (f ! 0 = BTREE_TYPE_LEAF \<longleftrightarrow> True)"
    if "length d = 4096" for d using new_leaf_Ok [OF that] by blast
  from own_create [OF assms [unfolded x] this] show ?thesis unfolding idx_CreateLeaf_def x by simp
qed

lemma own_CreateBranch:
  assumes "own R b x" "idx_room R x (Suc 0)"
  shows "\<exists>h r b' x'. idx_CreateBranch D e b = Ok (h, b') \<and> iwrote R 1 b x
    (new_node r (Children [beKey e] [LowerThanKeyNodeID e, GreaterThanOrEqualToKeyNodeID e]) (idx_view x)) b' x' \<and>
    held b' (BranchNode h) r \<and> nodeOf (idx_view x) r = None \<and> r \<noteq> 0"
proof -
  obtain a N where x: "x = (a, N)" by (cases x)
  let ?m = "seq (Write BTREE_POS_TYPE (VUint8 BTREE_TYPE_BRANCH))
       (seq (Write (BTREE_POS_ENTRIES_OFFSET + BTREE_BRANCH_OFFSET_KEY) (VUint32 (beKey e)))
       (seq (Write (BTREE_POS_ENTRIES_OFFSET + BTREE_BRANCH_OFFSET_LEFT_BLOCK_ID) (VUint16 (LowerThanKeyNodeID e)))
       (seq (Write (BTREE_POS_ENTRIES_OFFSET + BTREE_BRANCH_OFFSET_RIGHT_BLOCK_ID) (VUint16 (GreaterThanOrEqualToKeyNodeID e)))
            (Write BTREE_POS_TOTAL_KEYS (VUint16 1)))))"
  have "\<exists>f. seq blankNode ?m d = Ok ((), f) \<and> node_ok f \<and> block_view f =
      \<lparr>content = Children [beKey e] [LowerThanKeyNodeID e, GreaterThanOrEqualToKeyNodeID e], up = 0, lft = 0, rgt = 0\<rparr> \<and>
      (f ! 0 = BTREE_TYPE_LEAF \<longleftrightarrow> False)" if "length d = 4096" for d
    using new_branch_Ok [OF that, of "beKey e" "LowerThanKeyNodeID e" "GreaterThanOrEqualToKeyNodeID e"] by blast
  from own_create [OF assms [unfolded x] this] show ?thesis unfolding idx_CreateBranch_def Let_def x by simp
qed

lemma own_SetRoot:
  assumes "own R b x" "held b h i" "nodeOf (idx_view x) i = Some v"
  shows "\<exists>b' x'. idx_SetRoot D h b = Ok ((), b') \<and>
    iwrote R 0 b x ((set_node i (\<lambda>v. v\<lparr>up := 0\<rparr>) (idx_view x))\<lparr>rootOf := Some i\<rparr>) b' x'"
proof -
  obtain a N where x: "x = (a, N)" by (cases x)
  note O = ownD [OF assms(1) [unfolded x]]
  have "0 \<in> R" using O(4) by simp
  from own_fetch [OF assms(1) [unfolded x] this] obtain cb b1 where
    c: "fetchBlock D 0 b = Ok (cb, b1)" "ID cb = 0" "live b1 cb" "iwrote R 0 b x (idx_view x) b1 x" unfolding x by blast
  have o1: "own R b1 x" "held b1 h i" using c(4) assms(2) by (simp_all add: wrote_def)
  from own_set(1) [OF o1 assms(3), of 0] obtain b2 x2 where
    s: "idx_SetParentID h 0 b1 = Ok ((), b2)" "\<forall>g. live b2 g = live b1 g"
      "iwrote R 0 b1 x (set_node i (\<lambda>v. v\<lparr>up := 0\<rparr>) (idx_view x)) b2 x2" by blast
  obtain a2 N2 where x2: "x2 = (a2, N2)" by (cases x2)
  let ?d = "put_at 4 (be16_put i) (a2 0)"
  have o2: "own R b2 (a2, N2)" and v2: "idx_view (a2, N2) = set_node i (\<lambda>v. v\<lparr>up := 0\<rparr>) (idx_view x)"
    using s(3) by (simp_all add: wrote_def x2)
  have l: "length (a2 0) = 4096" by (rule ownD(11) [OF o2])
  have i: "i \<noteq> 0" "ID (blockOf h) = i" using assms(2) by (simp_all add: idx_held_def idx_at_def)
  have "live b2 cb" using c(3) s(2) by simp
  from own_control [OF o2 this c(2), of "SetIndexRootBlockID i" ?d "()"] l obtain b3 where
    r: "seq (onBlock cb (SetIndexRootBlockID i)) (seq (MarkAsDirty (ID cb)) (ret ())) b2 = Ok ((), b3)"
      "iwrote R 0 b2 x2 ((idx_view (a2, N2))\<lparr>rootOf := if u16_at 4 ?d = 0 then None else Some (u16_at 4 ?d),
        firstOf := u16_at 6 ?d\<rparr>) b3 (a2(0 := ?d), N2)"
    by (auto simp: SetIndexRootBlockID_def control_pos Write_VUint16_Ok x2)
  have "firstOf (idx_view (a2, N2)) = u16_at 6 ?d" using l by (simp add: idx_view_def)
  then have "(idx_view (a2, N2))\<lparr>rootOf := if u16_at 4 ?d = 0 then None else Some (u16_at 4 ?d), firstOf := u16_at 6 ?d\<rparr> =
      (set_node i (\<lambda>v. v\<lparr>up := 0\<rparr>) (idx_view x))\<lparr>rootOf := Some i\<rparr>"
    using l i(1) unfolding v2 by simp
  with wrote_trans [OF c(4) wrote_trans [OF s(3) r(2) grown_trans] grown_trans]
  have "iwrote R 0 b x ((set_node i (\<lambda>v. v\<lparr>up := 0\<rparr>) (idx_view x))\<lparr>rootOf := Some i\<rparr>) b3 (a2(0 := ?d), N2)" by simp
  moreover have "idx_SetRoot D h b = Ok ((), b3)"
    using c s r i by (simp add: idx_SetRoot_def repoControlBlock_def bind_def seq_def idx_NodeID_def)
  ultimately show ?thesis by blast
qed

lemma own_Init:
  assumes "own R b x" "idx_room R x (Suc 0)"
  shows "\<exists>h r b' x'. idx_Init D b = Ok (h, b') \<and>
    iwrote R 1 b x ((new_node r (Entries []) (idx_view x))\<lparr>rootOf := Some r, firstOf := r\<rparr>) b' x' \<and>
    held b' (LeafNode h) r \<and> nodeOf (idx_view x) r = None \<and> r \<noteq> 0"
proof -
  let ?v = "\<lparr>content = Entries [], up = 0, lft = 0, rgt = 0\<rparr> :: RowID nodeView"
  from own_CreateLeaf [OF assms] obtain h r b1 x1 where
    c: "idx_CreateLeaf D b = Ok (h, b1)" "iwrote R 1 b x (new_node r (Entries []) (idx_view x)) b1 x1" "held b1 (LeafNode h) r"
      "nodeOf (idx_view x) r = None" "r \<noteq> 0" by blast
  have o1: "own R b1 x1" and v1: "idx_view x1 = new_node r (Entries []) (idx_view x)" using c(2) by (simp_all add: wrote_def)
  then have n1: "nodeOf (idx_view x1) r = Some ?v" by simp
  from own_SetRoot [OF o1 c(3) n1] obtain b2 x2 where
    s: "idx_SetRoot D (LeafNode h) b1 = Ok ((), b2)"
      "iwrote R 0 b1 x1 ((set_node r (\<lambda>v. v\<lparr>up := 0\<rparr>) (idx_view x1))\<lparr>rootOf := Some r\<rparr>) b2 x2" by blast
  obtain a2 N2 where x2: "x2 = (a2, N2)" by (cases x2)
  have o2: "own R b2 (a2, N2)" and v2: "idx_view (a2, N2) = (new_node r (Entries []) (idx_view x))\<lparr>rootOf := Some r\<rparr>"
    using s(2) by (simp_all add: wrote_def x2 v1 set_node_def new_node_def)
  have "0 \<in> R" using ownD(4) [OF o2] by simp
  from own_fetch [OF o2 this] obtain cb b3 where
    f: "fetchBlock D 0 b2 = Ok (cb, b3)" "ID cb = 0" "live b3 cb" "iwrote R 0 b2 x2 (idx_view x2) b3 x2" unfolding x2 by blast
  have o3: "own R b3 (a2, N2)" using f(4) by (simp add: wrote_def x2)
  let ?d = "put_at 6 (be16_put r) (a2 0)"
  have l: "length (a2 0) = 4096" by (rule ownD(11) [OF o2])
  from own_control [OF o3 f(3,2), of "SetFirstLeaf r" ?d h] l obtain b4 where
    w: "seq (onBlock cb (SetFirstLeaf r)) (seq (MarkAsDirty (ID cb)) (ret h)) b3 = Ok (h, b4)"
      "iwrote R 0 b3 x2 ((idx_view (a2, N2))\<lparr>rootOf := if u16_at 4 ?d = 0 then None else Some (u16_at 4 ?d),
        firstOf := u16_at 6 ?d\<rparr>) b4 (a2(0 := ?d), N2)"
    by (auto simp: SetFirstLeaf_def control_pos Write_VUint16_Ok x2)
  have "rootOf (idx_view (a2, N2)) = (if u16_at 4 ?d = 0 then None else Some (u16_at 4 ?d))"
    using l by (simp add: idx_view_def)
  then have "(idx_view (a2, N2))\<lparr>rootOf := if u16_at 4 ?d = 0 then None else Some (u16_at 4 ?d), firstOf := u16_at 6 ?d\<rparr> =
      (new_node r (Entries []) (idx_view x))\<lparr>rootOf := Some r, firstOf := r\<rparr>"
    using l unfolding v2 by simp
  with wrote_trans [OF c(2) wrote_trans [OF s(2) wrote_trans [OF f(4) w(2) grown_trans] grown_trans] grown_trans]
  have W: "iwrote R 1 b x ((new_node r (Entries []) (idx_view x))\<lparr>rootOf := Some r, firstOf := r\<rparr>) b4 (a2(0 := ?d), N2)" by simp
  moreover have "held b4 (LeafNode h) r" using c(3) s(2) f(4) w(2) by (simp add: wrote_def)
  moreover have "ID h = r" using c(3) by (simp add: idx_held_def idx_at_def)
  then have "idx_Init D b = Ok (h, b4)"
    using c(1) s(1) f(1) w(1) by (simp add: idx_Init_def repoControlBlock_def bind_def seq_def)
  ultimately show ?thesis using c(4,5) by blast
qed

end

section \<open>The adapter as a store\<close>

lemma idxAdapter_writes [simp]:
  "IsRoot (idxAdapter D) = idx_IsRoot" "InitRoot (idxAdapter D) = idx_Init D" "SetRoot (idxAdapter D) = idx_SetRoot D"
  "CreateBranch (idxAdapter D) = idx_CreateBranch D" "LoadBranch (idxAdapter D) = idx_LoadBranch D"
  "LoadFirstLeaf (idxAdapter D) = idx_LoadFirstLeaf D" "CreateLeaf (idxAdapter D) = idx_CreateLeaf D"
  "LoadLeaf (idxAdapter D) = idx_LoadLeaf D" "NodeID (idxAdapter D) = idx_NodeID" "ParentID (idxAdapter D) = idx_ParentID"
  "SetParentID (idxAdapter D) = idx_SetParentID" "SetLeftSiblingID (idxAdapter D) = idx_SetLeftSiblingID"
  "RightSiblingID (idxAdapter D) = idx_RightSiblingID" "LeftSiblingID (idxAdapter D) = idx_LeftSiblingID" "SetRightSiblingID (idxAdapter D) = idx_SetRightSiblingID"
  "LeafInsertAt (idxAdapter D) = (\<lambda>h pos entry. onNode h (leafInsertAt pos entry))"
  "LeafDeleteFrom (idxAdapter D) = (\<lambda>h pos. onNode h (leafDeleteFrom pos))"
  "LeafNth (idxAdapter D) = (\<lambda>h i. onBlock h (readLeafEntry (leafOffset (int i))))"
  "BranchInsertAt (idxAdapter D) = (\<lambda>h pos key nid. onNode h (branchInsertAt pos key nid))"
  "BranchDeleteFrom (idxAdapter D) = (\<lambda>h pos. onNode h (branchDeleteFrom pos))"
  "BranchNth (idxAdapter D) = (\<lambda>h i. onBlock h (readBranchEntry (branchOffset (int i))))"
  by (simp_all add: idxAdapter_def)

context block_file begin

lemma own_LoadNode:
  assumes "own R b x" "nodeOf (idx_view x) i = Some v"
  shows "\<exists>h b'. idx_LoadNode D i b = Ok (Some h, b') \<and> iwrote R 0 b x (idx_view x) b' x \<and> held b' h i"
proof -
  obtain a N where x: "x = (a, N)" by (cases x)
  from own_load [OF assms [unfolded x]] obtain h b' where
    h: "loadIndexNode D i b = Ok (Some h, b')" "iwrote R 0 b x (idx_view x) b' x"
      "held b' (if a i ! 0 = BTREE_TYPE_LEAF then LeafNode h else BranchNode h) i"
      "onBlock h isLeaf b' = Ok (a i ! 0 = BTREE_TYPE_LEAF, b')" unfolding x by blast
  then show ?thesis by (intro exI conjI, simp add: idx_LoadNode_def bind_def)
qed

lemma own_LoadLeaf:
  assumes "own R b x" "nodeOf (idx_view x) i = Some v" "content v = Entries es"
  shows "\<exists>h b'. idx_LoadLeaf D i b = Ok (Some h, b') \<and> iwrote R 0 b x (idx_view x) b' x \<and> held b' (LeafNode h) i"
proof -
  obtain a N where x: "x = (a, N)" by (cases x)
  have "a i ! 0 = BTREE_TYPE_LEAF"
    using assms(2,3) by (auto simp: x idx_view_def block_view_def split: if_splits)
  with own_load [OF assms(1,2) [unfolded x]] show ?thesis unfolding x idx_LoadLeaf_def by auto
qed

lemma own_LoadBranch:
  assumes "own R b x" "nodeOf (idx_view x) i = Some v" "content v = Children ks ps"
  shows "\<exists>h b'. idx_LoadBranch D i b = Ok (Some h, b') \<and> iwrote R 0 b x (idx_view x) b' x \<and> held b' (BranchNode h) i"
proof -
  obtain a N where x: "x = (a, N)" by (cases x)
  have "a i ! 0 \<noteq> BTREE_TYPE_LEAF"
    using assms(2,3) by (auto simp: x idx_view_def block_view_def split: if_splits)
  with own_load [OF assms(1,2) [unfolded x]] show ?thesis unfolding x idx_LoadBranch_def by auto
qed

lemma own_control_read:
  assumes "own R b (a, N)" "m (a 0) = Ok (y, a 0)"
  shows "\<exists>cb b'. repoControlBlock D b = Ok (cb, b') \<and> iwrote R 0 b (a, N) (idx_view (a, N)) b' (a, N) \<and>
    onBlock cb m b' = Ok (y, b')"
proof -
  have "0 \<in> R" using ownD(4) [OF assms(1)] by simp
  from own_fetch [OF assms(1) this] obtain cb b' where
    f: "fetchBlock D 0 b = Ok (cb, b')" "ID cb = 0" "live b' cb" "iwrote R 0 b (a, N) (idx_view (a, N)) b' (a, N)" by blast
  then have "own R b' (a, N)" by (simp add: wrote_def)
  from onBlock_st_read [OF ownD(2) [OF this] f(3), of m y] f assms(2) show ?thesis
    by (auto simp: repoControlBlock_def)
qed

lemma own_LoadRoot:
  assumes "own R b x" "\<And>i. rootOf (idx_view x) = Some i \<Longrightarrow> nodeOf (idx_view x) i \<noteq> None"
  shows "\<exists>r b'. idx_LoadRoot D b = Ok (r, b') \<and> own R b' x \<and>
    (case rootOf (idx_view x) of None \<Rightarrow> r = None | Some i \<Rightarrow> \<exists>h. r = Some h \<and> held b' h i)"
proof -
  obtain a N where x: "x = (a, N)" by (cases x)
  note O = ownD [OF assms(1) [unfolded x]]
  have "IndexRootBlockID (a 0) = Ok (u16_at 4 (a 0), a 0)"
    using O(11) by (simp add: IndexRootBlockID_def control_pos ReadUint16_Ok)
  from own_control_read [where m = IndexRootBlockID, OF assms(1) [unfolded x] this] obtain cb b1 where
    c: "repoControlBlock D b = Ok (cb, b1)" "own R b1 x" "onBlock cb IndexRootBlockID b1 = Ok (u16_at 4 (a 0), b1)"
    by (auto simp: x wrote_def)
  show ?thesis
  proof (cases "u16_at 4 (a 0) = 0")
    case True
    with c show ?thesis by (intro exI [of _ None] exI [of _ b1]) (simp add: idx_LoadRoot_def bind_def x idx_view_def)
  next
    case False
    then have r: "rootOf (idx_view x) = Some (u16_at 4 (a 0))" by (simp add: x idx_view_def)
    with assms(2) obtain v where "nodeOf (idx_view x) (u16_at 4 (a 0)) = Some v" by blast
    from own_LoadNode [OF c(2) this] obtain h b2 where
      "idx_LoadNode D (u16_at 4 (a 0)) b1 = Ok (Some h, b2)" "own R b2 x" "held b2 h (u16_at 4 (a 0))"
      by (auto simp: wrote_def)
    with c False r show ?thesis by (intro exI [of _ "Some h"] exI [of _ b2]) (simp add: idx_LoadRoot_def bind_def)
  qed
qed

lemma own_LoadFirstLeaf:
  assumes "own R b x" "nodeOf (idx_view x) (firstOf (idx_view x)) = Some v" "content v = Entries es"
  shows "\<exists>h b'. idx_LoadFirstLeaf D b = Ok (Some h, b') \<and> iwrote R 0 b x (idx_view x) b' x \<and>
    held b' (LeafNode h) (firstOf (idx_view x))"
proof -
  obtain a N where x: "x = (a, N)" by (cases x)
  have f: "firstOf (idx_view x) = u16_at 6 (a 0)" by (simp add: x idx_view_def)
  have "FirstLeaf (a 0) = Ok (u16_at 6 (a 0), a 0)"
    using ownD(11) [OF assms(1) [unfolded x]] by (simp add: FirstLeaf_def control_pos ReadUint16_Ok)
  from own_control_read [where m = FirstLeaf, OF assms(1) [unfolded x] this] obtain cb b1 where
    c: "repoControlBlock D b = Ok (cb, b1)" "iwrote R 0 b x (idx_view x) b1 x"
      "onBlock cb FirstLeaf b1 = Ok (u16_at 6 (a 0), b1)" unfolding x by blast
  then have "own R b1 x" by (simp add: wrote_def)
  from own_LoadLeaf [OF this assms(2,3)] obtain h b2 where
    h: "idx_LoadLeaf D (u16_at 6 (a 0)) b1 = Ok (Some h, b2)" "iwrote R 0 b1 x (idx_view x) b2 x"
      "held b2 (LeafNode h) (firstOf (idx_view x))" unfolding f by blast
  have "iwrote R 0 b x (idx_view x) b2 x" using wrote_trans [OF c(2) h(2) grown_trans] by simp
  with c(1,3) h show ?thesis
    by (intro exI [of _ h] exI [of _ b2]) (simp add: idx_LoadFirstLeaf_def bind_def)
qed

end

sublocale block_file \<subseteq> pidx: node_reads "idxAdapter D" "idx_own finv fblk writable R" idx_view "idx_held fblk" for R
proof (unfold_locales, goal_cases)
  case (1 b x)
  then show ?case using own_LoadRoot by simp
next
  case (2 b x i v)
  from own_LoadNode [OF this] show ?case by (auto simp: wrote_def)
next
  case (3 b x h i v es)
  from idx.kind_leaf [OF own_reads(1) [OF 3(1)] own_reads(2) [OF 3(1,2)] 3(3,4)] show ?case .
next
  case (4 b x h i v ks ps)
  from idx.kind_branch [OF own_reads(1) [OF 4(1)] own_reads(2) [OF 4(1,2)] 4(3,4)] show ?case .
next
  case (5 b x h i v)
  from idx.total_keys [OF own_reads(1) [OF 5(1)] own_reads(2) [OF 5(1,2)] 5(3)] show ?case .
next
  case (6 b x h i v p)
  from idx.key_at [OF own_reads(1) [OF 6(1)] own_reads(2) [OF 6(1,2)] 6(3,4)] show ?case .
next
  case (7 b x h i v ks ps p)
  from idx.entry_at [OF own_reads(1) [OF 7(1)] own_reads(2) [OF 7(1,2)] 7(3,4,5)] show ?case .
next
  case (8 b x h i v es p)
  from idx.item_at [OF own_reads(1) [OF 8(1)] own_reads(2) [OF 8(1,2)] 8(3,4,5)] show ?case .
qed

context block_file begin

lemma own_ids:
  assumes "own R b x" "held b h i" "nodeOf (idx_view x) i = Some v"
  shows "idx_NodeID h b = Ok (i, b)" "idx_ParentID h b = Ok (up v, b)" "idx_RightSiblingID h b = Ok (rgt v, b)"
    "(up v = 0 \<longleftrightarrow> rootOf (idx_view x) = Some i) \<Longrightarrow> idx_IsRoot h b = Ok (rootOf (idx_view x) = Some i, b)"
    "idx_LeftSiblingID h b = Ok (lft v, b)"
proof -
  obtain a N where x: "x = (a, N)" by (cases x)
  note n = own_node [OF assms [unfolded x]]
  show "idx_NodeID h b = Ok (i, b)" using n(6) by (simp add: idx_NodeID_def)
  show p: "idx_ParentID h b = Ok (up v, b)"
    using n(1,3) unfolding idx_ParentID_def by (intro n(7)) (simp add: node_layout ReadUint16_Ok block_view_def)
  show "idx_LeftSiblingID h b = Ok (lft v, b)"
    using n(1,3) unfolding idx_LeftSiblingID_def by (intro n(7)) (simp add: node_layout ReadUint16_Ok block_view_def)
  show "idx_RightSiblingID h b = Ok (rgt v, b)"
    using n(1,3) unfolding idx_RightSiblingID_def by (intro n(7)) (simp add: node_layout ReadUint16_Ok block_view_def)
  show "idx_IsRoot h b = Ok (rootOf (idx_view x) = Some i, b)" if "up v = 0 \<longleftrightarrow> rootOf (idx_view x) = Some i"
    using p that by (simp add: idx_IsRoot_def bind_def)
qed

lemma own_leaf:
  assumes "own R b (a, N)" "held b (LeafNode l) i" "nodeOf (idx_view (a, N)) i = Some v" "content v = Entries es"
  shows "leaf_ok (a i)" "es = leaf_entries (a i)" "a i ! 0 = BTREE_TYPE_LEAF"
  using own_node(1,2,5) [OF assms(1-3)] assms(4) by (auto simp: node_ok_def block_view_def)

lemma own_branch:
  assumes "own R b (a, N)" "held b (BranchNode l) i" "nodeOf (idx_view (a, N)) i = Some v" "content v = Children ks ps"
  shows "branch_ok (a i)" "ks = branch_keys (a i)" "ps = branch_ptrs (a i)" "a i ! 0 \<noteq> BTREE_TYPE_LEAF"
  using own_node(1,2,5) [OF assms(1-3)] assms(4) by (auto simp: node_ok_def block_view_def)

lemma own_leaf_write:
  assumes "own R b (a, N)" "held b (LeafNode l) i" "nodeOf (idx_view (a, N)) i = Some v" "content v = Entries es"
    "\<exists>f. m (a i) = Ok (y, f) \<and> leaf_ok f \<and> node_links f = node_links (a i) \<and> leaf_entries f = es'"
  shows "\<exists>b' x'. onNode l m b = Ok (y, b') \<and>
    iwrote R 0 b (a, N) (set_node i (\<lambda>v. v\<lparr>content := Entries es'\<rparr>) (idx_view (a, N))) b' x'"
proof -
  note n = own_node [OF assms(1-3)] and L = own_leaf [OF assms(1-4)]
  from assms(5) obtain f where f: "m (a i) = Ok (y, f)" "leaf_ok f" "node_links f = node_links (a i)"
    "leaf_entries f = es'" by blast
  note B = leaf_block [OF n(2) L(3) f(2,3)] and Z = block_view_links(2) [OF f(3)]
  from own_write_view [where m = m, OF assms(1-3) f(1) B(1) Z, of "\<lambda>v. v\<lparr>content := Entries es'\<rparr>"] B(2) n(1) f(4)
  show ?thesis by auto
qed

lemma own_branch_write:
  assumes "own R b (a, N)" "held b (BranchNode l) i" "nodeOf (idx_view (a, N)) i = Some v" "content v = Children ks ps"
    "\<exists>f. m (a i) = Ok (y, f) \<and> branch_ok f \<and> node_links f = node_links (a i) \<and> branch_keys f = ks' \<and>
      branch_ptrs f = ps'"
  shows "\<exists>b' x'. onNode l m b = Ok (y, b') \<and>
    iwrote R 0 b (a, N) (set_node i (\<lambda>v. v\<lparr>content := Children ks' ps'\<rparr>) (idx_view (a, N))) b' x'"
proof -
  note n = own_node [OF assms(1-3)] and L = own_branch [OF assms(1-4)]
  from assms(5) obtain f where f: "m (a i) = Ok (y, f)" "branch_ok f" "node_links f = node_links (a i)"
    "branch_keys f = ks'" "branch_ptrs f = ps'" by blast
  note B = branch_block [OF n(2) L(4) f(2,3)] and Z = block_view_links(2) [OF f(3)]
  from own_write_view [where m = m, OF assms(1-3) f(1) B(1) Z, of "\<lambda>v. v\<lparr>content := Children ks' ps'\<rparr>"] B(2) n(1) f(4,5)
  show ?thesis by auto
qed

end

sublocale block_file \<subseteq> pidx: node_store "idxAdapter D" "idx_own finv fblk writable R" idx_view "idx_held fblk"
  "idx_room R" idx_other "\<lambda>n. n \<le> 510" "\<lambda>n. n \<le> 680" for R
proof (unfold_locales, goal_cases)
  case (1 x)
  show ?case by (rule grown_refl)
next
  case (2 x y z)
  then show ?case by (rule grown_trans)
next
  case (3 x n m)
  then show ?case by (simp add: idx_room_def)
next
  case (4 b x i v)
  from own_LoadNode [OF this] show ?case by simp
next
  case (5 b x)
  show ?case by (simp add: idx_LoadNode_def loadIndexNode_def bind_def)
next
  case (6 b x i v ks ps)
  from own_LoadBranch [OF this] show ?case by simp
next
  case (7 b x i v es)
  from own_LoadLeaf [OF this] show ?case by simp
next
  case (8 b x)
  show ?case by (simp add: idx_LoadLeaf_def loadIndexNode_def)
next
  case (9 b x v es)
  from own_LoadFirstLeaf [OF this] show ?case by simp
next
  case (10 b x h i v)
  from own_ids(1) [OF this] show ?case by simp
next
  case (11 b x h i v)
  from own_ids(2) [OF this] show ?case by simp
next
  case (12 b x h i v)
  from own_ids(3) [OF this] show ?case by simp
next
  case (13 b x h i v)
  from own_ids(4) [OF this] show ?case by simp
next
  case (14 b x l i v ks ps p)
  obtain a N where x: "x = (a, N)" by (cases x)
  note n = own_node [OF 14(1-3) [unfolded x]] and B = own_branch [OF 14(1-4) [unfolded x]]
  have "readBranchEntry (branchOffset (int p)) (a i) = Ok (entry_of ks ps p, a i)"
    using readBranchEntry_Ok [OF n(3), of p] B 14(5) by (simp add: branch_ok_def)
  from n(7) [where m = "readBranchEntry (branchOffset (int p))", OF this] show ?case by simp
next
  case (15 b x l i v es p)
  obtain a N where x: "x = (a, N)" by (cases x)
  note n = own_node [OF 15(1-3) [unfolded x]] and L = own_leaf [OF 15(1-4) [unfolded x]]
  have "readLeafEntry (leafOffset (int p)) (a i) = Ok (es ! p, a i)"
    using readLeafEntry_Ok [OF n(3), of p] L 15(5) by (simp add: leaf_ok_def)
  from n(7) [where m = "readLeafEntry (leafOffset (int p))", OF this] show ?case by simp
next
  case (16 b x h i v q)
  from own_set(1) [OF this, of q] show ?case by auto
next
  case (17 b x h i v q)
  from own_set(2) [OF this, of q] show ?case by auto
next
  case (18 b x h i v q)
  from own_set(3) [OF this, of q] show ?case by auto
next
  case (19 b x l i v es p e)
  obtain a N where x: "x = (a, N)" by (cases x)
  note L = own_leaf [OF 19(1-4) [unfolded x]]
  have "\<exists>f. leafInsertAt (int p) e (a i) = Ok ((), f) \<and> leaf_ok f \<and> node_links f = node_links (a i) \<and>
      leaf_entries f = insertNth p e es"
    using leafInsertAt_Ok [OF L(1), of p "int p" e] 19(5,6) L(2) by simp
  from own_leaf_write [where m = "leafInsertAt (int p) e", OF 19(1-4) [unfolded x] this] show ?case by (simp add: x)
next
  case (20 b x l i v es p)
  obtain a N where x: "x = (a, N)" by (cases x)
  note L = own_leaf [OF 20(1-4) [unfolded x]]
  have "\<exists>f. leafDeleteFrom (int p) (a i) = Ok (drop p es, f) \<and> leaf_ok f \<and> node_links f = node_links (a i) \<and>
      leaf_entries f = take p es"
    using leafDeleteFrom_Ok [OF L(1), of p] 20(5) L(2) by simp
  from own_leaf_write [where m = "leafDeleteFrom (int p)", OF 20(1-4) [unfolded x] this] show ?case by (simp add: x)
next
  case (21 b x l i v ks ps p k g)
  obtain a N where x: "x = (a, N)" by (cases x)
  note B = own_branch [OF 21(1-4) [unfolded x]]
  have "\<exists>f. branchInsertAt (int p) k g (a i) = Ok ((), f) \<and> branch_ok f \<and> node_links f = node_links (a i) \<and>
      branch_keys f = insertNth p k ks \<and> branch_ptrs f = insertNth (p + 1) g ps"
    using branchInsertAt_Ok [OF B(1), of p k g] 21(7,8) B(2,3) by simp
  from own_branch_write [where m = "branchInsertAt (int p) k g", OF 21(1-4) [unfolded x] this] show ?case by (simp add: x)
next
  case (22 b x l i v ks ps p)
  obtain a N where x: "x = (a, N)" by (cases x)
  note B = own_branch [OF 22(1-4) [unfolded x]]
  have "\<exists>f. branchDeleteFrom (int p) (a i) = Ok (drop p (entries_of ks ps), f) \<and> branch_ok f \<and>
      node_links f = node_links (a i) \<and> branch_keys f = take p ks \<and> branch_ptrs f = take (p + 1) ps"
    using branchDeleteFrom_Ok [OF B(1), of p] 22(7) B(2,3) by simp
  from own_branch_write [where m = "branchDeleteFrom (int p)", OF 22(1-4) [unfolded x] this] show ?case by (simp add: x)
next
  case (23 b x)
  from own_CreateLeaf [OF this] show ?case by simp
next
  case (24 b x en)
  from own_CreateBranch [OF this] show ?case by simp
next
  case (25 b x h i v)
  from own_SetRoot [OF this] show ?case by simp
next
  case (26 b x)
  from own_Init [OF 26(1,3)] show ?case by simp
next
  case (27 b x h i v)
  from own_ids(5) [OF this] show ?case by simp
qed

end
