(* ===== verification/IdxInserts.thy ===== *)
theory IdxInserts
  imports IdxWrites
begin

text \<open>
  The index as a map from keys to row IDs: what \<open>Insert\<close>, \<open>Find\<close> and \<open>All\<close> of
  \<open>src/src/simplejsondb/core/uint32_index.go\<close> do to it, with the blocks that they leave alone.
\<close>

section \<open>The map that an index holds\<close>

text \<open>
  The nodes form a tree of depth \<open>n\<close> with the entries of \<open>M\<close>, or there is no root and no first leaf yet.
\<close>

definition index_is :: "('f \<Rightarrow> bool) \<Rightarrow> ('f \<Rightarrow> u16 \<Rightarrow> bytes) \<Rightarrow> ('f \<Rightarrow> u16 \<Rightarrow> bool) \<Rightarrow> u16 set \<Rightarrow> nat \<Rightarrow> nat
    \<Rightarrow> 'f dataBuffer \<Rightarrow> (u16 \<Rightarrow> bytes) \<times> u16 set \<Rightarrow> nat \<Rightarrow> (u32 \<rightharpoonup> RowID) \<Rightarrow> bool" where
  "index_is fi fb wr R lc bc b x n M \<longleftrightarrow> idx_own fi fb wr R b x \<and>
     ((\<exists>T. tree_ok lc bc (idx_view x) T n \<and> M = (\<lambda>k. lookup k (inorder T))) \<or>
      rootOf (idx_view x) = None \<and> firstOf (idx_view x) = 0 \<and> n = 0 \<and> M = Map.empty)"

context block_file begin

abbreviation indexed where "indexed \<equiv> index_is finv fblk writable"

lemma index_capacities:
  "2 \<le> lc \<Longrightarrow> lc \<le> 510 \<Longrightarrow> 4 \<le> bc \<Longrightarrow> bc \<le> 680 \<Longrightarrow> pidx.capacities (NewUint32Index D (int bc) (int lc)) lc bc"
  by (simp add: pidx.capacities_def NewUint32Index_def newTree_def half_def zdiv_int)

lemma index_find:
  assumes "indexed R lc bc b x n M" "n \<le> m"
  shows "\<exists>b'. indexFind (NewUint32Index D bc' lc') m key b =
      Ok (case M key of None \<Rightarrow> (Some (ErrKeyNotFound key), \<lparr>DataBlockID = 0, LocalID = 0\<rparr>) | Some rowID \<Rightarrow> (None, rowID), b') \<and>
    indexed R lc bc b' x n M"
proof -
  have A: "adapter (NewUint32Index D bc' lc') = idxAdapter D" by (simp add: NewUint32Index_def newTree_def)
  have o: "own R b x" using assms(1) by (simp add: index_is_def)
  show ?thesis
  proof (cases "rootOf (idx_view x) = None \<and> firstOf (idx_view x) = 0 \<and> n = 0 \<and> M = Map.empty")
    case True
    with own_LoadRoot [OF o] obtain b' where "idx_LoadRoot D b = Ok (None, b')" "own R b' x" by auto
    with True A show ?thesis
      by (intro exI [of _ b']) (simp add: indexFind_def treeFind_def bind_def index_is_def)
  next
    case False
    with assms(1) obtain T where T: "tree_ok lc bc (idx_view x) T n" "M = (\<lambda>k. lookup k (inorder T))"
      by (auto simp: index_is_def)
    then have S: "laid (idx_view x) 0 T" "rootOf (idx_view x) = Some (tid T)" "balanced n T"
      by (auto simp: tree_ok_def tree_shape_def)
    from pidx.treeFind_Ok [OF A tree_ok_ordered [OF T(1)] S(3) assms(2) laid_stored [OF S(1)] o S(2), of key] obtain b' where
      "treeFind (NewUint32Index D bc' lc') m key b =
        Ok (case lookup key (inorder T) of None \<Rightarrow> Inl (ErrKeyNotFound key) | Some item \<Rightarrow> Inr item, b')" "own R b' x" by auto
    with T show ?thesis
      by (intro exI [of _ b']) (auto simp: indexFind_def bind_def index_is_def split: option.split)
  qed
qed

lemma index_insert_new:
  assumes "indexed R lc bc b x n M" "2 \<le> lc" "lc \<le> 510" "4 \<le> bc" "bc \<le> 680" "2 * n \<le> m" "idx_room R x (n + 3)"
    "M key = None"
  shows "\<exists>b' x' n'. indexInsert (NewUint32Index D (int bc) (int lc)) m key rowID b = Ok (None, b') \<and>
    indexed R lc bc b' x' n' (M(key \<mapsto> rowID)) \<and> n' \<le> n + 1 \<and> idx_other x x' \<and>
    (\<forall>j. idx_room R x (j + (n + 3)) \<longrightarrow> idx_room R x' j)"
proof -
  note C = index_capacities [OF assms(2-5)]
  let ?e = "\<lparr>leKey = key, leItem = rowID\<rparr>" and ?t = "NewUint32Index D (int bc) (int lc)"
  have o: "own R b x" using assms(1) by (simp add: index_is_def)
  have less: "idx_room R x j" if "idx_room R x (j + k)" for j k using that by (simp add: idx_room_def)
  show ?thesis
  proof (cases "rootOf (idx_view x) = None \<and> firstOf (idx_view x) = 0 \<and> n = 0 \<and> M = Map.empty")
    case True
    with assms(7) have "rootOf (idx_view x) = None" "idx_room R x 3" by simp_all
    from pidx.treeInsert_first [OF C o this, of m key rowID] obtain b' n' where
      b': "treeInsert ?t m key rowID b = Ok (None, b')" "n' \<le> 1" "pidx.tree_at R lc bc x 0 3 b' [?e] n'" by blast
    from pidx.tree_at_repr [OF b'(3)] obtain x' T where
      x': "own R b' x'" "tree_ok lc bc (idx_view x') T n'" "inorder T = [?e]" "idx_other x x'"
        "\<forall>j. idx_room R x (j + 3) \<longrightarrow> idx_room R x' j" by blast
    have "M(key \<mapsto> rowID) = (\<lambda>k. lookup k (inorder T))" using True by (auto simp: x'(3) lookup_def fun_eq_iff)
    with x' b' True show ?thesis
      by (intro exI [of _ b'] exI [of _ x'] exI [of _ n']) (auto simp: indexInsert_def index_is_def)
  next
    case False
    with assms(1) obtain T where T: "tree_ok lc bc (idx_view x) T n" "M = (\<lambda>k. lookup k (inorder T))"
      by (auto simp: index_is_def)
    have r: "idx_room R x (n + 2)" using assms(7) by (simp add: idx_room_def)
    have new: "lookup key (inorder T) = None" using assms(8) by (simp add: T(2))
    from pidx.treeInsert_new [OF C o T(1) assms(6) r new, of rowID] obtain b' n' where
      b': "treeInsert ?t m key rowID b = Ok (None, b')" "n' \<le> Suc n"
        "pidx.tree_at R lc bc x 0 (n + 2) b' (insort_key leKey ?e (inorder T)) n'" by blast
    from pidx.tree_at_repr [OF b'(3)] obtain x' T' where
      x': "own R b' x'" "tree_ok lc bc (idx_view x') T' n'" "inorder T' = insort_key leKey ?e (inorder T)" "idx_other x x'"
        "\<forall>j. idx_room R x (j + (n + 2)) \<longrightarrow> idx_room R x' j" by blast
    have "M(key \<mapsto> rowID) = (\<lambda>k. lookup k (inorder T'))"
      using lookup_insort [of ?e "inorder T"] new by (auto simp: x'(3) T(2) fun_eq_iff)
    moreover have "\<forall>j. idx_room R x (j + (n + 3)) \<longrightarrow> idx_room R x' j"
    proof (intro allI impI)
      fix j assume "idx_room R x (j + (n + 3))"
      then have "idx_room R x (j + (n + 2))" by (simp add: idx_room_def)
      with x'(5) show "idx_room R x' j" by blast
    qed
    ultimately show ?thesis using x' b'
      by (intro exI [of _ b'] exI [of _ x'] exI [of _ n']) (auto simp: indexInsert_def index_is_def)
  qed
qed

lemma index_insert_exists:
  assumes "indexed R lc bc b x n M" "2 \<le> lc" "lc \<le> 510" "4 \<le> bc" "bc \<le> 680" "n \<le> m" "M key \<noteq> None"
  shows "\<exists>b'. indexInsert (NewUint32Index D (int bc) (int lc)) m key rowID b = Ok (Some (ErrKeyExists key), b') \<and>
    indexed R lc bc b' x n M"
proof -
  note C = index_capacities [OF assms(2-5)]
  from assms(1,7) obtain T where T: "own R b x" "tree_ok lc bc (idx_view x) T n" "M = (\<lambda>k. lookup k (inorder T))"
    by (auto simp: index_is_def)
  with assms(7) pidx.treeInsert_exists [OF C T(1,2) assms(6), of key rowID] obtain b' where
    "treeInsert (NewUint32Index D (int bc) (int lc)) m key rowID b = Ok (Some (ErrKeyExists key), b')" "own R b' x" by auto
  with T(2,3) show ?thesis by (intro exI [of _ b']) (auto simp: indexInsert_def index_is_def)
qed

end

section \<open>Properties\<close>

text \<open>C4: \<open>Insert\<close> on the index refines the update of a map: a new key with its row ID is added, for
  every way of splitting nodes up to a new root and from an index without a root, and a key
  that exists is reported and changes nothing. New nodes take free blocks only, and every block
  that is not a node keeps its bytes, apart from the blocks of the map and the two index pointers
  of the control block. The buffer holds every block of the file.\<close>

theorem index_insert_refines_update:
  assumes "index_is os_inv os_block os_writable R lc bc b (a, N) n M" "2 \<le> lc" "lc \<le> 510" "4 \<le> bc" "bc \<le> 680"
    "2 * n \<le> m" "n + 3 \<le> card (clear_flags R a)"
  shows "if M key = None then
      (\<exists>b' a' N' n'. indexInsert (NewUint32Index osDataFile (int bc) (int lc)) m key rowID b = Ok (None, b') \<and>
        index_is os_inv os_block os_writable R lc bc b' (a', N') n' (M(key \<mapsto> rowID)) \<and> n' \<le> n + 1 \<and>
        N \<subseteq> N' \<and> (N' - N) \<inter> used a = {} \<and> used a \<subseteq> used a' \<and>
        card (clear_flags R a) \<le> card (clear_flags R a') + (n + 3) \<and>
        (\<forall>j. j \<notin> N' \<union> {0, 1, 2} \<longrightarrow> a' j = a j) \<and>
        u16_at 0 (a' 0) = u16_at 0 (a 0) \<and> u16_at 2 (a' 0) = u16_at 2 (a 0))
    else
      (\<exists>b'. indexInsert (NewUint32Index osDataFile (int bc) (int lc)) m key rowID b = Ok (Some (ErrKeyExists key), b') \<and>
        index_is os_inv os_block os_writable R lc bc b' (a, N) n M)"
proof (cases "M key = None")
  case True
  have "idx_room R (a, N) (n + 3)" using assms(7) by (simp add: idx_room_def)
  from osf.index_insert_new [OF assms(1-6) this True] obtain b' x' n' where
    i: "indexInsert (NewUint32Index osDataFile (int bc) (int lc)) m key rowID b = Ok (None, b')"
      "index_is os_inv os_block os_writable R lc bc b' x' n' (M(key \<mapsto> rowID))" "n' \<le> n + 1" "idx_other (a, N) x'"
      "\<forall>j. idx_room R (a, N) (j + (n + 3)) \<longrightarrow> idx_room R x' j" by blast
  obtain a' N' where x': "x' = (a', N')" by (cases x')
  let ?j = "card (clear_flags R a) - (n + 3)"
  have "idx_room R (a, N) (?j + (n + 3))" using assms(7) by (simp add: idx_room_def)
  with i(5) have "idx_room R (a', N') ?j" unfolding x' by blast
  then have "card (clear_flags R a) \<le> card (clear_flags R a') + (n + 3)" by (simp add: idx_room_def)
  with i True show ?thesis unfolding x' grown_def by auto
next
  case False
  have "n \<le> m" using assms(6) by simp
  from osf.index_insert_exists [OF assms(1-5) this False, of rowID] False show ?thesis by auto
qed

text \<open>After an insertion that succeeds, \<open>Find\<close> on the index returns the new row ID under its key, and
  under every other key what it returned before.\<close>

theorem index_insert_find:
  assumes "index_is os_inv os_block os_writable R lc bc b (a, N) n M" "2 \<le> lc" "lc \<le> 510" "4 \<le> bc" "bc \<le> 680"
    "2 * n \<le> m" "n + 3 \<le> card (clear_flags R a)" "M key = None"
  shows "\<exists>b'. indexInsert (NewUint32Index osDataFile (int bc) (int lc)) m key rowID b = Ok (None, b') \<and>
    (\<exists>b''. indexFind (NewUint32Index osDataFile (int bc) (int lc)) (Suc m) key b' = Ok ((None, rowID), b'')) \<and>
    (\<forall>k r b0. k \<noteq> key \<longrightarrow> indexFind (NewUint32Index osDataFile (int bc) (int lc)) (Suc m) k b = Ok (r, b0) \<longrightarrow>
      (\<exists>b''. indexFind (NewUint32Index osDataFile (int bc) (int lc)) (Suc m) k b' = Ok (r, b'')))"
proof -
  let ?t = "NewUint32Index osDataFile (int bc) (int lc)"
  have "idx_room R (a, N) (n + 3)" using assms(7) by (simp add: idx_room_def)
  from osf.index_insert_new [OF assms(1-6) this assms(8)] obtain b' x' n' where
    i: "indexInsert ?t m key rowID b = Ok (None, b')"
      "index_is os_inv os_block os_writable R lc bc b' x' n' (M(key \<mapsto> rowID))" "n' \<le> n + 1" by blast
  have l: "n \<le> Suc m" "n' \<le> Suc m" using i(3) assms(6) by simp_all
  from osf.index_find [OF i(2) l(2), of "int bc" "int lc" key]
  have "\<exists>b''. indexFind ?t (Suc m) key b' = Ok ((None, rowID), b'')" by auto
  moreover have "\<exists>b''. indexFind ?t (Suc m) k b' = Ok (r, b'')"
    if "k \<noteq> key" "indexFind ?t (Suc m) k b = Ok (r, b0)" for k r b0
    using osf.index_find [OF assms(1) l(1), of "int bc" "int lc" k] osf.index_find [OF i(2) l(2), of "int bc" "int lc" k] that
    by auto
  ultimately show ?thesis using i(1) by blast
qed

text \<open>C22: \<open>All\<close> on the index visits the entries of the tree in the order of the keys, each once, and changes
  no node and no block of a record.\<close>

theorem index_all_in_order:
  assumes "idx_own os_inv os_block os_writable R b x" "tree_ok lc bc (idx_view x) T n" "length (leaves_in T) \<le> m"
  shows "\<exists>b' x'. indexAll (NewUint32Index osDataFile bc' lc') m (\<lambda>acc k r. ret (f acc k r)) acc b =
      Ok (foldl (\<lambda>acc e. f acc (leKey e) (leItem e)) acc (inorder T), b') \<and>
    idx_own os_inv os_block os_writable R b' x' \<and> idx_view x' = idx_view x \<and> idx_other x x'"
proof -
  have A: "adapter (NewUint32Index osDataFile bc' lc') = idxAdapter osDataFile" by (simp add: NewUint32Index_def newTree_def)
  from osf.pidx.treeAll_Ok [of _ "\<lambda>acc e. ret (f acc (leKey e) (leItem e))" "\<lambda>acc e. f acc (leKey e) (leItem e)",
      OF A _ assms, of acc]
  show ?thesis by (auto simp: indexAll_def)
qed

section \<open>Witnesses\<close>

text \<open>A file of sixteen blocks, with one leaf in block 4; blocks 0 to 4 are in use.\<close>

definition leaf_blocks :: "u16 \<Rightarrow> bytes" where
  "leaf_blocks i = (if i = 1 then put_at 0 [15] (replicate 4096 0)
     else if i = 0 then put_at 6 (be16_put 4) (one_leaf 0) else one_leaf i)"

lemma leaf_blocks_used:
  assumes "unat j < 8"
  shows "mapped j" "flag_of j = (1, 0, unat j - 1)" "j \<in> used leaf_blocks \<longleftrightarrow> unat j \<le> 4"
proof -
  have m: "map_block j = 1" using assms by (simp add: map_block_small)
  have f: "flag j = int (unat j)" using assms by (simp add: flag_def block_size_word)
  show "mapped j" using assms by (simp add: mapped_def block_size_word)
  have s: "BitMap.slot (flag j) = (0, unat j - 1)"
    using assms by (simp add: BitMap.slot_def f nat_diff_distrib')
  then show "flag_of j = (1, 0, unat j - 1)" by (simp add: flag_of_def m)
  have b: "leaf_blocks 1 ! 0 = 15" "length (leaf_blocks 1) = 4096"
    by (simp_all add: leaf_blocks_def put_at_def splice_def)
  have "(15 :: byte) = mask 4" by (simp add: mask_eq_exp_minus_1)
  then have "bit (15 :: byte) k \<longleftrightarrow> k < 4" for k by (simp only: bit_mask_iff) auto
  with b have "(0, k) \<in> slots (leaf_blocks 1) \<longleftrightarrow> k < 4" for k by (simp add: slots_def)
  then have "j \<in> used leaf_blocks \<longleftrightarrow> unat j - 1 < 4"
    using \<open>mapped j\<close> by (simp add: used_def in_use_def s m)
  then show "j \<in> used leaf_blocks \<longleftrightarrow> unat j \<le> 4" by linarith
qed

definition leaf_es :: "RowID LeafEntry list" where
  "leaf_es = [\<lparr>leKey = 5, leItem = \<lparr>DataBlockID = 3, LocalID = 0\<rparr>\<rparr>]"

lemma leaf_blocks_view:
  "idx_view (leaf_blocks, {4}) = \<lparr>rootOf = Some 4, firstOf = 4,
      nodeOf = [4 \<mapsto> \<lparr>content = Entries leaf_es, up = 0, lft = 0, rgt = 0\<rparr>]\<rparr>"
proof -
  have v: "leaf_blocks 4 = one_leaf 4" "u16_at 4 (leaf_blocks 0) = 4" "u16_at 6 (leaf_blocks 0) = 4"
    by (simp_all add: leaf_blocks_def one_leaf_def)
  have "length small_leaf = 4096" using small_leaf(1) by (simp add: leaf_ok_def)
  then have "u16_at 3 (one_leaf 4) = 0" "u16_at 5 (one_leaf 4) = 0" "u16_at 7 (one_leaf 4) = 0"
    by (simp_all add: one_leaf_def) (simp_all add: small_leaf_def leaf_bytes_def)
  moreover have "content (block_view (one_leaf 4)) = Entries leaf_es" by (subst one_leaf(2)) (simp add: leaf_es_def)
  ultimately have "block_view (one_leaf 4) = \<lparr>content = Entries leaf_es, up = 0, lft = 0, rgt = 0\<rparr>"
    by (simp add: block_view_def)
  then show "idx_view (leaf_blocks, {4}) = \<lparr>rootOf = Some 4, firstOf = 4,
      nodeOf = [4 \<mapsto> \<lparr>content = Entries leaf_es, up = 0, lft = 0, rgt = 0\<rparr>]\<rparr>"
    by (simp add: idx_view_def v fun_eq_iff)
qed

lemma leaf_blocks_index:
  "\<exists>b. NewDataBuffer (file_of 16 leaf_blocks) 16 = Ok b \<and>
     idx_own os_inv os_block os_writable {i. unat i < 16} b (leaf_blocks, {4})"
  "2 \<le> lc \<Longrightarrow> tree_ok lc bc (idx_view (leaf_blocks, {4})) (Leafy 4 leaf_es) 0"
  "3 \<le> card (clear_flags {i. unat i < 16} leaf_blocks)"
proof -
  let ?R = "{i :: u16. unat i < 16}"
  have len: "length (leaf_blocks i) = DATABLOCK_SIZE" for i
    using node_ok_length [OF one_leaf(1)]
    by (cases "i = 0"; cases "i = 4") (simp_all add: leaf_blocks_def one_leaf_def block_size_word)
  from file_of_store [of 16 leaf_blocks, OF _ len] obtain b where
    b: "NewDataBuffer (file_of 16 leaf_blocks) 16 = Ok b" "store os_inv os_block os_writable ?R leaf_blocks b" "pool ?R b"
    by auto
  have "{0, 1, 2} \<subseteq> used leaf_blocks" "{4} \<subseteq> used leaf_blocks" by (simp_all add: leaf_blocks_used(3))
  moreover have "\<forall>i \<in> {4}. node_ok (leaf_blocks i)" using one_leaf(1) by (simp add: leaf_blocks_def)
  ultimately have "idx_own os_inv os_block os_writable ?R b (leaf_blocks, {4})"
    using b(2,3) by (intro osf.ownI) auto
  with b(1) show "\<exists>b. NewDataBuffer (file_of 16 leaf_blocks) 16 = Ok b \<and>
     idx_own os_inv os_block os_writable ?R b (leaf_blocks, {4})" by blast
  show "tree_ok lc bc (idx_view (leaf_blocks, {4})) (Leafy 4 leaf_es) 0" if "2 \<le> lc"
  proof -
    have "seg (idx_view (leaf_blocks, {4})) 0 (lev m (Leafy 4 leaf_es)) 0" for m
      by (cases m) (simp_all add: leaf_blocks_view)
    then show ?thesis using that by (simp add: tree_ok_def tree_shape_def chained_def leaf_blocks_view leaf_es_def)
  qed
  have "{flag_of 5, flag_of 6, flag_of 7} \<subseteq> clear_flags ?R leaf_blocks"
    using leaf_blocks_used(1,3) [of 5] leaf_blocks_used(1,3) [of 6] leaf_blocks_used(1,3) [of 7] by (simp add: clear_flags_def)
  moreover have "finite (clear_flags ?R leaf_blocks)" by (simp add: clear_flags_def)
  ultimately have "card {flag_of 5, flag_of 6, flag_of 7} \<le> card (clear_flags ?R leaf_blocks)" by (intro card_mono)
  then show "3 \<le> card (clear_flags ?R leaf_blocks)" by (simp add: leaf_blocks_used(2))
qed

lemma leaf_blocks_map:
  obtains b where "NewDataBuffer (file_of 16 leaf_blocks) 16 = Ok b"
    "index_is os_inv os_block os_writable {i. unat i < 16} 510 680 b (leaf_blocks, {4}) 0 [5 \<mapsto> \<lparr>DataBlockID = 3, LocalID = 0\<rparr>]"
    "idx_own os_inv os_block os_writable {i. unat i < 16} b (leaf_blocks, {4})"
proof -
  from leaf_blocks_index(1) obtain b where b: "NewDataBuffer (file_of 16 leaf_blocks) 16 = Ok b"
    "idx_own os_inv os_block os_writable {i. unat i < 16} b (leaf_blocks, {4})" by blast
  have "[5 \<mapsto> \<lparr>DataBlockID = 3, LocalID = 0\<rparr>] = (\<lambda>k. lookup k (inorder (Leafy 4 leaf_es)))"
    by (auto simp: lookup_def leaf_es_def fun_eq_iff)
  then have "index_is os_inv os_block os_writable {i. unat i < 16} 510 680 b (leaf_blocks, {4}) 0 [5 \<mapsto> \<lparr>DataBlockID = 3, LocalID = 0\<rparr>]"
    unfolding index_is_def using b(2) leaf_blocks_index(2) [of 510 680] by (intro conjI disjI1 exI [of _ "Leafy 4 leaf_es"]) simp_all
  with b show thesis by (intro that)
qed

lemma index_insert_refines_update_witness:
  "\<exists>b b' b''. NewDataBuffer (file_of 16 leaf_blocks) 16 = Ok b \<and>
     indexInsert (NewUint32Index osDataFile 680 510) 0 6 \<lparr>DataBlockID = 3, LocalID = 1\<rparr> b = Ok (None, b') \<and>
     indexInsert (NewUint32Index osDataFile 680 510) 0 5 \<lparr>DataBlockID = 3, LocalID = 1\<rparr> b = Ok (Some (ErrKeyExists 5), b'')"
proof -
  obtain b where b: "NewDataBuffer (file_of 16 leaf_blocks) 16 = Ok b"
    "index_is os_inv os_block os_writable {i. unat i < 16} 510 680 b (leaf_blocks, {4}) 0 [5 \<mapsto> \<lparr>DataBlockID = 3, LocalID = 0\<rparr>]"
    by (rule leaf_blocks_map)
  have r: "0 + 3 \<le> card (clear_flags {i. unat i < 16} leaf_blocks)" using leaf_blocks_index(3) by simp
  note I = index_insert_refines_update [OF b(2) _ _ _ _ _ r, of 0]
  from I [of 6 "\<lparr>DataBlockID = 3, LocalID = 1\<rparr>"] I [of 5 "\<lparr>DataBlockID = 3, LocalID = 1\<rparr>"] b(1) show ?thesis by auto
qed

lemma index_insert_find_witness:
  "\<exists>b b' b''. NewDataBuffer (file_of 16 leaf_blocks) 16 = Ok b \<and>
     indexInsert (NewUint32Index osDataFile 680 510) 0 6 \<lparr>DataBlockID = 3, LocalID = 1\<rparr> b = Ok (None, b') \<and>
     indexFind (NewUint32Index osDataFile 680 510) 1 6 b' = Ok ((None, \<lparr>DataBlockID = 3, LocalID = 1\<rparr>), b'')"
proof -
  obtain b where b: "NewDataBuffer (file_of 16 leaf_blocks) 16 = Ok b"
    "index_is os_inv os_block os_writable {i. unat i < 16} 510 680 b (leaf_blocks, {4}) 0 [5 \<mapsto> \<lparr>DataBlockID = 3, LocalID = 0\<rparr>]"
    by (rule leaf_blocks_map)
  have r: "0 + 3 \<le> card (clear_flags {i. unat i < 16} leaf_blocks)" using leaf_blocks_index(3) by simp
  from index_insert_find [OF b(2) _ _ _ _ _ r, of 0 6 "\<lparr>DataBlockID = 3, LocalID = 1\<rparr>"] b(1) show ?thesis by auto
qed

lemma index_all_in_order_witness:
  "\<exists>b b'. NewDataBuffer (file_of 16 leaf_blocks) 16 = Ok b \<and>
     indexAll (NewUint32Index osDataFile 680 510) 1 (\<lambda>acc k r. ret (acc @ [k])) [] b = Ok ([5], b')"
proof -
  obtain b where b: "NewDataBuffer (file_of 16 leaf_blocks) 16 = Ok b"
    "idx_own os_inv os_block os_writable {i. unat i < 16} b (leaf_blocks, {4})"
    by (rule leaf_blocks_map)
  from index_all_in_order [OF b(2) leaf_blocks_index(2) [of 510 680], of 1 680 510 "\<lambda>acc k r. acc @ [k]" "[]"] b(1)
  show ?thesis by (auto simp: leaf_es_def)
qed

end
