(* ===== verification/CommandLine.thy ===== *)
theory CommandLine
  imports Database TreeDump IdxInserts
begin

text \<open>
  The console program, \<open>src/src/cmd/sjdb-cli/main.go\<close>, over the interface of the database in
  \<open>src/src/simplejsondb/simple_json_db.go\<close>: the commands, their arguments and what they print.
  Strings are bytes, as in Go. What is written to the console or handed to the logger is a list of
  events in order; the logger decides by its level which of its entries it shows. The lines
  are those that the line editor returns, up to the error that ends the input.
\<close>

section \<open>The database as the console sees it\<close>

record 'd SimpleJSONDB =
  dbInsert :: "u32 \<Rightarrow> bytes \<Rightarrow> ('d, goerror option) prog"
  dbDelete :: "u32 \<Rightarrow> ('d, goerror option) prog"
  dbFind :: "u32 \<Rightarrow> ('d, goerror + Record) prog"
  dbSearch :: "bytes \<Rightarrow> bytes \<Rightarrow> ('d, goerror + JRecord list) prog"
  dbUpdate :: "u32 \<Rightarrow> bytes \<Rightarrow> ('d, goerror option) prog"
  dbDumpIndex :: "('d, string) prog"
  dbClose :: "('d, goerror option) prog"

text \<open>The dump of the index, and the interface on the model of the database.\<close>

definition indexDump :: "'f index \<Rightarrow> nat \<Rightarrow> ('f, string) buf" where
  "indexDump t n = DumpTree (adapter t) n"

definition DumpIndex :: "'f env \<Rightarrow> ('f, string) buf" where
  "DumpIndex E = indexDump (envIndex E) (envFuel E)"

definition simpleJSONDB :: "'f env \<Rightarrow> (bytes \<Rightarrow> goerror + bytes) \<Rightarrow> (bytes \<Rightarrow> jsonMap \<times> goerror option)
    \<Rightarrow> ('f dataBuffer \<Rightarrow> u16 list) \<Rightarrow> 'f dataBuffer SimpleJSONDB" where
  "simpleJSONDB E compact unmarshal ord =
     \<lparr>dbInsert = InsertRecord compact E, dbDelete = DeleteRecord E, dbFind = FindRecord E,
      dbSearch = (\<lambda>key val. bind (SearchRecords E unmarshal key val) (\<lambda>rs. ret (Inr rs))),
      dbUpdate = UpdateRecord compact E, dbDumpIndex = DumpIndex E, dbClose = closeDB E ord\<rparr>"

section \<open>Strings\<close>

definition str :: "string \<Rightarrow> bytes" where
  "str s = map (\<lambda>c. of_nat (of_char c)) s"

text \<open>\<open>strings.HasPrefix\<close>, \<open>strings.Trim\<close> of spaces, and \<open>strings.SplitN\<close> at spaces into at most \<open>n\<close> parts.\<close>

definition SPACE :: byte where "SPACE = 32"

definition HasPrefix :: "bytes \<Rightarrow> bytes \<Rightarrow> bool" where
  "HasPrefix s p \<longleftrightarrow> take (length p) s = p"

definition Trim :: "bytes \<Rightarrow> bytes" where
  "Trim s = rev (dropWhile (\<lambda>c. c = SPACE) (rev (dropWhile (\<lambda>c. c = SPACE) s)))"

fun SplitN :: "bytes \<Rightarrow> nat \<Rightarrow> bytes list" where
  "SplitN s 0 = []"
| "SplitN s (Suc n) =
     (if n = 0 \<or> SPACE \<notin> set s then [s]
      else takeWhile (\<lambda>c. c \<noteq> SPACE) s # SplitN (drop 1 (dropWhile (\<lambda>c. c \<noteq> SPACE) s)) n)"

text \<open>
  \<open>strconv.ParseUint(s, 10, 32)\<close>: the first character that is not a digit, or the first digit
  that leaves the 32 bits, decides about the error.
\<close>

datatype numError = ErrSyntax | ErrRange

definition digit :: "byte \<Rightarrow> nat option" where
  "digit c = (if 48 \<le> c \<and> c \<le> 57 then Some (unat c - 48) else None)"

fun parseDigits :: "nat \<Rightarrow> bytes \<Rightarrow> numError + nat" where
  "parseDigits n [] = Inr n"
| "parseDigits n (c # cs) =
     (case digit c of
        None \<Rightarrow> Inl ErrSyntax
      | Some v \<Rightarrow> if 2 ^ 32 \<le> n * 10 + v then Inl ErrRange else parseDigits (n * 10 + v) cs)"

definition ParseUint :: "bytes \<Rightarrow> numError + 64 word" where
  "ParseUint s = (if s = [] then Inl ErrSyntax else map_sum id of_nat (parseDigits 0 s))"

section \<open>Events\<close>

datatype logLevel = DebugLevel | InfoLevel | WarnLevel

datatype cliError = NumError bytes numError | DBError goerror

datatype event =
    Usage "string list"
  | LogSetLevel logLevel
  | PrintInvalidLevel bytes
  | LogError cliError
  | LogUnknownCommand bytes
  | LogInvalidRange
  | LogUpdated
  | LogInserting "64 word"
  | LogInserted "64 word"
  | LogDeleting "64 word"
  | LogRemoved "64 word"
  | PrintJSON bytes
  | PrintNoRecords
  | PrintRecord u32 bytes
  | PrintDeleted "64 word"
  | LogDeleted "64 word"
  | PrintTree string

record 'd session =
  sdb :: 'd
  events :: "event list"

text \<open>
  What a command comes to. What was printed before a panic stays printed, and the deferred function
  of \<open>main\<close> still has the database: a crash keeps the events and, unless the panic came from an
  operation of the database, whose state is not known then, the database.
\<close>

datatype ('d, 'a) console =
    Returns 'a "'d session"
  | Crash panic "'d option" "event list"
  | OutOfFuel

type_synonym ('d, 'a) cli = "'d session \<Rightarrow> ('d, 'a) console"

definition cret :: "'a \<Rightarrow> ('d, 'a) cli" where
  "cret a s = Returns a s"

definition cbind :: "('d, 'a) cli \<Rightarrow> ('a \<Rightarrow> ('d, 'b) cli) \<Rightarrow> ('d, 'b) cli" where
  "cbind m f s =
     (case m s of
        Returns a s' \<Rightarrow> f a s'
      | Crash p d es \<Rightarrow> Crash p d es
      | OutOfFuel \<Rightarrow> OutOfFuel)"

definition cseq :: "('d, 'a) cli \<Rightarrow> ('d, 'b) cli \<Rightarrow> ('d, 'b) cli" where
  "cseq m k = cbind m (\<lambda>_. k)"

definition cif :: "bool \<Rightarrow> ('d, unit) cli \<Rightarrow> ('d, unit) cli" where
  "cif b m = (if b then m else cret ())"

definition crash :: "panic \<Rightarrow> ('d, 'a) cli" where
  "crash p s = Crash p (Some (sdb s)) (events s)"

definition say :: "event \<Rightarrow> ('d, unit) cli" where
  "say e s = Returns () (s\<lparr>events := events s @ [e]\<rparr>)"

definition onDB :: "('d, 'a) prog \<Rightarrow> ('d, 'a) cli" where
  "onDB m s =
     (case m (sdb s) of
        Ok (a, d) \<Rightarrow> Returns a (s\<lparr>sdb := d\<rparr>)
      | Panic p \<Rightarrow> Crash p None (events s)
      | NoFuel \<Rightarrow> OutOfFuel)"

lemma cbind_cret [simp]: "cbind (cret a) f = f a" "cseq (cret a) k = k"
  by (simp_all add: fun_eq_iff cbind_def cret_def cseq_def)

lemmas console_simps = cret_def cbind_def cseq_def cif_def crash_def say_def onDB_def

text \<open>\<open>log.Error(err)\<close> when an operation of the database returned an error, and the rest of the handler otherwise.\<close>

fun logged :: "goerror option \<Rightarrow> ('d, unit) cli" where
  "logged None = cret ()"
| "logged (Some err) = say (LogError (DBError err))"

section \<open>The commands\<close>

text \<open>The lines of the usage message; all but the first start with a tab.\<close>

definition usageText :: "string list" where
  "usageText =
     [''Available commands:'',
      ''[TODO] all <first-id> <count>'',
      ''insert <id> <json-string-template>'',
      ''bulk-insert <first-id> <last-id> <json-string-template>'',
      ''update <id> <new-json-string-template>'',
      ''find <id>'',
      ''bulk-delete <first-id> <last-id>'',
      ''delete <id>'',
      ''search <attribute> <value>'',
      ''set-log-level <log-level>'',
      ''[TODO] inspect-block <data-block-id>'',
      ''show-tree'',
      ''exit'']"

definition usage :: "('d, unit) cli" where
  "usage = say (Usage usageText)"

definition setLogLevel :: "bytes \<Rightarrow> ('d, unit) cli" where
  "setLogLevel level =
     (if level = str ''debug'' then say (LogSetLevel DebugLevel)
      else if level = str ''info'' then say (LogSetLevel InfoLevel)
      else if level = str ''warn'' then say (LogSetLevel WarnLevel)
      else say (PrintInvalidLevel level))"

text \<open>Indexing a slice of arguments.\<close>

definition argAt :: "bytes list \<Rightarrow> nat \<Rightarrow> ('d, bytes) cli" where
  "argAt xs i = (if i < length xs then cret (xs ! i) else crash IndexOutOfRange)"

text \<open>After the usage message \<open>insert\<close> and \<open>update\<close> go on.\<close>

definition insertCmd :: "'d SimpleJSONDB \<Rightarrow> bytes \<Rightarrow> ('d, unit) cli" where
  "insertCmd DB args =
     (let idAndJson = SplitN args 2 in
      cseq (cif (length idAndJson \<noteq> 2) usage)
     (cbind (argAt idAndJson 0) (\<lambda>idText.
      case ParseUint idText of
        Inl err \<Rightarrow> say (LogError (NumError idText err))
      | Inr key \<Rightarrow>
          cbind (argAt idAndJson 1) (\<lambda>json.
          cbind (onDB (dbInsert DB (ucast key) json)) logged))))"

definition updateCmd :: "'d SimpleJSONDB \<Rightarrow> bytes \<Rightarrow> ('d, unit) cli" where
  "updateCmd DB args =
     (let idAndJson = SplitN args 2 in
      cseq (cif (length idAndJson \<noteq> 2) usage)
     (cbind (argAt idAndJson 0) (\<lambda>idText.
      case ParseUint idText of
        Inl err \<Rightarrow> say (LogError (NumError idText err))
      | Inr key \<Rightarrow>
          cbind (argAt idAndJson 1) (\<lambda>json.
          cbind (onDB (dbUpdate DB (ucast key) json)) (\<lambda>err.
          cseq (logged err) (say LogUpdated))))))"

text \<open>
  \<open>for id := initialID; id <= lastID; id++\<close> on 64 bits. The body returns false when it leaves the
  handler; so does the loop then.
\<close>

fun bulkLoop :: "nat \<Rightarrow> (64 word \<Rightarrow> ('d, bool) cli) \<Rightarrow> 64 word \<Rightarrow> 64 word \<Rightarrow> ('d, bool) cli" where
  "bulkLoop 0 iteration key lastID = (if key \<le> lastID then (\<lambda>_. OutOfFuel) else cret True)"
| "bulkLoop (Suc n) iteration key lastID =
     (if key \<le> lastID then
        cbind (iteration key) (\<lambda>go. if go then bulkLoop n iteration (key + 1) lastID else cret False)
      else cret True)"

text \<open>The IDs at the start of the arguments of a bulk command.\<close>

definition rangeArgs :: "bytes list \<Rightarrow> (64 word \<Rightarrow> 64 word \<Rightarrow> ('d, unit) cli) \<Rightarrow> ('d, unit) cli" where
  "rangeArgs argsArr k =
     cbind (argAt argsArr 0) (\<lambda>a.
     case ParseUint (Trim a) of
       Inl err \<Rightarrow> say (LogError (NumError (Trim a) err))
     | Inr initialID \<Rightarrow>
         cbind (argAt argsArr 1) (\<lambda>b.
         case ParseUint (Trim b) of
           Inl err \<Rightarrow> say (LogError (NumError (Trim b) err))
         | Inr lastID \<Rightarrow> if initialID > lastID then say LogInvalidRange else k initialID lastID))"

text \<open>The body of a bulk command: a step that fails is logged and ends the command.\<close>

definition bulkStep :: "event \<Rightarrow> ('d, goerror option) prog \<Rightarrow> ('d, bool) cli" where
  "bulkStep e m = cseq (say e) (cbind (onDB m) (\<lambda>err. cseq (logged err) (cret (err = None))))"

definition bulkInsert :: "'d SimpleJSONDB \<Rightarrow> nat \<Rightarrow> bytes \<Rightarrow> ('d, unit) cli" where
  "bulkInsert DB n args =
     (let argsArr = SplitN args 3 in
      if length argsArr \<noteq> 3 then usage
      else rangeArgs argsArr (\<lambda>initialID lastID.
        cbind (argAt argsArr 2) (\<lambda>json.
        cbind (bulkLoop n (\<lambda>key. bulkStep (LogInserting key) (dbInsert DB (ucast key) json)) initialID lastID) (\<lambda>done.
        cif done (say (LogInserted (lastID - initialID + 1)))))))"

definition bulkDelete :: "'d SimpleJSONDB \<Rightarrow> nat \<Rightarrow> bytes \<Rightarrow> ('d, unit) cli" where
  "bulkDelete DB n args =
     (let argsArr = SplitN args 2 in
      if length argsArr \<noteq> 2 then usage
      else rangeArgs argsArr (\<lambda>initialID lastID.
        cbind (bulkLoop n (\<lambda>key. bulkStep (LogDeleting key) (dbDelete DB (ucast key))) initialID lastID) (\<lambda>done.
        cif done (say (LogRemoved (lastID - initialID + 1))))))"

text \<open>\<open>json.Indent\<close> is a parameter: the text that it leaves in the buffer, whose error is dropped.\<close>

definition findCmd :: "'d SimpleJSONDB \<Rightarrow> (bytes \<Rightarrow> bytes) \<Rightarrow> bytes \<Rightarrow> ('d, unit) cli" where
  "findCmd DB indent args =
     (case ParseUint (Trim args) of
        Inl err \<Rightarrow> say (LogError (NumError (Trim args) err))
      | Inr key \<Rightarrow>
          cbind (onDB (dbFind DB (ucast key))) (\<lambda>res. case res of
            Inl err \<Rightarrow> say (LogError (DBError err))
          | Inr r \<Rightarrow> say (PrintJSON (indent (Data r) @ [10]))))"

fun printRecords :: "JRecord list \<Rightarrow> ('d, unit) cli" where
  "printRecords [] = cret ()"
| "printRecords (r # rs) = cseq (say (PrintRecord (jrID r) (jrData r))) (printRecords rs)"

definition searchCmd :: "'d SimpleJSONDB \<Rightarrow> bytes \<Rightarrow> ('d, unit) cli" where
  "searchCmd DB args =
     (let argsArr = SplitN args 3 in
      if length argsArr \<noteq> 2 then usage
      else
        cbind (argAt argsArr 0) (\<lambda>key. cbind (argAt argsArr 1) (\<lambda>val.
        cbind (onDB (dbSearch DB key val)) (\<lambda>res. case res of
          Inl err \<Rightarrow> say (LogError (DBError err))
        | Inr rs \<Rightarrow> if length rs = 0 then say PrintNoRecords else printRecords rs))))"

definition deleteRecordCmd :: "'d SimpleJSONDB \<Rightarrow> bytes \<Rightarrow> ('d, unit) cli" where
  "deleteRecordCmd DB args =
     (case ParseUint (Trim args) of
        Inl err \<Rightarrow> say (LogError (NumError (Trim args) err))
      | Inr key \<Rightarrow>
          cbind (onDB (dbDelete DB (ucast key))) (\<lambda>err. case err of
            Some e \<Rightarrow> say (LogError (DBError e))
          | None \<Rightarrow> cseq (say (PrintDeleted key)) (say (LogDeleted key))))"

definition showTree :: "'d SimpleJSONDB \<Rightarrow> ('d, unit) cli" where
  "showTree DB = cbind (onDB (dbDumpIndex DB)) (\<lambda>text. say (PrintTree text))"

section \<open>The main loop\<close>

text \<open>The cases of the switch in order; the result is false for \<open>exit\<close>.\<close>

definition runLine :: "'d SimpleJSONDB \<Rightarrow> (bytes \<Rightarrow> bytes) \<Rightarrow> nat \<Rightarrow> bytes \<Rightarrow> ('d, bool) cli" where
  "runLine DB indent n input =
     (if HasPrefix input (str ''set-log-level '') then cseq (setLogLevel (Trim (drop 14 input))) (cret True)
      else if HasPrefix input (str ''insert '') then cseq (insertCmd DB (drop 7 input)) (cret True)
      else if HasPrefix input (str ''bulk-insert '') then cseq (bulkInsert DB n (drop 12 input)) (cret True)
      else if HasPrefix input (str ''find '') then cseq (findCmd DB indent (drop 5 input)) (cret True)
      else if HasPrefix input (str ''search '') then cseq (searchCmd DB (drop 7 input)) (cret True)
      else if HasPrefix input (str ''update '') then cseq (updateCmd DB (drop 7 input)) (cret True)
      else if HasPrefix input (str ''delete '') then cseq (deleteRecordCmd DB (drop 7 input)) (cret True)
      else if HasPrefix input (str ''bulk-delete '') then cseq (bulkDelete DB n (drop 12 input)) (cret True)
      else if HasPrefix (Trim input) (str ''show-tree'') then cseq (showTree DB) (cret True)
      else if input = str ''exit'' then cret False
      else if input = str ''help'' then cseq usage (cret True)
      else if input = [] then cret True
      else cseq (say (LogUnknownCommand input)) (cret True))"

fun readLines :: "'d SimpleJSONDB \<Rightarrow> (bytes \<Rightarrow> bytes) \<Rightarrow> nat \<Rightarrow> bytes list \<Rightarrow> ('d, unit) cli" where
  "readLines DB indent n [] = cret ()"
| "readLines DB indent n (input # inputs) =
     cbind (runLine DB indent n input) (\<lambda>go. if go then readLines DB indent n inputs else cret ())"

text \<open>The deferred function: the database is closed, and an error of that is a panic.\<close>

definition closing :: "'d SimpleJSONDB \<Rightarrow> ('d, unit) cli" where
  "closing DB = cbind (onDB (dbClose DB)) (\<lambda>err. case err of Some e \<Rightarrow> crash (PanicError e) | None \<Rightarrow> cret ())"

text \<open>
  \<open>res\<close> is what \<open>sjdb.New\<close> returned. The deferred function runs after the loop and also after a panic
  of a command, which goes on when it is done; a panic of its own takes its place. After a panic
  inside an operation of the database the model does not know the database that is closed.
\<close>

definition cliMain :: "'d SimpleJSONDB \<Rightarrow> (bytes \<Rightarrow> bytes) \<Rightarrow> nat \<Rightarrow> goerror + 'd \<Rightarrow> bytes list
    \<Rightarrow> ('d, unit) console" where
  "cliMain DB indent n res inputs =
     (case res of
        Inl err \<Rightarrow> Crash (PanicError err) None [LogSetLevel WarnLevel]
      | Inr d \<Rightarrow>
          (case readLines DB indent n inputs \<lparr>sdb = d, events = [LogSetLevel WarnLevel]\<rparr> of
             Returns _ s \<Rightarrow> closing DB s
           | Crash p (Some d') es \<Rightarrow> cseq (closing DB) (crash p) \<lparr>sdb = d', events = es\<rparr>
           | Crash p None es \<Rightarrow> Crash p None es
           | OutOfFuel \<Rightarrow> OutOfFuel))"

section \<open>Parsing arguments\<close>

lemma str_simps [simp]: "str [] = []" "str (c # s) = of_nat (of_char c) # str s" "str (s @ t) = str s @ str t"
  by (simp_all add: str_def)

lemma length_str [simp]: "length (str s) = length s"
  by (simp add: str_def)

lemma HasPrefix_simps [simp]: "HasPrefix s []" "\<not> HasPrefix [] (c # p)" "HasPrefix (d # s) (c # p) \<longleftrightarrow> d = c \<and> HasPrefix s p"
  by (simp_all add: HasPrefix_def)

lemma parseDigits_append:
  "parseDigits n (xs @ ys) = (case parseDigits n xs of Inl e \<Rightarrow> Inl e | Inr m \<Rightarrow> parseDigits m ys)"
  by (induction n xs rule: parseDigits.induct) (auto split: option.split)

text \<open>The digits of a number, as \<open>%d\<close> prints them, are read back.\<close>

lemma digit_char: "d < 10 \<Longrightarrow> digit (of_nat (of_char (char_of (48 + d) :: char))) = Some d"
proof -
  assume d: "d < 10"
  then have "unat (of_nat (48 + d) :: byte) = 48 + d" by (simp only: unsigned_of_nat) (simp add: take_bit_nat_eq_self)
  with d show ?thesis by (simp add: digit_def word_le_nat_alt)
qed

lemma decimal_nonempty: "decimal n \<noteq> []"
  by (subst decimal.simps) simp

lemma parse_decimal: "n < 2 ^ 32 \<Longrightarrow> parseDigits 0 (str (decimal n)) = Inr n"
proof (induction n rule: decimal.induct)
  case (1 n)
  show ?case
  proof (cases "n < 10")
    case True
    with digit_char [OF True] 1(2) show ?thesis by (subst decimal.simps) simp
  next
    case False
    then have "parseDigits 0 (str (decimal (n div 10))) = Inr (n div 10)" using 1 by simp
    moreover have "n mod 10 < 10" by simp
    ultimately show ?thesis
      using False digit_char [of "n mod 10"] 1(2)
      by (subst decimal.simps) (simp add: parseDigits_append del: of_char_of)
  qed
qed

lemma ParseUint_decimal: "n < 2 ^ 32 \<Longrightarrow> ParseUint (str (decimal n)) = Inr (of_nat n)"
  using parse_decimal [of n] decimal_nonempty [of n] by (simp add: ParseUint_def str_def)

lemma parseDigits_digits: "parseDigits k cs = Inr m \<Longrightarrow> SPACE \<notin> set cs"
  by (induction k cs rule: parseDigits.induct) (auto simp: digit_def SPACE_def split: option.splits if_splits)

lemma decimal_no_space: "n < 2 ^ 32 \<Longrightarrow> SPACE \<notin> set (str (decimal n))"
  using parse_decimal parseDigits_digits by blast

lemma Trim_no_space: "SPACE \<notin> set s \<Longrightarrow> Trim s = s"
proof -
  assume s: "SPACE \<notin> set s"
  have "dropWhile (\<lambda>c. c = SPACE) xs = xs" if "SPACE \<notin> set xs" for xs :: bytes
    using that by (cases xs) auto
  with s show ?thesis by (simp add: Trim_def)
qed

lemma SplitN_at:
  assumes "SPACE \<notin> set a" "n \<noteq> 0"
  shows "SplitN (a @ SPACE # rest) (Suc n) = a # SplitN rest n"
proof -
  have "takeWhile (\<lambda>c. c \<noteq> SPACE) (a @ SPACE # rest) = a" "dropWhile (\<lambda>c. c \<noteq> SPACE) (a @ SPACE # rest) = SPACE # rest"
    using assms(1) by (auto simp: takeWhile_append dropWhile_append)
  with assms(2) show ?thesis by simp
qed

lemma SplitN_none: "SPACE \<notin> set s \<Longrightarrow> SplitN s (Suc n) = [s]" "SplitN s 1 = [s]"
  by simp_all

section \<open>Bulk commands\<close>

text \<open>
  The reference: an operation on each ID in turn, up to the first error or panic, with the ID where
  that happened.
\<close>

datatype 'd bulkEnd = AllOf 'd | ErrorAt nat goerror 'd | PanicAt nat panic | NoEnd

fun eachUntil :: "(u32 \<Rightarrow> ('d, goerror option) prog) \<Rightarrow> nat list \<Rightarrow> 'd \<Rightarrow> 'd bulkEnd" where
  "eachUntil m [] d = AllOf d"
| "eachUntil m (i # is) d =
     (case m (of_nat i) d of
        Ok (None, d') \<Rightarrow> eachUntil m is d'
      | Ok (Some err, d') \<Rightarrow> ErrorAt i err d'
      | Panic p \<Rightarrow> PanicAt i p
      | NoFuel \<Rightarrow> NoEnd)"

text \<open>
  What a bulk command does to the session: it logs each ID that it comes to, and the error or the
  number of IDs at the end.
\<close>

definition bulkResult :: "'d bulkEnd \<Rightarrow> (64 word \<Rightarrow> event) \<Rightarrow> event \<Rightarrow> nat \<Rightarrow> nat \<Rightarrow> 'd session \<Rightarrow> ('d, bool) console" where
  "bulkResult r e fin a b s =
     (case r of
        AllOf d \<Rightarrow> Returns True (s\<lparr>sdb := d, events := events s @ map (\<lambda>i. e (of_nat i)) [a ..< Suc b] @ [fin]\<rparr>)
      | ErrorAt i err d \<Rightarrow>
          Returns True (s\<lparr>sdb := d,
            events := events s @ map (\<lambda>i. e (of_nat i)) [a ..< Suc i] @ [LogError (DBError err)]\<rparr>)
      | PanicAt i p \<Rightarrow> Crash p None (events s @ map (\<lambda>i. e (of_nat i)) [a ..< Suc i])
      | NoEnd \<Rightarrow> OutOfFuel)"

lemma eachUntil_ids:
  "eachUntil m is d = ErrorAt i err d' \<Longrightarrow> i \<in> set is" "eachUntil m is d = PanicAt i p \<Longrightarrow> i \<in> set is"
  by (induction "is" arbitrary: d) (auto split: outcome.splits prod.splits option.splits)

text \<open>The first ID of a range, logged, and what the rest of the range comes to.\<close>

lemma bulkResult_Cons:
  assumes "a \<le> b" "m (of_nat a) (sdb s) = Ok (None, d)"
  shows "bulkResult (eachUntil m [a ..< Suc b] (sdb s)) e fin a b s =
    bulkResult (eachUntil m [Suc a ..< Suc b] d) e fin (Suc a) b (s\<lparr>events := events s @ [e (of_nat a)], sdb := d\<rparr>)"
proof -
  have u: "[a ..< Suc i] = a # [Suc a ..< Suc i]" if "a \<le> i" for i using that by (simp add: upt_conv_Cons del: upt_Suc)
  let ?r = "eachUntil m [Suc a ..< Suc b] d"
  have r: "eachUntil m [a ..< Suc b] (sdb s) = ?r" using assms by (simp add: u del: upt_Suc)
  have le: "i \<in> set [Suc a ..< Suc b] \<Longrightarrow> a \<le> i" for i unfolding set_upt atLeastLessThan_iff by simp
  show ?thesis
  proof (cases ?r)
    case (ErrorAt i err d')
    have "a \<le> i" by (rule le [OF eachUntil_ids(1) [OF ErrorAt]])
    with ErrorAt show ?thesis unfolding r bulkResult_def by (simp add: u del: upt_Suc)
  next
    case (PanicAt i p)
    have "a \<le> i" by (rule le [OF eachUntil_ids(2) [OF PanicAt]])
    with PanicAt show ?thesis unfolding r bulkResult_def by (simp add: u del: upt_Suc)
  qed (unfold r bulkResult_def, simp_all add: u [OF assms(1)] del: upt_Suc)
qed

lemma ucast_of_nat_u32: "ucast (of_nat i :: 64 word) = (of_nat i :: u32)"
  by (rule bit_word_eqI) (simp add: bit_simps)

lemma bulkLoop_each:
  assumes "b < 2 ^ 32"
  shows "a \<le> b + 1 \<Longrightarrow> b + 1 - a \<le> n \<Longrightarrow>
    cseq (cbind (bulkLoop n (\<lambda>key. bulkStep (e key) (m (ucast key))) (of_nat a) (of_nat b)) (\<lambda>ok. cif ok (say fin))) (cret True) s =
    bulkResult (eachUntil m [a ..< Suc b] (sdb s)) e fin a b s"
proof (induction "b + 1 - a" arbitrary: a n s)
  case 0
  then have "a = b + 1" by simp
  moreover have "\<not> (of_nat (b + 1) :: 64 word) \<le> of_nat b"
    using assms by (simp only: word_le_nat_alt unsigned_of_nat) (simp add: take_bit_nat_eq_self)
  ultimately show ?case
    by (cases n) (simp_all add: bulkResult_def console_simps)
next
  case (Suc d)
  from Suc obtain n' where n: "n = Suc n'" by (cases n) simp_all
  have le: "(of_nat a :: 64 word) \<le> of_nat b" "a \<le> b"
    using assms Suc.hyps(2) by (simp_all only: word_le_nat_alt unsigned_of_nat) (simp_all add: take_bit_nat_eq_self)
  have u: "[a ..< Suc b] = a # [Suc a ..< Suc b]" using le(2) by (simp add: upt_conv_Cons del: upt_Suc)
  let ?s = "\<lambda>d. s\<lparr>events := events s @ [e (of_nat a)], sdb := d\<rparr>"
  have IH: "cseq (cbind (bulkLoop n' (\<lambda>key. bulkStep (e key) (m (ucast key))) (of_nat (Suc a)) (of_nat b)) (\<lambda>ok. cif ok (say fin)))
      (cret True) (?s d') = bulkResult (eachUntil m [Suc a ..< Suc b] (sdb (?s d'))) e fin (Suc a) b (?s d')" for d'
    using Suc.hyps(2) Suc.prems n by (intro Suc.hyps(1)) simp_all
  note B = n bulkStep_def ucast_of_nat_u32 console_simps
  consider (ok) d' where "m (of_nat a) (sdb s) = Ok (None, d')"
    | (error) err d' where "m (of_nat a) (sdb s) = Ok (Some err, d')"
    | (panic) p where "m (of_nat a) (sdb s) = Panic p" | (fuel) "m (of_nat a) (sdb s) = NoFuel"
    by (metis outcome.exhaust option.exhaust surj_pair)
  then show ?case
  proof cases
    case ok
    have "cseq (cbind (bulkLoop n (\<lambda>key. bulkStep (e key) (m (ucast key))) (of_nat a) (of_nat b)) (\<lambda>ok. cif ok (say fin))) (cret True) s =
        cseq (cbind (bulkLoop n' (\<lambda>key. bulkStep (e key) (m (ucast key))) (of_nat (Suc a)) (of_nat b)) (\<lambda>ok. cif ok (say fin)))
          (cret True) (?s d')"
      using le(1) ok by (simp add: B add.commute)
    also have "\<dots> = bulkResult (eachUntil m [a ..< Suc b] (sdb s)) e fin a b s"
      unfolding IH bulkResult_Cons [where m = m, OF le(2) ok] by simp
    finally show ?thesis .
  next
    case error
    with le(1) show ?thesis unfolding u by (simp add: B bulkResult_def)
  next
    case panic
    with le(1) show ?thesis unfolding u by (simp add: B bulkResult_def)
  next
    case fuel
    with le(1) show ?thesis unfolding u by (simp add: B bulkResult_def)
  qed
qed

lemma runLine_bulk:
  "runLine DB indent n (str ''bulk-insert '' @ args) = cseq (bulkInsert DB n args) (cret True)"
  "runLine DB indent n (str ''bulk-delete '' @ args) = cseq (bulkDelete DB n args) (cret True)"
  by (simp_all add: runLine_def)

section \<open>Dumping the index\<close>

context block_file begin

lemma index_dump:
  assumes "own R b x"
  shows "tree_ok lc bc (idx_view x) T n \<Longrightarrow> n \<le> m \<Longrightarrow>
      \<exists>b' x'. indexDump (NewUint32Index D bc' lc') m b = Ok (drawn (idx_view x) '''' T, b') \<and>
        own R b' x' \<and> idx_view x' = idx_view x \<and> idx_other x x'"
    "rootOf (idx_view x) = None \<Longrightarrow> \<exists>b'. indexDump (NewUint32Index D bc' lc') m b = Ok (''EMPTY'', b') \<and> own R b' x"
  using pidx.DumpTree_Ok [OF assms, of lc bc T n m] pidx.load_root [OF assms]
  by (auto simp: indexDump_def NewUint32Index_def newTree_def DumpTree_def bind_def)

end

section \<open>Properties\<close>

text \<open>The text of a command over a range of IDs.\<close>

definition rangeLine :: "string \<Rightarrow> nat \<Rightarrow> nat \<Rightarrow> bytes" where
  "rangeLine cmd a b = str (cmd @ '' '' @ decimal a @ '' '' @ decimal b)"

text \<open>C35: the bulk commands are the single operation on each ID of the range in increasing order, up to
  the first error, which is logged and ends the command with the records before it changed; without an
  error the number of IDs is logged. A panic of an operation ends the program with the IDs up to that one
  logged. The fuel is the number of the IDs.\<close>

theorem bulk_commands_each:
  assumes "a \<le> b" "b < 2 ^ 32" "b - a < n"
  shows "runLine DB indent n (rangeLine ''bulk-insert'' a b @ SPACE # json) s =
      bulkResult (eachUntil (\<lambda>key. dbInsert DB key json) [a ..< Suc b] (sdb s)) LogInserting (LogInserted (of_nat (b - a + 1))) a b s \<and>
    runLine DB indent n (rangeLine ''bulk-delete'' a b) s =
      bulkResult (eachUntil (dbDelete DB) [a ..< Suc b] (sdb s)) LogDeleting (LogRemoved (of_nat (b - a + 1))) a b s"
proof -
  have a: "a < 2 ^ 32" using assms by simp
  note D = decimal_no_space [OF a] decimal_no_space [OF assms(2)]
  note P = ParseUint_decimal [OF a] ParseUint_decimal [OF assms(2)]
  have le: "(of_nat a :: 64 word) \<le> of_nat b" "(of_nat b :: 64 word) - of_nat a + 1 = of_nat (b - a + 1)"
    using assms by (simp only: word_le_nat_alt unsigned_of_nat, simp add: take_bit_nat_eq_self) (simp add: of_nat_diff [OF assms(1)])
  have s3: "SplitN (str (decimal a) @ SPACE # str (decimal b) @ SPACE # json) 3 = [str (decimal a), str (decimal b), json]"
    using SplitN_at [OF D(1), of 2 "str (decimal b) @ SPACE # json"] SplitN_at [OF D(2), of 1 json]
    by (simp add: numeral_3_eq_3 numeral_2_eq_2)
  have s2: "SplitN (str (decimal a) @ SPACE # str (decimal b)) 2 = [str (decimal a), str (decimal b)]"
    using SplitN_at [OF D(1), of 1 "str (decimal b)"] by (simp add: numeral_2_eq_2)
  have l: "a \<le> b + 1" "b + 1 - a \<le> n" using assms by simp_all
  let ?ab = "str (decimal a) @ SPACE # str (decimal b)"
  have r: "rangeLine ''bulk-insert'' a b @ SPACE # json = str ''bulk-insert '' @ (?ab @ SPACE # json)"
    "rangeLine ''bulk-delete'' a b = str ''bulk-delete '' @ ?ab" by (simp_all add: rangeLine_def SPACE_def)
  have "bulkInsert DB n (?ab @ SPACE # json) = cbind (bulkLoop n (\<lambda>key. bulkStep (LogInserting key) (dbInsert DB (ucast key) json))
      (of_nat a) (of_nat b)) (\<lambda>ok. cif ok (say (LogInserted (of_nat (b - a + 1)))))"
    using s3 by (simp add: bulkInsert_def rangeArgs_def argAt_def Trim_no_space D P leD [OF le(1)] le(2) Let_def del: of_nat_add of_nat_Suc)
  then have "runLine DB indent n (rangeLine ''bulk-insert'' a b @ SPACE # json) s =
      bulkResult (eachUntil (\<lambda>key. dbInsert DB key json) [a ..< Suc b] (sdb s)) LogInserting (LogInserted (of_nat (b - a + 1))) a b s"
    using bulkLoop_each [OF assms(2) l, of LogInserting "\<lambda>key. dbInsert DB key json" "LogInserted (of_nat (b - a + 1))" s]
    by (simp only: r runLine_bulk)
  moreover have "bulkDelete DB n ?ab = cbind (bulkLoop n (\<lambda>key. bulkStep (LogDeleting key) (dbDelete DB (ucast key)))
      (of_nat a) (of_nat b)) (\<lambda>ok. cif ok (say (LogRemoved (of_nat (b - a + 1)))))"
    using s2 by (simp add: bulkDelete_def rangeArgs_def argAt_def Trim_no_space D P leD [OF le(1)] le(2) Let_def del: of_nat_add of_nat_Suc)
  then have "runLine DB indent n (rangeLine ''bulk-delete'' a b) s =
      bulkResult (eachUntil (dbDelete DB) [a ..< Suc b] (sdb s)) LogDeleting (LogRemoved (of_nat (b - a + 1))) a b s"
    using bulkLoop_each [OF assms(2) l, of LogDeleting "dbDelete DB" "LogRemoved (of_nat (b - a + 1))" s]
    by (simp only: r runLine_bulk)
  ultimately show ?thesis by (rule conjI)
qed

text \<open>C37: an \<open>insert\<close> or \<open>update\<close> with an ID but no record prints the usage and then panics on the missing
  argument, as the handler does not return, with the database as it was; when the ID does not parse
  the usage and the error of the ID are printed and the loop goes on.\<close>

theorem missing_record_panics:
  assumes "SPACE \<notin> set args"
  shows "runLine DB indent n (str ''insert '' @ args) s =
      (case ParseUint args of
         Inl err \<Rightarrow> Returns True (s\<lparr>events := events s @ [Usage usageText, LogError (NumError args err)]\<rparr>)
       | Inr _ \<Rightarrow> Crash IndexOutOfRange (Some (sdb s)) (events s @ [Usage usageText])) \<and>
    runLine DB indent n (str ''update '' @ args) s =
      (case ParseUint args of
         Inl err \<Rightarrow> Returns True (s\<lparr>events := events s @ [Usage usageText, LogError (NumError args err)]\<rparr>)
       | Inr _ \<Rightarrow> Crash IndexOutOfRange (Some (sdb s)) (events s @ [Usage usageText]))"
proof -
  have "SplitN args 2 = [args]" using SplitN_none(1) [OF assms, of 1] by (simp add: numeral_2_eq_2)
  then have "insertCmd DB args s =
      (case ParseUint args of
         Inl err \<Rightarrow> Returns () (s\<lparr>events := events s @ [Usage usageText, LogError (NumError args err)]\<rparr>)
       | Inr _ \<Rightarrow> Crash IndexOutOfRange (Some (sdb s)) (events s @ [Usage usageText]))"
    "updateCmd DB args s =
      (case ParseUint args of
         Inl err \<Rightarrow> Returns () (s\<lparr>events := events s @ [Usage usageText, LogError (NumError args err)]\<rparr>)
       | Inr _ \<Rightarrow> Crash IndexOutOfRange (Some (sdb s)) (events s @ [Usage usageText]))"
    by (auto simp: insertCmd_def updateCmd_def argAt_def console_simps usage_def split: sum.split)
  then show ?thesis by (simp add: runLine_def console_simps split: sum.split)
qed

text \<open>C34: dumping the index prints its tree, the nodes from the root down with their links and keys,
  \<open>EMPTY\<close> when there is no root, and changes no node and no block of a record. The fuel is the depth
  of the tree.\<close>

theorem dump_draws_index:
  assumes "idx_own os_inv os_block os_writable R b x"
  shows "(\<forall>T n. tree_ok lc bc (idx_view x) T n \<longrightarrow> n \<le> m \<longrightarrow>
      (\<exists>b' x'. indexDump (NewUint32Index osDataFile bc' lc') m b = Ok (drawn (idx_view x) '''' T, b') \<and>
        idx_own os_inv os_block os_writable R b' x' \<and> idx_view x' = idx_view x \<and> idx_other x x')) \<and>
    (rootOf (idx_view x) = None \<longrightarrow>
      (\<exists>b'. indexDump (NewUint32Index osDataFile bc' lc') m b = Ok (''EMPTY'', b') \<and>
        idx_own os_inv os_block os_writable R b' x))"
  using osf.index_dump [OF assms] by blast

section \<open>Witnesses\<close>

text \<open>A database of one map.\<close>

definition mapDB :: "(u32 \<rightharpoonup> bytes) SimpleJSONDB" where
  "mapDB = \<lparr>
     dbInsert = (\<lambda>key json d. Ok (if d key = None then (None, d(key \<mapsto> json)) else (Some (ErrKeyExists key), d))),
     dbDelete = (\<lambda>key d. Ok (if d key = None then (Some (ErrKeyNotFound key), d) else (None, d(key := None)))),
     dbFind = (\<lambda>key d. Ok (case d key of None \<Rightarrow> Inl (ErrKeyNotFound key) | Some t \<Rightarrow> Inr \<lparr>RecID = key, Data = t\<rparr>, d)),
     dbSearch = (\<lambda>key val d. Ok (Inr [], d)),
     dbUpdate = (\<lambda>key json d. Ok (if d key = None then (Some (ErrKeyNotFound key), d) else (None, d(key \<mapsto> json)))),
     dbDumpIndex = (\<lambda>d. Ok ('''', d)), dbClose = (\<lambda>d. Ok (None, d))\<rparr>"

lemma bulk_commands_each_witness:
  "runLine mapDB (\<lambda>t. t) 3 (rangeLine ''bulk-insert'' 2 4 @ SPACE # [65]) \<lparr>sdb = [4 \<mapsto> [66]], events = []\<rparr> =
     Returns True \<lparr>sdb = [2 \<mapsto> [65], 3 \<mapsto> [65], 4 \<mapsto> [66]],
       events = [LogInserting 2, LogInserting 3, LogInserting 4, LogError (DBError (ErrKeyExists 4))]\<rparr>"
proof -
  have "runLine mapDB (\<lambda>t. t) 3 (rangeLine ''bulk-insert'' 2 4 @ SPACE # [65]) \<lparr>sdb = [4 \<mapsto> [66]], events = []\<rparr> =
      bulkResult (eachUntil (\<lambda>key. dbInsert mapDB key [65]) [2 ..< Suc 4] (sdb \<lparr>sdb = [4 \<mapsto> [66]], events = []\<rparr>))
        LogInserting (LogInserted (of_nat (4 - 2 + 1))) 2 4 \<lparr>sdb = [4 \<mapsto> [66]], events = []\<rparr>"
    by (rule bulk_commands_each [THEN conjunct1]) simp_all
  also have "eachUntil (\<lambda>key. dbInsert mapDB key [65]) [2 ..< Suc 4] (sdb \<lparr>sdb = [4 \<mapsto> [66]], events = []\<rparr>) =
      ErrorAt 4 (ErrKeyExists 4) [2 \<mapsto> [65], 3 \<mapsto> [65], 4 \<mapsto> [66]]"
    by (simp add: upt_rec mapDB_def) (simp add: fun_eq_iff)
  also have "bulkResult (ErrorAt 4 (ErrKeyExists 4) [2 \<mapsto> [65], 3 \<mapsto> [65], 4 \<mapsto> [66]]) LogInserting
      (LogInserted (of_nat (4 - 2 + 1))) 2 4 \<lparr>sdb = [4 \<mapsto> [66]], events = []\<rparr> =
    Returns True \<lparr>sdb = [2 \<mapsto> [65], 3 \<mapsto> [65], 4 \<mapsto> [66]],
       events = [LogInserting 2, LogInserting 3, LogInserting 4, LogError (DBError (ErrKeyExists 4))]\<rparr>"
    by (simp add: bulkResult_def upt_rec)
  finally show ?thesis .
qed

lemma missing_record_panics_witness:
  "runLine mapDB (\<lambda>t. t) 0 (str ''insert '' @ str ''7'') \<lparr>sdb = [7 \<mapsto> [65]], events = []\<rparr> =
    Crash IndexOutOfRange (Some [7 \<mapsto> [65]]) [Usage usageText]"
proof -
  have "SPACE \<notin> set (str ''7'')" "ParseUint (str ''7'') = Inr 7"
    by (simp_all add: SPACE_def ParseUint_def digit_def word_le_nat_alt)
  with missing_record_panics [of "str ''7''" mapDB "\<lambda>t. t" 0 "\<lparr>sdb = [7 \<mapsto> [65]], events = []\<rparr>"] show ?thesis by simp
qed

lemma dump_draws_index_witness:
  "\<exists>b b'. NewDataBuffer (file_of 16 leaf_blocks) 16 = Ok b \<and>
     indexDump (NewUint32Index osDataFile 680 510) 0 b =
       Ok (''LEAF (ID=4, parentID=0, left=0, right=0) [5]'' @ newline, b')"
proof -
  obtain b where b: "NewDataBuffer (file_of 16 leaf_blocks) 16 = Ok b"
    "idx_own os_inv os_block os_writable {i. unat i < 16} b (leaf_blocks, {4})"
    by (rule leaf_blocks_map)
  note D = conjunct1 [OF dump_draws_index [OF b(2), of 510 680 0 680 510], rule_format, OF leaf_blocks_index(2)]
  have "drawn (idx_view (leaf_blocks, {4})) '''' (Leafy 4 leaf_es) = ''LEAF (ID=4, parentID=0, left=0, right=0) [5]'' @ newline"
    by (simp add: leaf_blocks_view lineOf_def nodeLine_def listing_def leaf_es_def decimal.simps char_of_eq_iff)
  with D b(1) show ?thesis by auto
qed

end
