(* ===== verification/DatabaseMap.thy ===== *)
theory DatabaseMap
  imports Database IdxInserts RecordAdds
begin

text \<open>
  The database as a map from IDs to texts: what \<open>InsertRecord\<close> and \<open>FindRecord\<close> of
  \<open>src/src/simplejsondb/simple_json_db.go\<close> do to it over the index, the record blocks and the map of
  blocks, that share one file. The blocks are three disjoint sets, the nodes \<open>N\<close>, the record
  blocks \<open>B\<close> and blocks 0 to 2, and the free ones.
\<close>

section \<open>The map that a database holds\<close>

text \<open>
  The index gives each ID a row, where the chain of the record starts; every row is one of a
  record of the database.
\<close>

definition stored_as :: "rowTable \<Rightarrow> (u32 \<rightharpoonup> RowID) \<Rightarrow> (u32 \<rightharpoonup> bytes) \<Rightarrow> bool" where
  "stored_as tab M recs \<longleftrightarrow> dom M = dom recs \<and>
     (\<forall>k r d. M k = Some r \<longrightarrow> recs k = Some d \<longrightarrow> (\<exists>rs. linked tab k r (r # rs) d \<and> length rs \<le> length d)) \<and>
     (\<forall>r x. tab r = Some x \<longrightarrow> fst x \<in> dom recs)"

definition db_is :: "('f \<Rightarrow> bool) \<Rightarrow> ('f \<Rightarrow> u16 \<Rightarrow> bytes) \<Rightarrow> ('f \<Rightarrow> u16 \<Rightarrow> bool) \<Rightarrow> u16 set \<Rightarrow> 'f dataBuffer
    \<Rightarrow> (u16 \<Rightarrow> bytes) \<Rightarrow> u16 set \<Rightarrow> u16 set \<Rightarrow> nat \<Rightarrow> (u32 \<rightharpoonup> bytes) \<Rightarrow> bool" where
  "db_is fi fb wr R b a N B n recs \<longleftrightarrow> N \<inter> B = {} \<and> rec_own fi fb wr R b (a, B) \<and> available a B \<and>
     (\<exists>M. index_is fi fb wr R 510 680 b (a, N) n M \<and> stored_as (rows a B) M recs)"

lemma linked_rid: "linked tab k c rs d \<Longrightarrow> i \<in> set rs \<Longrightarrow> \<exists>x. tab i = Some x \<and> fst x = k"
  by (induction rs arbitrary: c d) auto

lemma stored_as_insert:
  assumes "stored_as tab M recs" "recs k = None" "linked tab' k r (r # is0) d" "length is0 \<le> length d"
    "\<forall>i \<in> set (r # is0). tab i = None" "same_outside tab (set (r # is0)) tab'"
  shows "stored_as tab' (M(k \<mapsto> r)) (recs(k \<mapsto> d))"
  unfolding stored_as_def
proof (intro conjI allI impI)
  have S: "dom M = dom recs" "\<And>k r d. M k = Some r \<Longrightarrow> recs k = Some d \<Longrightarrow> \<exists>rs. linked tab k r (r # rs) d \<and> length rs \<le> length d"
    "\<And>r x. tab r = Some x \<Longrightarrow> fst x \<in> dom recs" using assms(1) unfolding stored_as_def by blast+
  show "dom (M(k \<mapsto> r)) = dom (recs(k \<mapsto> d))" using S(1) by simp
  fix k' r' d' assume m: "(M(k \<mapsto> r)) k' = Some r'" "(recs(k \<mapsto> d)) k' = Some d'"
  show "\<exists>rs. linked tab' k' r' (r' # rs) d' \<and> length rs \<le> length d'"
  proof (cases "k' = k")
    case True
    with m assms(3,4) show ?thesis by auto
  next
    case False
    with m S(2) [of k' r' d'] obtain rs where l: "linked tab k' r' (r' # rs) d'" "length rs \<le> length d'" by auto
    have "linked tab' k' r' (r' # rs) d'"
    proof (rule linked_cong [OF l(1)])
      fix i assume "i \<in> set (r' # rs)"
      with linked_rows [OF l(1)] assms(5) have "i \<notin> set (r # is0)" by blast
      with assms(6) show "tab' i = tab i" by (simp add: same_outside_def)
    qed
    with l(2) show ?thesis by blast
  qed
next
  fix i x assume x: "tab' i = Some x"
  show "fst x \<in> dom (recs(k \<mapsto> d))"
  proof (cases "i \<in> set (r # is0)")
    case True
    with linked_rid [OF assms(3) True] x have "fst x = k" by auto
    then show ?thesis by simp
  next
    case False
    with x assms(6) have "tab i = Some x" by (simp add: same_outside_def)
    with assms(1) have "fst x \<in> dom recs" unfolding stored_as_def by blast
    then show ?thesis by simp
  qed
qed

section \<open>What the two parts leave alone\<close>

text \<open>The allocator keeps the nodes, and the index keeps the record blocks.\<close>

lemma grown_disjoint:
  assumes "grown P (a, S) (a', S')" "U \<subseteq> used a" "S \<inter> U = {}"
  shows "S' \<inter> U = {}" "U \<inter> {0, 1, 2} = {} \<Longrightarrow> i \<in> U \<Longrightarrow> a' i = a i"
proof -
  note G = grownD [OF assms(1), unfolded fst_conv snd_conv]
  show S: "S' \<inter> U = {}" using G(2) assms(2,3) by blast
  show "a' i = a i" if "U \<inter> {0, 1, 2} = {}" "i \<in> U" using G(4) [of i] S that by blast
qed

context block_file begin

lemma rec_keeps_nodes:
  assumes "own R b0 (a, N)" "rown R b (a, B)" "rstep R b (a, B) b' (a', B')" "N \<inter> B = {}"
  shows "own R b' (a', N)" "idx_view (a', N) = idx_view (a, N)" "N \<inter> B' = {}"
proof -
  note I = ownD [OF assms(1)] and O = rownD [OF rstepD(1) [OF assms(3)]] and G = rstepD(3) [OF assms(3)]
  have d: "B \<inter> N = {}" "N \<inter> {0, 1, 2} = {}" using assms(4) I(5) by blast+
  note K = grown_disjoint [OF G I(7) d(1)]
  have same: "a' i = a i" if "i \<in> N" for i using K(2) [OF d(2) that] .
  have u: "N \<subseteq> used a'" using I(7) grownD(3) [OF G] by simp
  have n: "\<forall>i \<in> N. node_ok (a' i)" using I(10) same by simp
  show "own R b' (a', N)" by (rule ownI [OF O(1,2,3) I(5) O(5) u O(8) I(9) n])
  have "u16_at 4 (a' 0) = u16_at 4 (a 0)" "u16_at 6 (a' 0) = u16_at 6 (a 0)"
    using grownD(5) [OF G, of 4] grownD(5) [OF G, of 6] by simp_all
  then show "idx_view (a', N) = idx_view (a, N)" using same by (auto simp: idx_view_def fun_eq_iff)
  show "N \<inter> B' = {}" using K(1) by blast
qed

lemma indexed_same:
  assumes "indexed R lc bc b (a, N) n M" "own R b' (a', N)" "idx_view (a', N) = idx_view (a, N)"
  shows "indexed R lc bc b' (a', N) n M"
  using assms by (simp add: index_is_def)

lemma rown_same:
  assumes "rown R b (a, B)" "st R a b'" "pool R b'"
  shows "rown R b' (a, B)"
proof -
  note O = rownD [OF assms(1)]
  show ?thesis by (rule rownI [OF assms(2,3) O(3-8) _ O(10)]) (use O(9) in blast)
qed

lemma idx_keeps_records:
  assumes "rown R b0 (a, B)" "own R b (a, N)" "own R b' (a', N')" "idx_other (a, N) (a', N')" "N \<inter> B = {}" "available a B"
  shows "rown R b' (a', B)" "rows a' B = rows a B" "available a' B" "N' \<inter> B = {}"
proof -
  note O = rownD [OF assms(1)] and I = ownD [OF assms(3)] and G = grownD [OF assms(4), unfolded fst_conv snd_conv]
  have d: "B \<inter> {0, 1, 2} = {}" using O(4) by blast
  note K = grown_disjoint [OF assms(4) O(6) assms(5)]
  have same: "a' i = a i" if "i \<in> B" for i using K(2) [OF d that] .
  have u: "B \<subseteq> used a'" using O(6) G(3) by simp
  have w: "\<forall>i \<in> B. rb_wf (a' i)" using O(9) same by simp
  have bl: "blank (a' j)" if "j \<in> R" "mapped j" "j \<notin> used a'" for j
  proof -
    have j: "j \<notin> N'" "j \<notin> {0, 1, 2}" "j \<notin> used a" using that(3) I(6,7) G(3) by blast+
    with G(4) [of j] O(10) [OF that(1,2)] show ?thesis by simp
  qed
  show "rown R b' (a', B)" by (rule rownI [OF I(2,3) O(3,4) I(6) u O(7,8) w bl])
  show "rows a' B = rows a B" using same by (auto simp: rows_def fun_eq_iff)
  show "N' \<inter> B = {}" by (rule K(1))
  from assms(6) obtain ps where ps: "path_in a B (u16_at 0 (a 0) # ps)" by (auto simp: available_def)
  have "u16_at 0 (a' 0) = u16_at 0 (a 0)" using G(5) [of 0] by simp
  with path_in_step [OF ps, of a' B] same show "available a' B" by (auto simp: available_def)
qed

lemma own_same:
  assumes "own R b (a, N)" "st R a b'" "pool R b'"
  shows "own R b' (a, N)"
proof -
  note I = ownD [OF assms(1)]
  show ?thesis by (rule ownI [OF assms(2,3) I(4-9)]) (use I(10) in blast)
qed

lemma rec_mark:
  assumes "rown R b (a, B)" "live b h" "ID h \<in> R"
  shows "\<exists>b'. MarkAsDirty (ID h) b = Ok (None, b') \<and> st R a b' \<and> pool R b'"
proof -
  note O = rownD [OF assms(1)]
  note S = stD [OF O(1)]
  have m: "ret () (a (ID h)) = Ok ((), a (ID h))" by simp
  have l: "length (a (ID h)) = DATABLOCK_SIZE" by (rule st_length [OF O(1) assms(3)])
  have "ret () (view b (ID h)) = Ok ((), a (ID h))" using S(3) by simp
  from write_mark [where m = "ret ()", OF S(1) assms(2) S(4) [OF assms(3)] this l]
    rec_read [where m = "ret ()", OF assms(1,2) m] obtain b' where
    w: "MarkAsDirty (ID h) b = Ok (None, b')" "inv b'" "view b' = (view b)(ID h := a (ID h))" "idToFrame b' = idToFrame b"
      "df b' = df b" "bufsize b' = bufsize b" by auto
  with O(1,2) show ?thesis by (auto simp: store_def pool_def)
qed

subsection \<open>The operations\<close>

abbreviation db where "db \<equiv> db_is finv fblk writable"

lemma dbD:
  assumes "db R b a N B n recs"
  obtains M where "rown R b (a, B)" "available a B" "N \<inter> B = {}" "indexed R 510 680 b (a, N) n M" "own R b (a, N)"
    "stored_as (rows a B) M recs"
  using assms that unfolding db_is_def index_is_def by blast

lemma db_same:
  assumes "db R b a N B n recs" "st R a b'" "pool R b'"
  shows "db R b' a N B n recs"
proof -
  obtain M where d: "rown R b (a, B)" "available a B" "N \<inter> B = {}" "indexed R 510 680 b (a, N) n M" "own R b (a, N)"
    "stored_as (rows a B) M recs" by (rule dbD [OF assms(1)])
  have "indexed R 510 680 b' (a, N) n M" by (rule indexed_same [OF d(4) own_same [OF d(5) assms(2,3)] refl])
  with d(2,3,6) rown_same [OF d(1) assms(2,3)] show ?thesis unfolding db_is_def by blast
qed

text \<open>What the index says of an ID, in a database.\<close>

lemma db_lookup:
  assumes "db R b a N B n recs" "stored_as (rows a B) M recs" "indexed R 510 680 b (a, N) n M" "n \<le> m"
  shows "\<exists>b'. indexFind (NewUint32Index D 680 510) m k b =
      Ok (case M k of None \<Rightarrow> (Some (ErrKeyNotFound k), \<lparr>DataBlockID = 0, LocalID = 0\<rparr>) | Some r \<Rightarrow> (None, r), b') \<and>
    db R b' a N B n recs \<and> indexed R 510 680 b' (a, N) n M"
proof -
  from index_find [OF assms(3,4), of 680 510 k] obtain b' where
    b': "indexFind (NewUint32Index D 680 510) m k b =
      Ok (case M k of None \<Rightarrow> (Some (ErrKeyNotFound k), \<lparr>DataBlockID = 0, LocalID = 0\<rparr>) | Some r \<Rightarrow> (None, r), b')"
    "indexed R 510 680 b' (a, N) n M" by auto
  then have "own R b' (a, N)" by (simp add: index_is_def)
  from db_same [OF assms(1) ownD(2,3) [OF this]] b' show ?thesis by blast
qed

lemma stored_as_cases:
  assumes "stored_as tab M recs"
  obtains "M k = None" "recs k = None"
  | r d rs where "M k = Some r" "recs k = Some d" "linked tab k r (r # rs) d" "length rs \<le> length d"
proof (cases "M k")
  case None
  with assms have "k \<notin> dom recs" unfolding stored_as_def by (metis domIff)
  with None that(1) show thesis by auto
next
  case (Some r)
  with assms have "k \<in> dom recs" unfolding stored_as_def by blast
  with Some assms that(2) show thesis unfolding stored_as_def by blast
qed

lemma db_find:
  assumes "db R b a N B n recs" "envFile E = D" "envIndex E = NewUint32Index D 680 510" "n \<le> envFuel E"
    "\<And>d. recs k = Some d \<Longrightarrow> length d \<le> envFuel E"
  shows "\<exists>b'. FindRecord E k b =
      Ok (case recs k of None \<Rightarrow> Inl (ErrKeyNotFound k) | Some d \<Rightarrow> Inr \<lparr>RecID = k, Data = d\<rparr>, b') \<and>
    db R b' a N B n recs"
proof -
  obtain M where d: "rown R b (a, B)" "available a B" "N \<inter> B = {}" "indexed R 510 680 b (a, N) n M" "own R b (a, N)"
    "stored_as (rows a B) M recs" by (rule dbD [OF assms(1)])
  from db_lookup [OF assms(1) d(6,4) assms(4), of k] obtain b1 where
    f: "indexFind (NewUint32Index D 680 510) (envFuel E) k b =
      Ok (case M k of None \<Rightarrow> (Some (ErrKeyNotFound k), \<lparr>DataBlockID = 0, LocalID = 0\<rparr>) | Some r \<Rightarrow> (None, r), b1)"
    "db R b1 a N B n recs" by blast
  show ?thesis
  proof (rule stored_as_cases [OF d(6), of k])
    assume "M k = None" "recs k = None"
    with f assms(3) show ?thesis by (simp add: FindRecord_def Find_def bind_def)
  next
    fix r rs x assume m: "M k = Some r" "recs k = Some x" "linked (rows a B) k r (r # rs) x" "length rs \<le> length x"
    obtain M1 where o1: "rown R b1 (a, B)" by (rule dbD [OF f(2)])
    note O = rownD [OF o1]
    have w: "\<forall>i \<in> B. rb_wf (a i)" using O(9) by blast
    have k: "kept True R {} b1" using O(2) by (simp add: kept_def)
    have l: "length rs \<le> envFuel E" using m(4) assms(5) [OF m(2)] by simp
    from loadRecord_kept [OF O(1) k O(7) w m(3) l, of k] obtain b2 where
      b2: "loadRecord D (envFuel E) k r b1 = Ok (Inr \<lparr>RecID = k, Data = x\<rparr>, b2)" "st R a b2" "pool R b2"
      by (auto simp: kept_def)
    with db_same [OF f(2) b2(2,3)] f(1) m(1,2) assms(2,3) show ?thesis
      by (simp add: FindRecord_def Find_def bind_def)
  qed
qed

text \<open>The start of \<open>Insert\<close>: the control block is marked, and the index is asked for the ID.\<close>

lemma insert_start:
  assumes "db R b a N B n recs" "stored_as (rows a B) M recs" "indexed R 510 680 b (a, N) n M" "envFile E = D"
    "envIndex E = NewUint32Index D 680 510" "n \<le> envFuel E"
  shows "\<exists>b'. db R b' a N B n recs \<and> indexed R 510 680 b' (a, N) n M \<and>
    (\<forall>i. M (RecID r) = Some i \<longrightarrow> DataBlockID i \<noteq> 0 \<longrightarrow> Insert E r b = Ok (Some (ErrKeyExists (RecID r)), b')) \<and>
    (M (RecID r) = None \<longrightarrow> Insert E r b =
       bind (addRecord D (envSort E) (envFuel E) (RecID r) (Data r)) (\<lambda>res. case res of
         Inl err \<Rightarrow> ret (Some err)
       | Inr rowID \<Rightarrow> indexInsert (NewUint32Index D 680 510) (envFuel E) (RecID r) rowID) b')"
proof -
  have o: "rown R b (a, B)" using assms(1) by (simp add: db_is_def)
  then have R: "0 \<in> R" using rownD(3) by blast
  from rec_fetch [OF o R] obtain h b1 where
    h: "fetchBlock D 0 b = Ok (h, b1)" "ID h = 0" "live b1 h" "rstep R b (a, B) b1 (a, B)" by blast
  note o1 = rstepD(1) [OF h(4)]
  have i: "own R b (a, N)" using assms(3) by (simp add: index_is_def)
  from rec_mark [OF o1 h(3)] h(2) R obtain b2 where m: "MarkAsDirty (ID h) b1 = Ok (None, b2)" "st R a b2" "pool R b2" by auto
  have i2: "indexed R 510 680 b2 (a, N) n M"
    by (rule indexed_same [OF assms(3) own_same [OF i m(2,3)] refl])
  from db_lookup [OF db_same [OF assms(1) m(2,3)] assms(2) i2 assms(6), of "RecID r"] obtain b3 where
    f: "indexFind (NewUint32Index D 680 510) (envFuel E) (RecID r) b2 =
      Ok (case M (RecID r) of None \<Rightarrow> (Some (ErrKeyNotFound (RecID r)), \<lparr>DataBlockID = 0, LocalID = 0\<rparr>) | Some r \<Rightarrow> (None, r), b3)"
    "db R b3 a N B n recs" "indexed R 510 680 b3 (a, N) n M" by blast
  show ?thesis
    using h(1) m(1) f assms(4,5)
    by (intro exI [of _ b3] conjI) (auto simp: Insert_def repoControlBlock_def bind_def seq_def)
qed

lemma db_insert_exists:
  assumes "db R b a N B n recs" "envFile E = D" "envIndex E = NewUint32Index D 680 510" "n \<le> envFuel E" "recs (RecID r) \<noteq> None"
  shows "\<exists>b'. Insert E r b = Ok (Some (ErrKeyExists (RecID r)), b') \<and> db R b' a N B n recs"
proof -
  obtain M where d: "indexed R 510 680 b (a, N) n M" "stored_as (rows a B) M recs" by (rule dbD [OF assms(1)])
  from insert_start [OF assms(1) d(2,1) assms(2-4), of r] obtain b' where b': "db R b' a N B n recs"
    "\<And>i. M (RecID r) = Some i \<Longrightarrow> DataBlockID i \<noteq> 0 \<Longrightarrow> Insert E r b = Ok (Some (ErrKeyExists (RecID r)), b')" by blast
  show ?thesis by (rule stored_as_cases [OF d(2), of "RecID r"]) (use assms(5) b' in auto)
qed

lemma db_insert_new:
  assumes "db R b a N B n recs" "envFile E = D" "envIndex E = NewUint32Index D 680 510" "go_sorter (envSort E)"
    "recs k = None" "k \<noteq> 0" "d \<noteq> []" "length d \<le> envFuel E" "65537 \<le> envFuel E" "2 * n \<le> envFuel E"
    "blocks_for (length d) + (n + 3) \<le> card (clear_flags R a)"
  shows "\<exists>b' a' N' B' n'. Insert E \<lparr>RecID = k, Data = d\<rparr> b = Ok (None, b') \<and> db R b' a' N' B' n' (recs(k \<mapsto> d)) \<and> n' \<le> n + 1 \<and>
    card (clear_flags R a) \<le> card (clear_flags R a') + (blocks_for (length d) + (n + 3))"
proof -
  obtain M where m: "available a B" "N \<inter> B = {}" "indexed R 510 680 b (a, N) n M" "stored_as (rows a B) M recs"
    by (rule dbD [OF assms(1)])
  have n: "n \<le> envFuel E" using assms(10) by simp
  have new: "M k = None" by (rule stored_as_cases [OF m(4), of k]) (use assms(5) in simp_all)
  from insert_start [OF assms(1) m(4,3) assms(2,3) n, of "\<lparr>RecID = k, Data = d\<rparr>"] new obtain b1 where
    b1: "db R b1 a N B n recs" "indexed R 510 680 b1 (a, N) n M" "Insert E \<lparr>RecID = k, Data = d\<rparr> b =
      bind (addRecord D (envSort E) (envFuel E) k d) (\<lambda>res. case res of
         Inl err \<Rightarrow> ret (Some err)
       | Inr rowID \<Rightarrow> indexInsert (NewUint32Index D 680 510) (envFuel E) k rowID) b1" by auto
  have o1: "rown R b1 (a, B)" and i1: "own R b1 (a, N)" using b1(1,2) by (simp_all add: db_is_def index_is_def)
  have "\<forall>r x. rows a B r = Some x \<longrightarrow> fst x \<noteq> k"
    using m(4) assms(5) unfolding stored_as_def by (metis domIff)
  note sp = new_spent [OF this]
  have room: "blocks_for (length d) \<le> card (clear_flags R a)" using assms(11) by simp
  from addRecord_Ok [OF assms(4,6,9) o1 m(1) sp assms(7,8) room] obtain b2 a2 B2 r is0 where
    A: "addRecord D (envSort E) (envFuel E) k d b1 = Ok (Inr r, b2)" "rstep R b1 (a, B) b2 (a2, B2)" "available a2 B2"
      "linked (rows a2 B2) k r (r # is0) d" "\<forall>i \<in> set (r # is0). rows a B i = None" "length is0 \<le> length d"
      "card (clear_flags R a) \<le> card (clear_flags R a2) + blocks_for (length d)"
      "same_outside (rows a B) (set (r # is0)) (rows a2 B2)" by blast
  note K = rec_keeps_nodes [OF i1 o1 A(2) m(2)]
  note i2 = indexed_same [OF b1(2) K(1,2)]
  have "idx_room R (a2, N) (n + 3)" using A(7) assms(11) by (simp add: idx_room_def)
  from index_insert_new [OF i2 _ _ _ _ assms(10) this new, of r] obtain b3 x n' where
    I: "indexInsert (NewUint32Index D 680 510) (envFuel E) k r b2 = Ok (None, b3)"
      "indexed R 510 680 b3 x n' (M(k \<mapsto> r))" "n' \<le> n + 1" "idx_other (a2, N) x"
      "\<forall>j. idx_room R (a2, N) (j + (n + 3)) \<longrightarrow> idx_room R x j" by auto
  obtain a3 N3 where x: "x = (a3, N3)" by (cases x)
  have i3: "own R b3 (a3, N3)" using I(2) by (simp add: x index_is_def)
  note L = idx_keeps_records [OF rstepD(1) [OF A(2)] K(1) i3 I(4) [unfolded x] K(3) A(3)]
  have "stored_as (rows a3 B2) (M(k \<mapsto> r)) (recs(k \<mapsto> d))"
    unfolding L(2) by (rule stored_as_insert [OF m(4) assms(5) A(4,6,5,8)])
  with L I(2) have "db R b3 a3 N3 B2 n' (recs(k \<mapsto> d))" unfolding db_is_def x by blast
  moreover have "idx_room R (a3, N3) (card (clear_flags R a2) - (n + 3))"
    using I(5) A(7) assms(11) unfolding x by (simp add: idx_room_def)
  moreover have "Insert E \<lparr>RecID = k, Data = d\<rparr> b = Ok (None, b3)" using b1(3) A(1) I(1) by (simp add: bind_def)
  ultimately show ?thesis using I(3) A(7)
    by (intro exI [of _ b3] exI [of _ a3] exI [of _ N3] exI [of _ B2] exI [of _ n'] conjI) (simp_all add: idx_room_def)
qed

end

section \<open>A new file\<close>

text \<open>What \<open>NewWithDataFile\<close> hands to the actions, but for the buffer.\<close>

definition dbEnv :: "sorter \<Rightarrow> nat \<Rightarrow> osFile env" where
  "dbEnv srt fuel = \<lparr>envFile = osDataFile, envSort = srt, envIndex = NewUint32Index osDataFile 680 510, envFuel = fuel\<rparr>"

lemma dbEnv [simp]:
  "envFile (dbEnv srt fuel) = osDataFile" "envSort (dbEnv srt fuel) = srt" "envFuel (dbEnv srt fuel) = fuel"
  "envIndex (dbEnv srt fuel) = NewUint32Index osDataFile 680 510"
  by (simp_all add: dbEnv_def)

lemma zero_block: "os_block (zero_file m) i = replicate 4096 0"
  by (simp add: os_block_def zero_file_def map_replicate_const block_size_word)

lemma zeros_blank: "blank (replicate 4096 0)"
  by (simp add: blank_def nheaders_def util_of_def next_of_def)

lemma twinD: "twin i j \<Longrightarrow> unat i = unat j \<or> unat i div 8 = unat j div 8 \<and> unat i mod 8 \<le> 1 \<and> unat j mod 8 \<le> 1"
  by (auto simp: twin_def)

lemma eighth:
  assumes "r < 7" "p = 8 * k + r + 1"
  shows "p div 8 = k" "p mod 8 = r + (1 :: nat)"
  using assms div_mult_self4 [of 8 k "r + 1"] mod_mult_self4 [of 8 k "r + 1"] by (simp_all add: add.assoc)

text \<open>Of eight blocks seven have flags of their own.\<close>

lemma clear_flags_count:
  assumes "\<And>j. j \<in> used a \<Longrightarrow> unat j < 4" "n \<le> 256"
  shows "7 * (n div 8) \<le> card (clear_flags {i. unat i < n} a) + 3"
proof -
  let ?S = "{..< n div 8} \<times> {..< 7 :: nat}" and ?f = "\<lambda>(k, r). of_nat (8 * k + r + 1) :: u16"
  let ?C = "clear_flags {i. unat i < n} a"
  have u: "unat (?f (k, r)) = 8 * k + r + 1" "8 * k + r + 1 < n" if "(k, r) \<in> ?S" for k r
  proof -
    have k: "k + 1 \<le> n div 8" "r < 7" using that by auto
    have "8 * (k + 1) \<le> 8 * (n div 8)" using k(1) by (rule mult_le_mono2)
    also have "\<dots> \<le> n" by simp
    finally show "8 * k + r + 1 < n" using k(2) by simp
    with assms(2) show "unat (?f (k, r)) = 8 * k + r + 1" by (simp only: prod.case unat_of_nat) simp
  qed
  have "inj_on (flag_of \<circ> ?f) ?S"
  proof (rule inj_onI)
    fix x y assume xy: "x \<in> ?S" "y \<in> ?S" "(flag_of \<circ> ?f) x = (flag_of \<circ> ?f) y"
    obtain k r k' r' where p: "x = (k, r)" "y = (k', r')" by (cases x, cases y)
    have t: "twin (?f x) (?f y)" using xy(3) by (simp only: twin_flag_of o_apply)
    have "unat (?f x) = 8 * k + r + 1" "unat (?f y) = 8 * k' + r' + 1" "r < 7" "r' < 7"
      using u(1) xy(1,2) unfolding p by (simp_all only: mem_Sigma_iff lessThan_iff)
    note e = eighth [OF this(3,1)] eighth [OF this(4,2)]
    from twinD [OF t] e have "k = k' \<and> r = r'" by auto
    then show "x = y" unfolding p by simp
  qed
  then have "card ((flag_of \<circ> ?f) ` ?S) = card ?S" by (rule card_image)
  moreover have "card ?S = 7 * (n div 8)" by simp
  moreover have "(flag_of \<circ> ?f) ` ?S \<subseteq> ?C \<union> flag_of ` {1, 2, 3}"
  proof
    fix z assume "z \<in> (flag_of \<circ> ?f) ` ?S"
    then obtain k r where z: "(k, r) \<in> ?S" "z = flag_of (?f (k, r))" by auto
    note U = u [OF z(1)]
    show "z \<in> ?C \<union> flag_of ` {1, 2, 3}"
    proof (cases "?f (k, r) \<in> used a")
      case True
      with assms(1) U(1) have "unat (?f (k, r)) \<in> {1, 2, 3}" by fastforce
      then have "?f (k, r) \<in> {1, 2, 3}" unfolding unat_u16_eq_iff [symmetric] insert_iff by simp
      with z(2) show ?thesis by blast
    next
      case False
      have "unat (?f (k, r)) < n" "mapped (?f (k, r))"
        using U assms(2) unfolding mapped_def by (simp_all only:) (simp add: block_size_word)
      with z(2) False show ?thesis unfolding clear_flags_def by blast
    qed
  qed
  moreover have f: "finite ?C" unfolding clear_flags_def by (rule finite_imageI) (rule finite_subset [OF subset_UNIV], simp)
  ultimately have "7 * (n div 8) \<le> card (?C \<union> flag_of ` {1, 2, 3})"
    by (metis card_mono finite_UnI finite_imageI finite.emptyI finite.insertI)
  also have "\<dots> \<le> card ?C + card (flag_of ` {1, 2, 3 :: u16})" by (rule card_Un_le)
  also have "card (flag_of ` {1, 2, 3 :: u16}) \<le> 3" by (rule order_trans [OF card_image_le]) (simp_all add: card_insert_if)
  finally show ?thesis by simp
qed

lemma open_new:
  assumes "4 \<le> n" "n \<le> 256" "n \<le> m" "\<And>c. set (ord c) = dom (idToFrame c)"
  obtains b a where "NewWithDataFile osDataFile ord srt fuel (zero_file m) =
      Ok (Inr (b, dbEnv srt fuel))"
    "db_is os_inv os_block os_writable {i. unat i < n} b a {} {3} 0 Map.empty"
    "7 * (n div 8) \<le> card (clear_flags {i. unat i < n} a) + 3"
proof -
  let ?R = "{i :: u16. unat i < n}" and ?z = "replicate 4096 0 :: bytes"
  have R: "{0, 1, 2} \<subseteq> ?R" "3 \<in> ?R" "{0, 1} \<subseteq> ?R" "\<forall>j \<in> ?R. \<forall>i. unat i \<le> unat j \<longrightarrow> i \<in> ?R" using assms(1) by auto
  have "\<forall>i \<in> ?R. os_writable (zero_file m) i" "u16_at 0 (os_block (zero_file m) 0) = 0"
    using assms(3) by (simp_all add: zero_block)
  from osf.Format_new [of "zero_file m" ?R ord, OF _ this(1) R(3) this(2) assms(4)] obtain f d where
    f: "FormatDataFileIfNeeded osDataFile ord (zero_file m) = Ok (None, f)" "os_inv f" "\<forall>i \<in> ?R. os_writable f i"
      "os_block f = (os_block (zero_file m))(0 := formatted ?z, 1 := d)"
      "in_use (os_block f) = (\<lambda>j. unat j < 4 \<or> in_use (os_block (zero_file m)) j)" by (auto simp: zero_block)
  define a where "a = os_block f"
  have a0: "a 0 = formatted ?z" and az: "\<And>i. i \<notin> {0, 1} \<Longrightarrow> a i = ?z" by (simp_all add: a_def f(4) zero_block)
  note F = Format_Ok [of ?z, unfolded block_size_word(2), OF length_replicate]
  have "\<not> in_use (os_block (zero_file m)) j" for j by (auto simp: in_use_def slots_def zero_block)
  with f(5) have u: "j \<in> used a \<longleftrightarrow> mapped j \<and> unat j < 4" for j by (simp add: used_def a_def)
  have us: "{0, 1, 2} \<subseteq> used a" "3 \<in> used a" by (simp_all add: u mapped_def block_size_word)
  obtain b where b: "NewDataBuffer f 256 = Ok b" using osf.NewDataBuffer_Ok [OF f(2), of 256] by auto
  have "card ?R \<le> nat 256" using card_below [of n] assms(2) by simp
  from osf.st_new(1) [OF b f(2) _ f(3) this] have s: "store os_inv os_block os_writable ?R a b" "pool ?R b"
    by (simp_all add: a_def)
  have bl: "blank (a j)" if "j \<notin> used a" for j
  proof -
    have "j \<notin> {0, 1}" using that us by blast
    then show ?thesis by (simp add: az zeros_blank)
  qed
  have own: "rec_own os_inv os_block os_writable ?R b (a, {3})"
    by (rule osf.rownI [OF s R(1) _ us(1) _ _ R(4)]) (use us(2) R(2) bl in \<open>simp_all add: az zeros_wf\<close>)
  have "idx_own os_inv os_block os_writable ?R b (a, {})"
    by (rule osf.ownI [OF s R(1) _ us(1) _ R(4)]) simp_all
  moreover have "rootOf (idx_view (a, {})) = None" "firstOf (idx_view (a, {})) = 0" by (simp_all add: idx_view_def a0 F)
  ultimately have i: "index_is os_inv os_block os_writable ?R 510 680 b (a, {}) 0 Map.empty" by (simp add: index_is_def)
  have "rows a {3} r = None" for r by (simp add: rows_def az zeros_wf)
  then have st: "stored_as (rows a {3}) Map.empty Map.empty" by (simp add: stored_as_def)
  have "path_in a {3} [3]" by (simp add: path_in_def az next_of_def)
  then have av: "available a {3}" unfolding available_def a0 F by blast
  have "db_is os_inv os_block os_writable ?R b a {} {3} 0 Map.empty"
    unfolding db_is_def using own av i st by blast
  moreover have "7 * (n div 8) \<le> card (clear_flags ?R a) + 3"
    by (rule clear_flags_count [OF _ assms(2)]) (simp add: u)
  moreover have "NewWithDataFile osDataFile ord srt fuel (zero_file m) =
      Ok (Inr (b, dbEnv srt fuel))"
    using f(1) b by (simp add: dbEnv_def NewWithDataFile_def BUFFER_SIZE_def BTREE_IDX_BRANCH_MAX_ENTRIES_def BTREE_IDX_LEAF_MAX_ENTRIES_def)
  ultimately show thesis by (intro that)
qed

section \<open>Properties\<close>

text \<open>C9: opening a new file of zeros, of any size from four blocks on, formats it into an empty
  database: no node, one empty record block, and the free blocks among the first \<open>n\<close>, that the 256
  frames of the buffer can hold, have at least seven flags for every eight blocks, less three.\<close>

theorem new_database_empty:
  assumes "4 \<le> n" "n \<le> 256" "n \<le> m" "\<And>c. set (ord c) = dom (idToFrame c)"
  shows "\<exists>b a. NewWithDataFile osDataFile ord srt fuel (zero_file m) = Ok (Inr (b, dbEnv srt fuel)) \<and>
    db_is os_inv os_block os_writable {i. unat i < n} b a {} {3} 0 Map.empty \<and>
    7 * (n div 8) \<le> card (clear_flags {i. unat i < n} a) + 3"
  by (rule open_new [OF assms, where srt = srt and fuel = fuel]) blast

text \<open>C1: \<open>InsertRecord\<close> refines the update of a map from IDs to texts: a new ID with the compacted text is
  added, over as many record blocks and nodes as it takes, with at most the free blocks that the
  text and a split of the whole path of the index ask for, and the records before are all kept;
  an ID that exists is reported and changes nothing. The fuel is the longest list of blocks and the depth.\<close>

theorem insert_refines_update:
  assumes "db_is os_inv os_block os_writable R b a N B n recs" "go_sorter srt" "compact txt = Inr d" "k \<noteq> 0" "d \<noteq> []"
    "length d \<le> fuel" "65537 \<le> fuel" "2 * n \<le> fuel" "blocks_for (length d) + (n + 3) \<le> card (clear_flags R a)"
  shows "if recs k = None then
      (\<exists>b' a' N' B' n'. InsertRecord compact (dbEnv srt fuel) k txt b = Ok (None, b') \<and>
        db_is os_inv os_block os_writable R b' a' N' B' n' (recs(k \<mapsto> d)) \<and> n' \<le> n + 1 \<and>
        card (clear_flags R a) \<le> card (clear_flags R a') + (blocks_for (length d) + (n + 3)))
    else
      (\<exists>b'. InsertRecord compact (dbEnv srt fuel) k txt b = Ok (Some (ErrKeyExists k), b') \<and>
        db_is os_inv os_block os_writable R b' a N B n recs)"
proof (cases "recs k = None")
  case True
  have "go_sorter (envSort (dbEnv srt fuel))" using assms(2) by simp
  from osf.db_insert_new [OF assms(1) _ _ this True assms(4,5)] assms(6-9) True show ?thesis
    by (simp add: InsertRecord_def assms(3))
next
  case False
  from osf.db_insert_exists [OF assms(1), of "dbEnv srt fuel" "\<lparr>RecID = k, Data = d\<rparr>"] assms(8) False show ?thesis
    by (auto simp: InsertRecord_def assms(3))
qed

text \<open>C7: \<open>FindRecord\<close> refines the lookup: it returns the text that is stored under the ID, or reports that
  there is none, and the database is the same. The fuel is the depth of the index and the length of the text.\<close>

theorem find_refines_lookup:
  assumes "db_is os_inv os_block os_writable R b a N B n recs" "n \<le> fuel" "\<And>d. recs k = Some d \<Longrightarrow> length d \<le> fuel"
  shows "\<exists>b'. FindRecord (dbEnv srt fuel) k b =
      Ok (case recs k of None \<Rightarrow> Inl (ErrKeyNotFound k) | Some d \<Rightarrow> Inr \<lparr>RecID = k, Data = d\<rparr>, b') \<and>
    db_is os_inv os_block os_writable R b' a N B n recs"
  using osf.db_find [OF assms(1), of "dbEnv srt fuel" k] assms(2,3) by simp

section \<open>Witnesses\<close>

lemma new_file:
  obtains b a where "NewWithDataFile osDataFile key_order (sort_key startsAt) fuel (zero_file 65536) = Ok (Inr (b, dbEnv (sort_key startsAt) fuel))"
    "db_is os_inv os_block os_writable {i. unat i < 256} b a {} {3} 0 Map.empty"
    "221 \<le> card (clear_flags {i. unat i < 256} a)"
  by (rule open_new [of 256 65536 key_order "sort_key startsAt" fuel]) (simp_all add: set_key_order)

lemma new_database_empty_witness:
  "\<exists>b a. NewWithDataFile osDataFile key_order (sort_key startsAt) 0 (zero_file 65536) = Ok (Inr (b, dbEnv (sort_key startsAt) 0)) \<and>
     db_is os_inv os_block os_writable {i. unat i < 256} b a {} {3} 0 Map.empty"
  using new_database_empty [of 256 65536 key_order "sort_key startsAt" 0, OF _ _ _ set_key_order] by auto

lemma insert_refines_update_witness:
  "\<exists>b b' a' N' B' n'. NewWithDataFile osDataFile key_order (sort_key startsAt) 65537 (zero_file 65536) = Ok (Inr (b, dbEnv (sort_key startsAt) 65537)) \<and>
     InsertRecord Inr (dbEnv (sort_key startsAt) 65537) 7 (replicate 5000 1) b = Ok (None, b') \<and>
     db_is os_inv os_block os_writable {i. unat i < 256} b' a' N' B' n' [7 \<mapsto> replicate 5000 1]"
proof -
  obtain b a where b: "NewWithDataFile osDataFile key_order (sort_key startsAt) 65537 (zero_file 65536) = Ok (Inr (b, dbEnv (sort_key startsAt) 65537))"
    "db_is os_inv os_block os_writable {i. unat i < 256} b a {} {3} 0 Map.empty"
    "221 \<le> card (clear_flags {i. unat i < 256} a)" by (rule new_file)
  from insert_refines_update [OF b(2) stable.go_sorter_axioms, of Inr "replicate 5000 1" "replicate 5000 1" 7 65537] b(1,3)
  show ?thesis by (auto simp: blocks_for_def) blast
qed

lemma find_refines_lookup_witness:
  "\<exists>b b' b'' b3. NewWithDataFile osDataFile key_order (sort_key startsAt) 65537 (zero_file 65536) = Ok (Inr (b, dbEnv (sort_key startsAt) 65537)) \<and>
     InsertRecord Inr (dbEnv (sort_key startsAt) 65537) 7 (replicate 5000 1) b = Ok (None, b') \<and>
     FindRecord (dbEnv (sort_key startsAt) 65537) 7 b' = Ok (Inr \<lparr>RecID = 7, Data = replicate 5000 1\<rparr>, b'') \<and>
     FindRecord (dbEnv (sort_key startsAt) 65537) 8 b' = Ok (Inl (ErrKeyNotFound 8), b3)"
proof -
  obtain b a where b: "NewWithDataFile osDataFile key_order (sort_key startsAt) 65537 (zero_file 65536) = Ok (Inr (b, dbEnv (sort_key startsAt) 65537))"
    "db_is os_inv os_block os_writable {i. unat i < 256} b a {} {3} 0 Map.empty"
    "221 \<le> card (clear_flags {i. unat i < 256} a)" by (rule new_file)
  have "go_sorter (envSort (dbEnv (sort_key startsAt) 65537))" by (simp add: stable.go_sorter_axioms)
  from osf.db_insert_new [OF b(2) _ _ this, of 7 "replicate 5000 1"] b(3) obtain b' a' N' B' n' where
    i: "Insert (dbEnv (sort_key startsAt) 65537) \<lparr>RecID = 7, Data = replicate 5000 1\<rparr> b = Ok (None, b')"
      "db_is os_inv os_block os_writable {i. unat i < 256} b' a' N' B' n' [7 \<mapsto> replicate 5000 1]" "n' \<le> 1"
    by (auto simp: blocks_for_def)
  from find_refines_lookup [OF i(2), of 65537 7 "sort_key startsAt"] find_refines_lookup [OF i(2), of 65537 8 "sort_key startsAt"] i(1,3) b(1)
  show ?thesis by (auto simp: InsertRecord_def)
qed

lemma record_add_load_witness:
  "\<exists>b b' b'' r. NewWithDataFile osDataFile key_order (sort_key startsAt) 65537 (zero_file 65536) = Ok (Inr (b, dbEnv (sort_key startsAt) 65537)) \<and>
     addRecord osDataFile (sort_key startsAt) 65537 7 (replicate 5000 1) b = Ok (Inr r, b') \<and>
     loadRecord osDataFile 65537 7 r b' = Ok (Inr \<lparr>RecID = 7, Data = replicate 5000 1\<rparr>, b'')"
proof -
  obtain b a where b: "NewWithDataFile osDataFile key_order (sort_key startsAt) 65537 (zero_file 65536) = Ok (Inr (b, dbEnv (sort_key startsAt) 65537))"
    "db_is os_inv os_block os_writable {i. unat i < 256} b a {} {3} 0 Map.empty"
    "221 \<le> card (clear_flags {i. unat i < 256} a)" by (rule new_file)
  from b(2) have d: "rec_own os_inv os_block os_writable {i. unat i < 256} b (a, {3})" "available a {3}"
    "\<forall>r x. rows a {3} r = Some x \<longrightarrow> fst x \<noteq> 7" by (auto simp: db_is_def stored_as_def)
  from record_add_load [OF d(1,2) stable.go_sorter_axioms _ _ d(3), of "replicate 5000 1" 65537] b(1,3)
  show ?thesis by (auto simp: blocks_for_def)
qed

end
