(* ===== verification/DatabaseSearch.thy ===== *)
theory DatabaseSearch
  imports DatabaseMap
begin

text \<open>
  Searching the database, \<open>src/src/simplejsondb/actions/search.go\<close>: the iteration over the index loads and
  decodes every record, in the order of the IDs, while the handle of a leaf is in use.
\<close>

section \<open>The entries of a map in order\<close>

definition listed :: "(u32 \<rightharpoonup> 'i) \<Rightarrow> 'i LeafEntry list" where
  "listed M = map (\<lambda>k. \<lparr>leKey = k, leItem = the (M k)\<rparr>) (sorted_list_of_set (dom M))"

lemma listedD:
  assumes "e \<in> set (listed M)"
  shows "M (leKey e) = Some (leItem e)"
proof -
  from assms obtain k where k: "k \<in> dom M" "e = \<lparr>leKey = k, leItem = the (M k)\<rparr>"
    by (auto simp: listed_def)
  then show ?thesis by auto
qed

lemma lookup_sorted:
  assumes "sorted_wrt (<) (map leKey es)" "e \<in> set es"
  shows "lookup (leKey e) es = Some (leItem e)"
proof -
  have "distinct (map leKey es)" using assms(1) strict_sorted_iff by blast
  then show ?thesis using assms(2) by (force simp: lookup_def o_def intro: map_of_is_SomeI)
qed

lemma listed_lookup:
  assumes "sorted_wrt (<) (map leKey es)"
  shows "listed (\<lambda>k. lookup k es) = es"
proof -
  have d: "dom (\<lambda>k. lookup k es) = set (map leKey es)" by (simp add: lookup_def dom_map_of_conv_image_fst image_image)
  have "sorted_list_of_set (set (map leKey es)) = map leKey es"
    using assms sorted_list_of_set.idem_if_sorted_distinct [of "map leKey es"] strict_sorted_iff by blast
  then have "listed (\<lambda>k. lookup k es) = map (\<lambda>e. \<lparr>leKey = leKey e, leItem = the (lookup (leKey e) es)\<rparr>) es"
    unfolding listed_def d by simp
  also have "\<dots> = es" using lookup_sorted [OF assms] by (intro map_idI) simp
  finally show ?thesis .
qed

lemma leaves_bound:
  assumes "tree_shape H T n"
  shows "length (leaves_in T) \<le> 65536"
proof -
  note D = tree_shapeD [OF assms]
  have m: "map fst (leaves_in T) = lev n T" by (rule leaves_lev [OF D(5)])
  have "length (lev n T) = card (set (lev n T))" using distinct_lev [OF D(1), of n] by (simp add: distinct_card)
  also have "\<dots> \<le> card (UNIV :: u16 set)" by (intro card_mono) simp_all
  also have "\<dots> = 65536" by (simp add: card_word)
  finally show ?thesis unfolding m [symmetric] by simp
qed

section \<open>Searching\<close>

text \<open>The records with the value under the key, in the order of their IDs, with their decoded text.\<close>

definition hasValue :: "(bytes \<Rightarrow> jsonMap \<times> goerror option) \<Rightarrow> bytes \<Rightarrow> bytes \<Rightarrow> bytes \<Rightarrow> bool" where
  "hasValue unmarshal key val d \<longleftrightarrow> fst (unmarshal d) key = Some (JString val)"

definition decoded :: "(bytes \<Rightarrow> jsonMap \<times> goerror option) \<Rightarrow> u32 \<Rightarrow> bytes \<Rightarrow> JRecord" where
  "decoded unmarshal k d = \<lparr>jrID = k, jrData = d, parsedJSON = Some (fst (unmarshal d))\<rparr>"

definition matches :: "(bytes \<Rightarrow> jsonMap \<times> goerror option) \<Rightarrow> bytes \<Rightarrow> bytes \<Rightarrow> (u32 \<rightharpoonup> bytes) \<Rightarrow> JRecord list" where
  "matches unmarshal key val recs = map (\<lambda>k. decoded unmarshal k (the (recs k)))
     (filter (\<lambda>k. hasValue unmarshal key val (the (recs k))) (sorted_list_of_set (dom recs)))"

definition searchAcc :: "(bytes \<Rightarrow> jsonMap \<times> goerror option) \<Rightarrow> bytes \<Rightarrow> bytes \<Rightarrow> (u32 \<rightharpoonup> bytes)
    \<Rightarrow> JRecord list \<Rightarrow> RowID LeafEntry \<Rightarrow> JRecord list" where
  "searchAcc unmarshal key val recs acc e =
     (if hasValue unmarshal key val (the (recs (leKey e)))
      then acc @ [decoded unmarshal (leKey e) (the (recs (leKey e)))] else acc)"

lemma searchAcc_fold:
  "foldl (searchAcc unmarshal key val recs) acc es = acc @ map (\<lambda>k. decoded unmarshal k (the (recs k)))
     (filter (\<lambda>k. hasValue unmarshal key val (the (recs k))) (map leKey es))"
  by (induction es arbitrary: acc) (simp_all add: searchAcc_def)

lemma searchAcc_matches:
  assumes "dom M = dom recs"
  shows "foldl (searchAcc unmarshal key val recs) [] (listed M) = matches unmarshal key val recs"
  by (simp add: searchAcc_fold matches_def listed_def assms o_def)

lemma searchStep_eval:
  assumes "loadRecord (envFile E) (envFuel E) k r b = Ok (Inr \<lparr>RecID = k, Data = d\<rparr>, b')" "snd (unmarshal d) = None"
  shows "searchStep E unmarshal key val acc k r b =
    Ok (if hasValue unmarshal key val d then acc @ [decoded unmarshal k d] else acc, b')"
  using assms
  by (cases "unmarshal d")
    (auto simp: searchStep_def bind_def ParseJSON_def hasValue_def decoded_def split: option.split)

section \<open>Visiting the index\<close>

context block_file begin

lemma own_LoadFirstLeaf_nil:
  assumes "own R b x" "firstOf (idx_view x) = 0"
  shows "\<exists>b'. idx_LoadFirstLeaf D b = Ok (None, b') \<and> own R b' x"
proof -
  obtain a N where x: "x = (a, N)" by (cases x)
  have f: "u16_at 6 (a 0) = 0" using assms(2) by (simp add: x idx_view_def)
  have "FirstLeaf (a 0) = Ok (0, a 0)"
    using ownD(11) [OF assms(1) [unfolded x]] f by (simp add: FirstLeaf_def control_pos ReadUint16_Ok)
  from own_control_read [where m = FirstLeaf, OF assms(1) [unfolded x] this] obtain cb b1 where
    "repoControlBlock D b = Ok (cb, b1)" "own R b1 x" "onBlock cb FirstLeaf b1 = Ok (0, b1)" by (auto simp: x wrote_def)
  then show ?thesis
    by (intro exI [of _ b1]) (simp add: idx_LoadFirstLeaf_def idx_LoadLeaf_def loadIndexNode_def bind_def)
qed

lemma index_all:
  assumes "indexed R lc bc b x n M" "65536 \<le> m" "pidx.steady R x f iterator (listed M)"
  shows "\<exists>b'. treeAll (NewUint32Index D bc' lc') m iterator acc b = Ok (foldl f acc (listed M), b') \<and> own R b' x"
proof -
  have A: "adapter (NewUint32Index D bc' lc') = idxAdapter D" by (simp add: NewUint32Index_def newTree_def)
  have o: "own R b x" using assms(1) by (simp add: index_is_def)
  from assms(1) consider T where "tree_ok lc bc (idx_view x) T n" "M = (\<lambda>k. lookup k (inorder T))"
    | "firstOf (idx_view x) = 0" "M = Map.empty" by (auto simp: index_is_def)
  then show ?thesis
  proof cases
    case 1
    have s: "tree_shape (idx_view x) T n" using 1(1) by (simp add: tree_ok_def)
    have e: "listed M = inorder T"
      unfolding 1(2) by (rule listed_lookup [OF line_inorder [OF tree_shapeD(3) [OF s]]])
    have "length (leaves_in T) \<le> m" using leaves_bound [OF s] assms(2) by simp
    from pidx.treeAll_steps [OF A assms(3) [unfolded e] o 1(1) this] show ?thesis unfolding e .
  next
    case 2
    have "listed M = []" by (simp add: 2(2) listed_def)
    moreover from own_LoadFirstLeaf_nil [OF o 2(1)] obtain b' where "idx_LoadFirstLeaf D b = Ok (None, b')" "own R b' x" by blast
    ultimately show ?thesis
      by (intro exI [of _ b']) (simp add: treeAll_def A bind_def)
  qed
qed

lemma own_calm:
  assumes "own R b (a, N)" "st R a b'" "pool R b'" "\<forall>g. live b g \<longrightarrow> live b' g"
  shows "pidx.calm R (a, N) b b'"
  unfolding pidx.calm_def
proof (intro conjI allI impI)
  show "own R b' (a, N)" by (rule own_same [OF assms(1-3)])
  fix h i assume "held b h i"
  then show "held b' h i" by (rule held_step [OF ownD(2) [OF assms(1)] assms(2,4), rotated]) simp
qed

lemma search_steady:
  assumes "db R b a N B n recs" "stored_as (rows a B) M recs" "envFile E = D"
    "\<And>k d. recs k = Some d \<Longrightarrow> length d \<le> envFuel E \<and> snd (unmarshal d) = None"
  shows "pidx.steady R (a, N) (searchAcc unmarshal key val recs)
    (\<lambda>acc e. searchStep E unmarshal key val acc (leKey e) (leItem e)) (listed M)"
  unfolding pidx.steady_def
proof (intro ballI allI impI)
  fix e acc s assume e: "e \<in> set (listed M)" and s: "own R s (a, N)"
  have o: "rown R b (a, B)" using assms(1) by (simp add: db_is_def)
  note I = ownD [OF s]
  note O = rownD [OF rown_same [OF o I(2,3)]]
  show "\<exists>s'. searchStep E unmarshal key val acc (leKey e) (leItem e) s = Ok (searchAcc unmarshal key val recs acc e, s') \<and>
    pidx.calm R (a, N) s s'"
  proof (rule stored_as_cases [OF assms(2), of "leKey e"])
    fix r d rs assume m: "M (leKey e) = Some r" "recs (leKey e) = Some d" "linked (rows a B) (leKey e) r (r # rs) d" "length rs \<le> length d"
    have r: "r = leItem e" using m(1) listedD [OF e] by simp
    have w: "\<forall>i \<in> B. rb_wf (a i)" using O(9) by blast
    have k: "kept True R {g. live s g} s" using I(3) by (simp add: kept_def)
    have l: "length rs \<le> envFuel E" using m(4) assms(4) [OF m(2)] by simp
    from loadRecord_kept [OF I(2) k O(7) w m(3) l, of "leKey e"] obtain s' where
      s': "loadRecord D (envFuel E) (leKey e) r s = Ok (Inr \<lparr>RecID = leKey e, Data = d\<rparr>, s')" "st R a s'" "pool R s'"
        "\<forall>g. live s g \<longrightarrow> live s' g" by (auto simp: kept_def)
    have "snd (unmarshal d) = None" using assms(4) [OF m(2)] by simp
    from searchStep_eval [where unmarshal = unmarshal, OF s'(1) [folded assms(3)] this] own_calm [OF s s'(2-4)] show ?thesis
      by (simp add: searchAcc_def m(2) r)
  qed (use listedD [OF e] in simp)
qed

lemma db_search:
  assumes "db R b a N B n recs" "envFile E = D" "envIndex E = NewUint32Index D 680 510" "65536 \<le> envFuel E"
    "\<And>k d. recs k = Some d \<Longrightarrow> length d \<le> envFuel E \<and> snd (unmarshal d) = None"
  shows "\<exists>b'. SearchRecords E unmarshal key val b = Ok (matches unmarshal key val recs, b') \<and> db R b' a N B n recs"
proof -
  obtain M where m: "indexed R 510 680 b (a, N) n M" "stored_as (rows a B) M recs" by (rule dbD [OF assms(1)])
  have d: "dom M = dom recs" using m(2) by (simp add: stored_as_def)
  have s: "pidx.steady R (a, N) (searchAcc unmarshal key val recs)
    (\<lambda>acc e. searchStep E unmarshal key val acc (leKey e) (leItem e)) (listed M)"
    by (rule search_steady [OF assms(1) m(2) assms(2)]) (rule assms(5))
  from index_all [OF m(1) assms(4) s, of 680 510 "[]"] obtain b' where
    "treeAll (NewUint32Index D 680 510) (envFuel E) (\<lambda>acc e. searchStep E unmarshal key val acc (leKey e) (leItem e)) [] b =
      Ok (matches unmarshal key val recs, b')" "own R b' (a, N)" unfolding searchAcc_matches [OF d] by blast
  with db_same [OF assms(1) ownD(2,3) [OF this(2)]] show ?thesis
    by (auto simp: SearchRecords_def Search_def indexAll_def assms(3))
qed

end

section \<open>Properties\<close>

text \<open>C8: \<open>SearchRecords\<close> returns the records whose decoded text has the value under the key, all of them,
  in the order of their IDs, each with its text and the decoded map, and the database is the same, when every
  text in it can be decoded (else it panics). The fuel is more than an index has leaves.\<close>

theorem search_refines_filter:
  assumes "db_is os_inv os_block os_writable R b a N B n recs" "65536 \<le> fuel"
    "\<forall>k d. recs k = Some d \<longrightarrow> length d \<le> fuel \<and> snd (unmarshal d) = None"
  shows "\<exists>b'. SearchRecords (dbEnv srt fuel) unmarshal key val b = Ok (matches unmarshal key val recs, b') \<and>
    db_is os_inv os_block os_writable R b' a N B n recs"
  using osf.db_search [OF assms(1), of "dbEnv srt fuel" unmarshal key val] assms(2,3) by simp

lemma search_refines_filter_witness:
  "\<exists>b b' b''. NewWithDataFile osDataFile key_order (sort_key startsAt) 65537 (zero_file 65536) =
       Ok (Inr (b, dbEnv (sort_key startsAt) 65537)) \<and>
     InsertRecord Inr (dbEnv (sort_key startsAt) 65537) 7 [1, 2] b = Ok (None, b') \<and>
     SearchRecords (dbEnv (sort_key startsAt) 65537) (\<lambda>d. ([[1] \<mapsto> JString (drop 1 d)], None)) [1] [2] b' =
       Ok ([\<lparr>jrID = 7, jrData = [1, 2], parsedJSON = Some [[1] \<mapsto> JString [2]]\<rparr>], b'')"
proof -
  let ?u = "\<lambda>d. ([[1] \<mapsto> JString (drop 1 d)], None)"
  obtain b a where b: "NewWithDataFile osDataFile key_order (sort_key startsAt) 65537 (zero_file 65536) =
      Ok (Inr (b, dbEnv (sort_key startsAt) 65537))"
    "db_is os_inv os_block os_writable {i. unat i < 256} b a {} {3} 0 Map.empty"
    "221 \<le> card (clear_flags {i. unat i < 256} a)" by (rule new_file)
  have "go_sorter (envSort (dbEnv (sort_key startsAt) 65537))" by (simp add: stable.go_sorter_axioms)
  from osf.db_insert_new [OF b(2) _ _ this, of 7 "[1, 2]"] b(3) obtain b' a' N' B' n' where
    i: "Insert (dbEnv (sort_key startsAt) 65537) \<lparr>RecID = 7, Data = [1, 2]\<rparr> b = Ok (None, b')"
      "db_is os_inv os_block os_writable {i. unat i < 256} b' a' N' B' n' [7 \<mapsto> [1, 2]]"
    by (auto simp: blocks_for_def)
  have m: "matches ?u [1] [2] [7 \<mapsto> [1, 2]] = [\<lparr>jrID = 7, jrData = [1, 2], parsedJSON = Some [[1] \<mapsto> JString [2]]\<rparr>]"
    by (simp add: matches_def hasValue_def decoded_def)
  have c: "\<forall>k d. [7 \<mapsto> [1, 2]] k = Some d \<longrightarrow> length d \<le> 65537 \<and> snd (?u d) = None" by simp
  have "65536 \<le> (65537 :: nat)" by simp
  from search_refines_filter [where unmarshal = ?u and key = "[1]" and val = "[2]" and srt = "sort_key startsAt",
      OF i(2) this c] obtain b'' where
    "SearchRecords (dbEnv (sort_key startsAt) 65537) ?u [1] [2] b' = Ok (matches ?u [1] [2] [7 \<mapsto> [1, 2]], b'')" by blast
  with i(1) b(1) show ?thesis unfolding m by (simp add: InsertRecord_def)
qed

end
