(* ===== verification/ConsoleSession.thy ===== *)
theory ConsoleSession
  imports CommandLine DatabaseSearch
begin

text \<open>
  The console of \<open>src/src/cmd/sjdb-cli/main.go\<close> on the database of \<open>src/src/simplejsondb/simple_json_db.go\<close>: a
  session of lines that insert, find and search is answered as a map from IDs to texts would, ends with
  the file synchronised and closed, and leaves a file from which the same map is opened again.
\<close>

section \<open>Requests and their answers\<close>

text \<open>The lines of a session, and what a map from IDs to texts answers to them.\<close>

datatype request =
    InsertReq u32 bytes
  | FindReq u32
  | SearchReq bytes bytes
  | HelpReq

fun reqLine :: "request \<Rightarrow> bytes" where
  "reqLine (InsertReq k json) = str ''insert '' @ str (decimal (unat k)) @ SPACE # json"
| "reqLine (FindReq k) = str ''find '' @ str (decimal (unat k))"
| "reqLine (SearchReq key val) = str ''search '' @ key @ SPACE # val"
| "reqLine HelpReq = str ''help''"

record libs =
  compactOf :: "bytes \<Rightarrow> goerror + bytes"
  indentOf :: "bytes \<Rightarrow> bytes"
  unmarshalOf :: "bytes \<Rightarrow> jsonMap \<times> goerror option"

definition found :: "JRecord list \<Rightarrow> event list" where
  "found rs = (if rs = [] then [PrintNoRecords] else map (\<lambda>r. PrintRecord (jrID r) (jrData r)) rs)"

fun answer :: "libs \<Rightarrow> (u32 \<rightharpoonup> bytes) \<Rightarrow> request \<Rightarrow> event list \<times> (u32 \<rightharpoonup> bytes)" where
  "answer L recs (InsertReq k json) =
     (case compactOf L json of
        Inl err \<Rightarrow> ([LogError (DBError err)], recs)
      | Inr d \<Rightarrow>
          if recs k = None then ([], recs(k \<mapsto> d)) else ([LogError (DBError (ErrKeyExists k))], recs))"
| "answer L recs (FindReq k) =
     ([case recs k of None \<Rightarrow> LogError (DBError (ErrKeyNotFound k)) | Some d \<Rightarrow> PrintJSON (indentOf L d @ [10])], recs)"
| "answer L recs (SearchReq key val) = (found (matches (unmarshalOf L) key val recs), recs)"
| "answer L recs HelpReq = ([Usage usageText], recs)"

fun answers :: "libs \<Rightarrow> (u32 \<rightharpoonup> bytes) \<Rightarrow> request list \<Rightarrow> event list \<times> (u32 \<rightharpoonup> bytes)" where
  "answers L recs [] = ([], recs)"
| "answers L recs (r # rs) =
     (let (es, recs') = answer L recs r; (fs, recs'') = answers L recs' rs in (es @ fs, recs''))"

text \<open>
  The texts that a session can hold: decoded without an error, not empty, and no longer than the fuel.
  A request names no record 0, and the words of a search have no spaces. Every insertion may take the
  blocks of its text and of a split of the whole path of the index, which it may make deeper by one.
\<close>

definition text_ok :: "libs \<Rightarrow> nat \<Rightarrow> bytes \<Rightarrow> bool" where
  "text_ok L fuel d \<longleftrightarrow> d \<noteq> [] \<and> length d \<le> fuel \<and> snd (unmarshalOf L d) = None"

fun req_ok :: "libs \<Rightarrow> nat \<Rightarrow> request \<Rightarrow> bool" where
  "req_ok L fuel (InsertReq k json) \<longleftrightarrow>
     k \<noteq> 0 \<and> (case compactOf L json of Inl _ \<Rightarrow> True | Inr d \<Rightarrow> text_ok L fuel d)"
| "req_ok L fuel (SearchReq key val) \<longleftrightarrow> SPACE \<notin> set key \<and> SPACE \<notin> set val"
| "req_ok L fuel _ \<longleftrightarrow> True"

fun req_cost :: "libs \<Rightarrow> nat \<Rightarrow> request \<Rightarrow> nat" where
  "req_cost L n (InsertReq k json) = (case compactOf L json of Inl _ \<Rightarrow> 0 | Inr d \<Rightarrow> blocks_for (length d) + (n + 3))"
| "req_cost L n _ = 0"

fun req_grow :: "request \<Rightarrow> nat" where
  "req_grow (InsertReq k json) = 1"
| "req_grow _ = 0"

fun room_for :: "libs \<Rightarrow> nat \<Rightarrow> request list \<Rightarrow> nat" where
  "room_for L n [] = 0"
| "room_for L n (r # rs) = req_cost L n r + room_for L (n + req_grow r) rs"

lemma req_cost_mono: "n \<le> m \<Longrightarrow> req_cost L n r \<le> req_cost L m r"
  by (cases r) (auto split: sum.split)

lemma room_for_mono: "n \<le> m \<Longrightarrow> room_for L n rs \<le> room_for L m rs"
  by (induction rs arbitrary: n m) (auto intro!: add_mono req_cost_mono)

section \<open>A line\<close>

lemma parse_id: "ParseUint (str (decimal (unat k))) = Inr (of_nat (unat (k :: u32)))"
  "SPACE \<notin> set (str (decimal (unat k)))" "ucast (of_nat (unat k) :: 64 word) = k"
proof -
  have "unat k < 2 ^ 32" using unsigned_less [of k, where ?'a = nat] by simp
  then show "ParseUint (str (decimal (unat k))) = Inr (of_nat (unat k))" "SPACE \<notin> set (str (decimal (unat k)))"
    by (rule ParseUint_decimal, rule decimal_no_space)
qed (simp add: ucast_of_nat_u32)

lemma printRecords_run: "printRecords rs s = Returns () (s\<lparr>events := events s @ map (\<lambda>r. PrintRecord (jrID r) (jrData r)) rs\<rparr>)"
  by (induction rs arbitrary: s) (simp_all add: console_simps)

lemma runLine_request:
  "runLine DB indent m (reqLine (InsertReq k json)) = cseq (cbind (onDB (dbInsert DB k json)) logged) (cret True)"
  "runLine DB indent m (reqLine (FindReq k)) = cseq (cbind (onDB (dbFind DB k)) (\<lambda>res. case res of
     Inl err \<Rightarrow> say (LogError (DBError err)) | Inr r \<Rightarrow> say (PrintJSON (indent (Data r) @ [10])))) (cret True)"
  "SPACE \<notin> set key \<Longrightarrow> SPACE \<notin> set val \<Longrightarrow> runLine DB indent m (reqLine (SearchReq key val)) =
     cseq (cbind (onDB (dbSearch DB key val)) (\<lambda>res. case res of
       Inl err \<Rightarrow> say (LogError (DBError err))
     | Inr rs \<Rightarrow> if length rs = 0 then say PrintNoRecords else printRecords rs)) (cret True)"
  "runLine DB indent m (reqLine HelpReq) = cseq usage (cret True)"
  "runLine DB indent m (str ''exit'') = cret False"
proof -
  have "SplitN (str (decimal (unat k)) @ SPACE # json) 2 = [str (decimal (unat k)), json]"
    using SplitN_at [OF parse_id(2), of 1 k json] by (simp add: numeral_2_eq_2)
  then show "runLine DB indent m (reqLine (InsertReq k json)) = cseq (cbind (onDB (dbInsert DB k json)) logged) (cret True)"
    by (simp add: runLine_def insertCmd_def argAt_def cif_def parse_id Let_def)
  show "runLine DB indent m (reqLine (FindReq k)) = cseq (cbind (onDB (dbFind DB k)) (\<lambda>res. case res of
     Inl err \<Rightarrow> say (LogError (DBError err)) | Inr r \<Rightarrow> say (PrintJSON (indent (Data r) @ [10])))) (cret True)"
    by (simp add: runLine_def findCmd_def Trim_no_space parse_id)
  assume w: "SPACE \<notin> set key" "SPACE \<notin> set val"
  have "SplitN (key @ SPACE # val) 3 = [key, val]"
    using SplitN_at [OF w(1), of 2 val] SplitN_none(1) [OF w(2), of 1] by (simp add: numeral_2_eq_2 numeral_3_eq_3)
  then show "runLine DB indent m (reqLine (SearchReq key val)) =
     cseq (cbind (onDB (dbSearch DB key val)) (\<lambda>res. case res of
       Inl err \<Rightarrow> say (LogError (DBError err))
     | Inr rs \<Rightarrow> if length rs = 0 then say PrintNoRecords else printRecords rs)) (cret True)"
    by (simp add: runLine_def searchCmd_def argAt_def Let_def cong: sum.case_cong)
qed (simp_all add: runLine_def Trim_def)

section \<open>A session\<close>

abbreviation os_db where "os_db \<equiv> db_is os_inv os_block os_writable"

abbreviation osDB :: "sorter \<Rightarrow> nat \<Rightarrow> libs \<Rightarrow> (osFile dataBuffer \<Rightarrow> u16 list) \<Rightarrow> osFile dataBuffer SimpleJSONDB" where
  "osDB srt fuel L ord \<equiv> simpleJSONDB (dbEnv srt fuel) (compactOf L) (unmarshalOf L) ord"

definition texts_ok :: "libs \<Rightarrow> nat \<Rightarrow> (u32 \<rightharpoonup> bytes) \<Rightarrow> bool" where
  "texts_ok L fuel recs \<longleftrightarrow> (\<forall>d \<in> ran recs. text_ok L fuel d)"

lemma texts_okD: "texts_ok L fuel recs \<Longrightarrow> recs k = Some d \<Longrightarrow> length d \<le> fuel \<and> snd (unmarshalOf L d) = None"
  by (auto simp: texts_ok_def text_ok_def ran_def)

lemma answer_texts_ok:
  "texts_ok L fuel recs \<Longrightarrow> req_ok L fuel r \<Longrightarrow> texts_ok L fuel (snd (answer L recs r))"
  by (cases r) (auto simp: texts_ok_def ran_def split: sum.splits if_splits)

lemma request_step:
  assumes "os_db R b a N B n recs" "go_sorter srt" "texts_ok L fuel recs" "req_ok L fuel r"
    "65537 \<le> fuel" "2 * n \<le> fuel" "req_cost L n r \<le> card (clear_flags R a)"
  shows "\<exists>b' a' N' B' n'. runLine (osDB srt fuel L ord) (indentOf L) m (reqLine r) \<lparr>sdb = b, events = es\<rparr> =
      Returns True \<lparr>sdb = b', events = es @ fst (answer L recs r)\<rparr> \<and>
    os_db R b' a' N' B' n' (snd (answer L recs r)) \<and> n' \<le> n + req_grow r \<and>
    card (clear_flags R a) \<le> card (clear_flags R a') + req_cost L n r"
proof (cases r)
  case (InsertReq k json)
  show ?thesis
  proof (cases "compactOf L json")
    case (Inl err)
    with InsertReq assms(1) show ?thesis
      by (intro exI [of _ b] exI [of _ a] exI [of _ N] exI [of _ B] exI [of _ n])
        (simp add: runLine_request(1) simpleJSONDB_def InsertRecord_def console_simps del: reqLine.simps)
  next
    case (Inr d)
    note ok = assms(4,7) [unfolded InsertReq req_ok.simps req_cost.simps Inr sum.case text_ok_def]
    have run: "InsertRecord (compactOf L) (dbEnv srt fuel) k json = Insert (dbEnv srt fuel) \<lparr>RecID = k, Data = d\<rparr>"
      by (simp add: InsertRecord_def Inr)
    show ?thesis
    proof (cases "recs k = None")
      case True
      have "go_sorter (envSort (dbEnv srt fuel))" using assms(2) by simp
      from osf.db_insert_new [where d = d, OF assms(1) _ _ this True] ok assms(5,6) obtain b' a' N' B' n' where
        "Insert (dbEnv srt fuel) \<lparr>RecID = k, Data = d\<rparr> b = Ok (None, b')" "os_db R b' a' N' B' n' (recs(k \<mapsto> d))"
        "n' \<le> n + 1" "card (clear_flags R a) \<le> card (clear_flags R a') + (blocks_for (length d) + (n + 3))" by auto
      with InsertReq Inr True run show ?thesis
        by (intro exI [of _ b'] exI [of _ a'] exI [of _ N'] exI [of _ B'] exI [of _ n'])
          (simp add: runLine_request(1) simpleJSONDB_def console_simps del: reqLine.simps)
    next
      case False
      from osf.db_insert_exists [OF assms(1), of "dbEnv srt fuel" "\<lparr>RecID = k, Data = d\<rparr>"] assms(6) False obtain b' where
        "Insert (dbEnv srt fuel) \<lparr>RecID = k, Data = d\<rparr> b = Ok (Some (ErrKeyExists k), b')" "os_db R b' a N B n recs" by auto
      with InsertReq Inr False run show ?thesis
        by (intro exI [of _ b'] exI [of _ a] exI [of _ N] exI [of _ B] exI [of _ n])
          (auto simp: runLine_request(1) simpleJSONDB_def console_simps simp del: reqLine.simps)
    qed
  qed
next
  case (FindReq k)
  from osf.db_find [OF assms(1), of "dbEnv srt fuel" k] assms(6) texts_okD [OF assms(3)] obtain b' where
    "FindRecord (dbEnv srt fuel) k b =
      Ok (case recs k of None \<Rightarrow> Inl (ErrKeyNotFound k) | Some d \<Rightarrow> Inr \<lparr>RecID = k, Data = d\<rparr>, b')"
    "os_db R b' a N B n recs" by auto
  with FindReq show ?thesis
    by (intro exI [of _ b'] exI [of _ a] exI [of _ N] exI [of _ B] exI [of _ n])
      (simp add: runLine_request(2) simpleJSONDB_def console_simps del: reqLine.simps split: option.split)
next
  case (SearchReq key val)
  have "\<exists>b'. SearchRecords (dbEnv srt fuel) (unmarshalOf L) key val b = Ok (matches (unmarshalOf L) key val recs, b') \<and>
      os_db R b' a N B n recs"
    by (rule osf.db_search [OF assms(1)]) (use assms(5) texts_okD [OF assms(3)] in \<open>simp_all del: split_paired_Ex\<close>)
  then obtain b' where
    "SearchRecords (dbEnv srt fuel) (unmarshalOf L) key val b = Ok (matches (unmarshalOf L) key val recs, b')"
    "os_db R b' a N B n recs" by blast
  with SearchReq assms(4) show ?thesis
    by (intro exI [of _ b'] exI [of _ a] exI [of _ N] exI [of _ B] exI [of _ n])
      (simp add: runLine_request(3) simpleJSONDB_def console_simps bind_def found_def printRecords_run del: reqLine.simps)
next
  case HelpReq
  with assms(1) show ?thesis
    by (intro exI [of _ b] exI [of _ a] exI [of _ N] exI [of _ B] exI [of _ n])
      (simp add: runLine_request(4) usage_def console_simps del: reqLine.simps)
qed

text \<open>The end of the lines: the line editor reports an error, or the line is \<open>exit\<close>.\<close>

definition last_lines :: "bytes list \<Rightarrow> bool" where
  "last_lines inputs \<longleftrightarrow> inputs = [] \<or> hd inputs = str ''exit''"

lemma session_run:
  assumes "os_db R b a N B n recs" "go_sorter srt" "texts_ok L fuel recs" "\<forall>r \<in> set reqs. req_ok L fuel r"
    "65537 \<le> fuel" "2 * (n + length reqs) \<le> fuel" "room_for L n reqs \<le> card (clear_flags R a)" "last_lines rest"
  shows "\<exists>b' a' N' B' n'. readLines (osDB srt fuel L ord) (indentOf L) m (map reqLine reqs @ rest) \<lparr>sdb = b, events = es\<rparr> =
      Returns () \<lparr>sdb = b', events = es @ fst (answers L recs reqs)\<rparr> \<and>
    os_db R b' a' N' B' n' (snd (answers L recs reqs))"
  using assms(1,3-7)
proof (induction reqs arbitrary: b a N B n recs es)
  case Nil
  have "readLines (osDB srt fuel L ord) (indentOf L) m rest s = Returns () s" for s
  proof (cases rest)
    case (Cons input inputs)
    then have "input = str ''exit''" using assms(8) by (simp only: last_lines_def list.sel) blast
    then show ?thesis unfolding Cons readLines.simps by (simp only: runLine_request(5) cbind_cret if_False) (simp add: cret_def)
  qed (simp add: cret_def)
  with Nil(1) show ?case by auto
next
  case (Cons r reqs)
  have f: "2 * n \<le> fuel" "req_cost L n r \<le> card (clear_flags R a)" "req_ok L fuel r" using Cons.prems by simp_all
  from request_step [OF Cons.prems(1) assms(2) Cons.prems(2) f(3) assms(5) f(1,2), of ord m es] obtain b1 a1 N1 B1 n1 where
    1: "runLine (osDB srt fuel L ord) (indentOf L) m (reqLine r) \<lparr>sdb = b, events = es\<rparr> =
      Returns True \<lparr>sdb = b1, events = es @ fst (answer L recs r)\<rparr>"
    "os_db R b1 a1 N1 B1 n1 (snd (answer L recs r))" "n1 \<le> n + req_grow r"
    "card (clear_flags R a) \<le> card (clear_flags R a1) + req_cost L n r" by blast
  have g: "req_grow r \<le> 1" by (cases r) simp_all
  have "texts_ok L fuel (snd (answer L recs r))" by (rule answer_texts_ok [OF Cons.prems(2) f(3)])
  moreover have "2 * (n1 + length reqs) \<le> fuel" using 1(3) g Cons.prems(5) by simp
  moreover have "room_for L n1 reqs \<le> card (clear_flags R a1)"
    using room_for_mono [OF 1(3), of L reqs] 1(4) Cons.prems(6) by simp
  ultimately obtain b' a' N' B' n' where
    2: "readLines (osDB srt fuel L ord) (indentOf L) m (map reqLine reqs @ rest) \<lparr>sdb = b1, events = es @ fst (answer L recs r)\<rparr> =
      Returns () \<lparr>sdb = b', events = (es @ fst (answer L recs r)) @ fst (answers L (snd (answer L recs r)) reqs)\<rparr>"
    "os_db R b' a' N' B' n' (snd (answers L (snd (answer L recs r)) reqs))"
    using Cons.IH [OF 1(2)] Cons.prems(3,4) by fastforce
  then show ?case
    using 1(1) by (intro exI [of _ b'] exI [of _ a'] exI [of _ N'] exI [of _ B'] exI [of _ n'])
      (simp add: cbind_def Let_def case_prod_unfold)
qed

section \<open>Closing and opening again\<close>

text \<open>The same file, opened again: the offset is 0.\<close>

definition reopened :: "osFile \<Rightarrow> osFile" where
  "reopened f = f\<lparr>fopen := True, foffset := 0\<rparr>"

lemma reopened_same:
  assumes "fopen f"
  shows "reopened (f\<lparr>fopen := False\<rparr>) = reopened f" "os_inv (reopened f) = os_inv f" "os_block (reopened f) = os_block f"
    "os_writable (reopened f) = os_writable f"
  using assms by (simp_all add: reopened_def os_inv_def os_block_def os_writable_def os_readable_def file_fault_def fun_eq_iff)

lemma close_reopen:
  assumes "os_db R b a N B n recs" "card R \<le> 256" "\<And>c. set (ord c) = dom (idToFrame c)"
  shows "\<exists>e s. closing (osDB srt fuel L ord) \<lparr>sdb = b, events = es\<rparr> =
      (case e of None \<Rightarrow> Returns () s | Some err \<Rightarrow> Crash (PanicError err) (Some (sdb s)) (events s)) \<and>
    events s = es \<and>
    (\<exists>b'. NewWithDataFile osDataFile ord srt fuel (reopened (df (sdb s))) = Ok (Inr (b', dbEnv srt fuel)) \<and>
      os_db R b' a N B n recs)"
proof -
  have o: "rec_own os_inv os_block os_writable R b (a, B)" "available a B" using assms(1) by (simp_all add: db_is_def)
  note O = osf.rownD [OF o(1)]
  note S = osf.stD [OF O(1)]
  from osf.Sync_Ok [OF S(1), of "ord b"] assms(3) obtain b1 where
    b1: "Sync osDataFile (ord b) b = Ok (None, b1)" "buf_inv os_inv os_block os_writable b1" "same_buf os_block os_readable os_writable b b1"
      "os_block (df b1) = a" using S(3) by auto
  note I = buf_invD(2) [OF b1(2)]
  have w: "\<forall>i \<in> R. os_writable (df b1) i" using S(4) osf.same_bufD(4) [OF b1(3)] by simp
  then have "os_writable (df b1) 0" using O(3) by blast
  then have op: "fopen (df b1)" by (simp add: os_writable_def file_fault_def split: if_splits)
  note P = reopened_same [OF op]
  have n0: "u16_at 0 (a 0) \<noteq> 0" using o(2) O(4) by (auto simp: available_def path_in_def)
  have R: "{0, 1} \<subseteq> R" using O(3) by simp
  from osf.Format_skip [of "reopened (df b1)" R ord] P I w R n0 b1(4) obtain f where
    f: "FormatDataFileIfNeeded osDataFile ord (reopened (df b1)) = Ok (None, f)" "os_inv f" "\<forall>i \<in> R. os_writable f i"
      "os_block f = a" by auto
  obtain b2 where b2: "NewDataBuffer f 256 = Ok b2" using osf.NewDataBuffer_Ok [OF f(2), of 256] by auto
  from osf.st_new(1) [OF b2 f(2) _ f(3)] assms(2) f(4) have
    "store os_inv os_block os_writable R a b2" "pool R b2" by simp_all
  from osf.db_same [OF assms(1) this] have d: "os_db R b2 a N B n recs" .
  have new: "NewWithDataFile osDataFile ord srt fuel (reopened (df b1)) = Ok (Inr (b2, dbEnv srt fuel))"
    using f(1) b2 by (simp add: dbEnv_def NewWithDataFile_def BUFFER_SIZE_def BTREE_IDX_BRANCH_MAX_ENTRIES_def BTREE_IDX_LEAF_MAX_ENTRIES_def)
  define e where "e = file_fault OpClose (df b1)"
  let ?b = "case e of None \<Rightarrow> b1\<lparr>df := (df b1)\<lparr>fopen := False\<rparr>\<rparr> | Some _ \<Rightarrow> b1"
  have "closeDB (dbEnv srt fuel) ord b = Ok (e, ?b)"
    using b1(1) by (simp add: closeDB_def bind_def onFile_def osDataFile_def datafile_Close_def fileClose_def e_def
        split: option.split)
  then have "closing (osDB srt fuel L ord) \<lparr>sdb = b, events = es\<rparr> =
      (case e of None \<Rightarrow> Returns () \<lparr>sdb = ?b, events = es\<rparr> | Some err \<Rightarrow> Crash (PanicError err) (Some ?b) es)"
    by (simp add: closing_def simpleJSONDB_def console_simps split: option.split)
  moreover have "reopened (df ?b) = reopened (df b1)" using P(1) by (simp split: option.split)
  ultimately show ?thesis
    using new d by (intro exI [of _ e] exI [of _ "\<lparr>sdb = ?b, events = es\<rparr>"]) (simp split: option.split)
qed

section \<open>Properties\<close>

text \<open>C36: A whole run of the console on an open database. For every session of lines that insert, find and
  search, in any order, up to \<open>exit\<close> or the end of the input, the program prints what a map from IDs to
  texts answers, line by line, and ends: it does not panic, unless closing the file reports an error.
  Everything inserted is in the file then: opening it again gives the database with the map that
  the session leaves. The free blocks are enough for the insertions, the blocks fit the 256 frames of
  the buffer, the stored texts can be decoded, and no ID is 0.\<close>

theorem console_session:
  assumes "os_db R b a N B n recs" "go_sorter srt" "texts_ok L fuel recs" "\<forall>r \<in> set reqs. req_ok L fuel r"
    "65537 \<le> fuel" "2 * (n + length reqs) \<le> fuel" "room_for L n reqs \<le> card (clear_flags R a)" "card R \<le> 256"
    "\<And>c. set (ord c) = dom (idToFrame c)" "last_lines rest"
  shows "\<exists>e s. cliMain (osDB srt fuel L ord) (indentOf L) m (Inr b) (map reqLine reqs @ rest) =
      (case e of None \<Rightarrow> Returns () s | Some err \<Rightarrow> Crash (PanicError err) (Some (sdb s)) (events s)) \<and>
    events s = LogSetLevel WarnLevel # fst (answers L recs reqs) \<and>
    (\<exists>b' a' N' B' n'. NewWithDataFile osDataFile ord srt fuel (reopened (df (sdb s))) = Ok (Inr (b', dbEnv srt fuel)) \<and>
      os_db R b' a' N' B' n' (snd (answers L recs reqs)))"
proof -
  from session_run [OF assms(1-7,10), of ord m "[LogSetLevel WarnLevel]"] obtain b1 a1 N1 B1 n1 where
    1: "readLines (osDB srt fuel L ord) (indentOf L) m (map reqLine reqs @ rest) \<lparr>sdb = b, events = [LogSetLevel WarnLevel]\<rparr> =
      Returns () \<lparr>sdb = b1, events = LogSetLevel WarnLevel # fst (answers L recs reqs)\<rparr>"
    "os_db R b1 a1 N1 B1 n1 (snd (answers L recs reqs))" by auto
  from close_reopen [where ord = ord, OF 1(2) assms(8,9), of srt fuel L "LogSetLevel WarnLevel # fst (answers L recs reqs)"] 1(1)
  show ?thesis by (simp add: cliMain_def) blast
qed

section \<open>Witnesses\<close>

text \<open>The libraries of the witness: every text but the empty one is compact, and decodes to a map of its first byte to the rest.\<close>

definition plain_libs :: libs where
  "plain_libs = \<lparr>compactOf = (\<lambda>t. if t = [] then Inl (ErrJSON 0) else Inr t), indentOf = (\<lambda>t. t),
     unmarshalOf = (\<lambda>d. ([take 1 d \<mapsto> JString (drop 1 d)], None))\<rparr>"

lemma console_session_witness:
  "\<exists>b e s b' a' N' B' n'. NewWithDataFile osDataFile key_order (sort_key startsAt) 65537 (zero_file 65536) =
       Ok (Inr (b, dbEnv (sort_key startsAt) 65537)) \<and>
     cliMain (osDB (sort_key startsAt) 65537 plain_libs key_order) (\<lambda>t. t) 0 (Inr b)
       [reqLine (InsertReq 7 [1, 2]), reqLine (InsertReq 7 [3]), reqLine (FindReq 7), reqLine (FindReq 8),
        reqLine (SearchReq [1] [2]), str ''exit''] =
      (case e of None \<Rightarrow> Returns () s | Some err \<Rightarrow> Crash (PanicError err) (Some (sdb s)) (events s)) \<and>
     events s = [LogSetLevel WarnLevel, LogError (DBError (ErrKeyExists 7)), PrintJSON [1, 2, 10],
       LogError (DBError (ErrKeyNotFound 8)), PrintRecord 7 [1, 2]] \<and>
     NewWithDataFile osDataFile key_order (sort_key startsAt) 65537 (reopened (df (sdb s))) =
       Ok (Inr (b', dbEnv (sort_key startsAt) 65537)) \<and>
     os_db {i. unat i < 256} b' a' N' B' n' [7 \<mapsto> [1, 2]]"
proof -
  let ?reqs = "[InsertReq 7 [1, 2], InsertReq 7 [3], FindReq 7, FindReq 8, SearchReq [1] [2]]"
  obtain b a where b: "NewWithDataFile osDataFile key_order (sort_key startsAt) 65537 (zero_file 65536) =
      Ok (Inr (b, dbEnv (sort_key startsAt) 65537))"
    "os_db {i. unat i < 256} b a {} {3} 0 Map.empty"
    "221 \<le> card (clear_flags {i. unat i < 256} a)" by (rule new_file)
  have t: "texts_ok plain_libs 65537 Map.empty" by (simp add: texts_ok_def)
  have q: "\<forall>r \<in> set ?reqs. req_ok plain_libs 65537 r" by (simp add: plain_libs_def text_ok_def SPACE_def)
  have "room_for plain_libs 0 ?reqs \<le> 221" by (simp add: plain_libs_def blocks_for_def)
  with b(3) have r: "room_for plain_libs 0 ?reqs \<le> card (clear_flags {i. unat i < 256} a)" by simp
  have "fst (answers plain_libs Map.empty ?reqs) = [LogError (DBError (ErrKeyExists 7)), PrintJSON [1, 2, 10],
       LogError (DBError (ErrKeyNotFound 8)), PrintRecord 7 [1, 2]]"
    "snd (answers plain_libs Map.empty ?reqs) = [7 \<mapsto> [1, 2]]"
    by (simp_all add: plain_libs_def found_def matches_def hasValue_def decoded_def)
  moreover have "last_lines [str ''exit'']" "card {i :: u16. unat i < 256} \<le> 256" "indentOf plain_libs = (\<lambda>t. t)"
    using card_below [of 256] by (simp_all add: last_lines_def plain_libs_def)
  ultimately show ?thesis
    using console_session [OF b(2) stable.go_sorter_axioms t q _ _ r, of key_order "[str ''exit'']" 0] set_key_order b(1)
    by (simp del: reqLine.simps) blast
qed

end
