(* ===== verification/Spec2Isabelle.thy ===== *)
theory Spec2Isabelle
  imports AdaptersAgree MemStore MemWrites RecordRemoves ConsoleSession
begin

text \<open>
  Verification of simplejsondb, a small database for JSON records in one file (\<open>src/src\<close>).

  \<^bold>\<open>The program.\<close> A data file is an array of up to 65536 blocks of 4096 bytes. Block 0 is the control
  block with the heads of the lists of records and of the index; blocks 1 and 2 are a bit map of the
  blocks in use; every other block holds records or one node of the index, a B+ tree from record IDs
  to row IDs. All of it goes through one buffer of frames with a clock replacement. A record that
  does not fit a block is a chain of rows over several blocks. The database API calls the actions
  (insert, find, update, delete, search), an action calls the index and the record allocator or
  loader, and both call the map of data blocks, the repository and the buffer.

  \<^bold>\<open>Conventions.\<close> A method is a program \<open>('s, 'a) prog\<close> (theory Prelude): a function from the state to
  \<open>Ok (result, state)\<close>, \<open>Panic\<close> with the reason, or \<open>NoFuel\<close>. The Go errors are values of \<open>goerror\<close>,
  in \<open>goerror option\<close> or \<open>goerror + 'a\<close>. A \<open>uint16\<close> or \<open>uint32\<close> is a word with its wrap-around, an
  \<open>int\<close> is an integer, and every index that Go checks is checked, with a panic. \<open>wp\<close> is the weakest
  precondition of total correctness. A pointer into a frame of the buffer is a handle (block ID and
  frame), so that a handle whose frame was given to another block reads that block. Interfaces of
  the Go library and of other packages are arguments: the data file, the sort of the headers, the
  visiting order of a Go map, \<open>json.Compact\<close> and \<open>json.Unmarshal\<close>.

  \<^bold>\<open>Theories and sources.\<close>
  \<^item> DataBlock (\<open>dbio/data_block.go\<close>), BitMap (\<open>dbio/bit_map.go\<close>), DataFile (\<open>dbio/data_file.go\<close> over a
    model of the operating system's file, and \<open>test_utils/in_memory_data_file.go\<close>), DataBuffer
    (\<open>dbio/data_buffer.go\<close>). The locale \<open>block_file\<close> is the contract of a file whose blocks can be
    read and written; both files interpret it.
  \<^item> BufferStore, BlockStore: the buffer refines an array of blocks, and the rules for fetching,
    reading and writing through handles; \<open>pool\<close> is a buffer that holds every block of a set, where
    handles stay live.
  \<^item> BlocksMap (\<open>core/control_block.go\<close>, \<open>data_block_repository.go\<close>, \<open>data_blocks_map.go\<close>,
    \<open>data_file_formatter.go\<close>), FreeBlocks: the set of used blocks, what is left of it, and stores
    that only grow.
  \<^item> RecordBlock (\<open>core/record_block.go\<close>), Defragment, RecordStore, RecordOps: a record block holds a
    map from local IDs to records; its invariant is \<open>rb_wf\<close>, its map \<open>records\<close>.
  \<^item> RecordAllocator (\<open>core/record_allocator.go\<close>, \<open>record_loader.go\<close>), RecordRows: the table of all rows,
    the chains that hold records, and loading; RecordAdds: adding a record over chains of rows and the
    list of blocks; RecordRemoves: a removal reaches the buffer but not the file.
  \<^item> BPlusTree (\<open>bplustree/bplus_tree.go\<close> over the interfaces of \<open>exports.go\<close> as a record of programs),
    TreeView (nodes and the tree they form), TreeSearch (binary search and \<open>Find\<close>, in the locale
    \<open>node_reads\<close>), TreeContext, TreeGraft, TreeShape, TreePath (paths in a tree and what a split does
    to it), TreeStore (the writing interface, locale \<open>node_store\<close>), TreeSplit, TreeInsert, TreeAll.
  \<^item> InMemoryAdapter (\<open>bplustree/in_memory_adapter.go\<close>), MemStore, MemWrites: the adapter in memory
    interprets both locales. IndexNode, IndexAdapter (\<open>core/uint32_index_node_adapter.go\<close>,
    \<open>uint32_index.go\<close>), NodeBytes, IdxStore, IdxBlocks, IdxWrites, IdxInserts: so does the adapter over
    the data blocks, and the index is a map from keys to row IDs. AdaptersAgree compares the two.
  \<^item> Database (\<open>core/record.go\<close>, \<open>actions\<close>, \<open>simple_json_db.go\<close>). DatabaseMap: index, record blocks and
    map of blocks share one file, and the database is a map from IDs to texts, that opening a new
    file makes empty, inserting updates and finding looks up; DatabaseSearch: searching filters it in
    the order of the IDs. SampleFiles has the files of the witnesses.
  \<^item> TreeDump (\<open>bplustree/debugger.go\<close>): the text of a dump is drawn from the tree. CommandLine
    (\<open>cmd/sjdb-cli/main.go\<close>): the console over the database as a record of programs, with what it prints
    and logs as events, which a panic keeps; a bulk command is its operation on each ID in turn.
    ConsoleSession runs the console on the database: a session of insert, find and search lines answers
    as a map from IDs to texts, and the file that it closes is opened again with the same map.

  \<^bold>\<open>Bounds and fuel.\<close> A loop that follows pointers stored in blocks takes fuel; the theorems say how
  much is enough: the depth of the tree for a search, twice the depth for an insertion, the number
  of leaves for \<open>All\<close>, the length of the chain for a record, 65537, one more than a list of blocks
  can have, to add one, and as many rounds as its range has IDs for a bulk command of the console. They show termination
  with that fuel, as \<open>NoFuel\<close> is not \<open>Ok\<close>. The theorems on insertion ask for free blocks (or node
  IDs) for a new node on every level and a new root, and for a buffer that holds every block that
  comes into use: with a smaller one an eviction can take the frame of a handle that is still in use. As
  the first free block is taken, for the 256 frames of the database that is the first 256 blocks.

  \<^bold>\<open>Not modelled.\<close> The assertions of the tests and the memory benchmarks (no logic of the program), and
  logging outside the console. Of the console the line editor (its lines are given), and the state
  of the database after a panic inside one of its operations. Deleting from the tree is modelled, and what its node
  operations do is proved; the rebalancing is not proved correct. Removing and updating records is
  modelled too, and proved on one record block; a removal leaves clean frames that differ from the
  file, which the invariant of the buffer excludes, so that nothing is claimed of longer runs with removals.

  \<^bold>\<open>Abstractions.\<close> The faults of the operating system's file are fixed for each operation of an open file,
  and an operation that reports one has no other effect. The text of an error or a panic is its
  constructor with the numbers that the callers can tell apart; a panic message that the code formats
  keeps its fixed part. The map that \<open>json.Unmarshal\<close> leaves for the text \<open>null\<close> is the empty map, not the nil
  map, as lookups do not tell them apart. The slices of the nodes in memory are lists of values: no
  operation writes through a slice that another node still shares.
\<close>

end
